(* ===== verification/Prelude.thy ===== *)
theory Prelude
  imports Main "HOL-Library.Word" "HOL-Library.Monad_Syntax"
    "HOL-Library.List_Lexorder" "HOL-Library.Product_Lexorder"
begin

unbundle bit_operations_syntax

text \<open>
  Shared vocabulary of the development: the types that name the C types of the sources, and the
  generic lemmas on words, function updates and lists that the components share.

  A pointer into the shared pool is the byte offset of its target from the start of the pool,
  which is what \<^verbatim>\<open>mps_offset\<close> and \<^verbatim>\<open>mps_ptr\<close> (src/src/mps_slab.h) convert to and from. The pool
  header lives at offset 0, so 0 (\<^verbatim>\<open>mps_nulloff\<close>) is never the offset of a node, page or chunk and
  stands for NULL as well.
\<close>

type_synonym byte = "8 word"
type_synonym u16 = "16 word"
type_synonym u32 = "32 word"
type_synonym u64 = "64 word"
type_synonym off = nat

definition mps_nulloff :: off where
  "mps_nulloff = 0"

text \<open>Return codes of src/src/ngx_core.h.\<close>

definition NGX_OK :: int where "NGX_OK = 0"
definition NGX_ERROR :: int where "NGX_ERROR = -1"
definition NGX_DONE :: int where "NGX_DONE = -4"
definition NGX_DECLINED :: int where "NGX_DECLINED = -5"

named_theorems ngx_rc
declare NGX_OK_def [ngx_rc] NGX_ERROR_def [ngx_rc] NGX_DONE_def [ngx_rc] NGX_DECLINED_def [ngx_rc]

lemma ngx_rc_distinct [simp]:
  "NGX_OK \<noteq> NGX_DONE" "NGX_OK \<noteq> NGX_DECLINED" "NGX_OK \<noteq> NGX_ERROR"
  "NGX_DONE \<noteq> NGX_OK" "NGX_DONE \<noteq> NGX_DECLINED" "NGX_DONE \<noteq> NGX_ERROR"
  "NGX_DECLINED \<noteq> NGX_OK" "NGX_DECLINED \<noteq> NGX_DONE" "NGX_DECLINED \<noteq> NGX_ERROR"
  "NGX_ERROR \<noteq> NGX_OK" "NGX_ERROR \<noteq> NGX_DONE" "NGX_ERROR \<noteq> NGX_DECLINED"
  by (simp_all add: ngx_rc)

text \<open>
  \<^verbatim>\<open>ngx_align_ptr(p, a)\<close> of src/src/ngx_config.h on offsets: round up to a multiple of \<open>a\<close>, which is
  what the mask computes for the powers of two it is used with (\<^verbatim>\<open>align_up_mask\<close> below).
\<close>

definition ngx_align_ptr :: "nat \<Rightarrow> nat \<Rightarrow> nat" where
  "ngx_align_ptr p a = (p + (a - 1)) div a * a"

lemma ngx_align_ptr_ge: "0 < a \<Longrightarrow> p \<le> ngx_align_ptr p a"
proof -
  assume a: "0 < a"
  have "(p + (a - 1)) div a * a + (p + (a - 1)) mod a = p + (a - 1)"
    by (rule div_mult_mod_eq)
  moreover have "(p + (a - 1)) mod a < a" using a by simp
  ultimately show ?thesis unfolding ngx_align_ptr_def by linarith
qed

lemma ngx_align_ptr_less: "0 < a \<Longrightarrow> ngx_align_ptr p a < p + a"
  using div_times_less_eq_dividend [of "p + (a - 1)" a]
  unfolding ngx_align_ptr_def by linarith

lemma ngx_align_ptr_dvd: "a dvd ngx_align_ptr p a"
  by (simp add: ngx_align_ptr_def)

subsection \<open>Words\<close>

text \<open>The xorshift steps of a hash lose no information.\<close>

lemma xor_drop_bit_inj:
  fixes x y :: "'a::len word"
  assumes n: "0 < n" and eq: "x XOR drop_bit n x = y XOR drop_bit n y"
  shows "x = y"
proof (rule ccontr)
  assume "x \<noteq> y"
  then obtain i where i: "bit x i \<noteq> bit y i" by (auto simp: bit_eq_iff)
  define P where "P k \<longleftrightarrow> bit x (i + k * n) \<noteq> bit y (i + k * n)" for k
  have step: "P (Suc k)" if "P k" for k
  proof -
    have "bit (x XOR drop_bit n x) (i + k * n) = bit (y XOR drop_bit n y) (i + k * n)"
      using eq by simp
    then show ?thesis using that
      by (auto simp: P_def bit_xor_iff bit_drop_bit_eq ac_simps)
  qed
  have all: "P k" for k
    by (induction k) (use i step in \<open>auto simp: P_def\<close>)
  have "LENGTH('a) \<le> i + LENGTH('a) * n" using n
    by (simp add: trans_le_add2)
  then have "\<not> bit x (i + LENGTH('a) * n)" "\<not> bit y (i + LENGTH('a) * n)"
    by (meson bit_imp_le_length leD)+
  with all [of "LENGTH('a)"] show False by (simp add: P_def)
qed

lemma mult_left_inverse_inj:
  fixes m :: "'a::len word"
  assumes "m * i = 1" "m * x = m * y"
  shows "x = y"
  by (metis assms mult.assoc mult.commute mult.left_neutral)

subsection \<open>Bytes in memory\<close>

text \<open>
  The untyped bytes of the pool (the \<^verbatim>\<open>data\<close> members that end the node structs) and the two
  operations the sources use on them: \<^verbatim>\<open>ngx_memcpy\<close> out of and into the pool.
\<close>

definition read_bytes :: "(off \<Rightarrow> byte) \<Rightarrow> off \<Rightarrow> nat \<Rightarrow> byte list" where
  "read_bytes m p n = map m [p..<p + n]"

definition write_bytes :: "(off \<Rightarrow> byte) \<Rightarrow> off \<Rightarrow> byte list \<Rightarrow> (off \<Rightarrow> byte)" where
  "write_bytes m p bs = (\<lambda>q. if p \<le> q \<and> q < p + length bs then bs ! (q - p) else m q)"

lemma length_read_bytes [simp]: "length (read_bytes m p n) = n"
  by (simp add: read_bytes_def)

lemma read_bytes_0 [simp]: "read_bytes m p 0 = []"
  by (simp add: read_bytes_def)

lemma read_write_same [simp]: "read_bytes (write_bytes m p bs) p (length bs) = bs"
  by (rule nth_equalityI) (auto simp: read_bytes_def write_bytes_def)

lemma read_write_disjoint:
  "p + n \<le> q \<or> q + length bs \<le> p \<Longrightarrow> read_bytes (write_bytes m q bs) p n = read_bytes m p n"
  by (auto simp: read_bytes_def write_bytes_def)

lemma read_bytes_append: "read_bytes m p (a + b) = read_bytes m p a @ read_bytes m (p + a) b"
  unfolding read_bytes_def
  by (metis add.assoc le_add1 map_append upt_add_eq_append)

lemma write_bytes_outside: "q < p \<or> p + length bs \<le> q \<Longrightarrow> write_bytes m p bs q = m q"
  by (auto simp: write_bytes_def)

lemma write_bytes_append:
  "write_bytes (write_bytes m p bs) (p + length bs) cs = write_bytes m p (bs @ cs)"
  by (auto simp: write_bytes_def nth_append fun_eq_iff)

end
