(* ===== verification/NgxString.thy ===== *)
theory NgxString
  imports Prelude
begin

text \<open>
  \<^verbatim>\<open>ngx_memn2cmp\<close> of src/src/ngx_string.c. \<^verbatim>\<open>memcmp\<close> compares the first \<open>n\<close> bytes as unsigned
  characters; C fixes only the sign of its result, which is all the callers read, so \<open>memcmp\<close> here
  returns -1, 0 or 1. The lemmas show that \<open>ngx_memn2cmp\<close> decides the lexicographic order on byte
  strings, the linear order the red-black tree is searched with.
\<close>

fun memcmp :: "byte list \<Rightarrow> byte list \<Rightarrow> nat \<Rightarrow> int" where
  "memcmp (a # s1) (b # s2) (Suc n) = (if a < b then -1 else if b < a then 1 else memcmp s1 s2 n)"
| "memcmp s1 s2 n = 0"

text \<open>\<open>s1\<close> and \<open>s2\<close> are the byte ranges \<^verbatim>\<open>s1[0..n1)\<close> and \<^verbatim>\<open>s2[0..n2)\<close>; their lengths are \<open>n1\<close> and \<open>n2\<close>.\<close>

definition ngx_memn2cmp :: "byte list \<Rightarrow> byte list \<Rightarrow> int" where
  "ngx_memn2cmp s1 s2 =
     (let n1 = length s1; n2 = length s2;
          (n, z) = (if n1 \<le> n2 then (n1, -1) else (n2, 1));
          m = memcmp s1 s2 n
      in if m \<noteq> 0 \<or> n1 = n2 then m else z)"

lemma ngx_memn2cmp_Nil [simp]:
  "ngx_memn2cmp [] [] = 0" "ngx_memn2cmp [] (b # s2) = -1" "ngx_memn2cmp (a # s1) [] = 1"
  by (simp_all add: ngx_memn2cmp_def)

lemma ngx_memn2cmp_Cons [simp]:
  "ngx_memn2cmp (a # s1) (b # s2) =
     (if a < b then -1 else if b < a then 1 else ngx_memn2cmp s1 s2)"
  by (simp add: ngx_memn2cmp_def Let_def)

lemma ngx_memn2cmp_less: "ngx_memn2cmp s1 s2 < 0 \<longleftrightarrow> s1 < s2"
  by (induction s1 s2 rule: list_induct2') auto

lemma ngx_memn2cmp_greater: "ngx_memn2cmp s1 s2 > 0 \<longleftrightarrow> s2 < s1"
  by (induction s1 s2 rule: list_induct2') auto

lemma ngx_memn2cmp_eq: "ngx_memn2cmp s1 s2 = 0 \<longleftrightarrow> s1 = s2"
  by (induction s1 s2 rule: list_induct2') auto

lemmas ngx_memn2cmp_order = ngx_memn2cmp_less ngx_memn2cmp_greater ngx_memn2cmp_eq

end
