(* ===== verification/RBTree.thy ===== *)
theory RBTree
  imports NgxString
begin

text \<open>
  The red-black tree of src/src/mps_rbtree.h and src/src/mps_rbtree.c, over offsets. The members of
  \<^verbatim>\<open>mps_rbtree_node_t\<close> are field maps from the node's offset; the members of the (single)
  \<^verbatim>\<open>mps_rbtree_t\<close> are the record fields \<open>rb_root\<close>, \<open>rb_sentinel\<close> and \<open>rb_insert\<close>. The colour byte
  is only ever written with 1 (red) or 0 (black). A loop that follows pointers is a
  \<open>partial_function (option)\<close>: \<open>None\<close> is a loop that never ends, which a malformed tree could cause;
  the theory RBRefine shows that on a well-formed tree every operation returns.

  Each C assignment is one update below, in the source's order, the local variables rebound by
  \<open>let\<close>. The three insertion orders of the table \<^verbatim>\<open>insert_values\<close> share their descent loop
  \<open>rbtree_find_slot\<close> and differ in the predicate that sends the new node left. The order used by the
  dictionary compares the key bytes of the two \<^verbatim>\<open>mps_shdict_node_t\<close>; the argument \<open>kd\<close> reads them
  (\<^verbatim>\<open>sdn->data\<close>, \<^verbatim>\<open>sdn->key_len\<close>) from the pool.
\<close>

datatype rb_color = Black | Red

record rbtree_mem =
  rb_key :: "off \<Rightarrow> u64"
  rb_left :: "off \<Rightarrow> off"
  rb_right :: "off \<Rightarrow> off"
  rb_parent :: "off \<Rightarrow> off"
  rb_color :: "off \<Rightarrow> rb_color"
  rb_root :: off
  rb_sentinel :: off
  rb_insert :: nat

definition set_key :: "off \<Rightarrow> u64 \<Rightarrow> rbtree_mem \<Rightarrow> rbtree_mem" where
  "set_key a v t = t\<lparr>rb_key := (rb_key t)(a := v)\<rparr>"

definition set_left :: "off \<Rightarrow> off \<Rightarrow> rbtree_mem \<Rightarrow> rbtree_mem" where
  "set_left a v t = t\<lparr>rb_left := (rb_left t)(a := v)\<rparr>"

definition set_right :: "off \<Rightarrow> off \<Rightarrow> rbtree_mem \<Rightarrow> rbtree_mem" where
  "set_right a v t = t\<lparr>rb_right := (rb_right t)(a := v)\<rparr>"

definition set_parent :: "off \<Rightarrow> off \<Rightarrow> rbtree_mem \<Rightarrow> rbtree_mem" where
  "set_parent a v t = t\<lparr>rb_parent := (rb_parent t)(a := v)\<rparr>"

definition set_color :: "off \<Rightarrow> rb_color \<Rightarrow> rbtree_mem \<Rightarrow> rbtree_mem" where
  "set_color a v t = t\<lparr>rb_color := (rb_color t)(a := v)\<rparr>"

definition set_root :: "off \<Rightarrow> rbtree_mem \<Rightarrow> rbtree_mem" where
  "set_root a t = t\<lparr>rb_root := a\<rparr>"

definition ngx_rbt_red :: "off \<Rightarrow> rbtree_mem \<Rightarrow> rbtree_mem" where
  "ngx_rbt_red node = set_color node Red"

definition ngx_rbt_black :: "off \<Rightarrow> rbtree_mem \<Rightarrow> rbtree_mem" where
  "ngx_rbt_black node = set_color node Black"

definition ngx_rbt_is_red :: "rbtree_mem \<Rightarrow> off \<Rightarrow> bool" where
  "ngx_rbt_is_red t node \<longleftrightarrow> rb_color t node = Red"

definition ngx_rbt_is_black :: "rbtree_mem \<Rightarrow> off \<Rightarrow> bool" where
  "ngx_rbt_is_black t node \<longleftrightarrow> \<not> ngx_rbt_is_red t node"

definition ngx_rbt_copy_color :: "off \<Rightarrow> off \<Rightarrow> rbtree_mem \<Rightarrow> rbtree_mem" where
  "ngx_rbt_copy_color n1 n2 t = set_color n1 (rb_color t n2) t"

subsection \<open>Initialisation and traversal\<close>

definition MPS_RBTREE_INSERT_TYPE_ID_STANDARD :: nat where "MPS_RBTREE_INSERT_TYPE_ID_STANDARD = 0"
definition MPS_RBTREE_INSERT_TYPE_ID_TIMER :: nat where "MPS_RBTREE_INSERT_TYPE_ID_TIMER = 1"
definition MPS_RBTREE_INSERT_TYPE_ID_LUADICT :: nat where "MPS_RBTREE_INSERT_TYPE_ID_LUADICT = 2"
definition MPS_RBTREE_INSERT_TYPE_ID_COUNT :: nat where "MPS_RBTREE_INSERT_TYPE_ID_COUNT = 3"
definition EINVAL :: int where "EINVAL = 22"

definition mps_rbtree_init :: "off \<Rightarrow> nat \<Rightarrow> rbtree_mem \<Rightarrow> int \<times> rbtree_mem" where
  "mps_rbtree_init sentinel insert_type_id t =
     (if insert_type_id \<ge> MPS_RBTREE_INSERT_TYPE_ID_COUNT then (EINVAL, t)
      else let t = ngx_rbt_black sentinel t
           in (0, t\<lparr>rb_root := sentinel, rb_sentinel := sentinel, rb_insert := insert_type_id\<rparr>))"

partial_function (option) mps_rbtree_min :: "rbtree_mem \<Rightarrow> off \<Rightarrow> off \<Rightarrow> off option" where
  "mps_rbtree_min t node sentinel =
     (if rb_left t node \<noteq> sentinel then mps_rbtree_min t (rb_left t node) sentinel
      else Some node)"

declare mps_rbtree_min.simps [code]

partial_function (option) rbtree_next_up :: "rbtree_mem \<Rightarrow> off \<Rightarrow> off option" where
  "rbtree_next_up t node =
     (let parent = rb_parent t node
      in if node = rb_root t then Some mps_nulloff
         else if node = rb_left t parent then Some parent
         else rbtree_next_up t parent)"

declare rbtree_next_up.simps [code]

definition mps_rbtree_next :: "rbtree_mem \<Rightarrow> off \<Rightarrow> off option" where
  "mps_rbtree_next t node =
     (if rb_right t node \<noteq> rb_sentinel t
      then mps_rbtree_min t (rb_right t node) (rb_sentinel t)
      else rbtree_next_up t node)"

subsection \<open>Rotations\<close>

text \<open>
  Hanging \<open>new\<close> in the place of \<open>node\<close> under its parent. The sources write this out three times; the
  left rotation and the deletion test the left link first, the right rotation the right one.
\<close>

definition rbtree_replace_lr :: "off \<Rightarrow> off \<Rightarrow> rbtree_mem \<Rightarrow> rbtree_mem" where
  "rbtree_replace_lr node new t =
     (if node = rb_root t then set_root new t
      else let node_parent = rb_parent t node
           in if node = rb_left t node_parent then set_left node_parent new t
              else set_right node_parent new t)"

definition rbtree_replace_rl :: "off \<Rightarrow> off \<Rightarrow> rbtree_mem \<Rightarrow> rbtree_mem" where
  "rbtree_replace_rl node new t =
     (if node = rb_root t then set_root new t
      else let node_parent = rb_parent t node
           in if node = rb_right t node_parent then set_right node_parent new t
              else set_left node_parent new t)"

definition mps_rbtree_left_rotate :: "off \<Rightarrow> rbtree_mem \<Rightarrow> rbtree_mem" where
  "mps_rbtree_left_rotate node t =
     (let sentinel = rb_sentinel t;
          temp = rb_right t node;
          t = set_right node (rb_left t temp) t;
          t = (if rb_left t temp \<noteq> sentinel then set_parent (rb_left t temp) node t else t);
          t = set_parent temp (rb_parent t node) t;
          t = rbtree_replace_lr node temp t;
          t = set_left temp node t
      in set_parent node temp t)"

definition mps_rbtree_right_rotate :: "off \<Rightarrow> rbtree_mem \<Rightarrow> rbtree_mem" where
  "mps_rbtree_right_rotate node t =
     (let sentinel = rb_sentinel t;
          temp = rb_left t node;
          t = set_left node (rb_right t temp) t;
          t = (if rb_right t temp \<noteq> sentinel then set_parent (rb_right t temp) node t else t);
          t = set_parent temp (rb_parent t node) t;
          t = rbtree_replace_rl node temp t;
          t = set_right temp node t
      in set_parent node temp t)"

subsection \<open>Insertion\<close>

text \<open>The descent: the last node visited, and whether the new node goes to its left.\<close>

partial_function (option) rbtree_find_slot ::
    "(off \<Rightarrow> bool) \<Rightarrow> off \<Rightarrow> rbtree_mem \<Rightarrow> off \<Rightarrow> (off \<times> bool) option" where
  "rbtree_find_slot goes_left s t temp =
     (let p = (if goes_left temp then rb_left t temp else rb_right t temp)
      in if p = s then Some (temp, goes_left temp)
         else rbtree_find_slot goes_left s t p)"

declare rbtree_find_slot.simps [code]

definition rbtree_attach :: "off \<Rightarrow> bool \<Rightarrow> off \<Rightarrow> off \<Rightarrow> rbtree_mem \<Rightarrow> rbtree_mem" where
  "rbtree_attach temp to_left node s t =
     (let t = (if to_left then set_left temp node t else set_right temp node t);
          t = set_parent node temp t;
          t = set_left node s t;
          t = set_right node s t
      in ngx_rbt_red node t)"

definition rbtree_insert_below ::
    "(rbtree_mem \<Rightarrow> off \<Rightarrow> off \<Rightarrow> bool) \<Rightarrow> off \<Rightarrow> off \<Rightarrow> off \<Rightarrow> rbtree_mem \<Rightarrow> rbtree_mem option" where
  "rbtree_insert_below goes_before temp node sentinel t =
     do { (temp, to_left) \<leftarrow> rbtree_find_slot (goes_before t node) sentinel t temp;
          Some (rbtree_attach temp to_left node sentinel t) }"

definition key_less :: "rbtree_mem \<Rightarrow> off \<Rightarrow> off \<Rightarrow> bool" where
  "key_less t node temp \<longleftrightarrow> rb_key t node < rb_key t temp"

definition timer_less :: "rbtree_mem \<Rightarrow> off \<Rightarrow> off \<Rightarrow> bool" where
  "timer_less t node temp \<longleftrightarrow> sint (rb_key t node - rb_key t temp) < 0"

definition shdict_less :: "(off \<Rightarrow> byte list) \<Rightarrow> rbtree_mem \<Rightarrow> off \<Rightarrow> off \<Rightarrow> bool" where
  "shdict_less kd t node temp \<longleftrightarrow>
     (if rb_key t node < rb_key t temp then True
      else if rb_key t node > rb_key t temp then False
      else ngx_memn2cmp (kd node) (kd temp) < 0)"

definition mps_rbtree_insert_value :: "off \<Rightarrow> off \<Rightarrow> off \<Rightarrow> rbtree_mem \<Rightarrow> rbtree_mem option" where
  "mps_rbtree_insert_value = rbtree_insert_below key_less"

definition mps_rbtree_insert_timer_value :: "off \<Rightarrow> off \<Rightarrow> off \<Rightarrow> rbtree_mem \<Rightarrow> rbtree_mem option" where
  "mps_rbtree_insert_timer_value = rbtree_insert_below timer_less"

definition mps_shdict_rbtree_insert_value ::
    "(off \<Rightarrow> byte list) \<Rightarrow> off \<Rightarrow> off \<Rightarrow> off \<Rightarrow> rbtree_mem \<Rightarrow> rbtree_mem option" where
  "mps_shdict_rbtree_insert_value kd = rbtree_insert_below (shdict_less kd)"

text \<open>The table \<^verbatim>\<open>insert_values\<close>; an index past its end has no entry.\<close>

definition insert_values ::
    "(off \<Rightarrow> byte list) \<Rightarrow> nat \<Rightarrow> off \<Rightarrow> off \<Rightarrow> off \<Rightarrow> rbtree_mem \<Rightarrow> rbtree_mem option" where
  "insert_values kd i =
     (if i = MPS_RBTREE_INSERT_TYPE_ID_STANDARD then mps_rbtree_insert_value
      else if i = MPS_RBTREE_INSERT_TYPE_ID_TIMER then mps_rbtree_insert_timer_value
      else if i = MPS_RBTREE_INSERT_TYPE_ID_LUADICT then mps_shdict_rbtree_insert_value kd
      else (\<lambda>_ _ _ _. None))"

text \<open>One round of the re-balancing loop of \<^verbatim>\<open>mps_rbtree_insert\<close>: the tree and the next \<open>node\<close>.\<close>

definition rbtree_insert_round :: "rbtree_mem \<Rightarrow> off \<Rightarrow> rbtree_mem \<times> off" where
  "rbtree_insert_round t node =
     (let parent = rb_parent t node;
          grand_parent = rb_parent t parent
      in if rb_parent t node = rb_left t grand_parent then
           let temp = rb_right t grand_parent
           in if ngx_rbt_is_red t temp then
                let t = ngx_rbt_black parent t;
                    t = ngx_rbt_black temp t;
                    t = ngx_rbt_red grand_parent t
                in (t, grand_parent)
              else
                let (t, node, parent, grand_parent) =
                      (if node = rb_right t parent then
                         let node = parent;
                             t = mps_rbtree_left_rotate node t;
                             parent = rb_parent t node;
                             grand_parent = rb_parent t parent
                         in (t, node, parent, grand_parent)
                       else (t, node, parent, grand_parent));
                    t = ngx_rbt_black parent t;
                    t = ngx_rbt_red grand_parent t;
                    t = mps_rbtree_right_rotate grand_parent t
                in (t, node)
         else
           let temp = rb_left t grand_parent
           in if ngx_rbt_is_red t temp then
                let t = ngx_rbt_black parent t;
                    t = ngx_rbt_black temp t;
                    t = ngx_rbt_red grand_parent t
                in (t, grand_parent)
              else
                let (t, node, parent, grand_parent) =
                      (if node = rb_left t parent then
                         let node = parent;
                             t = mps_rbtree_right_rotate node t;
                             parent = rb_parent t node;
                             grand_parent = rb_parent t parent
                         in (t, node, parent, grand_parent)
                       else (t, node, parent, grand_parent));
                    t = ngx_rbt_black parent t;
                    t = ngx_rbt_red grand_parent t;
                    t = mps_rbtree_left_rotate grand_parent t
                in (t, node))"

partial_function (option) rbtree_insert_rebalance :: "rbtree_mem \<Rightarrow> off \<Rightarrow> rbtree_mem option" where
  "rbtree_insert_rebalance t node =
     (if node \<noteq> rb_root t \<and> ngx_rbt_is_red t (rb_parent t node) then
        (case rbtree_insert_round t node of (t, node) \<Rightarrow> rbtree_insert_rebalance t node)
      else Some t)"

declare rbtree_insert_rebalance.simps [code]

definition mps_rbtree_insert ::
    "(off \<Rightarrow> byte list) \<Rightarrow> rbtree_mem \<Rightarrow> off \<Rightarrow> rbtree_mem option" where
  "mps_rbtree_insert kd t node =
     (let sentinel = rb_sentinel t
      in if rb_root t = sentinel then
           let t = set_parent node mps_nulloff t;
               t = set_left node sentinel t;
               t = set_right node sentinel t;
               t = ngx_rbt_black node t
           in Some (set_root node t)
         else do {
           t \<leftarrow> insert_values kd (rb_insert t) (rb_root t) node sentinel t;
           t \<leftarrow> rbtree_insert_rebalance t node;
           Some (ngx_rbt_black (rb_root t) t) })"

subsection \<open>Deletion\<close>

text \<open>The node that leaves its place (\<open>subst\<close>) and the one that takes it (\<open>temp\<close>).\<close>

definition rbtree_delete_subst :: "rbtree_mem \<Rightarrow> off \<Rightarrow> (off \<times> off) option" where
  "rbtree_delete_subst t node =
     (let sentinel = rb_sentinel t
      in if rb_left t node = sentinel then Some (node, rb_right t node)
         else if rb_right t node = sentinel then Some (node, rb_left t node)
         else do { subst \<leftarrow> mps_rbtree_min t (rb_right t node) sentinel;
                   Some (subst, rb_right t subst) })"

text \<open>The \<^verbatim>\<open>DEBUG stuff\<close>, which is compiled in always.\<close>

definition rbtree_clear_node :: "off \<Rightarrow> rbtree_mem \<Rightarrow> rbtree_mem" where
  "rbtree_clear_node node t =
     (let t = set_left node mps_nulloff t;
          t = set_right node mps_nulloff t;
          t = set_parent node mps_nulloff t
      in set_key node 0 t)"

text \<open>From the removal of \<open>subst\<close> from its place to its taking the place of \<open>node\<close>.\<close>

definition rbtree_delete_relink :: "off \<Rightarrow> off \<Rightarrow> off \<Rightarrow> rbtree_mem \<Rightarrow> rbtree_mem" where
  "rbtree_delete_relink node subst temp t =
     (let sentinel = rb_sentinel t;
          subst_parent = rb_parent t subst;
          t = (if subst = rb_left t subst_parent then set_left subst_parent temp t
               else set_right subst_parent temp t)
      in if subst = node then set_parent temp (rb_parent t subst) t
         else
           let t = (if rb_parent t subst = node then set_parent temp subst t
                    else set_parent temp (rb_parent t subst) t);
               t = set_left subst (rb_left t node) t;
               t = set_right subst (rb_right t node) t;
               t = set_parent subst (rb_parent t node) t;
               t = ngx_rbt_copy_color subst node t;
               t = rbtree_replace_lr node subst t;
               t = (if rb_left t subst \<noteq> sentinel then set_parent (rb_left t subst) subst t else t)
           in if rb_right t subst \<noteq> sentinel then set_parent (rb_right t subst) subst t else t)"

text \<open>
  The body of the loop of the delete fixup, in its two parts: a red sibling \<open>w\<close> of \<open>temp\<close> is first
  rotated away, then the black sibling is re-coloured or rotated. The suffix names the side of
  \<open>temp\<close>.
\<close>

definition rbtree_delete_red_left :: "rbtree_mem \<Rightarrow> off \<Rightarrow> off \<Rightarrow> off \<Rightarrow> rbtree_mem \<times> off \<times> off" where
  "rbtree_delete_red_left t temp temp_parent w =
     (if ngx_rbt_is_red t w then
        let t = ngx_rbt_black w t;
            t = ngx_rbt_red temp_parent t;
            t = mps_rbtree_left_rotate temp_parent t;
            temp_parent = rb_parent t temp;
            w = rb_right t temp_parent
        in (t, temp_parent, w)
      else (t, temp_parent, w))"

definition rbtree_delete_black_left :: "rbtree_mem \<Rightarrow> off \<Rightarrow> off \<Rightarrow> off \<Rightarrow> rbtree_mem \<times> off" where
  "rbtree_delete_black_left t temp temp_parent w =
     (let w_left = rb_left t w;
          w_right = rb_right t w
      in if ngx_rbt_is_black t w_left \<and> ngx_rbt_is_black t w_right then
           let t = ngx_rbt_red w t in (t, temp_parent)
         else
           let (t, temp_parent, w, w_right) =
                 (if ngx_rbt_is_black t w_right then
                    let t = ngx_rbt_black w_left t;
                        t = ngx_rbt_red w t;
                        t = mps_rbtree_right_rotate w t;
                        temp_parent = rb_parent t temp;
                        w = rb_right t temp_parent;
                        w_right = rb_right t w
                    in (t, temp_parent, w, w_right)
                  else (t, temp_parent, w, w_right));
               t = ngx_rbt_copy_color w temp_parent t;
               t = ngx_rbt_black temp_parent t;
               t = ngx_rbt_black w_right t;
               t = mps_rbtree_left_rotate temp_parent t
           in (t, rb_root t))"

definition rbtree_delete_red_right :: "rbtree_mem \<Rightarrow> off \<Rightarrow> off \<Rightarrow> off \<Rightarrow> rbtree_mem \<times> off \<times> off" where
  "rbtree_delete_red_right t temp temp_parent w =
     (if ngx_rbt_is_red t w then
        let t = ngx_rbt_black w t;
            t = ngx_rbt_red temp_parent t;
            t = mps_rbtree_right_rotate temp_parent t;
            temp_parent = rb_parent t temp;
            w = rb_left t temp_parent
        in (t, temp_parent, w)
      else (t, temp_parent, w))"

definition rbtree_delete_black_right :: "rbtree_mem \<Rightarrow> off \<Rightarrow> off \<Rightarrow> off \<Rightarrow> rbtree_mem \<times> off" where
  "rbtree_delete_black_right t temp temp_parent w =
     (let w_left = rb_left t w;
          w_right = rb_right t w
      in if ngx_rbt_is_black t w_left \<and> ngx_rbt_is_black t w_right then
           let t = ngx_rbt_red w t in (t, temp_parent)
         else
           let (t, temp_parent, w, w_left) =
                 (if ngx_rbt_is_black t w_left then
                    let t = ngx_rbt_black w_right t;
                        t = ngx_rbt_red w t;
                        t = mps_rbtree_left_rotate w t;
                        temp_parent = rb_parent t temp;
                        w = rb_left t temp_parent;
                        w_left = rb_left t w
                    in (t, temp_parent, w, w_left)
                  else (t, temp_parent, w, w_left));
               t = ngx_rbt_copy_color w temp_parent t;
               t = ngx_rbt_black temp_parent t;
               t = ngx_rbt_black w_left t;
               t = mps_rbtree_right_rotate temp_parent t
           in (t, rb_root t))"

text \<open>One round of the delete fixup: the tree and the next \<open>temp\<close>.\<close>

definition rbtree_delete_round :: "rbtree_mem \<Rightarrow> off \<Rightarrow> rbtree_mem \<times> off" where
  "rbtree_delete_round t temp =
     (let temp_parent = rb_parent t temp
      in if temp = rb_left t temp_parent then
           let w = rb_right t temp_parent;
               (t, temp_parent, w) = rbtree_delete_red_left t temp temp_parent w
           in rbtree_delete_black_left t temp temp_parent w
         else
           let w = rb_left t temp_parent;
               (t, temp_parent, w) = rbtree_delete_red_right t temp temp_parent w
           in rbtree_delete_black_right t temp temp_parent w)"

partial_function (option) rbtree_delete_fixup :: "rbtree_mem \<Rightarrow> off \<Rightarrow> rbtree_mem option" where
  "rbtree_delete_fixup t temp =
     (if temp \<noteq> rb_root t \<and> ngx_rbt_is_black t temp then
        (case rbtree_delete_round t temp of (t, temp) \<Rightarrow> rbtree_delete_fixup t temp)
      else Some (ngx_rbt_black temp t))"

declare rbtree_delete_fixup.simps [code]

definition mps_rbtree_delete :: "rbtree_mem \<Rightarrow> off \<Rightarrow> rbtree_mem option" where
  "mps_rbtree_delete t node =
     do { (subst, temp) \<leftarrow> rbtree_delete_subst t node;
          if subst = rb_root t then
            let t = set_root temp t;
                t = ngx_rbt_black temp t
            in Some (rbtree_clear_node node t)
          else
            let red = ngx_rbt_is_red t subst;
                t = rbtree_delete_relink node subst temp t;
                t = rbtree_clear_node node t
            in if red then Some t else rbtree_delete_fixup t temp }"

lemma set_sel [simp]:
  "rb_key (set_key a k t) = (rb_key t)(a := k)" "rb_left (set_key a k t) = rb_left t"
  "rb_right (set_key a k t) = rb_right t" "rb_parent (set_key a k t) = rb_parent t"
  "rb_color (set_key a k t) = rb_color t" "rb_root (set_key a k t) = rb_root t"
  "rb_sentinel (set_key a k t) = rb_sentinel t" "rb_insert (set_key a k t) = rb_insert t"
  "rb_key (set_left a v t) = rb_key t" "rb_left (set_left a v t) = (rb_left t)(a := v)"
  "rb_right (set_left a v t) = rb_right t" "rb_parent (set_left a v t) = rb_parent t"
  "rb_color (set_left a v t) = rb_color t" "rb_root (set_left a v t) = rb_root t"
  "rb_sentinel (set_left a v t) = rb_sentinel t" "rb_insert (set_left a v t) = rb_insert t"
  "rb_key (set_right a v t) = rb_key t" "rb_left (set_right a v t) = rb_left t"
  "rb_right (set_right a v t) = (rb_right t)(a := v)" "rb_parent (set_right a v t) = rb_parent t"
  "rb_color (set_right a v t) = rb_color t" "rb_root (set_right a v t) = rb_root t"
  "rb_sentinel (set_right a v t) = rb_sentinel t" "rb_insert (set_right a v t) = rb_insert t"
  "rb_key (set_parent a v t) = rb_key t" "rb_left (set_parent a v t) = rb_left t"
  "rb_right (set_parent a v t) = rb_right t" "rb_parent (set_parent a v t) = (rb_parent t)(a := v)"
  "rb_color (set_parent a v t) = rb_color t" "rb_root (set_parent a v t) = rb_root t"
  "rb_sentinel (set_parent a v t) = rb_sentinel t" "rb_insert (set_parent a v t) = rb_insert t"
  "rb_key (set_color a c t) = rb_key t" "rb_left (set_color a c t) = rb_left t"
  "rb_right (set_color a c t) = rb_right t" "rb_parent (set_color a c t) = rb_parent t"
  "rb_color (set_color a c t) = (rb_color t)(a := c)" "rb_root (set_color a c t) = rb_root t"
  "rb_sentinel (set_color a c t) = rb_sentinel t" "rb_insert (set_color a c t) = rb_insert t"
  "rb_key (set_root a t) = rb_key t" "rb_left (set_root a t) = rb_left t"
  "rb_right (set_root a t) = rb_right t" "rb_parent (set_root a t) = rb_parent t"
  "rb_color (set_root a t) = rb_color t" "rb_root (set_root a t) = a"
  "rb_sentinel (set_root a t) = rb_sentinel t" "rb_insert (set_root a t) = rb_insert t"
  by (simp_all add: set_key_def set_left_def set_right_def set_parent_def set_color_def set_root_def)

lemmas rbt_color_defs = ngx_rbt_red_def ngx_rbt_black_def ngx_rbt_is_red_def ngx_rbt_is_black_def
  ngx_rbt_copy_color_def

lemma rb_color_neq [simp]: "c \<noteq> Black \<longleftrightarrow> c = Red" "c \<noteq> Red \<longleftrightarrow> c = Black"
  by (cases c; simp)+

end
