(* ===== verification/RBShape.thy ===== *)
theory RBShape
  imports RBTree
begin

text \<open>
  The shapes the red-black tree represents, and the algorithm on shapes. A \<open>ptree\<close> is a binary tree
  whose nodes carry a colour and an offset. A list of frames is the path from a position up to the
  root, innermost first: \<open>FL c a r\<close> is a node \<open>a\<close> whose left subtree is the hole, \<open>FR c l a\<close> one whose
  right subtree is. \<open>ins_fix\<close> and \<open>del_fix\<close> are the re-balancing loops of \<^verbatim>\<open>mps_rbtree_insert\<close> and
  \<^verbatim>\<open>mps_rbtree_delete\<close> on such positions. The lemmas show that both keep the in-order sequence and
  restore the red-black invariants (no red node has a red child, all paths hold the same number of
  black nodes, the root is black). RBRefine shows that the pointer code computes them.
\<close>

datatype ptree = Lf | Nd rb_color ptree off ptree

datatype frame = FL rb_color off ptree | FR rb_color ptree off

fun inorder :: "ptree \<Rightarrow> off list" where
  "inorder Lf = []"
| "inorder (Nd c l a r) = inorder l @ a # inorder r"

abbreviation addrs :: "ptree \<Rightarrow> off set" where
  "addrs T \<equiv> set (inorder T)"

fun tcolor :: "ptree \<Rightarrow> rb_color" where
  "tcolor Lf = Black"
| "tcolor (Nd c l a r) = c"

fun paint :: "rb_color \<Rightarrow> ptree \<Rightarrow> ptree" where
  "paint c Lf = Lf"
| "paint c (Nd d l a r) = Nd c l a r"

fun plug :: "ptree \<Rightarrow> frame list \<Rightarrow> ptree" where
  "plug T [] = T"
| "plug T (FL c a r # fs) = plug (Nd c T a r) fs"
| "plug T (FR c l a # fs) = plug (Nd c l a T) fs"

fun ctx_pre :: "frame list \<Rightarrow> off list" where
  "ctx_pre [] = []"
| "ctx_pre (FL c a r # fs) = ctx_pre fs"
| "ctx_pre (FR c l a # fs) = ctx_pre fs @ inorder l @ [a]"

fun ctx_post :: "frame list \<Rightarrow> off list" where
  "ctx_post [] = []"
| "ctx_post (FL c a r # fs) = a # inorder r @ ctx_post fs"
| "ctx_post (FR c l a # fs) = ctx_post fs"

lemma inorder_plug [simp]: "inorder (plug T fs) = ctx_pre fs @ inorder T @ ctx_post fs"
  by (induction T fs rule: plug.induct) auto

lemma inorder_paint [simp]: "inorder (paint c T) = inorder T"
  by (cases T) auto

lemma tcolor_paint [simp]: "tcolor (paint Black T) = Black"
  by (cases T) auto

lemma paint_id: "tcolor T = c \<Longrightarrow> paint c T = T"
  by (cases T) auto

lemma plug_append [simp]: "plug T (fs @ gs) = plug (plug T fs) gs"
  by (induction T fs rule: plug.induct) auto

lemma ctx_pre_append [simp]: "ctx_pre (fs @ gs) = ctx_pre gs @ ctx_pre fs"
  by (induction fs rule: ctx_pre.induct) auto

lemma ctx_post_append [simp]: "ctx_post (fs @ gs) = ctx_post fs @ ctx_post gs"
  by (induction fs rule: ctx_post.induct) auto

subsection \<open>The invariants of a red-black tree, and of a position in one\<close>

fun bheight :: "ptree \<Rightarrow> nat" where
  "bheight Lf = 0"
| "bheight (Nd c l a r) = (if c = Black then Suc (bheight l) else bheight l)"

fun invh :: "ptree \<Rightarrow> bool" where
  "invh Lf \<longleftrightarrow> True"
| "invh (Nd c l a r) \<longleftrightarrow> bheight l = bheight r \<and> invh l \<and> invh r"

fun invc :: "ptree \<Rightarrow> bool" where
  "invc Lf \<longleftrightarrow> True"
| "invc (Nd c l a r) \<longleftrightarrow> (c = Red \<longrightarrow> tcolor l = Black \<and> tcolor r = Black) \<and> invc l \<and> invc r"

definition rbt :: "ptree \<Rightarrow> bool" where
  "rbt T \<longleftrightarrow> invc T \<and> invh T \<and> tcolor T = Black"

fun fcolor :: "frame \<Rightarrow> rb_color" where
  "fcolor (FL c a r) = c"
| "fcolor (FR c l a) = c"

fun fsib :: "frame \<Rightarrow> ptree" where
  "fsib (FL c a r) = r"
| "fsib (FR c l a) = l"

text \<open>\<open>ctx_h n fs\<close>: plugging a subtree of black height \<open>n\<close> gives equal black heights throughout.\<close>

fun ctx_h :: "nat \<Rightarrow> frame list \<Rightarrow> bool" where
  "ctx_h n [] \<longleftrightarrow> True"
| "ctx_h n (f # fs) \<longleftrightarrow> bheight (fsib f) = n \<and> invh (fsib f)
     \<and> ctx_h (if fcolor f = Black then Suc n else n) fs"

text \<open>\<open>ctx_c fs\<close>: no two adjacent red nodes on the path or off it, and the root is black.\<close>

fun top_black :: "frame list \<Rightarrow> bool" where
  "top_black [] \<longleftrightarrow> False"
| "top_black (f # fs) \<longleftrightarrow> fcolor f = Black"

fun ctx_c :: "frame list \<Rightarrow> bool" where
  "ctx_c [] \<longleftrightarrow> True"
| "ctx_c (f # fs) \<longleftrightarrow> invc (fsib f) \<and> ctx_c fs
     \<and> (fcolor f = Red \<longrightarrow> tcolor (fsib f) = Black \<and> top_black fs)"

lemma invh_plug: "invh (plug T fs) \<longleftrightarrow> invh T \<and> ctx_h (bheight T) fs"
  by (induction T fs rule: plug.induct) auto

lemma rbt_plug:
  "rbt (plug T fs) \<longleftrightarrow> invc T \<and> invh T \<and> ctx_h (bheight T) fs \<and> ctx_c fs
     \<and> (tcolor T = Red \<longrightarrow> top_black fs)"
proof -
  have "invc (plug T fs) \<and> tcolor (plug T fs) = Black
      \<longleftrightarrow> invc T \<and> ctx_c fs \<and> (tcolor T = Red \<longrightarrow> top_black fs)"
  proof (induction T fs rule: plug.induct)
    case (1 T)
    then show ?case by (cases "tcolor T") auto
  next
    case (2 T c a r fs)
    then show ?case by (cases c; cases fs) auto
  next
    case (3 T c l a fs)
    then show ?case by (cases c; cases fs) auto
  qed
  then show ?thesis by (auto simp: rbt_def invh_plug)
qed

lemma invc_paint_Black: "invc T \<Longrightarrow> invc (paint Black T)"
  by (cases T) auto

lemma invh_paint [simp]: "invh (paint c T) = invh T"
  by (cases T) auto

lemma bheight_paint_Black: "tcolor T = Red \<Longrightarrow> bheight (paint Black T) = Suc (bheight T)"
  by (cases T) auto

subsection \<open>The insert re-balancing\<close>

fun ins_fix :: "ptree \<Rightarrow> frame list \<Rightarrow> ptree" where
  "ins_fix x (FL Red p b # FL cg g u # fs) =
     (if tcolor u = Red then ins_fix (Nd Red (Nd Black x p b) g (paint Black u)) fs
      else plug (Nd Black x p (Nd Red b g u)) fs)"
| "ins_fix (Nd cx xl x xr) (FR Red a p # FL cg g u # fs) =
     (if tcolor u = Red then ins_fix (Nd Red (Nd Black a p (Nd cx xl x xr)) g (paint Black u)) fs
      else plug (Nd Black (Nd Red a p xl) x (Nd Red xr g u)) fs)"
| "ins_fix x (FR Red b p # FR cg u g # fs) =
     (if tcolor u = Red then ins_fix (Nd Red (paint Black u) g (Nd Black b p x)) fs
      else plug (Nd Black (Nd Red u g b) p x) fs)"
| "ins_fix (Nd cx xl x xr) (FL Red p a # FR cg u g # fs) =
     (if tcolor u = Red then ins_fix (Nd Red (paint Black u) g (Nd Black (Nd cx xl x xr) p a)) fs
      else plug (Nd Black (Nd Red u g xl) x (Nd Red xr p a)) fs)"
| "ins_fix x fs = plug x fs"

lemma inorder_ins_fix [simp]: "inorder (ins_fix T fs) = ctx_pre fs @ inorder T @ ctx_post fs"
  by (induction T fs rule: ins_fix.induct) auto

lemma rbt_paintI: "rbt T \<Longrightarrow> rbt (paint Black T)"
  by (simp add: rbt_def invc_paint_Black)

lemma rbt_Nd [simp]:
  "rbt (Nd Black l a r) \<longleftrightarrow> invc l \<and> invc r \<and> invh l \<and> invh r \<and> bheight l = bheight r"
  by (auto simp: rbt_def)

lemma rbt_paint_rootI: "invc T \<Longrightarrow> invh T \<Longrightarrow> rbt (paint Black T)"
  by (simp add: rbt_def invc_paint_Black)

text \<open>The loop starts at a red node that may have a red parent, which is the only violation.\<close>

lemma rbt_ins_fix:
  "invc T \<Longrightarrow> invh T \<Longrightarrow> ctx_h (bheight T) fs \<Longrightarrow> ctx_c fs \<Longrightarrow> tcolor T = Red
     \<Longrightarrow> rbt (paint Black (ins_fix T fs))"
proof (induction T fs rule: ins_fix.induct)
  case (1 x p b cg g u fs)
  then show ?case
    by (cases "tcolor u"; cases cg)
      (auto simp: rbt_plug bheight_paint_Black invc_paint_Black intro!: rbt_paintI)
next
  case (2 cx xl x xr a p cg g u fs)
  then show ?case
    by (cases "tcolor u"; cases cg)
      (auto simp: rbt_plug bheight_paint_Black invc_paint_Black intro!: rbt_paintI)
next
  case (3 x b p cg u g fs)
  then show ?case
    by (cases "tcolor u"; cases cg)
      (auto simp: rbt_plug bheight_paint_Black invc_paint_Black intro!: rbt_paintI)
next
  case (4 cx xl x xr p a cg u g fs)
  then show ?case
    by (cases "tcolor u"; cases cg)
      (auto simp: rbt_plug bheight_paint_Black invc_paint_Black intro!: rbt_paintI)
qed (auto simp: rbt_plug intro: rbt_paintI rbt_paint_rootI split: if_splits)

subsection \<open>The delete fixup\<close>

text \<open>
  A black sibling \<open>Nd Black a y b\<close> with a red child: the rotations that end the loop, with the hole
  on the left (\<open>del_rot_L\<close>) and on the right (\<open>del_rot_R\<close>). The colour \<open>c\<close> is that of the parent.
\<close>

fun del_rot_L :: "rb_color \<Rightarrow> ptree \<Rightarrow> off \<Rightarrow> ptree \<Rightarrow> off \<Rightarrow> ptree \<Rightarrow> ptree" where
  "del_rot_L c x p a y (Nd Red b1 z b2) = Nd c (Nd Black x p a) y (Nd Black b1 z b2)"
| "del_rot_L c x p (Nd ca a1 z a2) y b = Nd c (Nd Black x p a1) z (Nd Black a2 y b)"
| "del_rot_L c x p Lf y b = Nd c x p (Nd Black Lf y b)"

fun del_rot_R :: "rb_color \<Rightarrow> ptree \<Rightarrow> off \<Rightarrow> ptree \<Rightarrow> off \<Rightarrow> ptree \<Rightarrow> ptree" where
  "del_rot_R c (Nd Red b1 z b2) y a p x = Nd c (Nd Black b1 z b2) y (Nd Black a p x)"
| "del_rot_R c b y (Nd ca a1 z a2) p x = Nd c (Nd Black b y a1) z (Nd Black a2 p x)"
| "del_rot_R c b y Lf p x = Nd c (Nd Black b y Lf) p x"

text \<open>The last equations cover the shapes the black heights exclude.\<close>

fun del_fix :: "ptree \<Rightarrow> frame list \<Rightarrow> ptree" where
  "del_fix x [] = paint Black x"
| "del_fix x (FL c p w # fs) =
     (if tcolor x = Red then plug (paint Black x) (FL c p w # fs)
      else case w of
        Nd Black a y b \<Rightarrow>
          if tcolor a = Black \<and> tcolor b = Black then
            if c = Red then plug (Nd Black x p (Nd Red a y b)) fs
            else del_fix (Nd Black x p (Nd Red a y b)) fs
          else plug (del_rot_L c x p a y b) fs
      | Nd Red (Nd Black a y b) v wr \<Rightarrow>
          if tcolor a = Black \<and> tcolor b = Black then
            plug (Nd Black x p (Nd Red a y b)) (FL Black v wr # fs)
          else plug (del_rot_L Red x p a y b) (FL Black v wr # fs)
      | _ \<Rightarrow> plug x (FL c p w # fs))"
| "del_fix x (FR c w p # fs) =
     (if tcolor x = Red then plug (paint Black x) (FR c w p # fs)
      else case w of
        Nd Black b y a \<Rightarrow>
          if tcolor b = Black \<and> tcolor a = Black then
            if c = Red then plug (Nd Black (Nd Red b y a) p x) fs
            else del_fix (Nd Black (Nd Red b y a) p x) fs
          else plug (del_rot_R c b y a p x) fs
      | Nd Red wl v (Nd Black b y a) \<Rightarrow>
          if tcolor b = Black \<and> tcolor a = Black then
            plug (Nd Black (Nd Red b y a) p x) (FR Black wl v # fs)
          else plug (del_rot_R Red b y a p x) (FR Black wl v # fs)
      | _ \<Rightarrow> plug x (FR c w p # fs))"

lemma inorder_del_rot_L [simp]: "inorder (del_rot_L c x p a y b) = inorder x @ p # inorder a @ y # inorder b"
  by (cases "(c, x, p, a, y, b)" rule: del_rot_L.cases) auto

lemma inorder_del_rot_R [simp]: "inorder (del_rot_R c b y a p x) = inorder b @ y # inorder a @ p # inorder x"
  by (cases "(c, b, y, a, p, x)" rule: del_rot_R.cases) auto

lemma inorder_del_fix [simp]: "inorder (del_fix T fs) = ctx_pre fs @ inorder T @ ctx_post fs"
  by (induction T fs rule: del_fix.induct) (auto split: ptree.split rb_color.split)

lemma del_rot_L_inv:
  assumes "\<not> (tcolor a = Black \<and> tcolor b = Black)" "invc x" "invh x" "tcolor x = Black"
    "invc a" "invc b" "invh a" "invh b" "bheight a = bheight b" "bheight x = bheight a"
  shows "invc (del_rot_L c x p a y b)" "invh (del_rot_L c x p a y b)"
    "tcolor (del_rot_L c x p a y b) = c"
    "bheight (del_rot_L c x p a y b) = (if c = Black then 2 else 1) + bheight x"
  using assms by (cases "(c, x, p, a, y, b)" rule: del_rot_L.cases; auto)+

lemma del_rot_R_inv:
  assumes "\<not> (tcolor b = Black \<and> tcolor a = Black)" "invc x" "invh x" "tcolor x = Black"
    "invc a" "invc b" "invh a" "invh b" "bheight a = bheight b" "bheight x = bheight a"
  shows "invc (del_rot_R c b y a p x)" "invh (del_rot_R c b y a p x)"
    "tcolor (del_rot_R c b y a p x) = c"
    "bheight (del_rot_R c b y a p x) = (if c = Black then 2 else 1) + bheight x"
  using assms by (cases "(c, b, y, a, p, x)" rule: del_rot_R.cases; auto)+

text \<open>The loop starts at a subtree whose black height is one short of what its place asks for.\<close>

lemma rbt_del_fix:
  "invc T \<Longrightarrow> invh T \<Longrightarrow> ctx_h (Suc (bheight T)) fs \<Longrightarrow> ctx_c fs \<Longrightarrow> rbt (del_fix T fs)"
proof (induction T fs rule: del_fix.induct)
  case (1 x)
  then show ?case by (simp add: rbt_paint_rootI)
next
  case (2 x c p w fs)
  show ?case
  proof (cases "tcolor x")
    case Red
    with "2.prems" show ?thesis
      by (cases c) (simp_all add: rbt_plug bheight_paint_Black invc_paint_Black)
  next
    case Black
    from "2.prems" obtain cw a y b where w: "w = Nd cw a y b" by (cases w) auto
    show ?thesis
    proof (cases cw)
      case b: Black
      show ?thesis
      proof (cases "tcolor a = Black \<and> tcolor b = Black")
        case True
        with "2.prems" "2.IH" Black w b show ?thesis by (cases c) (auto simp: rbt_plug)
      next
        case False
        have "del_fix x (FL c p w # fs) = plug (del_rot_L c x p a y b) fs"
          using False Black w b by auto
        moreover have "invc x" "invh x" "invc a" "invc b" "invh a" "invh b" "bheight a = bheight b"
          "bheight x = bheight a" "ctx_c fs" "c = Red \<longrightarrow> top_black fs"
          "ctx_h ((if c = Black then 2 else 1) + bheight x) fs"
          using "2.prems" w b by (auto split: if_splits)
        ultimately show ?thesis
          using del_rot_L_inv [OF False _ _ Black, of c p y] by (simp add: rbt_plug)
      qed
    next
      case r: Red
      from "2.prems" w r obtain a1 y1 b1 where a: "a = Nd Black a1 y1 b1"
        by (cases a) (auto split: if_splits)
      show ?thesis
      proof (cases "tcolor a1 = Black \<and> tcolor b1 = Black")
        case True
        with "2.prems" Black w r a show ?thesis by (auto simp: rbt_plug)
      next
        case False
        have "del_fix x (FL c p w # fs) = plug (del_rot_L Red x p a1 y1 b1) (FL Black y b # fs)"
          using False Black w r a by auto
        moreover have "invc x" "invh x" "invc a1" "invc b1" "invh a1" "invh b1"
          "bheight a1 = bheight b1" "bheight x = bheight a1" "ctx_c (FL Black y b # fs)"
          "ctx_h (Suc (bheight x)) (FL Black y b # fs)"
          using "2.prems" w r a by (auto split: if_splits)
        ultimately show ?thesis
          using del_rot_L_inv [OF False _ _ Black, of Red p y1] by (simp add: rbt_plug)
      qed
    qed
  qed
next
  case (3 x c w p fs)
  show ?case
  proof (cases "tcolor x")
    case Red
    with "3.prems" show ?thesis
      by (cases c) (simp_all add: rbt_plug bheight_paint_Black invc_paint_Black)
  next
    case Black
    from "3.prems" obtain cw a y b where w: "w = Nd cw b y a" by (cases w) auto
    show ?thesis
    proof (cases cw)
      case b: Black
      show ?thesis
      proof (cases "tcolor b = Black \<and> tcolor a = Black")
        case True
        with "3.prems" "3.IH" Black w b show ?thesis by (cases c) (auto simp: rbt_plug)
      next
        case False
        have "del_fix x (FR c w p # fs) = plug (del_rot_R c b y a p x) fs"
          using False Black w b by auto
        moreover have "invc x" "invh x" "invc a" "invc b" "invh a" "invh b" "bheight a = bheight b"
          "bheight x = bheight a" "ctx_c fs" "c = Red \<longrightarrow> top_black fs"
          "ctx_h ((if c = Black then 2 else 1) + bheight x) fs"
          using "3.prems" w b by (auto split: if_splits)
        ultimately show ?thesis
          using del_rot_R_inv [OF False _ _ Black, of c y p] by (simp add: rbt_plug)
      qed
    next
      case r: Red
      from "3.prems" w r obtain a1 y1 b1 where a: "a = Nd Black b1 y1 a1"
        by (cases a) (auto split: if_splits)
      show ?thesis
      proof (cases "tcolor b1 = Black \<and> tcolor a1 = Black")
        case True
        with "3.prems" Black w r a show ?thesis by (auto simp: rbt_plug)
      next
        case False
        have "del_fix x (FR c w p # fs) = plug (del_rot_R Red b1 y1 a1 p x) (FR Black b y # fs)"
          using False Black w r a by auto
        moreover have "invc x" "invh x" "invc a1" "invc b1" "invh a1" "invh b1"
          "bheight a1 = bheight b1" "bheight x = bheight a1" "ctx_c (FR Black b y # fs)"
          "ctx_h (Suc (bheight x)) (FR Black b y # fs)"
          using "3.prems" w r a by (auto split: if_splits)
        ultimately show ?thesis
          using del_rot_R_inv [OF False _ _ Black, of Red y1 p] by (simp add: rbt_plug)
      qed
    qed
  qed
qed

subsection \<open>Height\<close>

fun height :: "ptree \<Rightarrow> nat" where
  "height Lf = 0"
| "height (Nd c l a r) = Suc (max (height l) (height r))"

lemma invh_size: "invh T \<Longrightarrow> 2 ^ bheight T \<le> Suc (length (inorder T))"
  by (induction T) auto

lemma height_bheight:
  "invc T \<Longrightarrow> invh T \<Longrightarrow> height T \<le> 2 * bheight T + (if tcolor T = Black then 0 else 1)"
  by (induction T) (auto split: if_splits)

lemma rbt_height: "rbt T \<Longrightarrow> 2 ^ (height T div 2) \<le> Suc (length (inorder T))"
proof -
  assume r: "rbt T"
  then have "height T div 2 \<le> bheight T" using height_bheight [of T] by (auto simp: rbt_def)
  then have "(2::nat) ^ (height T div 2) \<le> 2 ^ bheight T" by (simp add: power_increasing)
  also have "\<dots> \<le> Suc (length (inorder T))" using r invh_size by (auto simp: rbt_def)
  finally show ?thesis .
qed

end
