(* ===== verification/RBRefine.thy ===== *)
theory RBRefine
  imports RBShape
begin

text \<open>
  The pointer tree represents a shape. \<open>tree_at t T fs\<close> says that the memory \<open>t\<close> holds the tree
  \<open>plug T fs\<close>, seen from the position of its subtree \<open>T\<close>: every link of a node agrees with the shape,
  absent children are the sentinel, the parent links of all nodes but the root point up (the parent
  of the root is never read, and the code leaves stale values there), no offset occurs twice or is
  the sentinel, and the sentinel is black. Moving the position up or down the tree does not change
  what \<open>tree_at\<close> says, so each update of the code is verified at the node it writes. On top of that,
  \<^verbatim>\<open>mps_rbtree_insert\<close> and \<^verbatim>\<open>mps_rbtree_delete\<close> compute \<open>ins_fix\<close> and \<open>del_fix\<close>, and return.
\<close>

fun ptr :: "off \<Rightarrow> ptree \<Rightarrow> off" where
  "ptr s Lf = s"
| "ptr s (Nd c l a r) = a"

fun up :: "frame list \<Rightarrow> off option" where
  "up [] = None"
| "up (FL c a r # fs) = Some a"
| "up (FR c l a # fs) = Some a"

definition parent_ok :: "rbtree_mem \<Rightarrow> off option \<Rightarrow> off \<Rightarrow> bool" where
  "parent_ok t q a \<longleftrightarrow> (case q of None \<Rightarrow> True | Some p \<Rightarrow> rb_parent t a = p)"

fun links_ok :: "rbtree_mem \<Rightarrow> off option \<Rightarrow> ptree \<Rightarrow> bool" where
  "links_ok t q Lf \<longleftrightarrow> True"
| "links_ok t q (Nd c l a r) \<longleftrightarrow>
     rb_color t a = c \<and> rb_left t a = ptr (rb_sentinel t) l \<and> rb_right t a = ptr (rb_sentinel t) r
     \<and> parent_ok t q a \<and> links_ok t (Some a) l \<and> links_ok t (Some a) r"

fun path_ok :: "rbtree_mem \<Rightarrow> off \<Rightarrow> frame list \<Rightarrow> bool" where
  "path_ok t p [] \<longleftrightarrow> rb_root t = p"
| "path_ok t p (FL c a r # fs) \<longleftrightarrow>
     rb_color t a = c \<and> rb_left t a = p \<and> rb_right t a = ptr (rb_sentinel t) r
     \<and> parent_ok t (up fs) a \<and> links_ok t (Some a) r \<and> path_ok t a fs"
| "path_ok t p (FR c l a # fs) \<longleftrightarrow>
     rb_color t a = c \<and> rb_left t a = ptr (rb_sentinel t) l \<and> rb_right t a = p
     \<and> parent_ok t (up fs) a \<and> links_ok t (Some a) l \<and> path_ok t a fs"

definition path_addrs :: "frame list \<Rightarrow> off set" where
  "path_addrs fs = set (ctx_pre fs) \<union> set (ctx_post fs)"

definition tree_at :: "rbtree_mem \<Rightarrow> ptree \<Rightarrow> frame list \<Rightarrow> bool" where
  "tree_at t T fs \<longleftrightarrow>
     links_ok t (up fs) T \<and> path_ok t (ptr (rb_sentinel t) T) fs
     \<and> distinct (inorder (plug T fs)) \<and> rb_sentinel t \<notin> addrs (plug T fs)
     \<and> rb_color t (rb_sentinel t) = Black"

definition represents :: "rbtree_mem \<Rightarrow> ptree \<Rightarrow> bool" where
  "represents t T \<longleftrightarrow> tree_at t T []"

lemma path_addrs_simps [simp]:
  "path_addrs [] = {}"
  "path_addrs (FL c a r # fs) = insert a (addrs r \<union> path_addrs fs)"
  "path_addrs (FR c l a # fs) = insert a (addrs l \<union> path_addrs fs)"
  by (auto simp: path_addrs_def)

lemma parent_ok_simps [simp]: "parent_ok t None a" "parent_ok t (Some p) a \<longleftrightarrow> rb_parent t a = p"
  by (simp_all add: parent_ok_def)

subsection \<open>Moving the position\<close>

lemma tree_at_left: "tree_at t (Nd c l a r) fs \<longleftrightarrow> tree_at t l (FL c a r # fs)"
  by (auto simp: tree_at_def)

lemma tree_at_right: "tree_at t (Nd c l a r) fs \<longleftrightarrow> tree_at t r (FR c l a # fs)"
  by (auto simp: tree_at_def)

lemma tree_at_plug: "tree_at t (plug T fs) gs \<longleftrightarrow> tree_at t T (fs @ gs)"
proof (induction T fs rule: plug.induct)
  case (2 T c a r fs)
  then show ?case by (simp add: tree_at_left)
next
  case (3 T c l a fs)
  then show ?case by (simp add: tree_at_right)
qed simp

lemma represents_plug: "represents t (plug T fs) \<longleftrightarrow> tree_at t T fs"
  by (simp add: represents_def tree_at_plug)

lemma tree_at_links:
  assumes "tree_at t (Nd c l a r) fs"
  shows "rb_color t a = c" "rb_left t a = ptr (rb_sentinel t) l" "rb_right t a = ptr (rb_sentinel t) r"
    "parent_ok t (up fs) a" "a \<noteq> rb_sentinel t" "a \<notin> path_addrs fs"
  using assms by (auto simp: tree_at_def path_addrs_def)

lemma tree_at_sentinel: "tree_at t T fs \<Longrightarrow> rb_color t (rb_sentinel t) = Black"
  by (simp add: tree_at_def)

lemma tree_at_color: "tree_at t T fs \<Longrightarrow> rb_color t (ptr (rb_sentinel t) T) = tcolor T"
  by (cases T) (auto simp: tree_at_def)

lemma ptr_eq_sentinel: "tree_at t T fs \<Longrightarrow> ptr (rb_sentinel t) T = rb_sentinel t \<longleftrightarrow> T = Lf"
  by (cases T) (auto simp: tree_at_def)

lemma path_root: "path_ok t p fs \<Longrightarrow> fs \<noteq> [] \<Longrightarrow> rb_root t \<in> path_addrs fs"
proof (induction t p fs rule: path_ok.induct)
  case (2 t p c a r fs)
  then show ?case by (cases fs) auto
next
  case (3 t p c l a fs)
  then show ?case by (cases fs) auto
qed simp

lemma tree_at_root:
  "tree_at t T fs \<Longrightarrow> ptr (rb_sentinel t) T = rb_root t \<longleftrightarrow> fs = []"
proof -
  assume at: "tree_at t T fs"
  show ?thesis
  proof (cases "fs = []")
    case False
    with at have "rb_root t \<in> path_addrs fs" by (auto simp: tree_at_def intro: path_root)
    with at have "rb_root t \<noteq> ptr (rb_sentinel t) T"
      by (cases T) (auto simp: tree_at_def path_addrs_def)
    with False show ?thesis by simp
  qed (use at in \<open>auto simp: tree_at_def\<close>)
qed

subsection \<open>Frames: updates elsewhere\<close>

lemma links_ok_cong:
  assumes "rb_sentinel t' = rb_sentinel t"
    and "\<And>a. a \<in> addrs T \<Longrightarrow> rb_left t' a = rb_left t a \<and> rb_right t' a = rb_right t a
           \<and> rb_parent t' a = rb_parent t a \<and> rb_color t' a = rb_color t a"
  shows "links_ok t' q T = links_ok t q T"
  using assms by (induction t q T rule: links_ok.induct) (auto simp: parent_ok_def split: option.split)

lemma links_ok_upd [simp]:
  "a \<notin> addrs T \<Longrightarrow> links_ok (set_left a v t) q T = links_ok t q T"
  "a \<notin> addrs T \<Longrightarrow> links_ok (set_right a v t) q T = links_ok t q T"
  "a \<notin> addrs T \<Longrightarrow> links_ok (set_parent a v t) q T = links_ok t q T"
  "a \<notin> addrs T \<Longrightarrow> links_ok (set_color a c t) q T = links_ok t q T"
  "links_ok (set_key a k t) q T = links_ok t q T"
  "links_ok (set_root v t) q T = links_ok t q T"
  by (rule links_ok_cong; auto)+

lemma path_ok_cong:
  assumes "rb_sentinel t' = rb_sentinel t" "rb_root t' = rb_root t"
    and "\<And>a. a \<in> path_addrs fs \<Longrightarrow> rb_left t' a = rb_left t a \<and> rb_right t' a = rb_right t a
           \<and> rb_parent t' a = rb_parent t a \<and> rb_color t' a = rb_color t a"
  shows "path_ok t' p fs = path_ok t p fs"
  using assms
proof (induction t p fs rule: path_ok.induct)
  case (2 t p c a r fs)
  have "links_ok t' (Some a) r = links_ok t (Some a) r" by (rule links_ok_cong) (use 2 in auto)
  with 2 show ?case by (auto simp: parent_ok_def split: option.split)
next
  case (3 t p c l a fs)
  have "links_ok t' (Some a) l = links_ok t (Some a) l" by (rule links_ok_cong) (use 3 in auto)
  with 3 show ?case by (auto simp: parent_ok_def split: option.split)
qed auto

lemma path_ok_upd [simp]:
  "a \<notin> path_addrs fs \<Longrightarrow> path_ok (set_left a v t) p fs = path_ok t p fs"
  "a \<notin> path_addrs fs \<Longrightarrow> path_ok (set_right a v t) p fs = path_ok t p fs"
  "a \<notin> path_addrs fs \<Longrightarrow> path_ok (set_parent a v t) p fs = path_ok t p fs"
  "a \<notin> path_addrs fs \<Longrightarrow> path_ok (set_color a c t) p fs = path_ok t p fs"
  "path_ok (set_key a k t) p fs = path_ok t p fs"
  by (rule path_ok_cong; auto)+

lemma parent_ok_upd [simp]:
  "parent_ok (set_left x v t) q a = parent_ok t q a"
  "parent_ok (set_right x v t) q a = parent_ok t q a"
  "parent_ok (set_color x c t) q a = parent_ok t q a"
  "parent_ok (set_key x k t) q a = parent_ok t q a"
  "parent_ok (set_root v t) q a = parent_ok t q a"
  "x \<noteq> a \<Longrightarrow> parent_ok (set_parent x v t) q a = parent_ok t q a"
  by (auto simp: parent_ok_def split: option.split)

subsection \<open>Hanging another subtree at a position\<close>

text \<open>\<open>hang fs p t\<close> writes the link of the innermost frame, or the root.\<close>

fun hang :: "frame list \<Rightarrow> off \<Rightarrow> rbtree_mem \<Rightarrow> rbtree_mem" where
  "hang [] p t = set_root p t"
| "hang (FL c a r # fs) p t = set_left a p t"
| "hang (FR c l a # fs) p t = set_right a p t"

lemma hang_sel [simp]:
  "rb_key (hang fs p t) = rb_key t" "rb_parent (hang fs p t) = rb_parent t"
  "rb_color (hang fs p t) = rb_color t" "rb_sentinel (hang fs p t) = rb_sentinel t"
  "rb_insert (hang fs p t) = rb_insert t"
  "a \<notin> path_addrs fs \<Longrightarrow> rb_left (hang fs p t) a = rb_left t a"
  "a \<notin> path_addrs fs \<Longrightarrow> rb_right (hang fs p t) a = rb_right t a"
  by (cases "(fs, p, t)" rule: hang.cases; simp)+

lemma links_ok_hang [simp]: "addrs T \<inter> path_addrs fs = {} \<Longrightarrow> links_ok (hang fs p t) q T = links_ok t q T"
  by (rule links_ok_cong) (auto simp: disjoint_iff)

lemma parent_ok_hang [simp]: "parent_ok (hang fs p t) q a = parent_ok t q a"
  by (auto simp: parent_ok_def split: option.split)

lemma path_ok_hang:
  assumes "path_ok t p fs" "distinct (ctx_pre fs @ ctx_post fs)"
  shows "path_ok (hang fs p' t) p' fs"
proof (cases "(fs, p', t)" rule: hang.cases)
  case (2 c a r gs p t)
  with assms show ?thesis by (auto simp: path_addrs_def)
next
  case (3 c l a gs p t)
  with assms show ?thesis by (auto simp: path_addrs_def)
qed simp

text \<open>The three ways the sources write \<open>hang\<close>.\<close>

lemma replace_hang:
  assumes path: "path_ok t a fs" and par: "parent_ok t (up fs) a" and a: "a \<notin> path_addrs fs"
    "a \<noteq> rb_sentinel t"
  shows "rbtree_replace_lr a p t = hang fs p t" "rbtree_replace_rl a p t = hang fs p t"
proof -
  have "fs \<noteq> [] \<Longrightarrow> a \<noteq> rb_root t" using path_root [OF path] a by auto
  moreover have "ptr (rb_sentinel t) T \<noteq> a" if "addrs T \<subseteq> path_addrs fs" for T
    using that a by (cases T) auto
  ultimately show "rbtree_replace_lr a p t = hang fs p t" "rbtree_replace_rl a p t = hang fs p t"
    using path par
    by (cases "(fs, p, t)" rule: hang.cases;
        auto simp: rbtree_replace_lr_def rbtree_replace_rl_def Let_def)+
qed

subsection \<open>Updates at a position\<close>

lemma tree_at_paint:
  assumes "tree_at t (Nd c l a r) fs"
  shows "tree_at (set_color a d t) (Nd d l a r) fs"
  using assms by (auto simp: tree_at_def path_addrs_def)

lemma tree_at_paint_Black:
  assumes "tree_at t T fs"
  shows "tree_at (ngx_rbt_black (ptr (rb_sentinel t) T) t) (paint Black T) fs"
proof (cases T)
  case Lf
  with assms have "ngx_rbt_black (ptr (rb_sentinel t) T) t = t"
    by (simp add: ngx_rbt_black_def set_color_def tree_at_def fun_upd_idem)
  with assms Lf show ?thesis by simp
next
  case (Nd c l a r)
  with assms show ?thesis by (simp add: ngx_rbt_black_def tree_at_paint)
qed

text \<open>What \<open>tree_at\<close> asks, with the path's offsets as one set.\<close>

definition path_distinct :: "frame list \<Rightarrow> bool" where
  "path_distinct fs \<longleftrightarrow> distinct (ctx_pre fs @ ctx_post fs)"

lemma tree_at_iff:
  "tree_at t T fs \<longleftrightarrow>
     links_ok t (up fs) T \<and> path_ok t (ptr (rb_sentinel t) T) fs
     \<and> distinct (inorder T) \<and> path_distinct fs \<and> addrs T \<inter> path_addrs fs = {}
     \<and> rb_sentinel t \<notin> addrs T \<and> rb_sentinel t \<notin> path_addrs fs
     \<and> rb_color t (rb_sentinel t) = Black"
  by (auto simp: tree_at_def path_addrs_def path_distinct_def)

text \<open>The guarded update of a child's parent link.\<close>

definition reparent :: "ptree \<Rightarrow> off \<Rightarrow> rbtree_mem \<Rightarrow> rbtree_mem" where
  "reparent T p t = (if T = Lf then t else set_parent (ptr (rb_sentinel t) T) p t)"

lemma reparent_sel [simp]:
  "rb_key (reparent T p t) = rb_key t" "rb_left (reparent T p t) = rb_left t"
  "rb_right (reparent T p t) = rb_right t" "rb_color (reparent T p t) = rb_color t"
  "rb_root (reparent T p t) = rb_root t" "rb_sentinel (reparent T p t) = rb_sentinel t"
  "rb_insert (reparent T p t) = rb_insert t"
  "a \<notin> addrs T \<Longrightarrow> rb_parent (reparent T p t) a = rb_parent t a"
  by (cases T; auto simp: reparent_def)+

lemma reparent_other [simp]:
  "addrs T \<inter> addrs U = {} \<Longrightarrow> links_ok (reparent T p t) q U = links_ok t q U"
  "addrs T \<inter> path_addrs fs = {} \<Longrightarrow> path_ok (reparent T p t) z fs = path_ok t z fs"
  "a \<notin> addrs T \<Longrightarrow> parent_ok (reparent T p t) q a = parent_ok t q a"
  by (cases T; auto simp: reparent_def)+

lemma links_ok_reparent:
  "links_ok t q T \<Longrightarrow> distinct (inorder T) \<Longrightarrow> links_ok (reparent T p t) (Some p) T"
  by (cases T) (auto simp: reparent_def)

lemma guarded_set_parent:
  "(ptr (rb_sentinel t) T \<noteq> rb_sentinel t) = (T \<noteq> Lf) \<Longrightarrow>
     (if ptr (rb_sentinel t) T \<noteq> rb_sentinel t then set_parent (ptr (rb_sentinel t) T) p t else t)
       = reparent T p t"
  by (simp add: reparent_def)

lemma path_ok_hang':
  "path_ok t p fs \<Longrightarrow> path_distinct fs \<Longrightarrow> path_ok (hang fs p' t) p' fs"
  by (simp add: path_ok_hang path_distinct_def)

lemma ptr_Lf: "s \<notin> addrs T \<Longrightarrow> ptr s T = s \<longleftrightarrow> T = Lf"
  by (cases T) auto

lemma ptr_in: "ptr s T \<in> insert s (addrs T)"
  by (cases T) auto

lemma ptr_neq: "x \<noteq> s \<Longrightarrow> x \<notin> addrs T \<Longrightarrow> ptr s T \<noteq> x"
  using ptr_in [of s T] by auto

lemma parent_ok_set_same: "parent_ok t q x \<Longrightarrow> parent_ok (set_parent y (rb_parent t x) u) q y"
  by (auto simp: parent_ok_def split: option.splits)

lemma tree_at_left_rotate:
  assumes "tree_at t (Nd c A x (Nd d B y C)) fs"
  shows "tree_at (mps_rbtree_left_rotate x t) (Nd d (Nd c A x B) y C) fs"
proof -
  let ?s = "rb_sentinel t"
  have t: "rb_color t x = c" "rb_left t x = ptr ?s A" "rb_right t x = y" "parent_ok t (up fs) x"
    "rb_color t y = d" "rb_left t y = ptr ?s B" "rb_right t y = ptr ?s C"
    "links_ok t (Some x) A" "links_ok t (Some y) B" "links_ok t (Some y) C" "path_ok t x fs"
    "rb_color t ?s = Black"
    using assms by (auto simp: tree_at_iff)
  have d: "y \<noteq> x" "x \<noteq> y" "x \<noteq> ?s" "y \<noteq> ?s" "?s \<noteq> x" "?s \<noteq> y"
    "x \<notin> addrs A" "x \<notin> addrs B" "x \<notin> addrs C" "x \<notin> path_addrs fs"
    "y \<notin> addrs A" "y \<notin> addrs B" "y \<notin> addrs C" "y \<notin> path_addrs fs"
    "addrs B \<inter> addrs A = {}" "addrs B \<inter> addrs C = {}" "addrs B \<inter> path_addrs fs = {}"
    "addrs A \<inter> path_addrs fs = {}" "addrs C \<inter> path_addrs fs = {}" "addrs A \<inter> addrs C = {}"
    "?s \<notin> addrs A" "?s \<notin> addrs B" "?s \<notin> addrs C" "?s \<notin> path_addrs fs"
    "path_distinct fs" "distinct (inorder A)" "distinct (inorder B)" "distinct (inorder C)"
    using assms by (auto simp: tree_at_iff)
  have n: "ptr ?s B \<noteq> x" "ptr ?s B \<noteq> y" by (rule ptr_neq; simp add: d)+
  define t2 where "t2 = reparent B x (set_right x (ptr ?s B) t)"
  define t3 where "t3 = set_parent y (rb_parent t x) t2"
  have "rbtree_replace_lr x y t3 = hang fs y t3"
    by (rule replace_hang) (simp_all add: t2_def t3_def t d)
  moreover have "mps_rbtree_left_rotate x t = set_parent x y (set_left y x (rbtree_replace_lr x y t3))"
    unfolding mps_rbtree_left_rotate_def Let_def t3_def t2_def reparent_def
    using n by (auto simp: t d ptr_Lf)
  ultimately have rot: "mps_rbtree_left_rotate x t = set_parent x y (set_left y x (hang fs y t3))"
    by simp
  have B: "links_ok (reparent B x (set_right x (ptr ?s B) t)) (Some x) B"
    by (rule links_ok_reparent [of _ "Some y"]) (simp_all add: t d)
  have P: "parent_ok (set_parent y (rb_parent t x) t2) (up fs) y"
    using t(4) by (rule parent_ok_set_same)
  have H: "path_ok (hang fs y t3) y fs"
    by (rule path_ok_hang' [of _ x]) (simp_all add: t3_def t2_def t d)
  have D: "addrs (Nd d (Nd c A x B) y C) \<inter> path_addrs fs = {}"
    "distinct (inorder (Nd d (Nd c A x B) y C))"
    using assms by (auto simp: tree_at_iff)
  show ?thesis
    unfolding tree_at_iff rot
    using B P H D by (simp add: t d t2_def t3_def del: distinct_append)
qed

lemma tree_at_right_rotate:
  assumes "tree_at t (Nd c (Nd d C y B) x A) fs"
  shows "tree_at (mps_rbtree_right_rotate x t) (Nd d C y (Nd c B x A)) fs"
proof -
  let ?s = "rb_sentinel t"
  have t: "rb_color t x = c" "rb_right t x = ptr ?s A" "rb_left t x = y" "parent_ok t (up fs) x"
    "rb_color t y = d" "rb_right t y = ptr ?s B" "rb_left t y = ptr ?s C"
    "links_ok t (Some x) A" "links_ok t (Some y) B" "links_ok t (Some y) C" "path_ok t x fs"
    "rb_color t ?s = Black"
    using assms by (auto simp: tree_at_iff)
  have d: "y \<noteq> x" "x \<noteq> y" "x \<noteq> ?s" "y \<noteq> ?s" "?s \<noteq> x" "?s \<noteq> y"
    "x \<notin> addrs A" "x \<notin> addrs B" "x \<notin> addrs C" "x \<notin> path_addrs fs"
    "y \<notin> addrs A" "y \<notin> addrs B" "y \<notin> addrs C" "y \<notin> path_addrs fs"
    "addrs B \<inter> addrs A = {}" "addrs B \<inter> addrs C = {}" "addrs B \<inter> path_addrs fs = {}"
    "addrs A \<inter> path_addrs fs = {}" "addrs C \<inter> path_addrs fs = {}" "addrs C \<inter> addrs A = {}"
    "?s \<notin> addrs A" "?s \<notin> addrs B" "?s \<notin> addrs C" "?s \<notin> path_addrs fs"
    "path_distinct fs" "distinct (inorder A)" "distinct (inorder B)" "distinct (inorder C)"
    using assms by (auto simp: tree_at_iff)
  have n: "ptr ?s B \<noteq> x" "ptr ?s B \<noteq> y" by (rule ptr_neq; simp add: d)+
  define t2 where "t2 = reparent B x (set_left x (ptr ?s B) t)"
  define t3 where "t3 = set_parent y (rb_parent t x) t2"
  have "rbtree_replace_rl x y t3 = hang fs y t3"
    by (rule replace_hang) (simp_all add: t2_def t3_def t d)
  moreover have "mps_rbtree_right_rotate x t = set_parent x y (set_right y x (rbtree_replace_rl x y t3))"
    unfolding mps_rbtree_right_rotate_def Let_def t3_def t2_def reparent_def
    using n by (auto simp: t d ptr_Lf)
  ultimately have rot: "mps_rbtree_right_rotate x t = set_parent x y (set_right y x (hang fs y t3))"
    by simp
  have B: "links_ok (reparent B x (set_left x (ptr ?s B) t)) (Some x) B"
    by (rule links_ok_reparent [of _ "Some y"]) (simp_all add: t d)
  have P: "parent_ok (set_parent y (rb_parent t x) t2) (up fs) y"
    using t(4) by (rule parent_ok_set_same)
  have H: "path_ok (hang fs y t3) y fs"
    by (rule path_ok_hang' [of _ x]) (simp_all add: t3_def t2_def t d)
  have D: "addrs (Nd d C y (Nd c B x A)) \<inter> path_addrs fs = {}"
    "distinct (inorder (Nd d C y (Nd c B x A)))"
    using assms by (auto simp: tree_at_iff)
  show ?thesis
    unfolding tree_at_iff rot
    using B P H D by (simp add: t d t2_def t3_def del: distinct_append)
qed

lemma rotate_sel [simp]:
  "rb_sentinel (mps_rbtree_left_rotate x t) = rb_sentinel t"
  "rb_color (mps_rbtree_left_rotate x t) = rb_color t"
  "rb_key (mps_rbtree_left_rotate x t) = rb_key t"
  "rb_insert (mps_rbtree_left_rotate x t) = rb_insert t"
  "rb_sentinel (mps_rbtree_right_rotate x t) = rb_sentinel t"
  "rb_color (mps_rbtree_right_rotate x t) = rb_color t"
  "rb_key (mps_rbtree_right_rotate x t) = rb_key t"
  "rb_insert (mps_rbtree_right_rotate x t) = rb_insert t"
  by (simp_all add: mps_rbtree_left_rotate_def mps_rbtree_right_rotate_def rbtree_replace_lr_def
      rbtree_replace_rl_def Let_def)

subsection \<open>Reading and writing at the children of a position\<close>

lemma tree_at_reads:
  assumes "tree_at t (Nd c l a r) fs"
  shows "rb_color t a = c" "rb_left t a = ptr (rb_sentinel t) l" "rb_right t a = ptr (rb_sentinel t) r"
    "a \<noteq> rb_sentinel t" "rb_color t (ptr (rb_sentinel t) l) = tcolor l"
    "rb_color t (ptr (rb_sentinel t) r) = tcolor r"
    "l \<noteq> Lf \<Longrightarrow> rb_parent t (ptr (rb_sentinel t) l) = a"
    "r \<noteq> Lf \<Longrightarrow> rb_parent t (ptr (rb_sentinel t) r) = a"
proof -
  show "rb_color t (ptr (rb_sentinel t) l) = tcolor l"
    using assms by (intro tree_at_color [of t l "FL c a r # fs"]) (simp add: tree_at_left)
  show "rb_color t (ptr (rb_sentinel t) r) = tcolor r"
    using assms by (intro tree_at_color [of t r "FR c l a # fs"]) (simp add: tree_at_right)
  show "l \<noteq> Lf \<Longrightarrow> rb_parent t (ptr (rb_sentinel t) l) = a"
    using assms by (cases l) (auto simp: tree_at_iff)
  show "r \<noteq> Lf \<Longrightarrow> rb_parent t (ptr (rb_sentinel t) r) = a"
    using assms by (cases r) (auto simp: tree_at_iff)
qed (use assms in \<open>auto simp: tree_at_iff\<close>)

lemma tree_at_sides:
  assumes "tree_at t (Nd c l a r) fs"
  shows "ptr (rb_sentinel t) l = ptr (rb_sentinel t) r \<longleftrightarrow> l = Lf \<and> r = Lf"
  using assms by (cases l; cases r) (auto simp: tree_at_iff)

lemma tree_at_parent_read:
  "tree_at t (Nd c l a r) (f # fs) \<Longrightarrow> rb_parent t a = the (up (f # fs))"
  by (cases f) (auto simp: tree_at_iff)

lemma tree_at_inL:
  assumes "tree_at t (Nd c l a r) fs" "\<And>gs. tree_at t l gs \<Longrightarrow> tree_at t' l' gs"
  shows "tree_at t' (Nd c l' a r) fs"
  using assms by (simp add: tree_at_left)

lemma tree_at_inR:
  assumes "tree_at t (Nd c l a r) fs" "\<And>gs. tree_at t r gs \<Longrightarrow> tree_at t' r' gs"
  shows "tree_at t' (Nd c l a r') fs"
  using assms by (simp add: tree_at_right)

lemma tree_at_steps:
  "tree_at t (Nd c l a r) fs \<Longrightarrow> tree_at (ngx_rbt_red a t) (Nd Red l a r) fs"
  "tree_at t (Nd c l a r) fs \<Longrightarrow> tree_at (ngx_rbt_black a t) (Nd Black l a r) fs"
  by (simp_all add: rbt_color_defs tree_at_paint)

lemma ngx_rbt_sel [simp]:
  "rb_sentinel (ngx_rbt_red a t) = rb_sentinel t" "rb_sentinel (ngx_rbt_black a t) = rb_sentinel t"
  "rb_left (ngx_rbt_red a t) = rb_left t" "rb_left (ngx_rbt_black a t) = rb_left t"
  "rb_right (ngx_rbt_red a t) = rb_right t" "rb_right (ngx_rbt_black a t) = rb_right t"
  "rb_parent (ngx_rbt_red a t) = rb_parent t" "rb_parent (ngx_rbt_black a t) = rb_parent t"
  "rb_key (ngx_rbt_red a t) = rb_key t" "rb_key (ngx_rbt_black a t) = rb_key t"
  "rb_insert (ngx_rbt_red a t) = rb_insert t" "rb_insert (ngx_rbt_black a t) = rb_insert t"
  "rb_root (ngx_rbt_red a t) = rb_root t" "rb_root (ngx_rbt_black a t) = rb_root t"
  by (simp_all add: rbt_color_defs)

end
