(* ===== verification/RBInsert.thy ===== *)
theory RBInsert
  imports RBRefine
begin

text \<open>
  \<^verbatim>\<open>mps_rbtree_insert\<close> on a tree that represents a shape: the descent ends at an empty place, the
  re-balancing rounds compute \<open>ins_fix\<close>, and the call returns.
\<close>

text \<open>What every step of an insertion leaves alone.\<close>

definition kept :: "rbtree_mem \<Rightarrow> rbtree_mem \<Rightarrow> bool" where
  "kept t' t \<longleftrightarrow> rb_sentinel t' = rb_sentinel t \<and> rb_key t' = rb_key t \<and> rb_insert t' = rb_insert t"

lemma kept_refl [simp]: "kept t t"
  by (simp add: kept_def)

lemma kept_trans: "kept t'' t' \<Longrightarrow> kept t' t \<Longrightarrow> kept t'' t"
  by (simp add: kept_def)

lemma kept_steps [simp]:
  "kept (ngx_rbt_red a t') t = kept t' t" "kept (ngx_rbt_black a t') t = kept t' t"
  "kept (mps_rbtree_left_rotate a t') t = kept t' t"
  "kept (mps_rbtree_right_rotate a t') t = kept t' t"
  "kept (set_left a v t') t = kept t' t" "kept (set_right a v t') t = kept t' t"
  "kept (set_parent a v t') t = kept t' t" "kept (set_root v t') t = kept t' t"
  by (simp_all add: kept_def)

subsection \<open>The re-balancing rounds\<close>

text \<open>
  One round at the red node of \<open>T\<close>: either the violation moves two levels up, or the tree is the
  result and the loop's condition is false.
\<close>

definition ins_step :: "rbtree_mem \<Rightarrow> ptree \<Rightarrow> frame list \<Rightarrow> bool" where
  "ins_step t T fs \<longleftrightarrow>
     (\<exists>t' x'. rbtree_insert_round t (ptr (rb_sentinel t) T) = (t', x') \<and> kept t' t
        \<and> ((\<exists>T'. tcolor T' = Red \<and> x' = ptr (rb_sentinel t) T' \<and> tree_at t' T' (drop 2 fs)
               \<and> ins_fix T fs = ins_fix T' (drop 2 fs))
            \<or> represents t' (ins_fix T fs) \<and> rb_color t' (rb_parent t' x') = Black))"

lemma ins_stepI1:
  assumes "rbtree_insert_round t (ptr (rb_sentinel t) T) = (t', g)" "kept t' t"
    "tree_at t' (Nd Red l g r) fs" "ins_fix T (f1 # f2 # fs) = ins_fix (Nd Red l g r) fs"
  shows "ins_step t T (f1 # f2 # fs)"
  unfolding ins_step_def using assms by (auto intro!: exI [of _ "Nd Red l g r"])

lemma ins_stepI2:
  assumes "rbtree_insert_round t (ptr (rb_sentinel t) T) = (t', x')" "kept t' t"
    "tree_at t' (Nd Black l p r) fs" "ins_fix T (f1 # f2 # fs) = plug (Nd Black l p r) fs"
    "x' = ptr (rb_sentinel t) l \<and> l \<noteq> Lf \<or> x' = ptr (rb_sentinel t) r \<and> r \<noteq> Lf"
  shows "ins_step t T (f1 # f2 # fs)"
  unfolding ins_step_def using assms tree_at_reads [OF assms(3)]
  by (auto simp: represents_plug kept_def)

lemmas ins_round_simps = rbtree_insert_round_def Let_def ngx_rbt_is_red_def

lemma ins_step_LL:
  assumes at: "tree_at t T (FL Red p b # FL cg g u # fs)" and T: "T \<noteq> Lf"
  shows "ins_step t T (FL Red p b # FL cg g u # fs)"
proof -
  let ?s = "rb_sentinel t" and ?x = "ptr (rb_sentinel t) T"
  from at have at1: "tree_at t (Nd Red T p b) (FL cg g u # fs)" by (simp add: tree_at_left)
  then have at2: "tree_at t (Nd cg (Nd Red T p b) g u) fs" by (simp add: tree_at_left)
  note rd = tree_at_reads [OF at1] tree_at_reads [OF at2]
  have px: "rb_parent t ?x = p" using rd(7) T by simp
  have xr: "?x \<noteq> rb_right t p" using tree_at_sides [OF at1] T rd(3) by simp
  from at2 have at3: "tree_at (ngx_rbt_black p t) (Nd cg (Nd Black T p b) g u) fs"
    by (rule tree_at_inL) (rule tree_at_steps)
  show ?thesis
  proof (cases "tcolor u")
    case Red
    have "tree_at (ngx_rbt_black (ptr ?s u) (ngx_rbt_black p t))
        (Nd cg (Nd Black T p b) g (paint Black u)) fs"
      using at3 by (rule tree_at_inR) (drule tree_at_paint_Black, simp)
    from tree_at_steps(1) [OF this] show ?thesis
      by (rule ins_stepI1 [rotated 2]) (use rd px Red in \<open>simp_all add: ins_round_simps\<close>)
  next
    case Black
    from tree_at_right_rotate [OF tree_at_steps(1) [OF at3]] show ?thesis
      by (rule ins_stepI2 [rotated 2]) (use rd px xr Black T in \<open>simp_all add: ins_round_simps\<close>)
  qed
qed

lemma ins_step_RR:
  assumes at: "tree_at t T (FR Red b p # FR cg u g # fs)" and T: "T \<noteq> Lf"
  shows "ins_step t T (FR Red b p # FR cg u g # fs)"
proof -
  let ?s = "rb_sentinel t" and ?x = "ptr (rb_sentinel t) T"
  from at have at1: "tree_at t (Nd Red b p T) (FR cg u g # fs)" by (simp add: tree_at_right)
  then have at2: "tree_at t (Nd cg u g (Nd Red b p T)) fs" by (simp add: tree_at_right)
  note rd = tree_at_reads [OF at1] tree_at_reads [OF at2]
  have px: "rb_parent t ?x = p" using rd(8) T by simp
  have xr: "?x \<noteq> rb_left t p" using tree_at_sides [OF at1] T rd(2) by auto
  have pl: "p \<noteq> ptr ?s u" using tree_at_sides [OF at2] by auto
  from at2 have at3: "tree_at (ngx_rbt_black p t) (Nd cg u g (Nd Black b p T)) fs"
    by (rule tree_at_inR) (rule tree_at_steps)
  show ?thesis
  proof (cases "tcolor u")
    case Red
    have "tree_at (ngx_rbt_black (ptr ?s u) (ngx_rbt_black p t))
        (Nd cg (paint Black u) g (Nd Black b p T)) fs"
      using at3 by (rule tree_at_inL) (drule tree_at_paint_Black, simp)
    from tree_at_steps(1) [OF this] show ?thesis
      by (rule ins_stepI1 [rotated 2]) (use rd px pl Red in \<open>simp_all add: ins_round_simps\<close>)
  next
    case Black
    from tree_at_left_rotate [OF tree_at_steps(1) [OF at3]] show ?thesis
      by (rule ins_stepI2 [rotated 2]) (use rd px xr pl Black T in \<open>simp_all add: ins_round_simps\<close>)
  qed
qed

lemma ins_step_LR:
  assumes at: "tree_at t (Nd cx xl x xr) (FR Red a p # FL cg g u # fs)"
  shows "ins_step t (Nd cx xl x xr) (FR Red a p # FL cg g u # fs)"
proof -
  let ?s = "rb_sentinel t" and ?T = "Nd cx xl x xr"
  from at have at1: "tree_at t (Nd Red a p ?T) (FL cg g u # fs)" by (simp add: tree_at_right)
  then have at2: "tree_at t (Nd cg (Nd Red a p ?T) g u) fs" by (simp add: tree_at_left)
  note rd = tree_at_reads [OF at1] tree_at_reads [OF at2]
  have px: "rb_parent t x = p" using rd(8) by simp
  from at2 have at3: "tree_at (ngx_rbt_black p t) (Nd cg (Nd Black a p ?T) g u) fs"
    by (rule tree_at_inL) (rule tree_at_steps)
  show ?thesis
  proof (cases "tcolor u")
    case Red
    have "tree_at (ngx_rbt_black (ptr ?s u) (ngx_rbt_black p t))
        (Nd cg (Nd Black a p ?T) g (paint Black u)) fs"
      using at3 by (rule tree_at_inR) (drule tree_at_paint_Black, simp)
    from tree_at_steps(1) [OF this] show ?thesis
      by (rule ins_stepI1 [rotated 2]) (use rd px Red in \<open>simp_all add: ins_round_simps\<close>)
  next
    case Black
    let ?t = "mps_rbtree_left_rotate p t"
    from at2 have at4: "tree_at ?t (Nd cg (Nd cx (Nd Red a p xl) x xr) g u) fs"
      by (rule tree_at_inL) (rule tree_at_left_rotate)
    then have at5: "tree_at ?t (Nd cx (Nd Red a p xl) x xr) (FL cg g u # fs)"
      by (simp add: tree_at_left)
    have rd': "rb_parent ?t p = x" "rb_parent ?t x = g"
      using tree_at_reads(7) [OF at5] tree_at_reads(7) [OF at4] by simp_all
    from at4 have "tree_at (ngx_rbt_black x ?t) (Nd cg (Nd Black (Nd Red a p xl) x xr) g u) fs"
      by (rule tree_at_inL) (rule tree_at_steps)
    from tree_at_right_rotate [OF tree_at_steps(1) [OF this]] show ?thesis
      by (rule ins_stepI2 [rotated 2]) (use rd px rd' Black in \<open>simp_all add: ins_round_simps\<close>)
  qed
qed

lemma ins_step_RL:
  assumes at: "tree_at t (Nd cx xl x xr) (FL Red p a # FR cg u g # fs)"
  shows "ins_step t (Nd cx xl x xr) (FL Red p a # FR cg u g # fs)"
proof -
  let ?s = "rb_sentinel t" and ?T = "Nd cx xl x xr"
  from at have at1: "tree_at t (Nd Red ?T p a) (FR cg u g # fs)" by (simp add: tree_at_left)
  then have at2: "tree_at t (Nd cg u g (Nd Red ?T p a)) fs" by (simp add: tree_at_right)
  note rd = tree_at_reads [OF at1] tree_at_reads [OF at2]
  have px: "rb_parent t x = p" using rd(7) by simp
  have pl: "p \<noteq> ptr ?s u" using tree_at_sides [OF at2] by auto
  from at2 have at3: "tree_at (ngx_rbt_black p t) (Nd cg u g (Nd Black ?T p a)) fs"
    by (rule tree_at_inR) (rule tree_at_steps)
  show ?thesis
  proof (cases "tcolor u")
    case Red
    have "tree_at (ngx_rbt_black (ptr ?s u) (ngx_rbt_black p t))
        (Nd cg (paint Black u) g (Nd Black ?T p a)) fs"
      using at3 by (rule tree_at_inL) (drule tree_at_paint_Black, simp)
    from tree_at_steps(1) [OF this] show ?thesis
      by (rule ins_stepI1 [rotated 2]) (use rd px pl Red in \<open>simp_all add: ins_round_simps\<close>)
  next
    case Black
    let ?t = "mps_rbtree_right_rotate p t"
    from at2 have at4: "tree_at ?t (Nd cg u g (Nd cx xl x (Nd Red xr p a))) fs"
      by (rule tree_at_inR) (rule tree_at_right_rotate)
    then have at5: "tree_at ?t (Nd cx xl x (Nd Red xr p a)) (FR cg u g # fs)"
      by (simp add: tree_at_right)
    have rd': "rb_parent ?t p = x" "rb_parent ?t x = g"
      using tree_at_reads(8) [OF at5] tree_at_reads(8) [OF at4] by simp_all
    from at4 have "tree_at (ngx_rbt_black x ?t) (Nd cg u g (Nd Black xl x (Nd Red xr p a))) fs"
      by (rule tree_at_inR) (rule tree_at_steps)
    from tree_at_left_rotate [OF tree_at_steps(1) [OF this]] show ?thesis
      by (rule ins_stepI2 [rotated 2]) (use rd px pl rd' Black in \<open>simp_all add: ins_round_simps\<close>)
  qed
qed

lemma ins_step_ok:
  assumes at: "tree_at t T (f1 # f2 # fs)" and T: "tcolor T = Red" and c: "fcolor f1 = Red"
  shows "ins_step t T (f1 # f2 # fs)"
proof -
  from T obtain xl x xr where "T = Nd Red xl x xr" by (cases T) auto
  with at c show ?thesis
    by (cases f1; cases f2) (auto intro: ins_step_LL ins_step_RR ins_step_LR ins_step_RL)
qed

lemma up_color:
  assumes "tree_at t T (f # fs)" "T \<noteq> Lf"
  shows "rb_color t (rb_parent t (ptr (rb_sentinel t) T)) = fcolor f"
proof -
  from assms(2) obtain c l a r where T: "T = Nd c l a r" by (cases T) auto
  with assms(1) show ?thesis by (cases f) (auto simp: tree_at_iff)
qed

lemma ins_fix_done: "tcolor T = Red \<Longrightarrow> fs = [] \<or> fcolor (hd fs) = Black \<Longrightarrow> ins_fix T fs = plug T fs"
  by (cases "(T, fs)" rule: ins_fix.cases) auto

text \<open>The loop returns, and the tree it leaves is \<open>ins_fix\<close>.\<close>

lemma rebalance_ok:
  "tree_at t T fs \<Longrightarrow> tcolor T = Red \<Longrightarrow> ctx_c fs \<Longrightarrow>
     \<exists>t'. rbtree_insert_rebalance t (ptr (rb_sentinel t) T) = Some t'
       \<and> represents t' (ins_fix T fs) \<and> kept t' t"
proof (induction "length fs" arbitrary: t T fs rule: less_induct)
  case less
  let ?x = "ptr (rb_sentinel t) T"
  from less.prems(2) have T: "T \<noteq> Lf" by auto
  show ?case
  proof (cases "fs = [] \<or> fcolor (hd fs) = Black")
    case True
    have "\<not> (?x \<noteq> rb_root t \<and> ngx_rbt_is_red t (rb_parent t ?x))"
    proof (cases fs)
      case Nil
      with less.prems(1) show ?thesis using tree_at_root by auto
    next
      case (Cons f gs)
      with True up_color [of t T f gs] less.prems(1) T show ?thesis
        by (simp add: ngx_rbt_is_red_def)
    qed
    then have "rbtree_insert_rebalance t ?x = Some t"
      by (subst rbtree_insert_rebalance.simps) auto
    with less.prems True show ?thesis by (simp add: ins_fix_done represents_plug)
  next
    case False
    then obtain f1 gs where f1: "fs = f1 # gs" "fcolor f1 = Red" by (cases fs) auto
    with less.prems(3) obtain f2 hs where fs: "fs = f1 # f2 # hs" by (cases gs) auto
    have "ins_step t T (f1 # f2 # hs)"
      by (rule ins_step_ok) (use less.prems f1 fs in auto)
    then obtain t' x' where round: "rbtree_insert_round t ?x = (t', x')" and k: "kept t' t"
      and alt: "(\<exists>T'. tcolor T' = Red \<and> x' = ptr (rb_sentinel t) T' \<and> tree_at t' T' hs
               \<and> ins_fix T fs = ins_fix T' hs)
            \<or> represents t' (ins_fix T fs) \<and> rb_color t' (rb_parent t' x') = Black"
      unfolding ins_step_def fs by auto
    have "?x \<noteq> rb_root t" using less.prems(1) tree_at_root fs by blast
    moreover have "ngx_rbt_is_red t (rb_parent t ?x)"
      using less.prems(1) f1 T up_color by (auto simp: ngx_rbt_is_red_def)
    ultimately have unfold: "rbtree_insert_rebalance t ?x = rbtree_insert_rebalance t' x'"
      by (subst rbtree_insert_rebalance.simps) (simp add: round)
    from alt show ?thesis
    proof
      assume "\<exists>T'. tcolor T' = Red \<and> x' = ptr (rb_sentinel t) T' \<and> tree_at t' T' hs
               \<and> ins_fix T fs = ins_fix T' hs"
      then obtain T' where T': "tcolor T' = Red" "x' = ptr (rb_sentinel t) T'" "tree_at t' T' hs"
        "ins_fix T fs = ins_fix T' hs" by blast
      have "\<exists>t''. rbtree_insert_rebalance t' (ptr (rb_sentinel t') T') = Some t''
          \<and> represents t'' (ins_fix T' hs) \<and> kept t'' t'"
        using less.prems(3) fs T' by (intro less.hyps) auto
      with T' k unfold show ?thesis by (auto simp: kept_def)
    next
      assume "represents t' (ins_fix T fs) \<and> rb_color t' (rb_parent t' x') = Black"
      moreover from this have "rbtree_insert_rebalance t' x' = Some t'"
        by (subst rbtree_insert_rebalance.simps) (simp add: ngx_rbt_is_red_def)
      ultimately show ?thesis using k unfold by auto
    qed
  qed
qed

subsection \<open>The descent\<close>

text \<open>
  \<open>before\<close> sends the new node left. When it is monotone along the tree (no node that is to the right
  of the new one is followed by one that is to the left), the descent finds the place between the
  nodes before the new one and those after it.
\<close>

definition splits :: "(off \<Rightarrow> bool) \<Rightarrow> off list \<Rightarrow> bool" where
  "splits goes_left xs \<longleftrightarrow> sorted_wrt (\<lambda>a b. goes_left a \<longrightarrow> goes_left b) xs"

lemma splits_simps [simp]:
  "splits g []"
  "splits g (a # xs) \<longleftrightarrow> (g a \<longrightarrow> (\<forall>b \<in> set xs. g b)) \<and> splits g xs"
  "splits g (xs @ ys) \<longleftrightarrow> splits g xs \<and> splits g ys \<and> (\<forall>a \<in> set xs. g a \<longrightarrow> (\<forall>b \<in> set ys. g b))"
  by (auto simp: splits_def sorted_wrt_append)

lemma path_distinct_simps [simp]:
  "path_distinct []"
  "path_distinct (FL c a r # fs) \<longleftrightarrow> a \<notin> addrs r \<and> a \<notin> path_addrs fs \<and> distinct (inorder r)
     \<and> addrs r \<inter> path_addrs fs = {} \<and> path_distinct fs"
  "path_distinct (FR c l a # fs) \<longleftrightarrow> a \<notin> addrs l \<and> a \<notin> path_addrs fs \<and> distinct (inorder l)
     \<and> addrs l \<inter> path_addrs fs = {} \<and> path_distinct fs"
  by (auto simp: path_distinct_def path_addrs_def)

lemma represents_black_root:
  assumes "represents t T" shows "represents (ngx_rbt_black (rb_root t) t) (paint Black T)"
proof -
  have "rb_root t = ptr (rb_sentinel t) T" using assms by (simp add: represents_def tree_at_iff)
  then show ?thesis using tree_at_paint_Black [of t T "[]"] assms by (simp add: represents_def)
qed

fun is_FL :: "frame \<Rightarrow> bool" where
  "is_FL (FL c a r) \<longleftrightarrow> True"
| "is_FL (FR c l a) \<longleftrightarrow> False"

text \<open>The descent in \<open>T\<close> ends at the empty place below the frames \<open>f # gs\<close>.\<close>

definition slot_at :: "(off \<Rightarrow> bool) \<Rightarrow> rbtree_mem \<Rightarrow> ptree \<Rightarrow> frame \<Rightarrow> frame list \<Rightarrow> bool" where
  "slot_at g t T f gs \<longleftrightarrow>
     rbtree_find_slot g (rb_sentinel t) t (ptr (rb_sentinel t) T) = Some (the (up (f # gs)), is_FL f)
     \<and> T = plug Lf (f # gs)
     \<and> (\<forall>a \<in> set (ctx_pre (f # gs)). \<not> g a) \<and> (\<forall>a \<in> set (ctx_post (f # gs)). g a)"

lemma find_slot_ok:
  assumes "links_ok t q T" "T \<noteq> Lf" "splits g (inorder T)" "rb_sentinel t \<notin> addrs T"
  shows "\<exists>f gs. slot_at g t T f gs"
  using assms
proof (induction T arbitrary: q)
  case (Nd c l a r)
  let ?s = "rb_sentinel t"
  have up: "up (f # gs @ hs) = up (f # gs)" for f gs hs by (cases f) auto
  note rd = Nd.prems
  show ?case
  proof (cases "g a")
    case left: True
    show ?thesis
    proof (cases "l = Lf")
      case True
      then have "slot_at g t (Nd c l a r) (FL c a r) []"
        using left rd by (subst slot_at_def, subst rbtree_find_slot.simps) simp
      then show ?thesis by blast
    next
      case False
      have "links_ok t (Some a) l" "splits g (inorder l)" "?s \<notin> addrs l" using rd by simp_all
      from Nd.IH(1) [OF this(1) False this(2,3)] have "\<exists>f gs. slot_at g t l f gs" .
      then obtain f gs where IH: "slot_at g t l f gs" by blast
      have "rbtree_find_slot g ?s t a = rbtree_find_slot g ?s t (ptr ?s l)"
        using rd left False by (subst rbtree_find_slot.simps) (simp add: ptr_Lf)
      moreover have "f # gs @ [FL c a r] = (f # gs) @ [FL c a r]" by simp
      ultimately have "slot_at g t (Nd c l a r) f (gs @ [FL c a r])"
        using IH left rd(3) by (simp only: slot_at_def plug_append ctx_pre_append ctx_post_append) (auto simp: up)
      then show ?thesis by blast
    qed
  next
    case right: False
    show ?thesis
    proof (cases "r = Lf")
      case True
      then have "slot_at g t (Nd c l a r) (FR c l a) []"
        using right rd by (subst slot_at_def, subst rbtree_find_slot.simps) auto
      then show ?thesis by blast
    next
      case False
      have "links_ok t (Some a) r" "splits g (inorder r)" "?s \<notin> addrs r" using rd by simp_all
      from Nd.IH(2) [OF this(1) False this(2,3)] have "\<exists>f gs. slot_at g t r f gs" .
      then obtain f gs where IH: "slot_at g t r f gs" by blast
      have "rbtree_find_slot g ?s t a = rbtree_find_slot g ?s t (ptr ?s r)"
        using rd right False by (subst rbtree_find_slot.simps) (simp add: ptr_Lf)
      moreover have "\<forall>x \<in> addrs l. \<not> g x" using rd(3) right by auto
      moreover have "f # gs @ [FR c l a] = (f # gs) @ [FR c l a]" by simp
      ultimately have "slot_at g t (Nd c l a r) f (gs @ [FR c l a])"
        using IH right by (simp only: slot_at_def plug_append ctx_pre_append ctx_post_append) (auto simp: up)
      then show ?thesis by blast
    qed
  qed
qed simp

subsection \<open>The whole insertion\<close>

lemma attach_ok:
  assumes "tree_at t Lf (f # fs)" "node \<notin> path_addrs (f # fs)" "node \<noteq> rb_sentinel t"
  shows "tree_at (rbtree_attach (the (up (f # fs))) (is_FL f) node (rb_sentinel t) t)
           (Nd Red Lf node Lf) (f # fs)"
  using assms
  by (cases f) (auto simp: tree_at_iff rbtree_attach_def rbt_color_defs Let_def)

lemma kept_attach: "kept (rbtree_attach a b n s t) t"
  by (simp add: rbtree_attach_def rbt_color_defs Let_def kept_def)

lemma splits_filter:
  assumes "\<forall>a \<in> set xs. \<not> g a" "\<forall>a \<in> set ys. g a"
  shows "filter (\<lambda>a. \<not> g a) (xs @ ys) = xs" "filter g (xs @ ys) = ys"
  using assms by (simp_all add: filter_empty_conv)

lemma rbt_attach:
  "rbt (plug Lf fs) \<Longrightarrow> ctx_c fs \<and> rbt (paint Black (ins_fix (Nd Red Lf a Lf) fs))"
  by (auto simp: rbt_plug intro!: rbt_ins_fix)

theorem insert_ok:
  assumes rep: "represents t T" and rbt: "rbt T"
    and fresh: "node \<notin> addrs T" "node \<noteq> rb_sentinel t"
    and order: "insert_values kd (rb_insert t) = rbtree_insert_below before"
    and mono: "splits (before t node) (inorder T)"
  shows "\<exists>t' T'. mps_rbtree_insert kd t node = Some t' \<and> represents t' T' \<and> rbt T' \<and> kept t' t
      \<and> inorder T' = filter (\<lambda>a. \<not> before t node a) (inorder T) @ node
                     # filter (before t node) (inorder T)"
proof (cases "T = Lf")
  case True
  with rep have root: "rb_root t = rb_sentinel t" "rb_color t (rb_sentinel t) = Black"
    by (auto simp: represents_def tree_at_def)
  with True fresh show ?thesis
    by (auto simp: mps_rbtree_insert_def Let_def represents_def tree_at_def rbt_color_defs kept_def
        intro!: exI [of _ "Nd Black Lf node Lf"])
next
  case False
  let ?s = "rb_sentinel t" and ?g = "before t node"
  from rep have at: "links_ok t None T" "?s \<notin> addrs T" "rb_root t = ptr ?s T"
    by (auto simp: represents_def tree_at_def)
  from find_slot_ok [OF at(1) False mono at(2)] obtain f gs where
    slot: "rbtree_find_slot ?g ?s t (rb_root t) = Some (the (up (f # gs)), is_FL f)"
      "T = plug Lf (f # gs)"
      "\<forall>a \<in> set (ctx_pre (f # gs)). \<not> ?g a" "\<forall>a \<in> set (ctx_post (f # gs)). ?g a"
    by (auto simp: at(3) slot_at_def)
  define t1 where "t1 = rbtree_attach (the (up (f # gs))) (is_FL f) node ?s t"
  have k1: "kept t1 t" by (simp add: t1_def kept_attach)
  have "tree_at t Lf (f # gs)" using rep slot(2) represents_plug by simp
  moreover have "node \<notin> path_addrs (f # gs)" using fresh slot(2) by (simp add: path_addrs_def)
  ultimately have "tree_at t1 (Nd Red Lf node Lf) (f # gs)"
    unfolding t1_def using fresh by (intro attach_ok)
  moreover have ctx: "ctx_c (f # gs)" "rbt (paint Black (ins_fix (Nd Red Lf node Lf) (f # gs)))"
    using rbt_attach [of "f # gs" node] rbt slot(2) by auto
  ultimately obtain t2 where t2: "rbtree_insert_rebalance t1 node = Some t2"
    "represents t2 (ins_fix (Nd Red Lf node Lf) (f # gs))" "kept t2 t1"
    using rebalance_ok [of t1 "Nd Red Lf node Lf" "f # gs"] by auto
  let ?T = "paint Black (ins_fix (Nd Red Lf node Lf) (f # gs))"
  have "represents (ngx_rbt_black (rb_root t2) t2) ?T"
    using t2(2) by (rule represents_black_root)
  moreover have "mps_rbtree_insert kd t node = Some (ngx_rbt_black (rb_root t2) t2)"
    using False at t2(1) slot(1)
    by (simp add: mps_rbtree_insert_def Let_def order rbtree_insert_below_def t1_def ptr_Lf)
  moreover have "kept (ngx_rbt_black (rb_root t2) t2) t"
    using k1 t2(3) by (simp add: kept_def)
  moreover have "inorder ?T = filter (\<lambda>a. \<not> ?g a) (inorder T) @ node # filter ?g (inorder T)"
    using splits_filter [OF slot(3,4)] slot(2) by simp
  ultimately show ?thesis using ctx(2) by blast
qed

end
