(* ===== verification/RBDelete.thy ===== *)
theory RBDelete
  imports RBInsert
begin

text \<open>
  \<^verbatim>\<open>mps_rbtree_delete\<close> on a tree that represents a shape: the removal of the node (or of its
  successor, which then takes its place) leaves a hole, the fixup rounds compute \<open>del_fix\<close> at the
  hole, and the call returns. The fixup climbs from \<open>temp\<close>, which may be the sentinel: then the
  sentinel's parent link is read, and \<open>hole_at\<close> says that it is right. Also the walk of
  \<^verbatim>\<open>mps_rbtree_min\<close> and \<^verbatim>\<open>mps_rbtree_next\<close>.
\<close>

definition hole_at :: "rbtree_mem \<Rightarrow> ptree \<Rightarrow> frame list \<Rightarrow> bool" where
  "hole_at t x fs \<longleftrightarrow> tree_at t x fs
     \<and> (x = Lf \<longrightarrow> fs \<noteq> [] \<longrightarrow> rb_parent t (rb_sentinel t) = the (up fs))"

lemma hole_parent:
  assumes "hole_at t x fs" "fs \<noteq> []"
  shows "rb_parent t (ptr (rb_sentinel t) x) = the (up fs)"
proof -
  from assms(2) obtain p where "up fs = Some p" by (cases fs rule: up.cases) auto
  with assms show ?thesis by (cases x) (auto simp: hole_at_def tree_at_iff)
qed

lemma rotate_parent_sentinel:
  "x \<noteq> rb_sentinel t \<Longrightarrow> rb_right t x \<noteq> rb_sentinel t \<Longrightarrow>
     rb_parent (mps_rbtree_left_rotate x t) (rb_sentinel t) = rb_parent t (rb_sentinel t)"
  "x \<noteq> rb_sentinel t \<Longrightarrow> rb_left t x \<noteq> rb_sentinel t \<Longrightarrow>
     rb_parent (mps_rbtree_right_rotate x t) (rb_sentinel t) = rb_parent t (rb_sentinel t)"
  by (auto simp: mps_rbtree_left_rotate_def mps_rbtree_right_rotate_def rbtree_replace_lr_def
      rbtree_replace_rl_def Let_def)

lemma kept_copy_color [simp]: "kept (ngx_rbt_copy_color a b t') t = kept t' t"
  by (simp add: kept_def ngx_rbt_copy_color_def)

lemma copy_color_sel [simp]:
  "rb_sentinel (ngx_rbt_copy_color a b t) = rb_sentinel t" "rb_left (ngx_rbt_copy_color a b t) = rb_left t"
  "rb_right (ngx_rbt_copy_color a b t) = rb_right t" "rb_parent (ngx_rbt_copy_color a b t) = rb_parent t"
  "rb_root (ngx_rbt_copy_color a b t) = rb_root t"
  by (simp_all add: ngx_rbt_copy_color_def)

lemma tree_at_copy_color:
  "tree_at t (Nd c l a r) fs \<Longrightarrow> rb_color t b = d \<Longrightarrow> tree_at (ngx_rbt_copy_color a b t) (Nd d l a r) fs"
  by (simp add: ngx_rbt_copy_color_def tree_at_paint)

lemma color_sel:
  "rb_color (ngx_rbt_red a t) = (rb_color t)(a := Red)"
  "rb_color (ngx_rbt_black a t) = (rb_color t)(a := Black)"
  by (simp_all add: rbt_color_defs)

subsection \<open>The fixup rounds, with the hole on the left\<close>

lemma red_left:
  assumes at: "tree_at t (Nd c x p (Nd Red a v wr)) fs" and a: "a \<noteq> Lf"
    and par: "rb_parent t (ptr (rb_sentinel t) x) = p"
  shows "\<exists>t'. rbtree_delete_red_left t (ptr (rb_sentinel t) x) p v = (t', p, ptr (rb_sentinel t) a)
      \<and> tree_at t' (Nd Red x p a) (FL Black v wr # fs)
      \<and> rb_parent t' (ptr (rb_sentinel t) x) = p \<and> kept t' t"
proof -
  let ?u = "ngx_rbt_red p (ngx_rbt_black v t)"
  let ?t = "mps_rbtree_left_rotate p ?u"
  from at have "tree_at (ngx_rbt_black v t) (Nd c x p (Nd Black a v wr)) fs"
    by (rule tree_at_inR) (rule tree_at_steps)
  then have "tree_at ?u (Nd Red x p (Nd Black a v wr)) fs" by (rule tree_at_steps)
  then have at1: "tree_at ?t (Nd Black (Nd Red x p a) v wr) fs" by (rule tree_at_left_rotate)
  then have at2: "tree_at ?t (Nd Red x p a) (FL Black v wr # fs)" by (simp add: tree_at_left)
  have px: "rb_parent ?t (ptr (rb_sentinel t) x) = p"
  proof (cases "x = Lf")
    case True
    have "v \<noteq> rb_sentinel t" "p \<noteq> rb_sentinel t" "rb_right t p = v"
      using at by (auto simp: tree_at_iff)
    with True par rotate_parent_sentinel(1) [of p ?u] show ?thesis by simp
  next
    case False
    with tree_at_reads(7) [OF at2] show ?thesis by simp
  qed
  have "rbtree_delete_red_left t (ptr (rb_sentinel t) x) p v = (?t, p, ptr (rb_sentinel t) a)"
    using tree_at_reads [OF at] tree_at_reads [OF at2] px
    by (simp add: rbtree_delete_red_left_def ngx_rbt_is_red_def Let_def)
  with at2 px show ?thesis by simp
qed

lemma black_left_recolour:
  assumes at: "tree_at t (Nd c x p (Nd Black a y b)) fs" and "tcolor a = Black" "tcolor b = Black"
  shows "\<exists>t'. rbtree_delete_black_left t temp p y = (t', p)
      \<and> tree_at t' (Nd c x p (Nd Red a y b)) fs \<and> kept t' t"
proof -
  from at have "tree_at t (Nd Black a y b) (FR c x p # fs)" by (simp add: tree_at_right)
  note rd = tree_at_reads [OF this]
  from at have "tree_at (ngx_rbt_red y t) (Nd c x p (Nd Red a y b)) fs"
    by (rule tree_at_inR) (rule tree_at_steps)
  with rd assms(2,3) show ?thesis
    by (simp add: rbtree_delete_black_left_def rbt_color_defs kept_def)
qed

lemma black_left_outer:
  assumes at: "tree_at t (Nd c x p (Nd Black a y (Nd Red b1 z b2))) fs"
  shows "\<exists>t'. rbtree_delete_black_left t temp p y = (t', rb_root t')
      \<and> tree_at t' (Nd c (Nd Black x p a) y (Nd Black b1 z b2)) fs \<and> kept t' t"
proof -
  from at have at1: "tree_at t (Nd Black a y (Nd Red b1 z b2)) (FR c x p # fs)" by (simp add: tree_at_right)
  note rd = tree_at_reads [OF at1] tree_at_reads [OF at]
  let ?t = "ngx_rbt_black z (ngx_rbt_black p (ngx_rbt_copy_color y p t))"
  from at have "tree_at (ngx_rbt_copy_color y p t) (Nd c x p (Nd c a y (Nd Red b1 z b2))) fs"
    by (rule tree_at_inR) (rule tree_at_copy_color, simp_all add: rd)
  then have "tree_at (ngx_rbt_black p (ngx_rbt_copy_color y p t)) (Nd Black x p (Nd c a y (Nd Red b1 z b2))) fs"
    by (rule tree_at_steps)
  then have "tree_at ?t (Nd Black x p (Nd c a y (Nd Black b1 z b2))) fs"
    by (rule tree_at_inR, elim tree_at_inR) (rule tree_at_steps)
  then have "tree_at (mps_rbtree_left_rotate p ?t) (Nd c (Nd Black x p a) y (Nd Black b1 z b2)) fs"
    by (rule tree_at_left_rotate)
  moreover have "rbtree_delete_black_left t temp p y
      = (mps_rbtree_left_rotate p ?t, rb_root (mps_rbtree_left_rotate p ?t))"
    using rd by (simp add: rbtree_delete_black_left_def ngx_rbt_is_black_def ngx_rbt_is_red_def Let_def)
  ultimately show ?thesis by simp
qed

lemma black_left_inner:
  assumes at: "tree_at t (Nd c x p (Nd Black (Nd Red a1 z a2) y b)) fs" and b: "tcolor b = Black"
    and par: "rb_parent t (ptr (rb_sentinel t) x) = p"
  shows "\<exists>t'. rbtree_delete_black_left t (ptr (rb_sentinel t) x) p y = (t', rb_root t')
      \<and> tree_at t' (Nd c (Nd Black x p a1) z (Nd Black a2 y b)) fs \<and> kept t' t"
proof -
  let ?s = "rb_sentinel t"
  from at have at1: "tree_at t (Nd Black (Nd Red a1 z a2) y b) (FR c x p # fs)" by (simp add: tree_at_right)
  note rd = tree_at_reads [OF at1] tree_at_reads [OF at]
  let ?u = "ngx_rbt_red y (ngx_rbt_black z t)"
  let ?v = "mps_rbtree_right_rotate y ?u"
  let ?t = "ngx_rbt_black y (ngx_rbt_black p (ngx_rbt_copy_color z p ?v))"
  from at1 have "tree_at (ngx_rbt_black z t) (Nd Black (Nd Black a1 z a2) y b) (FR c x p # fs)"
    by (rule tree_at_inL) (rule tree_at_steps)
  then have at2: "tree_at ?u (Nd Red (Nd Black a1 z a2) y b) (FR c x p # fs)" by (rule tree_at_steps)
  then have at3: "tree_at ?v (Nd Black a1 z (Nd Red a2 y b)) (FR c x p # fs)" by (rule tree_at_right_rotate)
  then have at4: "tree_at ?v (Nd c x p (Nd Black a1 z (Nd Red a2 y b))) fs" by (simp add: tree_at_right)
  note rd2 = tree_at_reads [OF at3] tree_at_reads [OF at4]
  have px: "rb_parent ?v (ptr ?s x) = p"
  proof (cases "x = Lf")
    case True
    have "y \<noteq> ?s" "z \<noteq> ?s" "rb_left t y = z" using at by (auto simp: tree_at_iff)
    with True par rotate_parent_sentinel(2) [of y ?u] show ?thesis by simp
  next
    case False
    with rd2 show ?thesis by simp
  qed
  from at4 have "tree_at (ngx_rbt_copy_color z p ?v) (Nd c x p (Nd c a1 z (Nd Red a2 y b))) fs"
    by (rule tree_at_inR) (rule tree_at_copy_color, simp_all only: rd2)
  then have "tree_at (ngx_rbt_black p (ngx_rbt_copy_color z p ?v)) (Nd Black x p (Nd c a1 z (Nd Red a2 y b))) fs"
    by (rule tree_at_steps)
  then have "tree_at ?t (Nd Black x p (Nd c a1 z (Nd Black a2 y b))) fs"
    by (rule tree_at_inR, elim tree_at_inR) (rule tree_at_steps)
  then have "tree_at (mps_rbtree_left_rotate p ?t) (Nd c (Nd Black x p a1) z (Nd Black a2 y b)) fs"
    by (rule tree_at_left_rotate)
  moreover have "rbtree_delete_black_left t (ptr ?s x) p y
      = (mps_rbtree_left_rotate p ?t, rb_root (mps_rbtree_left_rotate p ?t))"
    using rd(1-5) rd(6) b px rd2(2,3) rd2(11)
    by (simp add: rbtree_delete_black_left_def ngx_rbt_is_black_def ngx_rbt_is_red_def Let_def)
  ultimately show ?thesis by simp
qed

subsection \<open>The fixup rounds, with the hole on the right\<close>

lemma red_right:
  assumes at: "tree_at t (Nd c (Nd Red wl v a) p x) fs" and a: "a \<noteq> Lf"
    and par: "rb_parent t (ptr (rb_sentinel t) x) = p"
  shows "\<exists>t'. rbtree_delete_red_right t (ptr (rb_sentinel t) x) p v = (t', p, ptr (rb_sentinel t) a)
      \<and> tree_at t' (Nd Red a p x) (FR Black wl v # fs)
      \<and> rb_parent t' (ptr (rb_sentinel t) x) = p \<and> kept t' t"
proof -
  let ?u = "ngx_rbt_red p (ngx_rbt_black v t)"
  let ?t = "mps_rbtree_right_rotate p ?u"
  from at have "tree_at (ngx_rbt_black v t) (Nd c (Nd Black wl v a) p x) fs"
    by (rule tree_at_inL) (rule tree_at_steps)
  then have "tree_at ?u (Nd Red (Nd Black wl v a) p x) fs" by (rule tree_at_steps)
  then have at1: "tree_at ?t (Nd Black wl v (Nd Red a p x)) fs" by (rule tree_at_right_rotate)
  then have at2: "tree_at ?t (Nd Red a p x) (FR Black wl v # fs)" by (simp add: tree_at_right)
  have px: "rb_parent ?t (ptr (rb_sentinel t) x) = p"
  proof (cases "x = Lf")
    case True
    have "v \<noteq> rb_sentinel t" "p \<noteq> rb_sentinel t" "rb_left t p = v"
      using at by (auto simp: tree_at_iff)
    with True par rotate_parent_sentinel(2) [of p ?u] show ?thesis by simp
  next
    case False
    with tree_at_reads(8) [OF at2] show ?thesis by simp
  qed
  have "rbtree_delete_red_right t (ptr (rb_sentinel t) x) p v = (?t, p, ptr (rb_sentinel t) a)"
    using tree_at_reads [OF at] tree_at_reads [OF at2] px
    by (simp add: rbtree_delete_red_right_def ngx_rbt_is_red_def Let_def)
  with at2 px show ?thesis by simp
qed

lemma black_right_recolour:
  assumes at: "tree_at t (Nd c (Nd Black b y a) p x) fs" and "tcolor a = Black" "tcolor b = Black"
  shows "\<exists>t'. rbtree_delete_black_right t temp p y = (t', p)
      \<and> tree_at t' (Nd c (Nd Red b y a) p x) fs \<and> kept t' t"
proof -
  from at have "tree_at t (Nd Black b y a) (FL c p x # fs)" by (simp add: tree_at_left)
  note rd = tree_at_reads [OF this]
  from at have "tree_at (ngx_rbt_red y t) (Nd c (Nd Red b y a) p x) fs"
    by (rule tree_at_inL) (rule tree_at_steps)
  with rd assms(2,3) show ?thesis
    by (simp add: rbtree_delete_black_right_def rbt_color_defs kept_def)
qed

lemma black_right_outer:
  assumes at: "tree_at t (Nd c (Nd Black (Nd Red b1 z b2) y a) p x) fs"
  shows "\<exists>t'. rbtree_delete_black_right t temp p y = (t', rb_root t')
      \<and> tree_at t' (Nd c (Nd Black b1 z b2) y (Nd Black a p x)) fs \<and> kept t' t"
proof -
  from at have at1: "tree_at t (Nd Black (Nd Red b1 z b2) y a) (FL c p x # fs)" by (simp add: tree_at_left)
  note rd = tree_at_reads [OF at1] tree_at_reads [OF at]
  let ?t = "ngx_rbt_black z (ngx_rbt_black p (ngx_rbt_copy_color y p t))"
  from at have "tree_at (ngx_rbt_copy_color y p t) (Nd c (Nd c (Nd Red b1 z b2) y a) p x) fs"
    by (rule tree_at_inL) (rule tree_at_copy_color, simp_all add: rd)
  then have "tree_at (ngx_rbt_black p (ngx_rbt_copy_color y p t)) (Nd Black (Nd c (Nd Red b1 z b2) y a) p x) fs"
    by (rule tree_at_steps)
  then have "tree_at ?t (Nd Black (Nd c (Nd Black b1 z b2) y a) p x) fs"
    by (rule tree_at_inL, elim tree_at_inL) (rule tree_at_steps)
  then have "tree_at (mps_rbtree_right_rotate p ?t) (Nd c (Nd Black b1 z b2) y (Nd Black a p x)) fs"
    by (rule tree_at_right_rotate)
  moreover have "rbtree_delete_black_right t temp p y
      = (mps_rbtree_right_rotate p ?t, rb_root (mps_rbtree_right_rotate p ?t))"
    using rd by (simp add: rbtree_delete_black_right_def ngx_rbt_is_black_def ngx_rbt_is_red_def Let_def)
  ultimately show ?thesis by simp
qed

lemma black_right_inner:
  assumes at: "tree_at t (Nd c (Nd Black b y (Nd Red a1 z a2)) p x) fs" and b: "tcolor b = Black"
    and par: "rb_parent t (ptr (rb_sentinel t) x) = p"
  shows "\<exists>t'. rbtree_delete_black_right t (ptr (rb_sentinel t) x) p y = (t', rb_root t')
      \<and> tree_at t' (Nd c (Nd Black b y a1) z (Nd Black a2 p x)) fs \<and> kept t' t"
proof -
  let ?s = "rb_sentinel t"
  from at have at1: "tree_at t (Nd Black b y (Nd Red a1 z a2)) (FL c p x # fs)" by (simp add: tree_at_left)
  note rd = tree_at_reads [OF at1] tree_at_reads [OF at]
  let ?u = "ngx_rbt_red y (ngx_rbt_black z t)"
  let ?v = "mps_rbtree_left_rotate y ?u"
  let ?t = "ngx_rbt_black y (ngx_rbt_black p (ngx_rbt_copy_color z p ?v))"
  from at1 have "tree_at (ngx_rbt_black z t) (Nd Black b y (Nd Black a1 z a2)) (FL c p x # fs)"
    by (rule tree_at_inR) (rule tree_at_steps)
  then have "tree_at ?u (Nd Red b y (Nd Black a1 z a2)) (FL c p x # fs)" by (rule tree_at_steps)
  then have at3: "tree_at ?v (Nd Black (Nd Red b y a1) z a2) (FL c p x # fs)" by (rule tree_at_left_rotate)
  then have at4: "tree_at ?v (Nd c (Nd Black (Nd Red b y a1) z a2) p x) fs" by (simp add: tree_at_left)
  note rd2 = tree_at_reads [OF at3] tree_at_reads [OF at4]
  have px: "rb_parent ?v (ptr ?s x) = p"
  proof (cases "x = Lf")
    case True
    have "y \<noteq> ?s" "z \<noteq> ?s" "rb_right t y = z" using at by (auto simp: tree_at_iff)
    with True par rotate_parent_sentinel(1) [of y ?u] show ?thesis by simp
  next
    case False
    with rd2 show ?thesis by simp
  qed
  from at4 have "tree_at (ngx_rbt_copy_color z p ?v) (Nd c (Nd c (Nd Red b y a1) z a2) p x) fs"
    by (rule tree_at_inL) (rule tree_at_copy_color, simp_all only: rd2)
  then have "tree_at (ngx_rbt_black p (ngx_rbt_copy_color z p ?v)) (Nd Black (Nd c (Nd Red b y a1) z a2) p x) fs"
    by (rule tree_at_steps)
  then have "tree_at ?t (Nd Black (Nd c (Nd Black b y a1) z a2) p x) fs"
    by (rule tree_at_inL, elim tree_at_inL) (rule tree_at_steps)
  then have "tree_at (mps_rbtree_right_rotate p ?t) (Nd c (Nd Black b y a1) z (Nd Black a2 p x)) fs"
    by (rule tree_at_right_rotate)
  moreover have "rbtree_delete_black_right t (ptr ?s x) p y
      = (mps_rbtree_right_rotate p ?t, rb_root (mps_rbtree_right_rotate p ?t))"
    using rd(1-5) rd(6) b px rd2(2,3) rd2(10)
    by (simp add: rbtree_delete_black_right_def ngx_rbt_is_black_def ngx_rbt_is_red_def Let_def)
  ultimately show ?thesis by simp
qed

subsection \<open>The fixup loop\<close>

text \<open>
  One round: either the hole moves up or gets a red node, with the same \<open>del_fix\<close>, or the tree is the result and
  \<open>temp\<close> is the root, which ends the loop.
\<close>

definition del_goal :: "rbtree_mem \<Rightarrow> ptree \<Rightarrow> frame list \<Rightarrow> bool" where
  "del_goal t x fs \<longleftrightarrow> hole_at t x fs \<and> tcolor (del_fix x fs) = Black
     \<and> (tcolor x = Black \<longrightarrow> ctx_h (Suc (bheight x)) fs \<and> ctx_c fs)"

definition del_step :: "nat \<Rightarrow> rbtree_mem \<Rightarrow> rbtree_mem \<Rightarrow> off \<Rightarrow> ptree \<Rightarrow> frame list \<Rightarrow> bool" where
  "del_step n t t' temp' x fs \<longleftrightarrow> kept t' t
     \<and> ((\<exists>x' fs'. (tcolor x' = Red \<or> length fs' < n) \<and> temp' = ptr (rb_sentinel t) x' \<and> del_goal t' x' fs'
            \<and> del_fix x fs = del_fix x' fs')
        \<or> represents t' (del_fix x fs) \<and> temp' = rb_root t')"

lemma hole_atI: "tree_at t (Nd c l a r) fs \<Longrightarrow> hole_at t (Nd c l a r) fs"
  by (simp add: hole_at_def)

lemma del_fix_red: "tcolor x = Red \<Longrightarrow> del_fix x fs = plug (paint Black x) fs"
  by (cases "(x, fs)" rule: del_fix.cases) auto

lemma del_step_black_left:
  assumes at: "tree_at t (Nd c x p (Nd Black a y b)) fs" and par: "rb_parent t (ptr (rb_sentinel t) x) = p"
    and x: "tcolor x = Black" and ctx: "ctx_h (Suc (bheight x)) (FL c p (Nd Black a y b) # fs)"
    "ctx_c (FL c p (Nd Black a y b) # fs)" and blk: "tcolor (del_fix x (FL c p (Nd Black a y b) # fs)) = Black"
    and n: "c = Black \<longrightarrow> length fs < n"
  shows "\<exists>t' temp'. rbtree_delete_black_left t (ptr (rb_sentinel t) x) p y = (t', temp')
      \<and> del_step n t t' temp' x (FL c p (Nd Black a y b) # fs)"
proof (cases "tcolor a = Black \<and> tcolor b = Black")
  case True
  then obtain t' where t': "rbtree_delete_black_left t (ptr (rb_sentinel t) x) p y = (t', p)"
    "tree_at t' (Nd c x p (Nd Red a y b)) fs" "kept t' t"
    using black_left_recolour [OF at] by blast
  have e: "del_fix x (FL c p (Nd Black a y b) # fs) = del_fix (Nd c x p (Nd Red a y b)) fs"
    using True x by (cases c) (simp_all add: del_fix_red)
  have "del_goal t' (Nd c x p (Nd Red a y b)) fs"
    using t'(2) blk ctx e by (auto simp: del_goal_def intro: hole_atI)
  with t' e n show ?thesis by (cases c) (fastforce simp: del_step_def)+
next
  case False
  show ?thesis
  proof (cases "tcolor b")
    case Red
    then obtain b1 z b2 where "b = Nd Red b1 z b2" by (cases b) auto
    with black_left_outer [of t c x p a y b1 z b2 fs "ptr (rb_sentinel t) x"] at x show ?thesis
      by (fastforce simp: del_step_def represents_plug)
  next
    case b: Black
    with False obtain a1 z a2 where a: "a = Nd Red a1 z a2" by (cases a) auto
    from b have "del_rot_L c x p a y b = Nd c (Nd Black x p a1) z (Nd Black a2 y b)"
      by (cases b) (auto simp: a)
    with black_left_inner [OF at [unfolded a] b par] x a False show ?thesis
      by (fastforce simp: del_step_def represents_plug)
  qed
qed

lemma del_step_black_right:
  assumes at: "tree_at t (Nd c (Nd Black b y a) p x) fs" and par: "rb_parent t (ptr (rb_sentinel t) x) = p"
    and x: "tcolor x = Black" and ctx: "ctx_h (Suc (bheight x)) (FR c (Nd Black b y a) p # fs)"
    "ctx_c (FR c (Nd Black b y a) p # fs)" and blk: "tcolor (del_fix x (FR c (Nd Black b y a) p # fs)) = Black"
    and n: "c = Black \<longrightarrow> length fs < n"
  shows "\<exists>t' temp'. rbtree_delete_black_right t (ptr (rb_sentinel t) x) p y = (t', temp')
      \<and> del_step n t t' temp' x (FR c (Nd Black b y a) p # fs)"
proof (cases "tcolor a = Black \<and> tcolor b = Black")
  case True
  then obtain t' where t': "rbtree_delete_black_right t (ptr (rb_sentinel t) x) p y = (t', p)"
    "tree_at t' (Nd c (Nd Red b y a) p x) fs" "kept t' t"
    using black_right_recolour [OF at] by blast
  have e: "del_fix x (FR c (Nd Black b y a) p # fs) = del_fix (Nd c (Nd Red b y a) p x) fs"
    using True x by (cases c) (simp_all add: del_fix_red)
  have "del_goal t' (Nd c (Nd Red b y a) p x) fs"
    using t'(2) blk ctx e by (auto simp: del_goal_def intro: hole_atI)
  with t' e n show ?thesis by (cases c) (fastforce simp: del_step_def)+
next
  case False
  show ?thesis
  proof (cases "tcolor b")
    case Red
    then obtain b1 z b2 where "b = Nd Red b1 z b2" by (cases b) auto
    with black_right_outer [of t c b1 z b2 y a p x fs "ptr (rb_sentinel t) x"] at x show ?thesis
      by (fastforce simp: del_step_def represents_plug)
  next
    case b: Black
    with False obtain a1 z a2 where a: "a = Nd Red a1 z a2" by (cases a) auto
    from b have "del_rot_R c b y a p x = Nd c (Nd Black b y a1) z (Nd Black a2 p x)"
      by (cases b) (auto simp: a)
    with black_right_inner [OF at [unfolded a] b par] x a False show ?thesis
      by (fastforce simp: del_step_def represents_plug)
  qed
qed

lemma del_step_left:
  assumes goal: "del_goal t x (FL c p w # fs)" and x: "tcolor x = Black"
  shows "\<exists>t' temp'. rbtree_delete_round t (ptr (rb_sentinel t) x) = (t', temp')
      \<and> del_step (Suc (length fs)) t t' temp' x (FL c p w # fs)"
proof -
  let ?s = "rb_sentinel t" and ?fs = "FL c p w # fs"
  from goal x have hole: "hole_at t x ?fs" and blk: "tcolor (del_fix x ?fs) = Black"
    and ctx: "ctx_h (Suc (bheight x)) ?fs" "ctx_c ?fs" by (auto simp: del_goal_def)
  from hole have at: "tree_at t (Nd c x p w) fs" by (simp add: hole_at_def tree_at_left)
  have par: "rb_parent t (ptr ?s x) = p" using hole_parent [OF hole] by simp
  note rd = tree_at_reads [OF at]
  have round: "rbtree_delete_round t (ptr ?s x) =
      (case rbtree_delete_red_left t (ptr ?s x) p (ptr ?s w) of (t, temp_parent, w) \<Rightarrow>
         rbtree_delete_black_left t (ptr ?s x) temp_parent w)"
    using par rd by (simp add: rbtree_delete_round_def)
  from ctx obtain cw a y b where w: "w = Nd cw a y b" by (cases w) auto
  show ?thesis
  proof (cases cw)
    case Black
    have "rbtree_delete_black_left t (ptr ?s x) p y = rbtree_delete_round t (ptr ?s x)"
      using rd w Black by (simp add: round rbtree_delete_red_left_def ngx_rbt_is_red_def)
    with del_step_black_left [of t c x p a y b fs "Suc (length fs)"] at par x ctx blk w Black
    show ?thesis by simp
  next
    case Red
    with ctx w obtain a1 y1 b1 where a: "a = Nd Black a1 y1 b1" by (cases a) (auto split: if_splits)
    from red_left [of t c x p a y b fs] at w Red a par obtain t1 where
      t1: "rbtree_delete_red_left t (ptr ?s x) p y = (t1, p, y1)"
        "tree_at t1 (Nd Red x p a) (FL Black y b # fs)" "rb_parent t1 (ptr ?s x) = p" "kept t1 t"
      by auto
    let ?gs = "FL Red p a # FL Black y b # fs"
    have e: "del_fix x ?fs = del_fix x ?gs" using x w Red a by simp
    have "ctx_h (Suc (bheight x)) ?gs" "ctx_c ?gs" using ctx w Red a by (auto split: if_splits)
    then have "\<exists>t' temp'. rbtree_delete_black_left t1 (ptr (rb_sentinel t1) x) p y1 = (t', temp')
        \<and> del_step (Suc (length fs)) t1 t' temp' x ?gs"
      using t1 x blk e unfolding a by (intro del_step_black_left) (simp_all add: kept_def)
    then obtain t' temp' where t': "rbtree_delete_black_left t1 (ptr ?s x) p y1 = (t', temp')"
        "del_step (Suc (length fs)) t1 t' temp' x ?gs" using t1(4) by (auto simp: kept_def)
    have "del_step (Suc (length fs)) t t' temp' x ?fs"
      using t'(2) t1(4) e kept_trans by (auto simp: del_step_def kept_def)
    moreover have "rbtree_delete_round t (ptr ?s x) = (t', temp')"
      using t1(1) t'(1) w by (simp add: round)
    ultimately show ?thesis by blast
  qed
qed

lemma del_step_right:
  assumes goal: "del_goal t x (FR c w p # fs)" and x: "tcolor x = Black"
  shows "\<exists>t' temp'. rbtree_delete_round t (ptr (rb_sentinel t) x) = (t', temp')
      \<and> del_step (Suc (length fs)) t t' temp' x (FR c w p # fs)"
proof -
  let ?s = "rb_sentinel t" and ?fs = "FR c w p # fs"
  from goal x have hole: "hole_at t x ?fs" and blk: "tcolor (del_fix x ?fs) = Black"
    and ctx: "ctx_h (Suc (bheight x)) ?fs" "ctx_c ?fs" by (auto simp: del_goal_def)
  from hole have at: "tree_at t (Nd c w p x) fs" by (simp add: hole_at_def tree_at_right)
  have par: "rb_parent t (ptr ?s x) = p" using hole_parent [OF hole] by simp
  from ctx obtain cw a y b where w: "w = Nd cw b y a" by (cases w) auto
  note rd = tree_at_reads [OF at]
  have round: "rbtree_delete_round t (ptr ?s x) =
      (case rbtree_delete_red_right t (ptr ?s x) p (ptr ?s w) of (t, temp_parent, w) \<Rightarrow>
         rbtree_delete_black_right t (ptr ?s x) temp_parent w)"
    using par rd tree_at_sides [OF at] w by (auto simp: rbtree_delete_round_def)
  show ?thesis
  proof (cases cw)
    case Black
    have "rbtree_delete_black_right t (ptr ?s x) p y = rbtree_delete_round t (ptr ?s x)"
      using rd w Black by (simp add: round rbtree_delete_red_right_def ngx_rbt_is_red_def)
    with del_step_black_right [of t c b y a p x fs "Suc (length fs)"] at par x ctx blk w Black
    show ?thesis by simp
  next
    case Red
    with ctx w obtain a1 y1 b1 where a: "a = Nd Black b1 y1 a1" by (cases a) (auto split: if_splits)
    from red_right [of t c b y a p x fs] at w Red a par obtain t1 where
      t1: "rbtree_delete_red_right t (ptr ?s x) p y = (t1, p, y1)"
        "tree_at t1 (Nd Red a p x) (FR Black b y # fs)" "rb_parent t1 (ptr ?s x) = p" "kept t1 t"
      by auto
    let ?gs = "FR Red a p # FR Black b y # fs"
    have e: "del_fix x ?fs = del_fix x ?gs" using x w Red a by simp
    have "ctx_h (Suc (bheight x)) ?gs" "ctx_c ?gs" using ctx w Red a by (auto split: if_splits)
    then have "\<exists>t' temp'. rbtree_delete_black_right t1 (ptr (rb_sentinel t1) x) p y1 = (t', temp')
        \<and> del_step (Suc (length fs)) t1 t' temp' x ?gs"
      using t1 x blk e unfolding a by (intro del_step_black_right) (simp_all add: kept_def)
    then obtain t' temp' where t': "rbtree_delete_black_right t1 (ptr ?s x) p y1 = (t', temp')"
        "del_step (Suc (length fs)) t1 t' temp' x ?gs" using t1(4) by (auto simp: kept_def)
    have "del_step (Suc (length fs)) t t' temp' x ?fs"
      using t'(2) t1(4) e kept_trans by (auto simp: del_step_def kept_def)
    moreover have "rbtree_delete_round t (ptr ?s x) = (t', temp')"
      using t1(1) t'(1) w by (simp add: round)
    ultimately show ?thesis by blast
  qed
qed

lemma del_step_ok:
  assumes "del_goal t x fs" "tcolor x = Black" "fs \<noteq> []"
  shows "\<exists>t' temp'. rbtree_delete_round t (ptr (rb_sentinel t) x) = (t', temp')
      \<and> del_step (length fs) t t' temp' x fs"
proof (cases fs)
  case (Cons f gs)
  with assms show ?thesis by (cases f) (simp_all add: del_step_left del_step_right)
qed (use assms in simp)

text \<open>The loop returns, and the tree it leaves is \<open>del_fix\<close>.\<close>

lemma fixup_ok:
  "del_goal t x fs \<Longrightarrow> \<exists>t'. rbtree_delete_fixup t (ptr (rb_sentinel t) x) = Some t'
      \<and> represents t' (del_fix x fs) \<and> kept t' t"
proof (induction "if tcolor x = Red then 0 else Suc (length fs)" arbitrary: t x fs rule: less_induct)
  case less
  let ?x = "ptr (rb_sentinel t) x"
  from less.prems have at: "tree_at t x fs" by (simp add: del_goal_def hole_at_def)
  show ?case
  proof (cases "fs = [] \<or> tcolor x = Red")
    case True
    have "?x = rb_root t \<or> \<not> ngx_rbt_is_black t ?x"
      using True tree_at_root [OF at] tree_at_color [OF at] by (auto simp: rbt_color_defs)
    then have "rbtree_delete_fixup t ?x = Some (ngx_rbt_black ?x t)"
      by (subst rbtree_delete_fixup.simps) auto
    moreover have "represents (ngx_rbt_black ?x t) (del_fix x fs)"
      using True tree_at_paint_Black [OF at] by (auto simp: represents_plug del_fix_red)
        (simp add: represents_def)
    ultimately show ?thesis by simp
  next
    case False
    then have x: "tcolor x = Black" and fs: "fs \<noteq> []" by auto
    from del_step_ok [OF less.prems x fs] obtain t' temp' where
      round: "rbtree_delete_round t ?x = (t', temp')" and step: "del_step (length fs) t t' temp' x fs" by auto
    have unfold: "rbtree_delete_fixup t ?x = rbtree_delete_fixup t' temp'"
      using tree_at_root [OF at] tree_at_color [OF at] x fs
      by (subst rbtree_delete_fixup.simps) (simp add: round rbt_color_defs)
    from step have k: "kept t' t" by (simp add: del_step_def)
    from step consider
        (up) x' fs' where "tcolor x' = Red \<or> length fs' < length fs" "temp' = ptr (rb_sentinel t) x'"
          "del_goal t' x' fs'" "del_fix x fs = del_fix x' fs'"
      | (fin) "represents t' (del_fix x fs)" "temp' = rb_root t'"
      unfolding del_step_def by blast
    then show ?thesis
    proof cases
      case up
      have "\<exists>t''. rbtree_delete_fixup t' (ptr (rb_sentinel t') x') = Some t''
          \<and> represents t'' (del_fix x' fs') \<and> kept t'' t'"
        using up(1,3) x by (intro less.hyps) auto
      with up(2,4) k unfold show ?thesis by (auto simp: kept_def)
    next
      case fin
      have "rbtree_delete_fixup t' temp' = Some (ngx_rbt_black (rb_root t') t')"
        using fin(2) by (subst rbtree_delete_fixup.simps) simp
      moreover have "tcolor (del_fix x fs) = Black" using less.prems by (simp add: del_goal_def)
      ultimately show ?thesis
        using represents_black_root [OF fin(1)] k unfold by (simp add: paint_id)
    qed
  qed
qed

subsection \<open>Minimum and successor\<close>

lemma focus: "a \<in> addrs T \<Longrightarrow> \<exists>c l r fs. T = plug (Nd c l a r) fs"
proof (induction T)
  case (Nd c l b r)
  then consider "a = b" | "a \<in> addrs l" | "a \<in> addrs r" by auto
  then show ?case
  proof cases
    case 1
    then show ?thesis by (metis plug.simps(1))
  next
    case 2
    with Nd.IH(1) obtain d l' r' fs where "l = plug (Nd d l' a r') fs" by blast
    then have "Nd c l b r = plug (Nd d l' a r') (fs @ [FL c b r])" by simp
    then show ?thesis by blast
  next
    case 3
    with Nd.IH(2) obtain d l' r' fs where "r = plug (Nd d l' a r') fs" by blast
    then have "Nd c l b r = plug (Nd d l' a r') (fs @ [FR c l b])" by simp
    then show ?thesis by blast
  qed
qed simp

lemma min_ok:
  "links_ok t q T \<Longrightarrow> T \<noteq> Lf \<Longrightarrow> rb_sentinel t \<notin> addrs T \<Longrightarrow>
     \<exists>c a R gs. mps_rbtree_min t (ptr (rb_sentinel t) T) (rb_sentinel t) = Some a
       \<and> T = plug (Nd c Lf a R) gs \<and> ctx_pre gs = [] \<and> list_all is_FL gs"
proof (induction T arbitrary: q)
  case (Nd c l a r)
  show ?case
  proof (cases "l = Lf")
    case True
    with Nd.prems have "mps_rbtree_min t a (rb_sentinel t) = Some a"
      by (subst mps_rbtree_min.simps) simp
    with True show ?thesis by (auto intro!: exI [of _ c] exI [of _ r] exI [of _ "[]"])
  next
    case False
    from Nd.prems have "links_ok t (Some a) l" "rb_sentinel t \<notin> addrs l" by auto
    from Nd.IH(1) [OF this(1) False this(2)] obtain d b R gs where
      IH: "mps_rbtree_min t (ptr (rb_sentinel t) l) (rb_sentinel t) = Some b"
        "l = plug (Nd d Lf b R) gs" "ctx_pre gs = []" "list_all is_FL gs" by blast
    have "mps_rbtree_min t a (rb_sentinel t) = Some b"
      using Nd.prems False IH(1) by (subst mps_rbtree_min.simps) (simp add: ptr_Lf)
    moreover have "Nd c l a r = plug (Nd d Lf b R) (gs @ [FL c a r])" using IH(2) by simp
    ultimately show ?thesis using IH(3,4)
      by (intro exI [of _ d] exI [of _ b] exI [of _ R] exI [of _ "gs @ [FL c a r]"]) simp
  qed
qed simp

definition first_or_null :: "off list \<Rightarrow> off" where
  "first_or_null xs = (case xs of [] \<Rightarrow> mps_nulloff | b # _ \<Rightarrow> b)"

lemma next_up_ok:
  "tree_at t T fs \<Longrightarrow> T \<noteq> Lf \<Longrightarrow>
     rbtree_next_up t (ptr (rb_sentinel t) T) = Some (first_or_null (ctx_post fs))"
proof (induction fs arbitrary: T)
  case Nil
  then show ?case
    by (subst rbtree_next_up.simps) (simp add: tree_at_root first_or_null_def)
next
  case (Cons f fs)
  have nr: "ptr (rb_sentinel t) T \<noteq> rb_root t" using Cons.prems tree_at_root by blast
  show ?case
  proof (cases f)
    case (FL c a r)
    with Cons.prems have "tree_at t (Nd c T a r) fs" by (simp add: tree_at_left)
    from tree_at_reads [OF this] nr FL Cons.prems(2) show ?thesis
      by (subst rbtree_next_up.simps) (simp add: first_or_null_def)
  next
    case (FR c l a)
    with Cons.prems have at: "tree_at t (Nd c l a T) fs" by (simp add: tree_at_right)
    have "rbtree_next_up t (ptr (rb_sentinel t) T) = rbtree_next_up t a"
      using tree_at_reads [OF at] tree_at_sides [OF at] nr Cons.prems(2)
      by (subst rbtree_next_up.simps) auto
    with Cons.IH [OF at] FR show ?thesis by simp
  qed
qed

theorem next_ok:
  assumes rep: "represents t T" and xs: "inorder T = xs @ a # ys"
  shows "mps_rbtree_next t a = Some (first_or_null ys)"
proof -
  have "a \<in> addrs T" using xs by simp
  from focus [OF this] obtain c l r fs where T: "T = plug (Nd c l a r) fs" by blast
  with rep have at: "tree_at t (Nd c l a r) fs" by (simp add: represents_plug)
  have "distinct (inorder T)" using rep by (simp add: represents_def tree_at_def)
  then have "distinct (xs @ a # ys)" "distinct ((ctx_pre fs @ inorder l) @ a # (inorder r @ ctx_post fs))"
    unfolding xs [symmetric] T by simp_all
  moreover have "xs @ a # ys = (ctx_pre fs @ inorder l) @ a # (inorder r @ ctx_post fs)"
    unfolding xs [symmetric] T by simp
  ultimately have "ys = inorder r @ ctx_post fs"
    by (subst (asm) append_Cons_eq_iff) auto
  moreover have "mps_rbtree_next t a = Some (first_or_null (inorder r @ ctx_post fs))"
  proof (cases "r = Lf")
    case True
    with tree_at_reads [OF at] next_up_ok [OF at] show ?thesis by (simp add: mps_rbtree_next_def)
  next
    case False
    from at have "links_ok t (Some a) r" "rb_sentinel t \<notin> addrs r" by (auto simp: tree_at_iff)
    from min_ok [OF this(1) False this(2)] obtain d b R gs where
      "mps_rbtree_min t (ptr (rb_sentinel t) r) (rb_sentinel t) = Some b"
      "r = plug (Nd d Lf b R) gs" "ctx_pre gs = []" by blast
    with False tree_at_reads [OF at] ptr_eq_sentinel [of t r "FR c l a # fs"] at show ?thesis
      by (simp add: mps_rbtree_next_def first_or_null_def tree_at_right)
  qed
  ultimately show ?thesis by simp
qed

subsection \<open>Taking the node out\<close>

lemma replace_child:
  assumes "path_ok t b fs" "parent_ok t (up fs) b" "b \<notin> path_addrs fs" "b \<noteq> rb_sentinel t" "fs \<noteq> []"
  shows "(if b = rb_left t (rb_parent t b) then set_left (rb_parent t b) p t
          else set_right (rb_parent t b) p t) = hang fs p t"
proof -
  have "b \<noteq> rb_root t" using path_root [OF assms(1) assms(5)] assms(3) by auto
  then show ?thesis using replace_hang(1) [OF assms(1-4), of p]
    by (simp add: rbtree_replace_lr_def Let_def)
qed

lemma up_nonempty: "fs \<noteq> [] \<Longrightarrow> \<exists>q. up fs = Some q \<and> q \<in> path_addrs fs"
  by (cases fs rule: up.cases) auto

lemma path_addrs_append [simp]: "path_addrs (fs @ gs) = path_addrs fs \<union> path_addrs gs"
  by (auto simp: path_addrs_def)

text \<open>A node with at most one child is replaced by that child.\<close>

lemma splice:
  assumes at: "tree_at t (Nd c l a r) fs" and fs: "fs \<noteq> []" and x: "l = Lf \<and> x = r \<or> r = Lf \<and> x = l"
  shows "hole_at (set_parent (ptr (rb_sentinel t) x) (rb_parent t a) (hang fs (ptr (rb_sentinel t) x) t)) x fs"
    (is "hole_at (set_parent ?x ?q ?h) x fs")
proof -
  let ?s = "rb_sentinel t"
  have q: "up fs = Some ?q" using at up_nonempty [OF fs] by (auto simp: tree_at_iff)
  have d: "addrs x \<inter> path_addrs fs = {}" "distinct (inorder x)" "?s \<notin> addrs x" "path_distinct fs"
    "?s \<notin> path_addrs fs" "rb_color t ?s = Black" "path_ok t a fs"
    using at x by (auto simp: tree_at_iff)
  have xp: "?x \<notin> path_addrs fs" using d by (cases x) auto
  have "links_ok t (Some a) x" using at x by (auto simp: tree_at_iff)
  then have l: "links_ok (set_parent ?x ?q ?h) (Some ?q) x"
    using d links_ok_reparent [of ?h "Some a" x ?q] by (cases "x = Lf") (simp_all add: reparent_def)
  have "path_ok ?h ?x fs" using d by (intro path_ok_hang')
  then have "path_ok (set_parent ?x ?q ?h) ?x fs" using xp by simp
  with l d q show ?thesis by (simp add: hole_at_def tree_at_iff)
qed

text \<open>Steps that leave a hole as it is.\<close>

lemma hole_clear:
  assumes "hole_at t x fs" "a \<notin> addrs (plug x fs)" "a \<noteq> rb_sentinel t"
  shows "hole_at (rbtree_clear_node a t) x fs"
  using assms by (simp add: hole_at_def tree_at_iff rbtree_clear_node_def Let_def path_addrs_def)

text \<open>The replacement of node \<open>a\<close> by \<open>b\<close>, which has the same children.\<close>

definition replace_node :: "off \<Rightarrow> off \<Rightarrow> ptree \<Rightarrow> ptree \<Rightarrow> frame list \<Rightarrow> rbtree_mem \<Rightarrow> rbtree_mem" where
  "replace_node a b l r fs t =
     reparent r b (reparent l b (hang fs b (ngx_rbt_copy_color b a
       (set_parent b (rb_parent t a) (set_right b (rb_right t a) (set_left b (rb_left t a) t))))))"

lemma replace_node_ok:
  assumes C: "rb_color t a = c" "rb_left t a = ptr (rb_sentinel t) l" "rb_right t a = ptr (rb_sentinel t) r"
    "parent_ok t (up fs) a" "links_ok t q1 l" "links_ok t q2 r" "path_ok t a fs"
    "rb_color t (rb_sentinel t) = Black"
    and D: "b \<notin> addrs l" "b \<notin> addrs r" "b \<notin> path_addrs fs" "b \<noteq> a" "b \<noteq> rb_sentinel t"
    "addrs l \<inter> addrs r = {}" "addrs l \<inter> path_addrs fs = {}" "addrs r \<inter> path_addrs fs = {}"
    "distinct (inorder l)" "distinct (inorder r)" "path_distinct fs"
    "rb_sentinel t \<notin> addrs l" "rb_sentinel t \<notin> addrs r" "rb_sentinel t \<notin> path_addrs fs"
  shows "tree_at (replace_node a b l r fs t) (Nd c l b r) fs"
proof -
  let ?s = "rb_sentinel t"
  define u where "u = hang fs b (ngx_rbt_copy_color b a
       (set_parent b (rb_parent t a) (set_right b (rb_right t a) (set_left b (rb_left t a) t))))"
  have e: "replace_node a b l r fs t = reparent r b (reparent l b u)" by (simp add: replace_node_def u_def)
  have s: "rb_sentinel u = ?s" "rb_color u = (rb_color t)(b := c)" "rb_left u b = ptr ?s l" "rb_right u b = ptr ?s r"
    using C D by (simp_all add: u_def ngx_rbt_copy_color_def)
  have P: "parent_ok u (up fs) b"
    using C(4) by (simp add: u_def ngx_rbt_copy_color_def parent_ok_set_same)
  have H: "path_ok u b fs" unfolding u_def
    by (rule path_ok_hang' [of _ a]) (use C D in \<open>simp_all add: ngx_rbt_copy_color_def\<close>)
  have "links_ok u q1 l" "links_ok u q2 r"
    using C D by (simp_all add: u_def ngx_rbt_copy_color_def Int_commute)
  then have L: "links_ok (reparent l b u) (Some b) l" "links_ok (reparent r b (reparent l b u)) (Some b) r"
    using D by (auto intro!: links_ok_reparent)
  from L(1) have L1: "links_ok (reparent r b (reparent l b u)) (Some b) l"
    using D by (simp add: Int_commute)
  have "addrs (Nd c l b r) \<inter> path_addrs fs = {}" "distinct (inorder (Nd c l b r))" using D by auto
  then show ?thesis
    unfolding tree_at_iff e using L L1 P H D s C(8) by (simp add: Int_commute)
qed


text \<open>What the first half of the relinking leaves: \<open>b\<close> is out of its place below \<open>a\<close>.\<close>

lemma unlink_ok:
  assumes at: "tree_at t (Nd cs Lf b R) (gs @ FR cn l a # F)" and gs: "list_all is_FL gs"
  defines "q \<equiv> rb_parent t b" and "x \<equiv> ptr (rb_sentinel t) R"
  defines "t2 \<equiv> set_parent x (if q = a then b else q)
              (if b = rb_left t q then set_left q x t else set_right q x t)"
  shows "rb_color t2 = rb_color t" "rb_left t2 a = ptr (rb_sentinel t) l"
    "rb_right t2 a = ptr (rb_sentinel t) (plug R gs)"
    "parent_ok t2 (up F) a" "links_ok t2 (Some a) l" "\<exists>q2. links_ok t2 q2 (plug R gs)" "path_ok t2 a F"
    "R = Lf \<Longrightarrow> rb_parent t2 (rb_sentinel t) = the (up (gs @ FR cn l b # F))"
    "R \<noteq> Lf \<Longrightarrow> gs = [] \<Longrightarrow> rb_parent t2 x = b"
proof -
  let ?s = "rb_sentinel t" and ?fs = "gs @ FR cn l a # F"
  have at2: "tree_at t (plug (Nd cs Lf b R) gs) (FR cn l a # F)"
    using at by (simp add: tree_at_plug)
  have h: "(if b = rb_left t q then set_left q x t else set_right q x t) = hang ?fs x t"
    unfolding q_def by (rule replace_child) (use at in \<open>auto simp: tree_at_iff\<close>)
  have q: "up ?fs = Some q" using at up_nonempty [of ?fs] by (auto simp: tree_at_iff q_def)
  show "rb_color t2 = rb_color t" by (simp add: t2_def)
  have *: "rb_left t2 a = ptr ?s l \<and> rb_right t2 a = ptr ?s (plug R gs) \<and> parent_ok t2 (up F) a
      \<and> links_ok t2 (Some a) l \<and> (\<exists>q2. links_ok t2 q2 (plug R gs)) \<and> path_ok t2 a F
      \<and> (R = Lf \<longrightarrow> rb_parent t2 ?s = the (up (gs @ FR cn l b # F)))
      \<and> (R \<noteq> Lf \<longrightarrow> gs = [] \<longrightarrow> rb_parent t2 x = b)"
  proof (cases gs)
    case Nil
    then have qa: "q = a" using q by simp
    have nx: "x \<noteq> a" unfolding x_def by (rule ptr_neq) (use at Nil in \<open>auto simp: tree_at_iff\<close>)
    have "x \<notin> addrs l" "x \<notin> path_addrs F" using at Nil ptr_in [of ?s R] by (auto simp: tree_at_iff x_def)
    moreover have "links_ok (set_right a x t) (Some b) R" using at Nil by (auto simp: tree_at_iff)
    then have "\<exists>q2. links_ok (set_parent x b (set_right a x t)) q2 R"
      using links_ok_reparent [of "set_right a x t" "Some b" R b] at Nil
      by (cases "R = Lf") (auto simp: reparent_def x_def tree_at_iff)
    moreover have "t2 = set_parent x b (set_right a x t)" unfolding t2_def h using qa Nil by simp
    ultimately show ?thesis using at Nil nx by (auto simp: tree_at_iff x_def)
  next
    case (Cons g gs')
    with gs obtain c y r where g: "g = FL c y r" by (cases g) auto
    have "q \<noteq> a" using q at Cons g by (auto simp: tree_at_iff)
    then have t2: "t2 = set_parent x q (hang ?fs x t)" by (simp add: t2_def h)
    have hole: "hole_at t2 R ?fs" unfolding t2 x_def q_def by (rule splice [OF at]) auto
    have "rb_sentinel t2 = ?s" by (simp add: t2_def)
    moreover from hole have "tree_at t2 (Nd cn l a (plug R gs)) F"
      by (simp add: hole_at_def tree_at_plug tree_at_right)
    moreover have "up (gs @ FR cn l b # F) = up ?fs" using Cons g by simp
    ultimately show ?thesis using hole Cons by (auto simp: hole_at_def tree_at_iff)
  qed
  show "rb_left t2 a = ptr ?s l" "rb_right t2 a = ptr ?s (plug R gs)" "parent_ok t2 (up F) a"
    "links_ok t2 (Some a) l" "\<exists>q2. links_ok t2 q2 (plug R gs)" "path_ok t2 a F"
    "R = Lf \<Longrightarrow> rb_parent t2 ?s = the (up (gs @ FR cn l b # F))"
    "R \<noteq> Lf \<Longrightarrow> gs = [] \<Longrightarrow> rb_parent t2 x = b"
    using * by blast+
qed

lemma relink_ok:
  assumes at: "tree_at t (Nd cs Lf b R) (gs @ FR cn l a # F)" and gs: "list_all is_FL gs"
  shows "hole_at (rbtree_delete_relink a b (ptr (rb_sentinel t) R) t) R (gs @ FR cn l b # F)"
proof -
  let ?s = "rb_sentinel t"
  define x where "x = ptr ?s R"
  define q where "q = rb_parent t b"
  define t2 where "t2 = set_parent x (if q = a then b else q)
              (if b = rb_left t q then set_left q x t else set_right q x t)"
  note C = unlink_ok [OF at gs, folded q_def, folded x_def, folded t2_def]
  obtain q2 where q2: "links_ok t2 q2 (plug R gs)" using C(6) by blast
  have s2: "rb_sentinel t2 = ?s" by (simp add: t2_def)
  have at': "tree_at t (Nd cn l a (plug (Nd cs Lf b R) gs)) F"
    using at by (simp add: tree_at_plug tree_at_right)
  have D: "b \<notin> addrs l" "b \<notin> addrs (plug R gs)" "b \<notin> path_addrs F" "b \<noteq> a" "a \<noteq> b" "b \<noteq> ?s"
    "addrs l \<inter> addrs (plug R gs) = {}" "addrs l \<inter> path_addrs F = {}"
    "addrs (plug R gs) \<inter> path_addrs F = {}" "distinct (inorder l)" "distinct (inorder (plug R gs))"
    "path_distinct F" "?s \<notin> addrs l" "?s \<notin> addrs (plug R gs)" "?s \<notin> path_addrs F"
    "a \<noteq> ?s" "a \<notin> path_addrs F" "rb_color t ?s = Black" "rb_color t a = cn"
    using at' by (auto simp: tree_at_iff)
  define t3 where "t3 = replace_node a b l (plug R gs) F t2"
  have at3: "tree_at t3 (Nd cn l b (plug R gs)) F"
    unfolding t3_def
    by (rule replace_node_ok [OF _ _ _ C(4,5) q2 C(7)]) (use C D s2 in simp_all)
  define v where "v = ngx_rbt_copy_color b a
       (set_parent b (rb_parent t2 a) (set_right b (ptr ?s (plug R gs)) (set_left b (ptr ?s l) t2)))"
  have rep: "rbtree_replace_lr a b v = hang F b v"
    unfolding v_def by (rule replace_hang(1)) (use C D s2 in \<open>simp_all add: ngx_rbt_copy_color_def\<close>)
  have nb: "ptr ?s l \<noteq> b" "ptr ?s (plug R gs) \<noteq> b" by (rule ptr_neq [OF D(6) D(1)] ptr_neq [OF D(6) D(2)])+
  have lv: "rb_left v b = ptr ?s l" "rb_right v b = ptr ?s (plug R gs)" "rb_sentinel v = ?s"
    using s2 by (simp_all add: v_def)
  define t1 where "t1 = (if b = rb_left t q then set_left q x t else set_right q x t)"
  have e2: "(if rb_parent t1 b = a then set_parent x b t1 else set_parent x (rb_parent t1 b) t1) = t2"
    by (simp add: t1_def t2_def q_def)
  have "rbtree_delete_relink a b x t =
      (let t = set_left b (rb_left t2 a) t2;
           t = set_right b (rb_right t a) t;
           t = set_parent b (rb_parent t a) t;
           t = ngx_rbt_copy_color b a t;
           t = rbtree_replace_lr a b t;
           t = (if rb_left t b \<noteq> ?s then set_parent (rb_left t b) b t else t)
       in if rb_right t b \<noteq> ?s then set_parent (rb_right t b) b t else t)"
    unfolding rbtree_delete_relink_def
    by (simp only: Let_def D(4) if_False q_def [symmetric] t1_def [symmetric] e2)
  also have "\<dots> = (let t = hang F b v;
           t = (if rb_left t b \<noteq> ?s then set_parent (rb_left t b) b t else t)
       in if rb_right t b \<noteq> ?s then set_parent (rb_right t b) b t else t)"
    using C(2,3) D(5) by (simp add: Let_def rep flip: v_def)
  also have "\<dots> = reparent (plug R gs) b (reparent l b (hang F b v))"
    unfolding reparent_def Let_def by (simp add: ptr_Lf [OF D(13)] ptr_Lf [OF D(14)] D(3) lv)
  also have "\<dots> = t3" using C(2,3) by (simp add: t3_def replace_node_def v_def)
  finally have "rbtree_delete_relink a b x t = t3" .
  moreover have "tree_at t3 R (gs @ FR cn l b # F)"
    using at3 by (simp add: tree_at_plug tree_at_right)
  moreover have "R = Lf \<Longrightarrow> rb_parent t3 ?s = the (up (gs @ FR cn l b # F))"
    using C(8) D by (simp add: t3_def replace_node_def ngx_rbt_copy_color_def)
  moreover have "rb_sentinel t3 = ?s" by (simp add: t3_def replace_node_def ngx_rbt_copy_color_def s2)
  ultimately show ?thesis by (simp add: hole_at_def x_def)
qed


subsection \<open>The whole deletion\<close>

lemma ctx_frame_addr:
  "ctx_h n (gs @ FR c l a # F) = ctx_h n (gs @ FR c l b # F)"
  "ctx_c (gs @ FR c l a # F) = ctx_c (gs @ FR c l b # F)"
proof -
  have top: "top_black (hs @ FR c l a # F) = top_black (hs @ FR c l b # F)" for hs by (cases hs) auto
  show "ctx_h n (gs @ FR c l a # F) = ctx_h n (gs @ FR c l b # F)" by (induction gs arbitrary: n) auto
  show "ctx_c (gs @ FR c l a # F) = ctx_c (gs @ FR c l b # F)" by (induction gs) (auto simp: top)
qed

text \<open>The invariants at the hole that a removed node of colour \<open>c\<close> leaves.\<close>

lemma hole_inv:
  assumes "rbt (plug (Nd c l b r) fs)" "l = Lf \<and> x = r \<or> r = Lf \<and> x = l"
  shows "c = Black \<Longrightarrow> invc x \<and> invh x \<and> ctx_h (Suc (bheight x)) fs \<and> ctx_c fs"
    "c = Red \<Longrightarrow> rbt (plug x fs)"
proof -
  have e: "bheight l = bheight x \<and> invc x \<and> invh x" using assms by (auto simp: rbt_plug)
  then show "c = Black \<Longrightarrow> invc x \<and> invh x \<and> ctx_h (Suc (bheight x)) fs \<and> ctx_c fs"
    using assms by (auto simp: rbt_plug)
  show "c = Red \<Longrightarrow> rbt (plug x fs)"
    using assms e by (auto simp: rbt_plug)
qed

text \<open>After the relinking: return if the removed colour was red, the fixup otherwise.\<close>

lemma delete_tail:
  assumes hole: "hole_at t x fs" and T: "rbt (plug (Nd c l b r) fs)" "l = Lf \<and> x = r \<or> r = Lf \<and> x = l"
    and a: "a \<notin> addrs (plug x fs)" "a \<noteq> rb_sentinel t"
  shows "\<exists>t' T'. (if c = Red then Some (rbtree_clear_node a t)
            else rbtree_delete_fixup (rbtree_clear_node a t) (ptr (rb_sentinel t) x)) = Some t'
      \<and> represents t' T' \<and> rbt T' \<and> inorder T' = inorder (plug x fs)
      \<and> kept t' (rbtree_clear_node a t)"
proof -
  have h: "hole_at (rbtree_clear_node a t) x fs" using hole a by (rule hole_clear)
  have s: "rb_sentinel (rbtree_clear_node a t) = rb_sentinel t" by (simp add: rbtree_clear_node_def Let_def)
  show ?thesis
  proof (cases c)
    case Red
    have "represents (rbtree_clear_node a t) (plug x fs)"
      unfolding represents_plug using h by (simp add: hole_at_def)
    then show ?thesis using hole_inv(2) [OF T] Red
      by (auto intro!: exI [of _ "plug x fs"])
  next
    case Black
    from hole_inv(1) [OF T Black] have "invc x" "invh x" "ctx_h (Suc (bheight x)) fs" "ctx_c fs" by auto
    then have r: "rbt (del_fix x fs)" by (rule rbt_del_fix)
    then have "del_goal (rbtree_clear_node a t) x fs"
      using h hole_inv(1) [OF T Black] by (simp add: del_goal_def rbt_def)
    from fixup_ok [OF this] r Black show ?thesis
      by (auto simp: s intro!: exI [of _ "del_fix x fs"])
  qed
qed

text \<open>What a deletion leaves alone outside the tree: only the key of the deleted node changes.\<close>

definition deleted_from :: "off \<Rightarrow> rbtree_mem \<Rightarrow> rbtree_mem \<Rightarrow> bool" where
  "deleted_from a t' t \<longleftrightarrow> rb_sentinel t' = rb_sentinel t \<and> rb_insert t' = rb_insert t
     \<and> rb_key t' = (rb_key t)(a := 0)"

lemma deleted_from_clear:
  "kept t' (rbtree_clear_node a u) \<Longrightarrow> kept u t \<Longrightarrow> deleted_from a t' t"
  by (simp add: kept_def deleted_from_def rbtree_clear_node_def Let_def)

lemma kept_Let: "kept u t \<Longrightarrow> (\<And>v. kept v t \<Longrightarrow> kept (f v) t) \<Longrightarrow> kept (Let u f) t"
  by (simp add: Let_def)

lemma kept_Let_off: "(\<And>v. kept (f v) t) \<Longrightarrow> kept (Let (u :: off) f) t"
  by (simp add: Let_def)

lemma kept_if: "kept u t \<Longrightarrow> kept v t \<Longrightarrow> kept (if P then u else v) t"
  by simp

lemma kept_replace: "kept (rbtree_replace_lr a b u) t = kept u t"
  by (simp add: kept_def rbtree_replace_lr_def Let_def)

lemma links_ok_None: "links_ok t q T \<Longrightarrow> links_ok t None T"
  by (cases T) auto

lemma kept_relink: "kept (rbtree_delete_relink a b x t) t"
  unfolding rbtree_delete_relink_def
  by (intro kept_Let kept_Let_off kept_if kept_refl) (simp_all add: kept_replace)

lemma delete_direct:
  assumes rep: "represents t (plug (Nd c l a r) fs)" and rbt: "rbt (plug (Nd c l a r) fs)"
    and x: "l = Lf \<and> x = r \<or> r = Lf \<and> x = l"
    and subst: "rbtree_delete_subst t a = Some (a, ptr (rb_sentinel t) x)"
  shows "\<exists>t' T'. mps_rbtree_delete t a = Some t' \<and> represents t' T' \<and> rbt T'
      \<and> inorder T' = ctx_pre fs @ inorder x @ ctx_post fs \<and> deleted_from a t' t"
proof -
  let ?s = "rb_sentinel t"
  from rep have at: "tree_at t (Nd c l a r) fs" by (simp add: represents_plug)
  have a: "a \<notin> addrs (plug x fs)" "a \<noteq> ?s" using at x by (auto simp: tree_at_iff path_addrs_def)
  show ?thesis
  proof (cases "fs = []")
    case True
    have root: "tree_at (set_root (ptr ?s x) t) x []" "rb_root t = a"
      using at x True by (auto simp: tree_at_iff intro: links_ok_None)
    from tree_at_paint_Black [OF root(1)]
    have "hole_at (ngx_rbt_black (ptr ?s x) (set_root (ptr ?s x) t)) (paint Black x) []"
      by (simp add: hole_at_def)
    from hole_clear [OF this, of a] a True
    have "represents (rbtree_clear_node a (ngx_rbt_black (ptr ?s x) (set_root (ptr ?s x) t))) (paint Black x)"
      by (simp add: hole_at_def represents_def)
    moreover have "rbt (paint Black x)" using rbt True x by (auto simp: rbt_def intro: invc_paint_Black)
    moreover have "mps_rbtree_delete t a
        = Some (rbtree_clear_node a (ngx_rbt_black (ptr ?s x) (set_root (ptr ?s x) t)))"
      by (simp add: mps_rbtree_delete_def subst root(2) Let_def)
    ultimately show ?thesis using True
      by (auto simp: deleted_from_def rbtree_clear_node_def Let_def intro!: exI [of _ "paint Black x"])
  next
    case False
    let ?u = "rbtree_delete_relink a a (ptr ?s x) t"
    have "a \<noteq> rb_root t" using tree_at_root [OF at] False by auto
    then have del: "mps_rbtree_delete t a = (if c = Red then Some (rbtree_clear_node a ?u)
            else rbtree_delete_fixup (rbtree_clear_node a ?u) (ptr ?s x))"
      using tree_at_reads(1) [OF at] by (simp add: mps_rbtree_delete_def subst Let_def ngx_rbt_is_red_def)
    have "(if a = rb_left t (rb_parent t a) then set_left (rb_parent t a) (ptr ?s x) t
          else set_right (rb_parent t a) (ptr ?s x) t) = hang fs (ptr ?s x) t"
      by (rule replace_child) (use at False in \<open>auto simp: tree_at_iff\<close>)
    then have "?u = set_parent (ptr ?s x) (rb_parent t a) (hang fs (ptr ?s x) t)"
      by (simp add: rbtree_delete_relink_def Let_def)
    then have hole: "hole_at ?u x fs" using splice [OF at False x] by simp
    have s: "rb_sentinel ?u = ?s" using kept_relink by (simp add: kept_def)
    from delete_tail [OF hole rbt x a(1), unfolded s, OF a(2), folded del] obtain t' T' where
      "mps_rbtree_delete t a = Some t'" "represents t' T'" "rbt T'" "inorder T' = inorder (plug x fs)"
      "kept t' (rbtree_clear_node a ?u)" by blast
    then show ?thesis using deleted_from_clear [OF _ kept_relink] by auto
  qed
qed

lemma delete_successor:
  assumes rep: "represents t T" and rbt: "rbt T"
    and T: "T = plug (Nd cs Lf b R) (gs @ FR cn l a # F)" and gs: "list_all is_FL gs"
    and subst: "rbtree_delete_subst t a = Some (b, ptr (rb_sentinel t) R)"
  shows "\<exists>t' T'. mps_rbtree_delete t a = Some t' \<and> represents t' T' \<and> rbt T'
      \<and> inorder T' = ctx_pre F @ inorder l @ ctx_pre gs @ b # inorder R @ ctx_post gs @ ctx_post F
      \<and> deleted_from a t' t"
proof -
  let ?s = "rb_sentinel t" and ?u = "rbtree_delete_relink a b (ptr (rb_sentinel t) R) t"
  have pre: "ctx_pre gs = []" using gs by (induction gs rule: ctx_pre.induct) auto
  from rep have at: "tree_at t (Nd cs Lf b R) (gs @ FR cn l a # F)" by (simp add: T flip: represents_plug)
  have "b \<noteq> rb_root t" using tree_at_root [OF at] by auto
  then have del: "mps_rbtree_delete t a = (if cs = Red then Some (rbtree_clear_node a ?u)
            else rbtree_delete_fixup (rbtree_clear_node a ?u) (ptr ?s R))"
    using tree_at_reads(1) [OF at] by (simp add: mps_rbtree_delete_def subst Let_def ngx_rbt_is_red_def)
  have hole: "hole_at ?u R (gs @ FR cn l b # F)" by (rule relink_ok [OF at gs])
  have rbt': "rbt (plug (Nd cs Lf b R) (gs @ FR cn l b # F))"
  proof -
    have "top_black (gs @ FR cn l a # F) = top_black (gs @ FR cn l b # F)" by (cases gs) auto
    then show ?thesis using rbt T ctx_frame_addr(1) [of _ gs cn l a F b] ctx_frame_addr(2) [of gs cn l a F b]
      by (simp add: rbt_plug del: plug_append)
  qed
  have s: "rb_sentinel ?u = ?s" using kept_relink by (simp add: kept_def)
  have "tree_at t (Nd cn l a (plug (Nd cs Lf b R) gs)) F"
    using at by (simp add: tree_at_plug tree_at_right)
  then have a: "a \<notin> addrs (plug R (gs @ FR cn l b # F))" "a \<noteq> ?s"
    by (auto simp: tree_at_iff path_addrs_def)
  from delete_tail [OF hole rbt' _ a(1), unfolded s, OF _ a(2), folded del] obtain t' T' where
    "mps_rbtree_delete t a = Some t'" "represents t' T'" "rbt T'"
    "inorder T' = inorder (plug R (gs @ FR cn l b # F))" "kept t' (rbtree_clear_node a ?u)"
    by blast
  then show ?thesis using deleted_from_clear [OF _ kept_relink] pre by auto
qed

theorem delete_ok:
  assumes rep: "represents t T" and rbt: "rbt T" and a: "a \<in> addrs T"
  shows "\<exists>t' T'. mps_rbtree_delete t a = Some t' \<and> represents t' T' \<and> rbt T'
      \<and> inorder T' = remove1 a (inorder T) \<and> deleted_from a t' t"
proof -
  let ?s = "rb_sentinel t"
  from focus [OF a] obtain c l r fs where T: "T = plug (Nd c l a r) fs" by blast
  with rep have at: "tree_at t (Nd c l a r) fs" by (simp add: represents_plug)
  note rd = tree_at_reads [OF at]
  have dist: "a \<notin> set (ctx_pre fs @ inorder l)" using at by (auto simp: tree_at_iff path_addrs_def)
  have rem: "remove1 a (inorder T) = ctx_pre fs @ inorder l @ inorder r @ ctx_post fs"
    using T dist by (simp add: remove1_append)
  have L: "ptr ?s l = ?s \<longleftrightarrow> l = Lf" "ptr ?s r = ?s \<longleftrightarrow> r = Lf"
    using at by (auto simp: tree_at_iff ptr_Lf)
  consider (l) "l = Lf" | (r) "l \<noteq> Lf" "r = Lf" | (both) "l \<noteq> Lf" "r \<noteq> Lf" by blast
  then show ?thesis
  proof cases
    case l
    then have "rbtree_delete_subst t a = Some (a, ptr ?s r)"
      using rd by (simp add: rbtree_delete_subst_def)
    with delete_direct [of t c l a r fs r] rep rbt T l rem show ?thesis by simp
  next
    case r
    then have "rbtree_delete_subst t a = Some (a, ptr ?s l)"
      using rd L by (simp add: rbtree_delete_subst_def)
    with delete_direct [of t c l a r fs l] rep rbt T r rem show ?thesis by simp
  next
    case both
    from at have "links_ok t (Some a) r" "?s \<notin> addrs r" by (auto simp: tree_at_iff)
    from min_ok [OF this(1) both(2) this(2)] obtain d b R gs where
      m: "mps_rbtree_min t (ptr ?s r) ?s = Some b" "r = plug (Nd d Lf b R) gs" "ctx_pre gs = []"
        "list_all is_FL gs" by blast
    have at2: "tree_at t (Nd d Lf b R) (gs @ FR c l a # fs)"
      using at m(2) by (simp add: tree_at_plug tree_at_right)
    have T2: "T = plug (Nd d Lf b R) (gs @ FR c l a # fs)" using T m(2) by simp
    have "rbtree_delete_subst t a = Some (b, ptr ?s R)"
      using rd L both m(1) tree_at_reads(3) [OF at2] by (simp add: rbtree_delete_subst_def)
    from delete_successor [OF rep rbt T2 m(4) this] rem m(2,3) show ?thesis by simp
  qed
qed

end
