(* ===== verification/Queue.thy ===== *)
theory Queue
  imports Prelude
begin

text \<open>
  The intrusive circular doubly linked queue of src/src/mps_queue.h. A link \<^verbatim>\<open>mps_queue_t\<close> is two
  offsets; the queues of the pool live in two field maps, \<open>q_prev\<close> and \<open>q_next\<close>, from the offset of
  a link to its members. A head is a link like any other, so the empty queue is a link that points
  at itself. Every macro is one state transformer, its assignments in the source's order.

  \<open>dll m h xs\<close> says that the circular list through head \<open>h\<close> visits exactly the links \<open>xs\<close>, each once,
  with \<open>prev\<close> the inverse of \<open>next\<close>. The lemmas show that each macro implements the corresponding
  list operation and leaves every other queue alone; the locale \<open>intrusive_queue\<close> states that
  contract for the callers, and is interpreted on the macros at the end.
\<close>

record queue_mem =
  q_prev :: "off \<Rightarrow> off"
  q_next :: "off \<Rightarrow> off"

definition set_prev :: "off \<Rightarrow> off \<Rightarrow> queue_mem \<Rightarrow> queue_mem" where
  "set_prev x v m = m\<lparr>q_prev := (q_prev m)(x := v)\<rparr>"

definition set_next :: "off \<Rightarrow> off \<Rightarrow> queue_mem \<Rightarrow> queue_mem" where
  "set_next x v m = m\<lparr>q_next := (q_next m)(x := v)\<rparr>"

definition mps_queue_init :: "off \<Rightarrow> queue_mem \<Rightarrow> queue_mem" where
  "mps_queue_init q m =
     (let m = set_prev q q m
      in set_next q q m)"

definition mps_queue_empty :: "off \<Rightarrow> queue_mem \<Rightarrow> bool" where
  "mps_queue_empty h m \<longleftrightarrow> h = q_prev m h"

definition mps_queue_insert_head :: "off \<Rightarrow> off \<Rightarrow> queue_mem \<Rightarrow> queue_mem" where
  "mps_queue_insert_head h x m =
     (let m = set_next x (q_next m h) m;
          x_next = q_next m x;
          m = set_prev x_next x m;
          m = set_prev x h m
      in set_next h x m)"

definition mps_queue_insert_tail :: "off \<Rightarrow> off \<Rightarrow> queue_mem \<Rightarrow> queue_mem" where
  "mps_queue_insert_tail h x m =
     (let m = set_prev x (q_prev m h) m;
          x_prev = q_prev m x;
          m = set_next x_prev x m;
          m = set_next x h m
      in set_prev h x m)"

definition mps_queue_head :: "off \<Rightarrow> queue_mem \<Rightarrow> off" where
  "mps_queue_head h m = q_next m h"

definition mps_queue_last :: "off \<Rightarrow> queue_mem \<Rightarrow> off" where
  "mps_queue_last h m = q_prev m h"

definition mps_queue_sentinel :: "off \<Rightarrow> off" where
  "mps_queue_sentinel h = h"

definition mps_queue_next :: "off \<Rightarrow> queue_mem \<Rightarrow> off" where
  "mps_queue_next q m = q_next m q"

definition mps_queue_prev :: "off \<Rightarrow> queue_mem \<Rightarrow> off" where
  "mps_queue_prev q m = q_prev m q"

text \<open>The release build (no \<^verbatim>\<open>NGX_DEBUG\<close>): the removed link keeps its stale members.\<close>

definition mps_queue_remove :: "off \<Rightarrow> queue_mem \<Rightarrow> queue_mem" where
  "mps_queue_remove x m =
     (let x_next = q_next m x;
          m = set_prev x_next (q_prev m x) m;
          x_prev = q_prev m x
      in set_next x_prev (q_next m x) m)"

definition mps_queue_split :: "off \<Rightarrow> off \<Rightarrow> off \<Rightarrow> queue_mem \<Rightarrow> queue_mem" where
  "mps_queue_split h q n m =
     (let m = set_prev n (q_prev m h) m;
          n_prev = q_prev m n;
          m = set_next n_prev n m;
          m = set_next n q m;
          m = set_prev h (q_prev m q) m;
          h_prev = q_prev m h;
          m = set_next h_prev h m
      in set_prev q n m)"

definition mps_queue_add :: "off \<Rightarrow> off \<Rightarrow> queue_mem \<Rightarrow> queue_mem" where
  "mps_queue_add h n m =
     (let h_prev = q_prev m h;
          m = set_next h_prev (q_next m n) m;
          n_next = q_next m n;
          m = set_prev n_next (q_prev m h) m;
          m = set_prev h (q_prev m n) m;
          h_prev = q_prev m h
      in set_next h_prev h m)"

named_theorems queue_defs
declare mps_queue_init_def [queue_defs] mps_queue_empty_def [queue_defs]
  mps_queue_insert_head_def [queue_defs] mps_queue_insert_tail_def [queue_defs]
  mps_queue_head_def [queue_defs] mps_queue_last_def [queue_defs]
  mps_queue_next_def [queue_defs] mps_queue_prev_def [queue_defs]
  mps_queue_remove_def [queue_defs] mps_queue_split_def [queue_defs] mps_queue_add_def [queue_defs]

lemma set_prev_sel [simp]:
  "q_prev (set_prev x v m) = (q_prev m)(x := v)" "q_next (set_prev x v m) = q_next m"
  by (simp_all add: set_prev_def)

lemma set_next_sel [simp]:
  "q_next (set_next x v m) = (q_next m)(x := v)" "q_prev (set_next x v m) = q_prev m"
  by (simp_all add: set_next_def)

subsection \<open>What a queue represents\<close>

fun chain :: "queue_mem \<Rightarrow> off \<Rightarrow> off list \<Rightarrow> off \<Rightarrow> bool" where
  "chain m a [] b \<longleftrightarrow> q_next m a = b \<and> q_prev m b = a"
| "chain m a (x # xs) b \<longleftrightarrow> q_next m a = x \<and> q_prev m x = a \<and> chain m x xs b"

definition dll :: "queue_mem \<Rightarrow> off \<Rightarrow> off list \<Rightarrow> bool" where
  "dll m h xs \<longleftrightarrow> distinct (h # xs) \<and> chain m h xs h"

lemma chain_append [simp]:
  "chain m a (xs @ y # ys) b \<longleftrightarrow> chain m a xs y \<and> chain m y ys b"
  by (induction xs arbitrary: a) auto

lemma chain_snoc:
  "chain m a (xs @ [y]) b \<longleftrightarrow> chain m a xs y \<and> q_next m y = b \<and> q_prev m b = y"
  by simp

lemma chain_frame:
  assumes "\<And>y. y = a \<or> y \<in> set xs \<Longrightarrow> q_next m' y = q_next m y"
    and "\<And>y. y = b \<or> y \<in> set xs \<Longrightarrow> q_prev m' y = q_prev m y"
  shows "chain m' a xs b = chain m a xs b"
  using assms by (induction xs arbitrary: a) auto

lemma chain_set_prev [simp]:
  "x \<noteq> b \<Longrightarrow> x \<notin> set xs \<Longrightarrow> chain (set_prev x v m) a xs b = chain m a xs b"
  by (rule chain_frame) auto

lemma chain_set_next [simp]:
  "x \<noteq> a \<Longrightarrow> x \<notin> set xs \<Longrightarrow> chain (set_next x v m) a xs b = chain m a xs b"
  by (rule chain_frame) auto

lemma chain_first: "chain m a xs b \<Longrightarrow> q_next m a = hd (xs @ [b])"
  by (cases xs) auto

lemma chain_last: "chain m a xs b \<Longrightarrow> q_prev m b = last (a # xs)"
  by (induction xs arbitrary: a) auto

lemma dll_first: "dll m h xs \<Longrightarrow> q_next m h = hd (xs @ [h])"
  by (auto simp: dll_def dest: chain_first)

lemma dll_last: "dll m h xs \<Longrightarrow> q_prev m h = last (h # xs)"
  by (auto simp: dll_def dest: chain_last)

lemma dll_unique: "dll m h xs \<Longrightarrow> dll m h ys \<Longrightarrow> xs = ys"
proof -
  have "xs = ys" if "chain m a xs h" "chain m a ys h" "h \<notin> set xs" "h \<notin> set ys" for a
    using that
  proof (induction xs arbitrary: a ys)
    case Nil
    then show ?case by (cases ys) auto
  next
    case (Cons x xs)
    then show ?case by (cases ys) auto
  qed
  then show "dll m h xs \<Longrightarrow> dll m h ys \<Longrightarrow> xs = ys" by (auto simp: dll_def)
qed

lemma dll_distinct: "dll m h xs \<Longrightarrow> distinct xs" "dll m h xs \<Longrightarrow> h \<notin> set xs"
  by (auto simp: dll_def)

lemma dll_frame:
  assumes "\<And>y. y = h \<or> y \<in> set xs \<Longrightarrow> q_next m' y = q_next m y \<and> q_prev m' y = q_prev m y"
  shows "dll m' h xs = dll m h xs"
  unfolding dll_def using chain_frame [of h xs m' m h] assms by blast

subsection \<open>The macros implement the list operations\<close>

lemma dll_init: "dll (mps_queue_init h m) h []"
  by (simp add: dll_def queue_defs Let_def)

lemma dll_empty: "dll m h xs \<Longrightarrow> mps_queue_empty h m \<longleftrightarrow> xs = []"
  using dll_last [of m h xs] dll_distinct [of m h xs]
  by (cases xs rule: rev_cases) (auto simp: mps_queue_empty_def)

lemma dll_insert_head:
  "dll m h xs \<Longrightarrow> x \<notin> set (h # xs) \<Longrightarrow> dll (mps_queue_insert_head h x m) h (x # xs)"
  by (cases xs) (auto simp: dll_def queue_defs Let_def)

lemma dll_insert_tail:
  "dll m h xs \<Longrightarrow> x \<notin> set (h # xs) \<Longrightarrow> dll (mps_queue_insert_tail h x m) h (xs @ [x])"
  by (cases xs rule: rev_cases) (auto simp: dll_def queue_defs Let_def)

lemma dll_remove:
  assumes "dll m h (as @ x # bs)"
  shows "dll (mps_queue_remove x m) h (as @ bs)"
  using assms
  by (cases as rule: rev_cases; cases bs) (auto simp: dll_def queue_defs Let_def)

lemma dll_split:
  assumes "dll m h (as @ q # bs)" "n \<notin> set (h # as @ q # bs)"
  shows "dll (mps_queue_split h q n m) h as \<and> dll (mps_queue_split h q n m) n (q # bs)"
  using assms
  by (cases as rule: rev_cases; cases bs rule: rev_cases) (auto simp: dll_def queue_defs Let_def)

lemma dll_add:
  assumes "dll m h xs" "dll m n ys" "set (h # xs) \<inter> set (n # ys) = {}"
  shows "dll (mps_queue_add h n m) h (xs @ ys)"
proof -
  consider "ys = []" | y where "ys = [y]" | y zs z where "ys = y # zs @ [z]"
    by (metis append_butlast_last_id neq_Nil_conv)
  then show ?thesis using assms
    by cases (cases xs rule: rev_cases; auto simp: dll_def queue_defs Let_def)+
qed

text \<open>Which links a macro may write: the others are as before.\<close>

definition same_links :: "off set \<Rightarrow> queue_mem \<Rightarrow> queue_mem \<Rightarrow> bool" where
  "same_links A m m' \<longleftrightarrow> (\<forall>y. y \<in> A \<longrightarrow> q_next m' y = q_next m y \<and> q_prev m' y = q_prev m y)"

lemma same_linksI:
  "(\<And>y. y \<in> A \<Longrightarrow> q_next m' y = q_next m y \<and> q_prev m' y = q_prev m y) \<Longrightarrow> same_links A m m'"
  by (simp add: same_links_def)

lemma same_links_refl [simp]: "same_links A m m"
  by (simp add: same_links_def)

lemma same_links_trans: "same_links A m m' \<Longrightarrow> same_links A m' m'' \<Longrightarrow> same_links A m m''"
  by (simp add: same_links_def)

lemma same_links_mono: "same_links A m m' \<Longrightarrow> B \<subseteq> A \<Longrightarrow> same_links B m m'"
  by (auto simp: same_links_def)

lemma dll_same_links:
  "same_links A m m' \<Longrightarrow> set (h # xs) \<subseteq> A \<Longrightarrow> dll m' h xs = dll m h xs"
  by (rule dll_frame) (auto simp: same_links_def)

lemma dll_next_in: "dll m h xs \<Longrightarrow> y \<in> set (h # xs) \<Longrightarrow> q_next m y \<in> set (h # xs)"
proof (cases "y = h")
  case True
  then show "dll m h xs \<Longrightarrow> ?thesis" by (cases xs) (auto dest: dll_first)
next
  case False
  assume d: "dll m h xs" and y: "y \<in> set (h # xs)"
  then obtain as bs where "xs = as @ y # bs" using False by (auto dest: split_list)
  with d show ?thesis by (cases bs) (auto simp: dll_def)
qed

lemma dll_prev_in: "dll m h xs \<Longrightarrow> y \<in> set (h # xs) \<Longrightarrow> q_prev m y \<in> set (h # xs)"
proof (cases "y = h")
  case True
  then show "dll m h xs \<Longrightarrow> ?thesis" by (auto simp: dll_last)
next
  case False
  assume d: "dll m h xs" and y: "y \<in> set (h # xs)"
  then obtain as bs where "xs = as @ y # bs" using False by (auto dest: split_list)
  with d show ?thesis by (cases as rule: rev_cases) (auto simp: dll_def)
qed

lemma same_links_init: "same_links (- {h}) m (mps_queue_init h m)"
  by (auto simp: same_links_def queue_defs Let_def)

lemma same_links_insert_head:
  "dll m h xs \<Longrightarrow> same_links (- set (x # h # xs)) m (mps_queue_insert_head h x m)"
  using dll_next_in [of m h xs h] by (auto simp: same_links_def queue_defs Let_def)

lemma same_links_insert_tail:
  "dll m h xs \<Longrightarrow> same_links (- set (x # h # xs)) m (mps_queue_insert_tail h x m)"
  using dll_prev_in [of m h xs h] by (auto simp: same_links_def queue_defs Let_def)

lemma same_links_remove:
  "dll m h xs \<Longrightarrow> x \<in> set xs \<Longrightarrow> same_links (- set (h # xs)) m (mps_queue_remove x m)"
  using dll_prev_in [of m h xs x] dll_next_in [of m h xs x]
  by (auto simp: same_links_def queue_defs Let_def)

lemma dll_next:
  "dll m h (as @ x # bs) \<Longrightarrow> mps_queue_next x m = hd (bs @ [h])"
  by (cases bs) (auto simp: dll_def queue_defs)

lemma dll_prev:
  "dll m h (as @ x # bs) \<Longrightarrow> mps_queue_prev x m = last (h # as)"
  by (cases as rule: rev_cases) (auto simp: dll_def queue_defs)

subsection \<open>The contract of the callers\<close>

text \<open>
  What mps_shdict.c relies on: \<open>rep m h xs\<close> reads the queue at head \<open>h\<close> as a list, every operation
  acts on that list, and the links outside a set an operation names are untouched (\<open>same\<close>), so
  that a queue disjoint from it represents what it did.
\<close>

locale intrusive_queue =
  fixes rep :: "'m \<Rightarrow> off \<Rightarrow> off list \<Rightarrow> bool"
    and same :: "off set \<Rightarrow> 'm \<Rightarrow> 'm \<Rightarrow> bool"
    and init :: "off \<Rightarrow> 'm \<Rightarrow> 'm"
    and is_empty :: "off \<Rightarrow> 'm \<Rightarrow> bool"
    and first lst nxt :: "off \<Rightarrow> 'm \<Rightarrow> off"
    and ins_head ins_tail :: "off \<Rightarrow> off \<Rightarrow> 'm \<Rightarrow> 'm"
    and rem :: "off \<Rightarrow> 'm \<Rightarrow> 'm"
  assumes rep_distinct: "rep m h xs \<Longrightarrow> distinct (h # xs)"
    and rep_unique: "rep m h xs \<Longrightarrow> rep m h ys \<Longrightarrow> xs = ys"
    and rep_init: "rep (init h m) h []"
    and is_empty_rep: "rep m h xs \<Longrightarrow> is_empty h m \<longleftrightarrow> xs = []"
    and first_rep: "rep m h xs \<Longrightarrow> first h m = hd (xs @ [h])"
    and lst_rep: "rep m h xs \<Longrightarrow> lst h m = last (h # xs)"
    and nxt_rep: "rep m h (as @ x # bs) \<Longrightarrow> nxt x m = hd (bs @ [h])"
    and rep_ins_head: "rep m h xs \<Longrightarrow> x \<notin> set (h # xs) \<Longrightarrow> rep (ins_head h x m) h (x # xs)"
    and rep_ins_tail: "rep m h xs \<Longrightarrow> x \<notin> set (h # xs) \<Longrightarrow> rep (ins_tail h x m) h (xs @ [x])"
    and rep_rem: "rep m h (as @ x # bs) \<Longrightarrow> rep (rem x m) h (as @ bs)"
    and same_rep: "same A m m' \<Longrightarrow> set (h # xs) \<subseteq> A \<Longrightarrow> rep m' h xs = rep m h xs"
    and same_mono: "same A m m' \<Longrightarrow> B \<subseteq> A \<Longrightarrow> same B m m'"
    and same_trans: "same A m m' \<Longrightarrow> same A m' m'' \<Longrightarrow> same A m m''"
    and same_init: "same (- {h}) m (init h m)"
    and same_ins_head: "rep m h xs \<Longrightarrow> same (- set (x # h # xs)) m (ins_head h x m)"
    and same_ins_tail: "rep m h xs \<Longrightarrow> same (- set (x # h # xs)) m (ins_tail h x m)"
    and same_rem: "rep m h xs \<Longrightarrow> x \<in> set xs \<Longrightarrow> same (- set (h # xs)) m (rem x m)"
begin

lemma rep_rem1: "rep m h xs \<Longrightarrow> x \<in> set xs \<Longrightarrow> rep (rem x m) h (remove1 x xs)"
proof -
  assume r: "rep m h xs" and x: "x \<in> set xs"
  obtain as bs where xs: "xs = as @ x # bs" "x \<notin> set as"
    using x by (auto dest: split_list_first)
  show ?thesis using rep_rem [of m h as x bs] r xs by (simp add: remove1_append)
qed

text \<open>The move that keeps a queue in order of use: remove a member, insert it at the head.\<close>

lemma rep_move_to_head:
  assumes "rep m h xs" "x \<in> set xs"
  shows "rep (ins_head h x (rem x m)) h (x # remove1 x xs)"
  using rep_ins_head [OF rep_rem1 [OF assms], of x] rep_distinct [OF assms(1)] assms(2)
  by (auto dest: notin_set_remove1)

lemma same_move_to_head:
  assumes "rep m h xs" "x \<in> set xs"
  shows "same (- set (h # xs)) m (ins_head h x (rem x m))"
proof -
  have "same (- set (h # xs)) (rem x m) (ins_head h x (rem x m))"
    by (rule same_mono [OF same_ins_head [OF rep_rem1 [OF assms]]])
      (use assms(2) in \<open>auto dest: notin_set_remove1\<close>)
  then show ?thesis by (rule same_trans [OF same_rem [OF assms]])
qed

lemma lst_in: "rep m h xs \<Longrightarrow> xs \<noteq> [] \<Longrightarrow> lst h m = last xs \<and> last xs \<in> set xs"
  by (simp add: lst_rep)

lemma rep_drop_last: "rep m h (xs @ [x]) \<Longrightarrow> lst h m = x \<and> rep (rem x m) h xs"
  using rep_rem [of m h xs x "[]"] by (simp add: lst_rep)

lemma rep_drop_first: "rep m h (x # xs) \<Longrightarrow> first h m = x \<and> rep (rem x m) h xs"
  using rep_rem [of m h "[]" x xs] by (simp add: first_rep)

text \<open>Queues that share no link do not see each other's updates.\<close>

lemma other_rem:
  assumes "rep m h xs" "x \<in> set xs" "set (h # xs) \<inter> set (g # ys) = {}"
  shows "rep (rem x m) g ys = rep m g ys"
  by (rule same_rep [OF same_rem [OF assms(1,2)]]) (use assms(3) in auto)

lemma other_ins_head:
  assumes "rep m h xs" "set (x # h # xs) \<inter> set (g # ys) = {}"
  shows "rep (ins_head h x m) g ys = rep m g ys"
  by (rule same_rep [OF same_ins_head [OF assms(1)]]) (use assms(2) in auto)

lemma other_ins_tail:
  assumes "rep m h xs" "set (x # h # xs) \<inter> set (g # ys) = {}"
  shows "rep (ins_tail h x m) g ys = rep m g ys"
  by (rule same_rep [OF same_ins_tail [OF assms(1)]]) (use assms(2) in auto)

lemma other_move_to_head:
  assumes "rep m h xs" "x \<in> set xs" "set (h # xs) \<inter> set (g # ys) = {}"
  shows "rep (ins_head h x (rem x m)) g ys = rep m g ys"
  by (rule same_rep [OF same_move_to_head [OF assms(1,2)]]) (use assms(3) in auto)

lemma other_init:
  "h \<notin> set (g # ys) \<Longrightarrow> rep (init h m) g ys = rep m g ys"
  by (rule same_rep [OF same_init]) auto

end

interpretation lq: intrusive_queue dll same_links mps_queue_init mps_queue_empty mps_queue_head
  mps_queue_last mps_queue_next mps_queue_insert_head mps_queue_insert_tail mps_queue_remove
proof
  fix m h xs
  assume "dll m h xs"
  then show "mps_queue_head h m = hd (xs @ [h])" "mps_queue_last h m = last (h # xs)"
    by (auto simp: mps_queue_head_def mps_queue_last_def dest: dll_first dll_last)
qed (auto intro: dll_unique dll_init dll_insert_head dll_insert_tail dll_remove same_links_trans
    same_links_mono same_links_init same_links_insert_head same_links_insert_tail same_links_remove
    simp: dll_empty dll_next dll_same_links simp del: set_simps, auto simp: dll_def)

end
