(* ===== verification/Slab.thy ===== *)
theory Slab
  imports Prelude
begin

text \<open>
  The slab allocator of src/src/mps_slab.c, over offsets from the pool. A \<^verbatim>\<open>mps_slab_page_t\<close>, whether
  in the pages array, in the slots array or as the pool's \<^verbatim>\<open>free\<close> member, is the three field maps
  \<open>pg_slab\<close>, \<open>pg_next\<close>, \<open>pg_prev\<close> at its offset; the low two bits of \<open>pg_prev\<close> carry the page type. The
  bitmap words that the small slots keep at the start of their page are the map \<open>bitmap\<close>, by address
  (the chunks they occupy are never handed out). \<open>stat_total\<close>, \<open>stat_used\<close>, \<open>stat_reqs\<close> and
  \<open>stat_fails\<close> are the members of the stats array, by slot. A pointer is aligned as its offset is, the
  pool being mapped at a page boundary. \<open>None\<close> is a walk of the free list that never ends.

  The sizes of the structs are those of the 64-bit ABI: 24 bytes for a page, 32 for a stat, 144 for the
  pool header, whose member \<^verbatim>\<open>free\<close> is at 80.
\<close>

definition MPS_SLAB_PAGE_MASK :: nat where "MPS_SLAB_PAGE_MASK = 3"
definition MPS_SLAB_PAGE :: nat where "MPS_SLAB_PAGE = 0"
definition MPS_SLAB_BIG :: nat where "MPS_SLAB_BIG = 1"
definition MPS_SLAB_EXACT :: nat where "MPS_SLAB_EXACT = 2"
definition MPS_SLAB_SMALL :: nat where "MPS_SLAB_SMALL = 3"

definition MPS_SLAB_PAGE_FREE :: u64 where "MPS_SLAB_PAGE_FREE = 0"
definition MPS_SLAB_PAGE_BUSY :: u64 where "MPS_SLAB_PAGE_BUSY = - 1"
definition MPS_SLAB_PAGE_START :: u64 where "MPS_SLAB_PAGE_START = 0x8000000000000000"
definition MPS_SLAB_SHIFT_MASK :: u64 where "MPS_SLAB_SHIFT_MASK = 0x000000000000000f"
definition MPS_SLAB_MAP_MASK :: u64 where "MPS_SLAB_MAP_MASK = 0xffffffff00000000"
definition MPS_SLAB_MAP_SHIFT :: nat where "MPS_SLAB_MAP_SHIFT = 32"
definition MPS_SLAB_BUSY :: u64 where "MPS_SLAB_BUSY = - 1"

definition page_size :: nat where "page_size = 24"
definition stat_size :: nat where "stat_size = 32"
definition pool_size :: nat where "pool_size = 144"
definition pool_free :: off where "pool_free = 80"

named_theorems slab_consts
declare MPS_SLAB_PAGE_MASK_def [slab_consts] MPS_SLAB_PAGE_def [slab_consts]
  MPS_SLAB_BIG_def [slab_consts] MPS_SLAB_EXACT_def [slab_consts] MPS_SLAB_SMALL_def [slab_consts]
  MPS_SLAB_PAGE_FREE_def [slab_consts] MPS_SLAB_PAGE_BUSY_def [slab_consts]
  MPS_SLAB_PAGE_START_def [slab_consts] MPS_SLAB_SHIFT_MASK_def [slab_consts]
  MPS_SLAB_MAP_MASK_def [slab_consts] MPS_SLAB_MAP_SHIFT_def [slab_consts] MPS_SLAB_BUSY_def [slab_consts]
  page_size_def [slab_consts] stat_size_def [slab_consts] pool_size_def [slab_consts] pool_free_def [slab_consts]

record slab_pool =
  pg_slab :: "off \<Rightarrow> u64"
  pg_next :: "off \<Rightarrow> off"
  pg_prev :: "off \<Rightarrow> off"
  bitmap :: "off \<Rightarrow> u64"
  stat_total :: "nat \<Rightarrow> u64"
  stat_used :: "nat \<Rightarrow> u64"
  stat_reqs :: "nat \<Rightarrow> u64"
  stat_fails :: "nat \<Rightarrow> u64"
  pool_data :: off
  min_size :: nat
  min_shift :: nat
  pool_pages :: off
  pool_last :: off
  pool_stats :: off
  pfree :: u64
  pool_start :: off
  pool_end :: off
  log_nomem :: bool

text \<open>The file-scope variables that \<^verbatim>\<open>mps_slab_sizes_init\<close> sets, once, from the page size.\<close>

record slab_sizes =
  pagesize :: nat
  pagesize_shift :: nat
  max_size :: nat
  exact_size :: nat
  exact_shift :: nat

text \<open>The loop \<^verbatim>\<open>for (...; n >>= 1; shift++)\<close>: how often it counts.\<close>

fun shift_loop :: "nat \<Rightarrow> nat" where
  "shift_loop n = (if n div 2 = 0 then 0 else Suc (shift_loop (n div 2)))"

declare shift_loop.simps [simp del]

definition mps_slab_sizes_init :: "nat \<Rightarrow> slab_sizes" where
  "mps_slab_sizes_init n =
     \<lparr>pagesize = n, pagesize_shift = shift_loop n, max_size = n div 2,
      exact_size = n div 64, exact_shift = shift_loop (n div 64)\<rparr>"

subsection \<open>Fields\<close>

definition pg_set_slab :: "off \<Rightarrow> u64 \<Rightarrow> slab_pool \<Rightarrow> slab_pool" where
  "pg_set_slab a v s = s\<lparr>pg_slab := (pg_slab s)(a := v)\<rparr>"

definition pg_set_next :: "off \<Rightarrow> off \<Rightarrow> slab_pool \<Rightarrow> slab_pool" where
  "pg_set_next a v s = s\<lparr>pg_next := (pg_next s)(a := v)\<rparr>"

definition pg_set_prev :: "off \<Rightarrow> off \<Rightarrow> slab_pool \<Rightarrow> slab_pool" where
  "pg_set_prev a v s = s\<lparr>pg_prev := (pg_prev s)(a := v)\<rparr>"

definition set_bitmap :: "off \<Rightarrow> u64 \<Rightarrow> slab_pool \<Rightarrow> slab_pool" where
  "set_bitmap a v s = s\<lparr>bitmap := (bitmap s)(a := v)\<rparr>"

definition incr_reqs :: "nat \<Rightarrow> slab_pool \<Rightarrow> slab_pool" where
  "incr_reqs slot s = s\<lparr>stat_reqs := (stat_reqs s)(slot := stat_reqs s slot + 1)\<rparr>"

definition incr_used :: "nat \<Rightarrow> slab_pool \<Rightarrow> slab_pool" where
  "incr_used slot s = s\<lparr>stat_used := (stat_used s)(slot := stat_used s slot + 1)\<rparr>"

definition decr_used :: "nat \<Rightarrow> slab_pool \<Rightarrow> slab_pool" where
  "decr_used slot s = s\<lparr>stat_used := (stat_used s)(slot := stat_used s slot - 1)\<rparr>"

definition incr_fails :: "nat \<Rightarrow> slab_pool \<Rightarrow> slab_pool" where
  "incr_fails slot s = s\<lparr>stat_fails := (stat_fails s)(slot := stat_fails s slot + 1)\<rparr>"

definition add_total :: "nat \<Rightarrow> u64 \<Rightarrow> slab_pool \<Rightarrow> slab_pool" where
  "add_total slot v s = s\<lparr>stat_total := (stat_total s)(slot := stat_total s slot + v)\<rparr>"

definition set_pfree :: "u64 \<Rightarrow> slab_pool \<Rightarrow> slab_pool" where
  "set_pfree v s = s\<lparr>pfree := v\<rparr>"

definition mps_slab_slots :: "nat \<Rightarrow> off" where
  "mps_slab_slots slot = pool_size + slot * page_size"

definition page_at :: "off \<Rightarrow> nat \<Rightarrow> off" where
  "page_at page i = page + i * page_size"

definition mps_slab_page_type :: "slab_pool \<Rightarrow> off \<Rightarrow> nat" where
  "mps_slab_page_type s page = pg_prev s page mod (MPS_SLAB_PAGE_MASK + 1)"

definition mps_slab_page_prev :: "slab_pool \<Rightarrow> off \<Rightarrow> off" where
  "mps_slab_page_prev s page = pg_prev s page - pg_prev s page mod (MPS_SLAB_PAGE_MASK + 1)"

definition mps_slab_page_next :: "slab_pool \<Rightarrow> off \<Rightarrow> off" where
  "mps_slab_page_next s page = pg_next s page"

definition mps_slab_page_addr :: "slab_sizes \<Rightarrow> slab_pool \<Rightarrow> off \<Rightarrow> off" where
  "mps_slab_page_addr z s page = (page - pool_pages s) div page_size * 2 ^ pagesize_shift z + pool_start s"

subsection \<open>Initialisation\<close>

text \<open>Unsigned 64-bit subtraction.\<close>

definition usub :: "nat \<Rightarrow> nat \<Rightarrow> nat" where
  "usub a b = nat ((int a - int b) mod 2 ^ 64)"

fun init_slots :: "nat \<Rightarrow> nat \<Rightarrow> slab_pool \<Rightarrow> slab_pool" where
  "init_slots i 0 s = s"
| "init_slots i (Suc n) s =
     (let a = mps_slab_slots i;
          s = pg_set_slab a 0 s;
          s = pg_set_next a a s;
          s = pg_set_prev a mps_nulloff s
      in init_slots (Suc i) n s)"

text \<open>\<^verbatim>\<open>ngx_memzero\<close> of the stats array and of \<open>n\<close> page structs.\<close>

definition zero_stats :: "nat \<Rightarrow> slab_pool \<Rightarrow> slab_pool" where
  "zero_stats n s =
     (let z = (\<lambda>f i. if i < n then 0 else f i)
      in s\<lparr>stat_total := z (stat_total s), stat_used := z (stat_used s),
           stat_reqs := z (stat_reqs s), stat_fails := z (stat_fails s)\<rparr>)"

fun zero_pages :: "off \<Rightarrow> nat \<Rightarrow> slab_pool \<Rightarrow> slab_pool" where
  "zero_pages p 0 s = s"
| "zero_pages p (Suc n) s = zero_pages (p + page_size) n (pg_set_prev p 0 (pg_set_next p 0 (pg_set_slab p 0 s)))"

text \<open>
  \<^verbatim>\<open>mps_slab_init\<close> in three parts: the header with the slots and the statistics, the free run of all pages,
  and where the pages start. The initialisation of the mutex, which comes first, is in the theory PoolFile.
\<close>

definition slab_init_front :: "slab_sizes \<Rightarrow> nat \<Rightarrow> nat \<Rightarrow> slab_pool \<Rightarrow> slab_pool" where
  "slab_init_front z shm_size shift s =
     (let s = s\<lparr>pool_data := 0, pool_end := shm_size, min_shift := shift, min_size := 2 ^ shift\<rparr>;
          p = pool_size;
          n = pagesize_shift z - shift;
          s = init_slots 0 n s;
          p = p + n * page_size;
          s = s\<lparr>pool_stats := p\<rparr>
      in zero_stats n s)"

definition slab_init_run :: "off \<Rightarrow> nat \<Rightarrow> slab_pool \<Rightarrow> slab_pool" where
  "slab_init_run page pages s =
     (let s = s\<lparr>pool_pages := page\<rparr>;
          s = zero_pages page pages s;
          s = pg_set_slab pool_free 0 s;
          s = pg_set_next pool_free page s;
          s = pg_set_prev pool_free mps_nulloff s;
          s = pg_set_slab page (of_nat pages) s;
          s = pg_set_next page pool_free s
      in pg_set_prev page pool_free s)"

definition mps_slab_init :: "slab_sizes \<Rightarrow> nat \<Rightarrow> nat \<Rightarrow> slab_pool \<Rightarrow> slab_pool" where
  "mps_slab_init z shm_size shift s =
     (let s = slab_init_front z shm_size shift s;
          n = pagesize_shift z - shift;
          p = pool_stats s + n * stat_size;
          size = usub (usub shm_size pool_size) (n * (page_size + stat_size));
          pages = size div (pagesize z + page_size);
          s = slab_init_run p pages s;
          start = ngx_align_ptr (p + pages * page_size) (pagesize z);
          s = s\<lparr>pool_start := start\<rparr>;
          m = int pages - int (usub shm_size start div pagesize z);
          last = (if m > 0 then nat (int pages - m) else pages);
          s = (if m > 0 then pg_set_slab p (of_nat last) s else s);
          s = s\<lparr>pool_last := page_at p last\<rparr>;
          s = set_pfree (of_nat last) s
      in s\<lparr>log_nomem := True\<rparr>)"

subsection \<open>Pages\<close>

text \<open>The walk of the free list: the first run with enough pages, \<open>Some None\<close> at its end.\<close>

partial_function (option) slab_find_run :: "slab_pool \<Rightarrow> nat \<Rightarrow> off \<Rightarrow> off option option" where
  "slab_find_run s pages page =
     (if page = pool_free then Some None
      else if unat (pg_slab s page) \<ge> pages then Some (Some page)
      else slab_find_run s pages (mps_slab_page_next s page))"

declare slab_find_run.simps [code]

fun mark_busy :: "off \<Rightarrow> nat \<Rightarrow> slab_pool \<Rightarrow> slab_pool" where
  "mark_busy p 0 s = s"
| "mark_busy p (Suc n) s =
     (let s = pg_set_slab p MPS_SLAB_PAGE_BUSY s;
          s = pg_set_next p mps_nulloff s;
          s = pg_set_prev p MPS_SLAB_PAGE s
      in mark_busy (p + page_size) n s)"

text \<open>Taking \<open>pages\<close> pages off the front of the free run at \<open>page\<close>.\<close>

definition slab_take_run :: "off \<Rightarrow> nat \<Rightarrow> slab_pool \<Rightarrow> slab_pool" where
  "slab_take_run page pages s =
     (let s = (if unat (pg_slab s page) > pages then
                 let rest = page_at page pages;
                     s = pg_set_prev (page_at page (unat (pg_slab s page) - 1)) rest s;
                     s = pg_set_slab rest (pg_slab s page - of_nat pages) s;
                     s = pg_set_next rest (pg_next s page) s;
                     s = pg_set_prev rest (pg_prev s page) s;
                     p = pg_prev s page;
                     s = pg_set_next p rest s;
                     nx = mps_slab_page_next s page
                 in pg_set_prev nx rest s
               else
                 let p = pg_prev s page;
                     s = pg_set_next p (pg_next s page) s;
                     nx = mps_slab_page_next s page
                 in pg_set_prev nx (pg_prev s page) s);
          s = pg_set_slab page (of_nat pages OR MPS_SLAB_PAGE_START) s;
          s = pg_set_next page mps_nulloff s;
          s = pg_set_prev page MPS_SLAB_PAGE s;
          s = set_pfree (pfree s - of_nat pages) s
      in mark_busy (page + page_size) (pages - 1) s)"

definition mps_slab_alloc_pages :: "slab_pool \<Rightarrow> nat \<Rightarrow> (off \<times> slab_pool) option" where
  "mps_slab_alloc_pages s pages =
     do { run \<leftarrow> slab_find_run s pages (mps_slab_page_next s pool_free);
          (case run of
             Some page \<Rightarrow> Some (page, slab_take_run page pages s)
           | None \<Rightarrow> Some (mps_nulloff, s)) }"

text \<open>\<^verbatim>\<open>prev->next = page->next; next->prev = page->prev\<close>.\<close>

definition slab_unlink :: "off \<Rightarrow> slab_pool \<Rightarrow> slab_pool" where
  "slab_unlink page s =
     (let prev = mps_slab_page_prev s page;
          s = pg_set_next prev (pg_next s page) s;
          nx = mps_slab_page_next s page
      in pg_set_prev nx (pg_prev s page) s)"

text \<open>Joining the freed run with the free run after it; \<open>pages\<close> counts the pages after the first.\<close>

definition slab_join_next :: "off \<Rightarrow> nat \<Rightarrow> slab_pool \<Rightarrow> nat \<times> slab_pool" where
  "slab_join_next page pages s =
     (let join = page_at page (unat (pg_slab s page))
      in if join < pool_last s \<and> mps_slab_page_type s join = MPS_SLAB_PAGE \<and> pg_next s join \<noteq> mps_nulloff
         then
           let pages = pages + unat (pg_slab s join);
               s = pg_set_slab page (pg_slab s page + pg_slab s join) s;
               s = slab_unlink join s;
               s = pg_set_slab join MPS_SLAB_PAGE_FREE s;
               s = pg_set_next join mps_nulloff s;
               s = pg_set_prev join MPS_SLAB_PAGE s
           in (pages, s)
         else (pages, s))"

text \<open>Joining it with the free run before it, found through the last page of that run.\<close>

definition slab_join_prev :: "off \<Rightarrow> nat \<Rightarrow> slab_pool \<Rightarrow> off \<times> nat \<times> slab_pool" where
  "slab_join_prev page pages s =
     (if page > pool_pages s \<and> mps_slab_page_type s (page - page_size) = MPS_SLAB_PAGE then
        let join = page - page_size;
            join = (if pg_slab s join = MPS_SLAB_PAGE_FREE then mps_slab_page_prev s join else join)
        in if pg_next s join \<noteq> mps_nulloff then
             let pages = pages + unat (pg_slab s join);
                 s = pg_set_slab join (pg_slab s join + pg_slab s page) s;
                 s = slab_unlink join s;
                 s = pg_set_slab page MPS_SLAB_PAGE_FREE s;
                 s = pg_set_next page mps_nulloff s;
                 s = pg_set_prev page MPS_SLAB_PAGE s
             in (join, pages, s)
           else (page, pages, s)
      else (page, pages, s))"

text \<open>The first lines of \<^verbatim>\<open>mps_slab_free_pages\<close> count the pages and clear their structs, the last put the
  run at the front of the free list.\<close>

definition slab_clear_run :: "off \<Rightarrow> nat \<Rightarrow> slab_pool \<Rightarrow> slab_pool" where
  "slab_clear_run page pages s =
     (let s = set_pfree (pfree s + of_nat pages) s;
          s = pg_set_slab page (of_nat pages) s;
          pages = pages - 1
      in if pages \<noteq> 0 then zero_pages (page + page_size) pages s else s)"

definition slab_push_free :: "off \<Rightarrow> nat \<Rightarrow> slab_pool \<Rightarrow> slab_pool" where
  "slab_push_free page pages s =
     (let s = (if pages \<noteq> 0 then pg_set_prev (page_at page pages) page s else s);
          s = pg_set_prev page pool_free s;
          s = pg_set_next page (pg_next s pool_free) s;
          nx = mps_slab_page_next s page;
          s = pg_set_prev nx page s
      in pg_set_next pool_free page s)"

definition mps_slab_free_pages :: "off \<Rightarrow> nat \<Rightarrow> slab_pool \<Rightarrow> slab_pool" where
  "mps_slab_free_pages page pages s =
     (let s = slab_clear_run page pages s;
          s = (if pg_next s page \<noteq> mps_nulloff then slab_unlink page s else s);
          (pages, s) = slab_join_next page (pages - 1) s;
          (page, pages, s) = slab_join_prev page pages s
      in slab_push_free page pages s)"

subsection \<open>Allocation\<close>

text \<open>The shift of the chunks that serve \<open>sz\<close>, and the slot they are in.\<close>

definition slab_shift_slot :: "slab_pool \<Rightarrow> nat \<Rightarrow> nat \<times> nat" where
  "slab_shift_slot s sz =
     (if sz > min_size s then let shift = 1 + shift_loop (sz - 1) in (shift, shift - min_shift s)
      else (min_shift s, 0))"

text \<open>\<^verbatim>\<open>for (m = 1 << lo, i = 0; ...; m <<= 1, i++) { if (w & m) continue; ...\<close>: the first clear bit.\<close>

definition find_clear :: "u64 \<Rightarrow> nat \<Rightarrow> nat \<Rightarrow> nat option" where
  "find_clear w lo n = List.find (\<lambda>i. w AND push_bit (lo + i) 1 = 0) [0..<n]"

text \<open>A page without a free chunk leaves the list of its slot.\<close>

definition slab_page_full :: "off \<Rightarrow> nat \<Rightarrow> slab_pool \<Rightarrow> slab_pool" where
  "slab_page_full page type s =
     (let s = slab_unlink page s;
          s = pg_set_next page mps_nulloff s
      in pg_set_prev page type s)"

text \<open>
  The three ways to take a chunk from the first page of a slot's list; \<open>None\<close> is the
  \<^verbatim>\<open>page is busy\<close> error.
\<close>

definition slab_alloc_small :: "slab_sizes \<Rightarrow> nat \<Rightarrow> nat \<Rightarrow> off \<Rightarrow> slab_pool \<Rightarrow> (off \<times> slab_pool) option" where
  "slab_alloc_small z slot shift page s =
     (let bm = mps_slab_page_addr z s page;
          nmap = pagesize z div 2 ^ shift div 64
      in do {
        n \<leftarrow> List.find (\<lambda>n. bitmap s (bm + 8 * n) \<noteq> MPS_SLAB_BUSY) [0..<nmap];
        i \<leftarrow> find_clear (bitmap s (bm + 8 * n)) 0 64;
        let s = set_bitmap (bm + 8 * n) (bitmap s (bm + 8 * n) OR push_bit i 1) s;
            i = (n * 64 + i) * 2 ^ shift;
            p = bm + i;
            s = incr_used slot s;
            s = (if bitmap s (bm + 8 * n) = MPS_SLAB_BUSY
                    \<and> list_all (\<lambda>n. bitmap s (bm + 8 * n) = MPS_SLAB_BUSY) [n + 1..<nmap]
                 then slab_page_full page MPS_SLAB_SMALL s else s)
        in Some (p, s) })"

definition slab_alloc_exact :: "slab_sizes \<Rightarrow> nat \<Rightarrow> nat \<Rightarrow> off \<Rightarrow> slab_pool \<Rightarrow> (off \<times> slab_pool) option" where
  "slab_alloc_exact z slot shift page s =
     do {
        i \<leftarrow> find_clear (pg_slab s page) 0 64;
        let s = pg_set_slab page (pg_slab s page OR push_bit i 1) s;
            s = (if pg_slab s page = MPS_SLAB_BUSY then slab_page_full page MPS_SLAB_EXACT s else s);
            p = mps_slab_page_addr z s page + i * 2 ^ shift;
            s = incr_used slot s
        in Some (p, s) }"

definition slab_alloc_big :: "slab_sizes \<Rightarrow> nat \<Rightarrow> nat \<Rightarrow> off \<Rightarrow> slab_pool \<Rightarrow> (off \<times> slab_pool) option" where
  "slab_alloc_big z slot shift page s =
     (let n = pagesize z div 2 ^ shift;
          mask = push_bit MPS_SLAB_MAP_SHIFT (push_bit n 1 - 1)
      in do {
        i \<leftarrow> find_clear (pg_slab s page) MPS_SLAB_MAP_SHIFT n;
        let s = pg_set_slab page (pg_slab s page OR push_bit (MPS_SLAB_MAP_SHIFT + i) 1) s;
            s = (if pg_slab s page AND MPS_SLAB_MAP_MASK = mask
                 then slab_page_full page MPS_SLAB_BIG s else s);
            p = mps_slab_page_addr z s page + i * 2 ^ shift;
            s = incr_used slot s
        in Some (p, s) })"

text \<open>The first chunks of a small page hold its bitmap: \<open>n\<close> of them, at least one.\<close>

definition small_reserved :: "slab_sizes \<Rightarrow> nat \<Rightarrow> nat" where
  "small_reserved z shift =
     (let n = pagesize z div 2 ^ shift div (2 ^ shift * 8) in if n = 0 then 1 else n)"

definition slab_init_bitmap :: "off \<Rightarrow> nat \<Rightarrow> nat \<Rightarrow> slab_pool \<Rightarrow> slab_pool" where
  "slab_init_bitmap bm n nmap s =
     (let i = (n + 1) div 64;
          s = fold (\<lambda>i. set_bitmap (bm + 8 * i) MPS_SLAB_BUSY) [0..<i] s;
          m = push_bit ((n + 1) mod 64) 1 - 1;
          s = set_bitmap (bm + 8 * i) m s
      in fold (\<lambda>i. set_bitmap (bm + 8 * i) 0) [i + 1..<nmap] s)"

text \<open>A fresh page becomes the only page in its slot's list.\<close>

definition slab_link_first :: "nat \<Rightarrow> off \<Rightarrow> nat \<Rightarrow> slab_pool \<Rightarrow> slab_pool" where
  "slab_link_first slot page type s =
     (let s = pg_set_next page (mps_slab_slots slot) s;
          s = pg_set_prev page (mps_slab_slots slot OR type) s
      in pg_set_next (mps_slab_slots slot) page s)"

definition slab_page_new :: "slab_sizes \<Rightarrow> nat \<Rightarrow> nat \<Rightarrow> off \<Rightarrow> slab_pool \<Rightarrow> off \<times> slab_pool" where
  "slab_page_new z slot shift page s =
     (if shift < exact_shift z then
        let bm = mps_slab_page_addr z s page;
            n = small_reserved z shift;
            nmap = pagesize z div 2 ^ shift div 64;
            s = slab_init_bitmap bm n nmap s;
            s = pg_set_slab page (of_nat shift) s;
            s = slab_link_first slot page MPS_SLAB_SMALL s;
            s = add_total slot (of_nat (pagesize z div 2 ^ shift) - of_nat n) s;
            p = mps_slab_page_addr z s page + n * 2 ^ shift;
            s = incr_used slot s
        in (p, s)
      else if shift = exact_shift z then
        let s = pg_set_slab page 1 s;
            s = slab_link_first slot page MPS_SLAB_EXACT s;
            s = add_total slot 64 s;
            p = mps_slab_page_addr z s page;
            s = incr_used slot s
        in (p, s)
      else
        let s = pg_set_slab page (push_bit MPS_SLAB_MAP_SHIFT 1 OR of_nat shift) s;
            s = slab_link_first slot page MPS_SLAB_BIG s;
            s = add_total slot (of_nat (pagesize z div 2 ^ shift)) s;
            p = mps_slab_page_addr z s page;
            s = incr_used slot s
        in (p, s))"

definition slab_alloc_chunk :: "slab_sizes \<Rightarrow> nat \<Rightarrow> nat \<Rightarrow> off \<Rightarrow> slab_pool \<Rightarrow> off \<times> slab_pool" where
  "slab_alloc_chunk z slot shift page s =
     (case (if shift < exact_shift z then slab_alloc_small z slot shift page s
            else if shift = exact_shift z then slab_alloc_exact z slot shift page s
            else slab_alloc_big z slot shift page s) of
        Some r \<Rightarrow> r
      | None \<Rightarrow> (0, incr_fails slot s))"

definition mps_slab_alloc_locked :: "slab_sizes \<Rightarrow> slab_pool \<Rightarrow> nat \<Rightarrow> (off \<times> slab_pool) option" where
  "mps_slab_alloc_locked z s sz =
     (if sz > max_size z then do {
        (page, s) \<leftarrow> mps_slab_alloc_pages s
            (sz div 2 ^ pagesize_shift z + (if sz mod pagesize z \<noteq> 0 then 1 else 0));
        Some (if page \<noteq> mps_nulloff then mps_slab_page_addr z s page else 0, s) }
      else
        let (shift, slot) = slab_shift_slot s sz;
            s = incr_reqs slot s;
            page = mps_slab_page_next s (mps_slab_slots slot)
        in if mps_slab_page_next s page \<noteq> page then Some (slab_alloc_chunk z slot shift page s)
           else do {
             (page, s) \<leftarrow> mps_slab_alloc_pages s 1;
             Some (if page \<noteq> mps_nulloff then slab_page_new z slot shift page s
                   else (0, incr_fails slot s)) })"

subsection \<open>Release\<close>

text \<open>What \<^verbatim>\<open>mps_slab_free_locked\<close> logs when it refuses a pointer.\<close>

datatype slab_refusal = Outside_of_pool | Wrong_chunk | Chunk_already_free | Page_already_free | Wrong_page

text \<open>A full page goes back to the front of its slot's list.\<close>

definition slab_relink :: "nat \<Rightarrow> off \<Rightarrow> nat \<Rightarrow> slab_pool \<Rightarrow> slab_pool" where
  "slab_relink slot page type s =
     (let s = pg_set_next page (pg_next s (mps_slab_slots slot)) s;
          s = pg_set_next (mps_slab_slots slot) page s;
          s = pg_set_prev page (mps_slab_slots slot OR type) s;
          nx = mps_slab_page_next s page
      in pg_set_prev nx (page OR type) s)"

definition slab_free_small :: "slab_sizes \<Rightarrow> off \<Rightarrow> off \<Rightarrow> slab_pool \<Rightarrow> slab_refusal option \<times> slab_pool" where
  "slab_free_small z page p s =
     (let slab = pg_slab s page;
          shift = unat (slab AND MPS_SLAB_SHIFT_MASK);
          size = 2 ^ shift
      in if p mod size \<noteq> 0 then (Some Wrong_chunk, s)
         else
           let c = p mod pagesize z div 2 ^ shift;
               m = push_bit (c mod 64) 1;
               bm = p - p mod pagesize z;
               n = c div 64
           in if bitmap s (bm + 8 * n) AND m \<noteq> 0 then
                let slot = shift - min_shift s;
                    s = (if pg_next s page = 0 then slab_relink slot page MPS_SLAB_SMALL s else s);
                    s = set_bitmap (bm + 8 * n) (bitmap s (bm + 8 * n) AND NOT m) s;
                    n = small_reserved z shift;
                    i = n div 64;
                    m = push_bit (n mod 64) 1 - 1;
                    nmap = pagesize z div 2 ^ shift div 64;
                    s = (if bitmap s (bm + 8 * i) AND NOT m \<noteq> 0
                            \<or> list_ex (\<lambda>i. bitmap s (bm + 8 * i) \<noteq> 0) [i + 1..<nmap]
                         then s
                         else add_total slot (- (of_nat (pagesize z div 2 ^ shift) - of_nat n))
                                (mps_slab_free_pages page 1 s))
                in (None, decr_used slot s)
              else (Some Chunk_already_free, s))"

definition slab_free_exact :: "slab_sizes \<Rightarrow> off \<Rightarrow> off \<Rightarrow> slab_pool \<Rightarrow> slab_refusal option \<times> slab_pool" where
  "slab_free_exact z page p s =
     (let slab = pg_slab s page;
          m = push_bit (p mod pagesize z div 2 ^ exact_shift z) 1;
          size = exact_size z
      in if p mod size \<noteq> 0 then (Some Wrong_chunk, s)
         else if slab AND m \<noteq> 0 then
           let slot = exact_shift z - min_shift s;
               s = (if slab = MPS_SLAB_BUSY then slab_relink slot page MPS_SLAB_EXACT s else s);
               s = pg_set_slab page (pg_slab s page AND NOT m) s;
               s = (if pg_slab s page \<noteq> 0 then s
                    else add_total slot (- 64) (mps_slab_free_pages page 1 s))
           in (None, decr_used slot s)
         else (Some Chunk_already_free, s))"

definition slab_free_big :: "slab_sizes \<Rightarrow> off \<Rightarrow> off \<Rightarrow> slab_pool \<Rightarrow> slab_refusal option \<times> slab_pool" where
  "slab_free_big z page p s =
     (let slab = pg_slab s page;
          shift = unat (slab AND MPS_SLAB_SHIFT_MASK);
          size = 2 ^ shift
      in if p mod size \<noteq> 0 then (Some Wrong_chunk, s)
         else
           let m = push_bit (p mod pagesize z div 2 ^ shift + MPS_SLAB_MAP_SHIFT) 1
           in if slab AND m \<noteq> 0 then
                let slot = shift - min_shift s;
                    s = (if pg_next s page = 0 then slab_relink slot page MPS_SLAB_BIG s else s);
                    s = pg_set_slab page (pg_slab s page AND NOT m) s;
                    s = (if pg_slab s page AND MPS_SLAB_MAP_MASK \<noteq> 0 then s
                         else add_total slot (- of_nat (pagesize z div 2 ^ shift))
                                (mps_slab_free_pages page 1 s))
                in (None, decr_used slot s)
              else (Some Chunk_already_free, s))"

definition slab_free_page :: "slab_sizes \<Rightarrow> off \<Rightarrow> off \<Rightarrow> slab_pool \<Rightarrow> slab_refusal option \<times> slab_pool" where
  "slab_free_page z page p s =
     (let slab = pg_slab s page
      in if p mod pagesize z \<noteq> 0 then (Some Wrong_chunk, s)
         else if slab AND MPS_SLAB_PAGE_START = 0 then (Some Page_already_free, s)
         else if slab = MPS_SLAB_PAGE_BUSY then (Some Wrong_page, s)
         else
           let size = unat (slab AND NOT MPS_SLAB_PAGE_START)
           in (None, mps_slab_free_pages page size s))"

definition mps_slab_free_locked :: "slab_sizes \<Rightarrow> slab_pool \<Rightarrow> off \<Rightarrow> slab_refusal option \<times> slab_pool" where
  "mps_slab_free_locked z s p =
     (if p < pool_start s \<or> p > pool_end s then (Some Outside_of_pool, s)
      else
        let n = (p - pool_start s) div 2 ^ pagesize_shift z;
            page = page_at (pool_pages s) n;
            type = mps_slab_page_type s page
        in if type = MPS_SLAB_SMALL then slab_free_small z page p s
           else if type = MPS_SLAB_EXACT then slab_free_exact z page p s
           else if type = MPS_SLAB_BIG then slab_free_big z page p s
           else slab_free_page z page p s)"

end
