(* ===== verification/Murmur.thy ===== *)
theory Murmur
  imports Prelude
begin

text \<open>
  \<^verbatim>\<open>ngx_murmur_hash2\<close> of src/src/ngx_murmurhash.c. The C reads \<open>len\<close> bytes from \<open>data\<close>: here the byte
  list, whose length is \<open>len\<close>. All arithmetic is on 32-bit words and wraps as the C does; the
  products \<^verbatim>\<open>data[3] << 24\<close> are taken modulo \<open>2 ^ 32\<close>, which is what the conversion back to
  \<^verbatim>\<open>uint32_t\<close> yields. The lemmas show that every step of the hash is a bijection of the running
  state: two keys of the same length that differ in one aligned block only never collide, and keys
  of at most four bytes collide only with keys of another length.
\<close>

definition murmur_m :: u32 where
  "murmur_m = 0x5bd1e995"

definition murmur_block :: "byte \<Rightarrow> byte \<Rightarrow> byte \<Rightarrow> byte \<Rightarrow> u32" where
  "murmur_block d0 d1 d2 d3 =
     (let k = ucast d0;
          k = k OR push_bit 8 (ucast d1);
          k = k OR push_bit 16 (ucast d2);
          k = k OR push_bit 24 (ucast d3)
      in k)"

definition murmur_scramble :: "u32 \<Rightarrow> u32" where
  "murmur_scramble k =
     (let k = k * murmur_m;
          k = k XOR drop_bit 24 k
      in k * murmur_m)"

fun murmur_loop :: "u32 \<Rightarrow> byte list \<Rightarrow> u32 \<times> byte list" where
  "murmur_loop h (d0 # d1 # d2 # d3 # data) =
     murmur_loop ((h * murmur_m) XOR murmur_scramble (murmur_block d0 d1 d2 d3)) data"
| "murmur_loop h data = (h, data)"

fun murmur_tail :: "u32 \<Rightarrow> byte list \<Rightarrow> u32" where
  "murmur_tail h [d0, d1, d2] =
     (((h XOR push_bit 16 (ucast d2)) XOR push_bit 8 (ucast d1)) XOR ucast d0) * murmur_m"
| "murmur_tail h [d0, d1] = ((h XOR push_bit 8 (ucast d1)) XOR ucast d0) * murmur_m"
| "murmur_tail h [d0] = (h XOR ucast d0) * murmur_m"
| "murmur_tail h data = h"

definition murmur_final :: "u32 \<Rightarrow> u32" where
  "murmur_final h =
     (let h = h XOR drop_bit 13 h;
          h = h * murmur_m
      in h XOR drop_bit 15 h)"

definition ngx_murmur_hash2 :: "byte list \<Rightarrow> u32" where
  "ngx_murmur_hash2 data =
     (let h = 0 XOR (of_nat (length data) :: u32);
          (h, rest) = murmur_loop h data
      in murmur_final (murmur_tail h rest))"

subsection \<open>Every step is injective\<close>

lemma murmur_m_inverse: "murmur_m * 3852147133 = 1"
  by (simp add: murmur_m_def)

lemma murmur_m_inj [simp]: "murmur_m * x = murmur_m * y \<longleftrightarrow> x = y"
  using mult_left_inverse_inj [OF murmur_m_inverse] by auto

lemma murmur_m_inj' [simp]: "x * murmur_m = y * murmur_m \<longleftrightarrow> x = y"
  by (simp add: mult.commute)

lemma murmur_scramble_inj: "murmur_scramble x = murmur_scramble y \<Longrightarrow> x = y"
  by (auto simp: murmur_scramble_def Let_def dest: xor_drop_bit_inj [rotated])

lemma murmur_final_inj: "murmur_final x = murmur_final y \<Longrightarrow> x = y"
proof -
  assume "murmur_final x = murmur_final y"
  then have "(x XOR drop_bit 13 x) * murmur_m = (y XOR drop_bit 13 y) * murmur_m"
    unfolding murmur_final_def Let_def by (rule xor_drop_bit_inj [rotated]) simp
  then show ?thesis by (auto dest: xor_drop_bit_inj [rotated])
qed

lemma bit_murmur_block:
  "bit (murmur_block d0 d1 d2 d3) i \<longleftrightarrow>
     (if i < 8 then bit d0 i else if i < 16 then bit d1 (i - 8)
      else if i < 24 then bit d2 (i - 16) else i < 32 \<and> bit d3 (i - 24))"
proof -
  have len: "8 \<le> j \<Longrightarrow> \<not> bit (d :: byte) j" for d j
    using bit_imp_le_length [of d j] by auto
  have "bit (murmur_block d0 d1 d2 d3) i \<longleftrightarrow> i < 32 \<and> (bit d0 i \<or> 8 \<le> i \<and> bit d1 (i - 8)
      \<or> 16 \<le> i \<and> bit d2 (i - 16) \<or> 24 \<le> i \<and> bit d3 (i - 24))"
    using len [of i d0]
    by (auto simp: murmur_block_def bit_or_iff bit_push_bit_iff bit_ucast_iff)
  moreover consider "i < 8" | "8 \<le> i" "i < 16" | "16 \<le> i" "i < 24" | "24 \<le> i" "i < 32" | "32 \<le> i"
    by linarith
  ultimately show ?thesis by cases (simp_all add: len)
qed

lemma murmur_block_inj:
  assumes eq: "murmur_block a0 a1 a2 a3 = murmur_block b0 b1 b2 b3"
  shows "a0 = b0 \<and> a1 = b1 \<and> a2 = b2 \<and> a3 = b3"
proof -
  have b: "bit (murmur_block a0 a1 a2 a3) i = bit (murmur_block b0 b1 b2 b3) i" for i
    using eq by simp
  have "bit a0 i = bit b0 i" "bit a1 i = bit b1 i" "bit a2 i = bit b2 i" "bit a3 i = bit b3 i"
    if "i < 8" for i
    using b [of i] b [of "i + 8"] b [of "i + 16"] b [of "i + 24"] that
    by (auto simp: bit_murmur_block)
  then show ?thesis by (auto intro!: bit_word_eqI)
qed

lemma murmur_xor_inj [simp]: "(h :: u32) XOR x = h XOR y \<longleftrightarrow> x = y"
  by (metis bit.xor_left_self)

lemma murmur_xor_inj' [simp]: "(x :: u32) XOR h = y XOR h \<longleftrightarrow> x = y"
  by (simp add: xor.commute [of _ h])

lemma murmur_tail_inj: "murmur_tail h data = murmur_tail h' data \<Longrightarrow> h = h'"
  by (cases "(h, data)" rule: murmur_tail.cases) (auto simp: xor.assoc)

lemma murmur_loop_rest: "length (snd (murmur_loop h data)) < 4"
  by (induction h data rule: murmur_loop.induct) auto

lemma murmur_loop_snd: "snd (murmur_loop h data) = snd (murmur_loop h' data)"
  by (induction h data arbitrary: h' rule: murmur_loop.induct) auto

lemma murmur_loop_fst_inj: "fst (murmur_loop h data) = fst (murmur_loop h' data) \<Longrightarrow> h = h'"
proof (induction h data arbitrary: h' rule: murmur_loop.induct)
  case (1 h d0 d1 d2 d3 data)
  from "1.prems" have "fst (murmur_loop (h * murmur_m XOR murmur_scramble (murmur_block d0 d1 d2 d3)) data)
      = fst (murmur_loop (h' * murmur_m XOR murmur_scramble (murmur_block d0 d1 d2 d3)) data)"
    by simp
  from "1.IH" [OF this] show ?case by simp
qed auto

lemma murmur_loop_append:
  "4 dvd length pre \<Longrightarrow> murmur_loop h (pre @ data) = murmur_loop (fst (murmur_loop h pre)) data"
proof (induction h pre rule: murmur_loop.induct)
  case (1 h d0 d1 d2 d3 pre)
  from "1.prems" have "4 dvd length pre" by (simp, presburger)
  with "1.IH" show ?case by simp
qed (auto, presburger+)

lemma murmur_block_changes_hash:
  assumes "4 dvd length pre"
  shows "ngx_murmur_hash2 (pre @ [a0, a1, a2, a3] @ post) = ngx_murmur_hash2 (pre @ [b0, b1, b2, b3] @ post)
     \<longleftrightarrow> [a0, a1, a2, a3] = [b0, b1, b2, b3]"
proof
  define h where "h = fst (murmur_loop (of_nat (length pre + 4 + length post)) pre)"
  define g where "g k = h * murmur_m XOR murmur_scramble k" for k
  have hash: "ngx_murmur_hash2 (pre @ [c0, c1, c2, c3] @ post) =
      murmur_final (murmur_tail (fst (murmur_loop (g (murmur_block c0 c1 c2 c3)) post))
        (snd (murmur_loop 0 post)))" for c0 c1 c2 c3
    using assms(1) murmur_loop_snd [of "g (murmur_block c0 c1 c2 c3)" post 0]
    by (simp add: ngx_murmur_hash2_def murmur_loop_append case_prod_beta h_def g_def ac_simps)
  assume "ngx_murmur_hash2 (pre @ [a0, a1, a2, a3] @ post) = ngx_murmur_hash2 (pre @ [b0, b1, b2, b3] @ post)"
  then have "g (murmur_block a0 a1 a2 a3) = g (murmur_block b0 b1 b2 b3)"
    unfolding hash by (blast dest: murmur_final_inj murmur_tail_inj murmur_loop_fst_inj)
  then show "[a0, a1, a2, a3] = [b0, b1, b2, b3]"
    by (auto simp: g_def dest!: murmur_scramble_inj murmur_block_inj)
qed auto

text \<open>The bytes of the tail are mixed in exactly as a block padded with zero bytes.\<close>

lemma murmur_tail_xor:
  "((h XOR push_bit 16 (ucast d2)) XOR push_bit 8 (ucast d1)) XOR ucast d0
     = h XOR murmur_block d0 d1 d2 0"
proof -
  have len: "8 \<le> j \<Longrightarrow> \<not> bit (d :: byte) j" for d j
    using bit_imp_le_length [of d j] by auto
  have "(push_bit 16 (ucast d2) XOR push_bit 8 (ucast d1)) XOR ucast d0 = murmur_block d0 d1 d2 0"
  proof (rule bit_word_eqI)
    fix i
    assume "i < LENGTH(32)"
    then consider "i < 8" | "8 \<le> i" "i < 16" | "16 \<le> i" "i < 24" | "24 \<le> i" "i < 32"
      by fastforce
    then show "bit ((push_bit 16 (ucast d2 :: u32) XOR push_bit 8 (ucast d1)) XOR ucast d0) i
        = bit (murmur_block d0 d1 d2 0) i"
      by cases (auto simp: bit_murmur_block bit_xor_iff bit_push_bit_iff bit_ucast_iff len)
  qed
  then show ?thesis by (metis xor.assoc)
qed

lemma murmur_tail_block:
  "murmur_tail h [d0, d1, d2] = (h XOR murmur_block d0 d1 d2 0) * murmur_m"
  "murmur_tail h [d0, d1] = (h XOR murmur_block d0 d1 0 0) * murmur_m"
  "murmur_tail h [d0] = (h XOR murmur_block d0 0 0 0) * murmur_m"
  using murmur_tail_xor [of h d2 d1 d0] murmur_tail_xor [of h 0 d1 d0] murmur_tail_xor [of h 0 0 d0]
  by simp_all

lemma list_upto_4:
  "length xs \<le> 4 \<Longrightarrow> xs = [] \<or> (\<exists>a. xs = [a]) \<or> (\<exists>a b. xs = [a, b]) \<or> (\<exists>a b c. xs = [a, b, c])
     \<or> (\<exists>a b c d. xs = [a, b, c, d])"
  by (auto simp: length_Suc_conv le_Suc_eq numeral_eq_Suc)

lemma murmur_short_inj:
  assumes "length xs = length ys" "length ys \<le> 4" "ngx_murmur_hash2 xs = ngx_murmur_hash2 ys"
  shows "xs = ys"
  using list_upto_4 [of xs] list_upto_4 [of ys] assms murmur_block_changes_hash [of "[]" _ _ _ _ "[]"]
  by (auto simp: ngx_murmur_hash2_def murmur_tail_block simp del: murmur_tail.simps
      dest!: murmur_final_inj murmur_block_inj)

subsection \<open>Reference definition\<close>

text \<open>
  MurmurHash2 as its definition has it: the key is cut into little-endian words of four bytes, which are
  mixed in one after the other; then the bytes that are left, as one word.
\<close>

primrec little_endian :: "byte list \<Rightarrow> u32" where
  "little_endian [] = 0"
| "little_endian (b # bs) = ucast b OR push_bit 8 (little_endian bs)"

definition murmur_words :: "byte list \<Rightarrow> u32 list" where
  "murmur_words data = map (\<lambda>i. little_endian (take 4 (drop (4 * i) data))) [0..<length data div 4]"

definition murmur_mix :: "u32 \<Rightarrow> u32 \<Rightarrow> u32" where
  "murmur_mix h w = (h * murmur_m) XOR murmur_scramble w"

definition murmur_reference :: "byte list \<Rightarrow> u32" where
  "murmur_reference data =
     (let h = foldl murmur_mix (of_nat (length data)) (murmur_words data);
          rest = drop (4 * (length data div 4)) data
      in murmur_final (if rest = [] then h else (h XOR little_endian rest) * murmur_m))"

lemma murmur_block_little: "murmur_block d0 d1 d2 d3 = little_endian [d0, d1, d2, d3]"
  by (simp add: murmur_block_def Let_def push_bit_or push_bit_push_bit or.assoc)

lemma four_more:
  "length (d0 # d1 # d2 # d3 # data) div 4 = Suc (length data div 4)"
  "take 4 (d0 # d1 # d2 # d3 # data) = [d0, d1, d2, d3]"
  "drop (4 * Suc i) (d0 # d1 # d2 # d3 # data) = drop (4 * i) data"
proof -
  have "length (d0 # d1 # d2 # d3 # data) = length data + 4" by simp
  then show "length (d0 # d1 # d2 # d3 # data) div 4 = Suc (length data div 4)" by (simp only: div_add_self2)
  show "drop (4 * Suc i) (d0 # d1 # d2 # d3 # data) = drop (4 * i) data" by (simp add: drop_Cons')
qed (simp add: take_Cons')

lemma murmur_words_Cons:
  "murmur_words (d0 # d1 # d2 # d3 # data) = little_endian [d0, d1, d2, d3] # murmur_words data"
proof -
  have "[0..<Suc n] = 0 # map Suc [0..<n]" for n by (simp only: map_Suc_upt upt_conv_Cons [OF zero_less_Suc])
  then show ?thesis unfolding murmur_words_def four_more(1) by (simp add: comp_def four_more(2,3) del: mult_Suc_right upt_Suc)
qed

lemma murmur_loop_reference:
  "murmur_loop h data = (foldl murmur_mix h (murmur_words data), drop (4 * (length data div 4)) data)"
proof (induction h data rule: murmur_loop.induct)
  case (1 h d0 d1 d2 d3 data)
  then show ?case
    unfolding four_more by (simp add: murmur_words_Cons murmur_mix_def murmur_block_little)
qed (simp_all add: murmur_words_def)

lemma murmur_tail_reference: "length rest < 4 \<Longrightarrow> murmur_tail h rest = (if rest = [] then h else (h XOR little_endian rest) * murmur_m)"
proof -
  have two: "push_bit 8 (ucast d1) XOR ucast d0 = (ucast d0 :: u32) OR push_bit 8 (ucast d1)" for d0 d1 :: byte
    by (rule bit_word_eqI) (auto simp: bit_simps dest: bit_imp_le_length)
  have three: "(push_bit 16 (ucast d2) XOR push_bit 8 (ucast d1)) XOR ucast d0
      = (ucast d0 :: u32) OR (push_bit 8 (ucast d1) OR push_bit 16 (ucast d2))" for d0 d1 d2 :: byte
    by (rule bit_word_eqI) (auto simp: bit_simps dest: bit_imp_le_length)
  assume "length rest < 4"
  then consider "rest = []" | d0 where "rest = [d0]" | d0 d1 where "rest = [d0, d1]" | d0 d1 d2 where "rest = [d0, d1, d2]"
    by (cases rest; cases "tl rest"; cases "tl (tl rest)") auto
  then show ?thesis
  proof cases
    case 3
    then show ?thesis by (simp add: two [symmetric] xor.assoc)
  next
    case 4
    then show ?thesis by (simp add: three [symmetric] push_bit_or push_bit_push_bit xor.assoc)
  qed simp_all
qed

lemma murmur_reference: "ngx_murmur_hash2 data = murmur_reference data"
  using murmur_tail_reference [of "drop (4 * (length data div 4)) data"]
  by (simp add: ngx_murmur_hash2_def murmur_reference_def murmur_loop_reference Let_def)

end
