(* ===== verification/ShdictMem.thy ===== *)
theory ShdictMem
  imports RBDelete Queue Slab Murmur
begin

text \<open>
  The shared-memory pool as src/src/mps_shdict.c sees it, and the functions of that file that the
  operations share. \<open>shm\<close> is the pool: the slab allocator's structs, the red-black tree's, the links of
  every queue, the members of \<^verbatim>\<open>mps_shdict_node_t\<close> and \<^verbatim>\<open>mps_shdict_list_node_t\<close> as field maps from
  the struct's offset, and the bytes of the \<^verbatim>\<open>data\<close> members. \<open>held\<close> is the pool's mutex; locking it
  while holding it never returns, which is the value \<open>None\<close>. \<open>clock\<close> is what the successive calls
  of \<^verbatim>\<open>clock_gettime\<close> answer (\<open>None\<close> is a failure) and \<open>ticks\<close> how many were made.

  The offsets of the members are those of the 64-bit ABI: in \<^verbatim>\<open>mps_rbtree_node_t\<close> the colour is at
  32, where the dictionary node overlays it; in \<^verbatim>\<open>mps_shdict_node_t\<close> the queue is at 16 and the data
  at 36; in \<^verbatim>\<open>mps_shdict_list_node_t\<close> the queue is at 0 and the data at 21; in
  \<^verbatim>\<open>mps_shdict_tree_t\<close> the sentinel is at 24 and the LRU queue at 64.
\<close>

record timespec =
  tv_sec :: u64
  tv_nsec :: u64

record shm =
  slab :: slab_pool
  tree :: rbtree_mem
  links :: queue_mem
  value_type :: "off \<Rightarrow> byte"
  key_len :: "off \<Rightarrow> u16"
  value_len :: "off \<Rightarrow> u32"
  expires :: "off \<Rightarrow> u64"
  user_flags :: "off \<Rightarrow> u32"
  lnode_value_len :: "off \<Rightarrow> u32"
  lnode_value_type :: "off \<Rightarrow> byte"
  bytes :: "off \<Rightarrow> byte"
  held :: bool
  clock :: "nat \<Rightarrow> timespec option"
  ticks :: nat

definition MPS_SHDICT_TNIL :: int where "MPS_SHDICT_TNIL = 0"
definition MPS_SHDICT_TBOOLEAN :: int where "MPS_SHDICT_TBOOLEAN = 1"
definition MPS_SHDICT_TNUMBER :: int where "MPS_SHDICT_TNUMBER = 3"
definition MPS_SHDICT_TSTRING :: int where "MPS_SHDICT_TSTRING = 4"
definition MPS_SHDICT_TLIST :: int where "MPS_SHDICT_TLIST = 5"

named_theorems tags
declare MPS_SHDICT_TNIL_def [tags] MPS_SHDICT_TBOOLEAN_def [tags] MPS_SHDICT_TNUMBER_def [tags]
  MPS_SHDICT_TSTRING_def [tags] MPS_SHDICT_TLIST_def [tags]

subsection \<open>Offsets of members\<close>

definition sd_of_node :: "off \<Rightarrow> off" where "sd_of_node node = node + 32"
definition node_of_sd :: "off \<Rightarrow> off" where "node_of_sd sd = sd - 32"
definition sd_queue :: "off \<Rightarrow> off" where "sd_queue sd = sd + 16"
definition sd_of_queue :: "off \<Rightarrow> off" where "sd_of_queue q = q - 16"
definition sd_data :: "off \<Rightarrow> off" where "sd_data sd = sd + 36"
definition lnode_queue :: "off \<Rightarrow> off" where "lnode_queue lnode = lnode"
definition lnode_of_queue :: "off \<Rightarrow> off" where "lnode_of_queue q = q"
definition lnode_data :: "off \<Rightarrow> off" where "lnode_data lnode = lnode + 21"
definition node_header :: nat where "node_header = 32 + 36"
definition lnode_header :: nat where "lnode_header = 21"
definition queue_size :: nat where "queue_size = 16"
definition tree_size :: nat where "tree_size = 80"
definition NGX_ALIGNMENT :: nat where "NGX_ALIGNMENT = 8"

definition sentinel_off :: "off \<Rightarrow> off" where "sentinel_off dict = dict + 24"
definition lru_off :: "off \<Rightarrow> off" where "lru_off dict = dict + 64"

named_theorems offsets
declare sd_of_node_def [offsets] node_of_sd_def [offsets] sd_queue_def [offsets]
  sd_of_queue_def [offsets] sd_data_def [offsets] lnode_queue_def [offsets]
  lnode_of_queue_def [offsets] lnode_data_def [offsets] node_header_def [offsets]
  lnode_header_def [offsets] queue_size_def [offsets] tree_size_def [offsets]
  NGX_ALIGNMENT_def [offsets] sentinel_off_def [offsets] lru_off_def [offsets]

text \<open>The head of the LRU queue, reached through \<^verbatim>\<open>pool->data\<close>.\<close>

definition lru_queue :: "shm \<Rightarrow> off" where
  "lru_queue s = lru_off (pool_data (slab s))"

definition mps_shdict_get_list_head :: "off \<Rightarrow> nat \<Rightarrow> off" where
  "mps_shdict_get_list_head sd len = ngx_align_ptr (sd_data sd + len) NGX_ALIGNMENT"

text \<open>The key bytes of a tree node, and the bytes of its value.\<close>

definition sd_key :: "shm \<Rightarrow> off \<Rightarrow> byte list" where
  "sd_key s sd = read_bytes (bytes s) (sd_data sd) (unat (key_len s sd))"

definition sd_value :: "shm \<Rightarrow> off \<Rightarrow> byte list" where
  "sd_value s sd = read_bytes (bytes s) (sd_data sd + unat (key_len s sd)) (unat (value_len s sd))"

definition node_key :: "shm \<Rightarrow> off \<Rightarrow> byte list" where
  "node_key s node = sd_key s (sd_of_node node)"

subsection \<open>Updates\<close>

definition upd_tree :: "(rbtree_mem \<Rightarrow> rbtree_mem option) \<Rightarrow> shm \<Rightarrow> shm option" where
  "upd_tree f s = map_option (\<lambda>t. s\<lparr>tree := t\<rparr>) (f (tree s))"

definition upd_links :: "(queue_mem \<Rightarrow> queue_mem) \<Rightarrow> shm \<Rightarrow> shm" where
  "upd_links f s = s\<lparr>links := f (links s)\<rparr>"

definition set_node_key :: "off \<Rightarrow> u64 \<Rightarrow> shm \<Rightarrow> shm" where
  "set_node_key node k s = s\<lparr>tree := set_key node k (tree s)\<rparr>"

definition set_value_type :: "off \<Rightarrow> byte \<Rightarrow> shm \<Rightarrow> shm" where
  "set_value_type sd v s = s\<lparr>value_type := (value_type s)(sd := v)\<rparr>"

definition set_key_len :: "off \<Rightarrow> u16 \<Rightarrow> shm \<Rightarrow> shm" where
  "set_key_len sd v s = s\<lparr>key_len := (key_len s)(sd := v)\<rparr>"

definition set_value_len :: "off \<Rightarrow> u32 \<Rightarrow> shm \<Rightarrow> shm" where
  "set_value_len sd v s = s\<lparr>value_len := (value_len s)(sd := v)\<rparr>"

definition set_expires :: "off \<Rightarrow> u64 \<Rightarrow> shm \<Rightarrow> shm" where
  "set_expires sd v s = s\<lparr>expires := (expires s)(sd := v)\<rparr>"

definition set_user_flags :: "off \<Rightarrow> u32 \<Rightarrow> shm \<Rightarrow> shm" where
  "set_user_flags sd v s = s\<lparr>user_flags := (user_flags s)(sd := v)\<rparr>"

definition set_lnode_value_len :: "off \<Rightarrow> u32 \<Rightarrow> shm \<Rightarrow> shm" where
  "set_lnode_value_len l v s = s\<lparr>lnode_value_len := (lnode_value_len s)(l := v)\<rparr>"

definition set_lnode_value_type :: "off \<Rightarrow> byte \<Rightarrow> shm \<Rightarrow> shm" where
  "set_lnode_value_type l v s = s\<lparr>lnode_value_type := (lnode_value_type s)(l := v)\<rparr>"

definition ngx_memcpy :: "off \<Rightarrow> byte list \<Rightarrow> shm \<Rightarrow> shm" where
  "ngx_memcpy p bs s = s\<lparr>bytes := write_bytes (bytes s) p bs\<rparr>"

subsection \<open>The mutex and the allocator\<close>

definition mps_slab_lock :: "shm \<Rightarrow> shm option" where
  "mps_slab_lock s = (if held s then None else Some (s\<lparr>held := True\<rparr>))"

definition mps_slab_unlock :: "shm \<Rightarrow> shm" where
  "mps_slab_unlock s = s\<lparr>held := False\<rparr>"

definition shm_alloc_locked :: "slab_sizes \<Rightarrow> nat \<Rightarrow> shm \<Rightarrow> (off \<times> shm) option" where
  "shm_alloc_locked z n s =
     map_option (\<lambda>(p, sl). (p, s\<lparr>slab := sl\<rparr>)) (mps_slab_alloc_locked z (slab s) n)"

definition shm_free_locked :: "slab_sizes \<Rightarrow> off \<Rightarrow> shm \<Rightarrow> shm" where
  "shm_free_locked z p s = s\<lparr>slab := snd (mps_slab_free_locked z (slab s) p)\<rparr>"

definition mps_slab_alloc :: "slab_sizes \<Rightarrow> nat \<Rightarrow> shm \<Rightarrow> (off \<times> shm) option" where
  "mps_slab_alloc z n s =
     do { s \<leftarrow> mps_slab_lock s;
          (p, s) \<leftarrow> shm_alloc_locked z n s;
          Some (p, mps_slab_unlock s) }"

definition mps_slab_calloc_locked :: "slab_sizes \<Rightarrow> nat \<Rightarrow> shm \<Rightarrow> (off \<times> shm) option" where
  "mps_slab_calloc_locked z n s =
     do { (p, s) \<leftarrow> shm_alloc_locked z n s;
          Some (p, if p \<noteq> mps_nulloff then ngx_memcpy p (replicate n 0) s else s) }"

definition mps_slab_calloc :: "slab_sizes \<Rightarrow> nat \<Rightarrow> shm \<Rightarrow> (off \<times> shm) option" where
  "mps_slab_calloc z n s =
     do { s \<leftarrow> mps_slab_lock s;
          (p, s) \<leftarrow> mps_slab_calloc_locked z n s;
          Some (p, mps_slab_unlock s) }"

definition mps_slab_free :: "slab_sizes \<Rightarrow> off \<Rightarrow> shm \<Rightarrow> shm option" where
  "mps_slab_free z p s =
     do { s \<leftarrow> mps_slab_lock s;
          let s = shm_free_locked z p s in
          Some (mps_slab_unlock s) }"

text \<open>
  An \<^verbatim>\<open>int\<close> that a \<^verbatim>\<open>size_t\<close> sum was stored to, passed on as a \<^verbatim>\<open>size_t\<close>: truncated to 32 bits and
  sign-extended.
\<close>

definition int_size :: "nat \<Rightarrow> nat" where
  "int_size n = nat (sint (of_nat n :: u32) mod 2 ^ 64)"

subsection \<open>The clock\<close>

definition msec_from_timespec :: "timespec \<Rightarrow> u64" where
  "msec_from_timespec ts = tv_sec ts * 1000 + tv_nsec ts div 1000000"

definition mps_clock_time_ms :: "shm \<Rightarrow> u64 \<times> shm" where
  "mps_clock_time_ms s =
     (case clock s (ticks s) of None \<Rightarrow> 0 | Some ts \<Rightarrow> msec_from_timespec ts, s\<lparr>ticks := Suc (ticks s)\<rparr>)"

subsection \<open>Initialisation of a new pool\<close>

definition ENOMEM :: int where "ENOMEM = 12"

definition mps_shdict_on_init :: "slab_sizes \<Rightarrow> shm \<Rightarrow> (int \<times> shm) option" where
  "mps_shdict_on_init z s =
     do { (dict, s) \<leftarrow> mps_slab_alloc z tree_size s;
          if dict = mps_nulloff then Some (ENOMEM, s)
          else
            let s = s\<lparr>slab := (slab s)\<lparr>pool_data := dict\<rparr>\<rparr>;
                (err, t) = mps_rbtree_init (sentinel_off dict) MPS_RBTREE_INSERT_TYPE_ID_LUADICT (tree s);
                s = s\<lparr>tree := t\<rparr>
            in if err \<noteq> 0 then Some (err, s)
               else
                 let s = upd_links (mps_queue_init (lru_off dict)) s;
                     s = s\<lparr>slab := (slab s)\<lparr>log_nomem := False\<rparr>\<rparr>
                 in Some (0, s) }"

subsection \<open>Finding a key\<close>

text \<open>
  The descent that \<^verbatim>\<open>mps_shdict_lookup\<close> and \<^verbatim>\<open>mps_shdict_peek\<close> share: the node whose hash and key
  are those asked for.
\<close>

partial_function (option) shdict_find :: "shm \<Rightarrow> u64 \<Rightarrow> byte list \<Rightarrow> off \<Rightarrow> off option option" where
  "shdict_find s hash kdata node =
     (if node = rb_sentinel (tree s) then Some None
      else if hash < rb_key (tree s) node then shdict_find s hash kdata (rb_left (tree s) node)
      else if hash > rb_key (tree s) node then shdict_find s hash kdata (rb_right (tree s) node)
      else
        let rc = ngx_memn2cmp kdata (node_key s node)
        in if rc = 0 then Some (Some node)
           else shdict_find s hash kdata (if rc < 0 then rb_left (tree s) node else rb_right (tree s) node))"

declare shdict_find.simps [code]

text \<open>The same loop stopped before its round \<open>n + 1\<close>: \<open>None\<close> if it has not ended within \<open>n\<close> rounds.\<close>

fun shdict_find_in :: "nat \<Rightarrow> shm \<Rightarrow> u64 \<Rightarrow> byte list \<Rightarrow> off \<Rightarrow> off option option" where
  "shdict_find_in 0 s hash kdata node = None"
| "shdict_find_in (Suc n) s hash kdata node =
     (if node = rb_sentinel (tree s) then Some None
      else if hash < rb_key (tree s) node then shdict_find_in n s hash kdata (rb_left (tree s) node)
      else if hash > rb_key (tree s) node then shdict_find_in n s hash kdata (rb_right (tree s) node)
      else
        let rc = ngx_memn2cmp kdata (node_key s node)
        in if rc = 0 then Some (Some node)
           else shdict_find_in n s hash kdata (if rc < 0 then rb_left (tree s) node else rb_right (tree s) node))"

text \<open>\<^verbatim>\<open>mps_queue_remove(sd->queue); mps_queue_insert_head(lru_queue, sd->queue)\<close>.\<close>

definition lru_touch :: "off \<Rightarrow> shm \<Rightarrow> shm" where
  "lru_touch sd s =
     (let s = upd_links (mps_queue_remove (sd_queue sd)) s
      in upd_links (mps_queue_insert_head (lru_queue s) (sd_queue sd)) s)"

text \<open>The return code, \<open>*sdp\<close> (\<open>None\<close> is NULL) and the pool.\<close>

definition mps_shdict_lookup :: "u64 \<Rightarrow> byte list \<Rightarrow> shm \<Rightarrow> (int \<times> off option \<times> shm) option" where
  "mps_shdict_lookup hash kdata s =
     do { found \<leftarrow> shdict_find s hash kdata (rb_root (tree s));
          (case found of
             None \<Rightarrow> Some (NGX_DECLINED, None, s)
           | Some node \<Rightarrow>
               let sd = sd_of_node node;
                   s = lru_touch sd s
               in if expires s sd \<noteq> 0 then
                    let (now, s) = mps_clock_time_ms s;
                        ms = sint (expires s sd - now)
                    in if ms < 0 then Some (NGX_DONE, Some sd, s) else Some (NGX_OK, Some sd, s)
                  else Some (NGX_OK, Some sd, s)) }"

definition mps_shdict_peek :: "u64 \<Rightarrow> byte list \<Rightarrow> shm \<Rightarrow> (int \<times> off option) option" where
  "mps_shdict_peek hash kdata s =
     do { found \<leftarrow> shdict_find s hash kdata (rb_root (tree s));
          (case found of
             None \<Rightarrow> Some (NGX_DECLINED, None)
           | Some node \<Rightarrow> Some (NGX_OK, Some (sd_of_node node))) }"

subsection \<open>Removing entries\<close>

text \<open>The loop that frees the nodes of a list value; \<open>q\<close> is read after its node is freed.\<close>

partial_function (option) free_list_nodes :: "slab_sizes \<Rightarrow> off \<Rightarrow> off \<Rightarrow> shm \<Rightarrow> shm option" where
  "free_list_nodes z queue q s =
     (if q = mps_queue_sentinel queue then Some s
      else
        let s = shm_free_locked z (lnode_of_queue q) s
        in free_list_nodes z queue (mps_queue_next q (links s)) s)"

declare free_list_nodes.simps [code]

text \<open>\<^verbatim>\<open>mps_queue_remove\<close>, \<^verbatim>\<open>mps_rbtree_delete\<close>, \<^verbatim>\<open>mps_slab_free_locked\<close> of one dictionary node.\<close>

definition remove_node :: "slab_sizes \<Rightarrow> off \<Rightarrow> shm \<Rightarrow> shm option" where
  "remove_node z sd s =
     (let s = upd_links (mps_queue_remove (sd_queue sd)) s;
          node = node_of_sd sd
      in do { s \<leftarrow> upd_tree (\<lambda>t. mps_rbtree_delete t node) s;
              Some (shm_free_locked z node s) })"

text \<open>The same for a value that may be a list, whose head is looked for after \<open>len\<close> bytes of key.\<close>

definition remove_entry :: "slab_sizes \<Rightarrow> off \<Rightarrow> nat \<Rightarrow> shm \<Rightarrow> shm option" where
  "remove_entry z sd len s =
     do { s \<leftarrow> (if uint (value_type s sd) = MPS_SHDICT_TLIST then
                  let queue = mps_shdict_get_list_head sd len
                  in free_list_nodes z queue (mps_queue_head queue (links s)) s
                else Some s);
          remove_node z sd s }"

text \<open>
  \<^verbatim>\<open>mps_shdict_expire(pool, tree, n)\<close>, its loop with the counter \<open>n\<close> and \<open>freed\<close>; the first round of
  \<open>n = 0\<close> is forced. Its fuel is the number of rounds \<open>n < 3\<close> leaves.
\<close>

fun expire_rounds :: "nat \<Rightarrow> slab_sizes \<Rightarrow> u64 \<Rightarrow> nat \<Rightarrow> int \<Rightarrow> shm \<Rightarrow> (int \<times> shm) option" where
  "expire_rounds 0 z now n freed s = Some (freed, s)"
| "expire_rounds (Suc k) z now n freed s =
     (if mps_queue_empty (lru_queue s) (links s) then Some (freed, s)
      else
        let q = mps_queue_last (lru_queue s) (links s);
            sd = sd_of_queue q
        in if n \<noteq> 0 \<and> expires s sd = 0 then Some (freed, s)
           else if n \<noteq> 0 \<and> sint (expires s sd - now) > 0 then Some (freed, s)
           else do {
             s \<leftarrow> remove_entry z sd (unat (key_len s sd)) s;
             expire_rounds k z now (n + 1) (freed + 1) s })"

definition mps_shdict_expire :: "slab_sizes \<Rightarrow> nat \<Rightarrow> shm \<Rightarrow> (int \<times> shm) option" where
  "mps_shdict_expire z n s =
     (let (now, s) = mps_clock_time_ms s
      in expire_rounds (3 - n) z now n 0 s)"

text \<open>
  Allocation of a node: on failure up to 30 times one or more of the oldest entries are evicted by
  force. The node (0 when there is none), and \<open>*forcible\<close>.
\<close>

fun alloc_evicting :: "nat \<Rightarrow> slab_sizes \<Rightarrow> nat \<Rightarrow> bool \<Rightarrow> shm \<Rightarrow> (off \<times> bool \<times> shm) option" where
  "alloc_evicting 0 z n forcible s = Some (mps_nulloff, forcible, s)"
| "alloc_evicting (Suc i) z n forcible s =
     do { (freed, s) \<leftarrow> mps_shdict_expire z 0 s;
          if freed = 0 then Some (mps_nulloff, forcible, s)
          else do {
            (node, s) \<leftarrow> shm_alloc_locked z n s;
            if node \<noteq> mps_nulloff then Some (node, True, s)
            else alloc_evicting i z n True s } }"

end
