(* ===== verification/Shdict.thy ===== *)
theory Shdict
  imports ShdictMem
begin

text \<open>
  The operations of src/src/mps_shdict.c on scalar values: \<^verbatim>\<open>mps_shdict_store\<close> and the six functions
  that call it, get, incr, flush_all, the time-to-live functions and the two size functions. An
  operation maps the pool to its results and the new pool; \<open>None\<close> is a call that does not return.
  A \<^verbatim>\<open>char **errmsg\<close> or \<^verbatim>\<open>**err\<close> argument is an optional result, \<open>None\<close> where it is not written.
  A double is its 64-bit pattern. Adding two doubles is the parameter \<open>fadd\<close> of \<open>mps_shdict_incr\<close>, and
  the success of \<^verbatim>\<open>malloc\<close> the parameter \<open>malloc_ok\<close> of \<open>mps_shdict_get\<close>. \<open>key\<close> is the key's bytes, its
  length \<^verbatim>\<open>key_len\<close>. The string argument is \<open>None\<close> for NULL, and else the bytes at it, as many as
  \<^verbatim>\<open>str_value_len\<close>.
\<close>

definition MPS_SHDICT_ADD :: nat where "MPS_SHDICT_ADD = 0x0001"
definition MPS_SHDICT_REPLACE :: nat where "MPS_SHDICT_REPLACE = 0x0002"
definition MPS_SHDICT_SAFE_STORE :: nat where "MPS_SHDICT_SAFE_STORE = 0x0004"

named_theorems ops
declare MPS_SHDICT_ADD_def [ops] MPS_SHDICT_REPLACE_def [ops] MPS_SHDICT_SAFE_STORE_def [ops]

text \<open>The bytes of a double in memory, little-endian.\<close>

definition double_bytes :: "u64 \<Rightarrow> byte list" where
  "double_bytes d = map (\<lambda>i. ucast (drop_bit (8 * i) d)) [0..<8]"

definition bytes_double :: "byte list \<Rightarrow> u64" where
  "bytes_double bs = fold (\<lambda>i d. d OR push_bit (8 * i) (ucast (bs ! i))) [0..<8] 0"

text \<open>\<^verbatim>\<open>num_value ? 1 : 0\<close>: every double but the two zeros is true.\<close>

definition double_true :: "u64 \<Rightarrow> bool" where
  "double_true d \<longleftrightarrow> push_bit 1 d \<noteq> 0"

record store_result =
  st_rc :: int
  st_err :: "string option"
  st_forcible :: bool

text \<open>The switch on the value type: the bytes to store, or the message to return.\<close>

definition store_value :: "nat \<Rightarrow> int \<Rightarrow> byte list option \<Rightarrow> u64 \<Rightarrow> string + byte list option" where
  "store_value op vtype str num =
     (if vtype = MPS_SHDICT_TSTRING then Inr str
      else if vtype = MPS_SHDICT_TNUMBER then Inr (Some (double_bytes num))
      else if vtype = MPS_SHDICT_TBOOLEAN then Inr (Some [if double_true num then 1 else 0])
      else if vtype = MPS_SHDICT_TNIL then
        if op AND (MPS_SHDICT_ADD OR MPS_SHDICT_REPLACE) \<noteq> 0
        then Inl ''attempt to add or replace nil values'' else Inr None
      else Inl ''unsupported value type'')"

text \<open>The expiry time for a positive \<open>exptime\<close>, and 0 for none.\<close>

definition store_expires :: "int \<Rightarrow> shm \<Rightarrow> u64 \<times> shm" where
  "store_expires exptime s =
     (if exptime > 0 then let (now, s) = mps_clock_time_ms s in (now + of_int exptime, s) else (0, s))"

text \<open>Where the control flow goes after the lookup: its labels, and the two refusals.\<close>

datatype store_branch = Refuse string | Replace | Remove | Insert

definition store_dispatch :: "nat \<Rightarrow> int \<Rightarrow> int \<Rightarrow> store_branch" where
  "store_dispatch op vtype rc =
     (if op AND MPS_SHDICT_REPLACE \<noteq> 0 then
        if rc = NGX_DECLINED \<or> rc = NGX_DONE then Refuse ''not found'' else Replace
      else if op AND MPS_SHDICT_ADD \<noteq> 0 then
        if rc = NGX_OK then Refuse ''exists''
        else if rc = NGX_DONE then Replace
        else Insert
      else if rc = NGX_OK \<or> rc = NGX_DONE then
        if vtype = MPS_SHDICT_TNIL then Remove else Replace
      else Insert)"

text \<open>The label \<^verbatim>\<open>replace\<close>, when the old value's memory is reused.\<close>

definition store_reuse :: "off \<Rightarrow> byte list \<Rightarrow> int \<Rightarrow> byte list \<Rightarrow> int \<Rightarrow> u32 \<Rightarrow> shm \<Rightarrow> shm" where
  "store_reuse sd key vtype value exptime flags s =
     (let s = lru_touch sd s;
          (e, s) = store_expires exptime s;
          s = set_expires sd e s;
          s = set_user_flags sd flags s;
          s = set_value_type sd (of_int vtype) s;
          s = ngx_memcpy (sd_data sd + length key) value s
      in mps_slab_unlock s)"

text \<open>The label \<^verbatim>\<open>allocated\<close>.\<close>

definition store_fill :: "off \<Rightarrow> byte list \<Rightarrow> u32 \<Rightarrow> int \<Rightarrow> byte list \<Rightarrow> int \<Rightarrow> u32 \<Rightarrow> shm \<Rightarrow> shm option" where
  "store_fill node key hash vtype value exptime flags s =
     (let sd = sd_of_node node;
          s = set_node_key node (ucast hash) s;
          s = set_key_len sd (of_nat (length key)) s;
          (e, s) = store_expires exptime s;
          s = set_expires sd e s;
          s = set_user_flags sd flags s;
          s = set_value_len sd (of_nat (length value)) s;
          s = set_value_type sd (of_int vtype) s;
          s = ngx_memcpy (sd_data sd) key s;
          s = ngx_memcpy (sd_data sd + length key) value s
      in do { s \<leftarrow> upd_tree (\<lambda>t. mps_rbtree_insert (node_key s) t node) s;
              let s = upd_links (mps_queue_insert_head (lru_queue s) (sd_queue sd)) s in
              Some (mps_slab_unlock s) })"

text \<open>The label \<^verbatim>\<open>insert\<close>.\<close>

definition store_insert ::
    "slab_sizes \<Rightarrow> nat \<Rightarrow> byte list \<Rightarrow> u32 \<Rightarrow> int \<Rightarrow> byte list option \<Rightarrow> int \<Rightarrow> u32 \<Rightarrow> shm
     \<Rightarrow> (store_result \<times> shm) option" where
  "store_insert z op key hash vtype value exptime flags s =
     (case value of
        None \<Rightarrow> Some (\<lparr>st_rc = NGX_OK, st_err = None, st_forcible = False\<rparr>, mps_slab_unlock s)
      | Some value \<Rightarrow>
          let n = int_size (node_header + length key + length value)
          in do {
            (node, s) \<leftarrow> shm_alloc_locked z n s;
            if node = mps_nulloff \<and> op AND MPS_SHDICT_SAFE_STORE \<noteq> 0 then
              Some (\<lparr>st_rc = NGX_ERROR, st_err = Some ''no memory'', st_forcible = False\<rparr>, mps_slab_unlock s)
            else do {
              (node, forcible, s) \<leftarrow>
                 (if node = mps_nulloff then alloc_evicting 30 z n False s else Some (node, False, s));
              if node = mps_nulloff then
                Some (\<lparr>st_rc = NGX_ERROR, st_err = Some ''no memory'', st_forcible = forcible\<rparr>,
                      mps_slab_unlock s)
              else do {
                s \<leftarrow> store_fill node key hash vtype value exptime flags s;
                Some (\<lparr>st_rc = NGX_OK, st_err = None, st_forcible = forcible\<rparr>, s) } } })"

definition mps_shdict_store ::
    "slab_sizes \<Rightarrow> nat \<Rightarrow> byte list \<Rightarrow> int \<Rightarrow> byte list option \<Rightarrow> u64 \<Rightarrow> int \<Rightarrow> u32 \<Rightarrow> shm
     \<Rightarrow> (store_result \<times> shm) option" where
  "mps_shdict_store z op key vtype str num exptime flags s =
     (let hash = ngx_murmur_hash2 key
      in case store_value op vtype str num of
        Inl msg \<Rightarrow> Some (\<lparr>st_rc = NGX_ERROR, st_err = Some msg, st_forcible = False\<rparr>, s)
      | Inr value \<Rightarrow> do {
          s \<leftarrow> mps_slab_lock s;
          (freed, s) \<leftarrow> mps_shdict_expire z 1 s;
          (rc, sdp, s) \<leftarrow> mps_shdict_lookup (ucast hash) key s;
          (case store_dispatch op vtype rc of
             Refuse msg \<Rightarrow>
               Some (\<lparr>st_rc = NGX_DECLINED, st_err = Some msg, st_forcible = False\<rparr>, mps_slab_unlock s)
           | Insert \<Rightarrow> store_insert z op key hash vtype value exptime flags s
           | Remove \<Rightarrow> do {
               sd \<leftarrow> sdp;
               s \<leftarrow> remove_entry z sd (length key) s;
               store_insert z op key hash vtype value exptime flags s }
           | Replace \<Rightarrow> do {
               sd \<leftarrow> sdp;
               (case value of
                  Some v \<Rightarrow>
                    if length v = unat (value_len s sd) \<and> uint (value_type s sd) \<noteq> MPS_SHDICT_TLIST then
                      Some (\<lparr>st_rc = NGX_OK, st_err = None, st_forcible = False\<rparr>,
                            store_reuse sd key vtype v exptime flags s)
                    else do {
                      s \<leftarrow> remove_entry z sd (length key) s;
                      store_insert z op key hash vtype value exptime flags s }
                | None \<Rightarrow> do {
                    s \<leftarrow> remove_entry z sd (length key) s;
                    store_insert z op key hash vtype value exptime flags s }) }) })"

definition mps_shdict_set where
  "mps_shdict_set z = mps_shdict_store z 0"

definition mps_shdict_safe_set where
  "mps_shdict_safe_set z = mps_shdict_store z MPS_SHDICT_SAFE_STORE"

definition mps_shdict_add where
  "mps_shdict_add z = mps_shdict_store z MPS_SHDICT_ADD"

definition mps_shdict_safe_add where
  "mps_shdict_safe_add z = mps_shdict_store z (MPS_SHDICT_ADD OR MPS_SHDICT_SAFE_STORE)"

definition mps_shdict_replace where
  "mps_shdict_replace z = mps_shdict_store z MPS_SHDICT_REPLACE"

definition mps_shdict_delete :: "slab_sizes \<Rightarrow> byte list \<Rightarrow> shm \<Rightarrow> (store_result \<times> shm) option" where
  "mps_shdict_delete z key s = mps_shdict_store z 0 key MPS_SHDICT_TNIL None 0 0 0 s"

subsection \<open>Get\<close>

text \<open>
  What the call writes through its pointer arguments; \<open>None\<close> where it does not. \<open>gt_malloced\<close> is
  whether \<open>*str_value_buf\<close> was replaced by a new buffer.
\<close>

record get_result =
  gt_rc :: int
  gt_type :: int
  gt_str :: "byte list option"
  gt_str_len :: "nat option"
  gt_malloced :: bool
  gt_num :: "u64 option"
  gt_flags :: "u32 option"
  gt_stale :: "bool option"
  gt_err :: "string option"

definition get_fail :: "int \<Rightarrow> int \<Rightarrow> bool \<Rightarrow> string option \<Rightarrow> get_result" where
  "get_fail rc t m err =
     \<lparr>gt_rc = rc, gt_type = t, gt_str = None, gt_str_len = None, gt_malloced = m, gt_num = None,
      gt_flags = None, gt_stale = None, gt_err = err\<rparr>"

text \<open>The result once the value is copied out: the flags, and \<open>*is_stale\<close> where it is asked for.\<close>

definition get_done :: "off \<Rightarrow> int \<Rightarrow> bool \<Rightarrow> get_result \<Rightarrow> shm \<Rightarrow> get_result \<times> shm" where
  "get_done sd rc get_stale r s =
     (r\<lparr>gt_flags := Some (user_flags s sd), gt_stale := (if get_stale then Some (rc = NGX_DONE) else None)\<rparr>,
      mps_slab_unlock s)"

definition mps_shdict_get :: "byte list \<Rightarrow> nat \<Rightarrow> bool \<Rightarrow> bool \<Rightarrow> shm \<Rightarrow> (get_result \<times> shm) option" where
  "mps_shdict_get key buf_len get_stale malloc_ok s =
     (let hash = ngx_murmur_hash2 key
      in do {
        s \<leftarrow> mps_slab_lock s;
        (rc, sdp, s) \<leftarrow> mps_shdict_lookup (ucast hash) key s;
        if rc = NGX_DECLINED \<or> rc = NGX_DONE \<and> \<not> get_stale then
          Some (get_fail NGX_OK MPS_SHDICT_TNIL False None, mps_slab_unlock s)
        else do {
          sd \<leftarrow> sdp;
          let t = uint (value_type s sd);
              value = sd_value s sd;
              len = unat (value_len s sd);
              short = buf_len < len in
          if short \<and> t = MPS_SHDICT_TBOOLEAN then Some (get_fail NGX_ERROR t False None, mps_slab_unlock s)
          else if short \<and> t = MPS_SHDICT_TSTRING \<and> \<not> malloc_ok then
            Some (get_fail NGX_ERROR t True None, mps_slab_unlock s)
          else if t = MPS_SHDICT_TSTRING then
            Some (get_done sd rc get_stale ((get_fail NGX_OK t short None)
              \<lparr>gt_str := Some value, gt_str_len := Some len\<rparr>) s)
          else if t = MPS_SHDICT_TNUMBER then
            if len \<noteq> 8 then Some (get_fail NGX_ERROR t False None, mps_slab_unlock s)
            else Some (get_done sd rc get_stale ((get_fail NGX_OK t False None)
              \<lparr>gt_str_len := Some len, gt_num := Some (bytes_double value)\<rparr>) s)
          else if t = MPS_SHDICT_TBOOLEAN then
            if len \<noteq> 1 then Some (get_fail NGX_ERROR t False None, mps_slab_unlock s)
            else Some (get_done sd rc get_stale ((get_fail NGX_OK t False None)
              \<lparr>gt_str := Some value\<rparr>) s)
          else if t = MPS_SHDICT_TLIST then
            Some (get_fail NGX_ERROR t False (Some ''value is a list''), mps_slab_unlock s)
          else Some (get_fail NGX_ERROR t False None, mps_slab_unlock s) } })"

subsection \<open>Increment\<close>

text \<open>\<open>ir_value\<close> is the new \<open>*value\<close>, \<open>None\<close> when it is left as it was.\<close>

record incr_result =
  ir_rc :: int
  ir_value :: "u64 option"
  ir_err :: "string option"
  ir_forcible :: bool

text \<open>The label \<^verbatim>\<open>setvalue\<close>.\<close>

definition incr_setvalue ::
    "off \<Rightarrow> byte list \<Rightarrow> u64 \<Rightarrow> u64 \<Rightarrow> int \<Rightarrow> bool \<Rightarrow> shm \<Rightarrow> (incr_result \<times> shm) option" where
  "incr_setvalue sd key num now init_ttl forcible s =
     (let s = set_user_flags sd 0 s;
          s = set_expires sd (if init_ttl > 0 then now + of_int init_ttl else 0) s;
          s = set_value_type sd (of_int MPS_SHDICT_TNUMBER) s;
          s = ngx_memcpy (sd_data sd) key s;
          s = ngx_memcpy (sd_data sd + length key) (double_bytes num) s;
          s = mps_slab_unlock s
      in Some (\<lparr>ir_rc = NGX_OK, ir_value = Some num, ir_err = None, ir_forcible = forcible\<rparr>, s))"

text \<open>The label \<^verbatim>\<open>insert\<close>.\<close>

definition incr_insert ::
    "slab_sizes \<Rightarrow> byte list \<Rightarrow> u32 \<Rightarrow> u64 \<Rightarrow> u64 \<Rightarrow> int \<Rightarrow> shm \<Rightarrow> (incr_result \<times> shm) option" where
  "incr_insert z key hash num now init_ttl s =
     (let n = int_size (node_header + length key + 8)
      in do {
        (node, s) \<leftarrow> shm_alloc_locked z n s;
        (node, forcible, s) \<leftarrow>
           (if node = mps_nulloff then alloc_evicting 30 z n False s else Some (node, False, s));
        if node = mps_nulloff then
          Some (\<lparr>ir_rc = NGX_ERROR, ir_value = None, ir_err = Some ''no memory'', ir_forcible = forcible\<rparr>,
                mps_slab_unlock s)
        else
          let sd = sd_of_node node;
              s = set_node_key node (ucast hash) s;
              s = set_key_len sd (of_nat (length key)) s;
              s = set_value_len sd 8 s
          in do {
            s \<leftarrow> upd_tree (\<lambda>t. mps_rbtree_insert (node_key s) t node) s;
            let s = upd_links (mps_queue_insert_head (lru_queue s) (sd_queue sd)) s in
            incr_setvalue sd key num now init_ttl forcible s } })"

definition mps_shdict_incr ::
    "(u64 \<Rightarrow> u64 \<Rightarrow> u64) \<Rightarrow> slab_sizes \<Rightarrow> byte list \<Rightarrow> u64 \<Rightarrow> bool \<Rightarrow> u64 \<Rightarrow> int \<Rightarrow> shm
     \<Rightarrow> (incr_result \<times> shm) option" where
  "mps_shdict_incr fadd z key val has_init init init_ttl s =
     (let (now, s) = (if init_ttl > 0 then mps_clock_time_ms s else (0, s));
          hash = ngx_murmur_hash2 key
      in do {
        s \<leftarrow> mps_slab_lock s;
        (freed, s) \<leftarrow> mps_shdict_expire z 1 s;
        (rc, sdp, s) \<leftarrow> mps_shdict_lookup (ucast hash) key s;
        if rc = NGX_DECLINED \<or> rc = NGX_DONE then
          if \<not> has_init then
            Some (\<lparr>ir_rc = NGX_ERROR, ir_value = None, ir_err = Some ''not found'', ir_forcible = False\<rparr>,
                  mps_slab_unlock s)
          else
            let num = fadd val init
            in if rc = NGX_DONE then do {
                 sd \<leftarrow> sdp;
                 if value_len s sd = 8 \<and> uint (value_type s sd) \<noteq> MPS_SHDICT_TLIST then
                   incr_setvalue sd key num now init_ttl False (lru_touch sd s)
                 else do {
                   s \<leftarrow> remove_entry z sd (length key) s;
                   incr_insert z key hash num now init_ttl s } }
               else incr_insert z key hash num now init_ttl s
        else do {
          sd \<leftarrow> sdp;
          if uint (value_type s sd) \<noteq> MPS_SHDICT_TNUMBER \<or> value_len s sd \<noteq> 8 then
            Some (\<lparr>ir_rc = NGX_ERROR, ir_value = None, ir_err = Some ''not a number'', ir_forcible = False\<rparr>,
                  mps_slab_unlock s)
          else
            let s = lru_touch sd s;
                p = sd_data sd + length key;
                num = bytes_double (read_bytes (bytes s) p 8);
                num = fadd num val;
                s = ngx_memcpy p (double_bytes num) s;
                s = mps_slab_unlock s
            in Some (\<lparr>ir_rc = NGX_OK, ir_value = Some num, ir_err = None, ir_forcible = False\<rparr>, s) } })"

subsection \<open>Flushing, time to live, sizes\<close>

partial_function (option) expire_all :: "off \<Rightarrow> off \<Rightarrow> shm \<Rightarrow> shm option" where
  "expire_all lru q s =
     (if q = mps_queue_sentinel lru then Some s
      else
        let s = set_expires (sd_of_queue q) 1 s
        in expire_all lru (mps_queue_next q (links s)) s)"

declare expire_all.simps [code]

definition mps_shdict_flush_all :: "slab_sizes \<Rightarrow> shm \<Rightarrow> (int \<times> shm) option" where
  "mps_shdict_flush_all z s =
     do { s \<leftarrow> mps_slab_lock s;
          s \<leftarrow> expire_all (lru_queue s) (mps_queue_head (lru_queue s) (links s)) s;
          (freed, s) \<leftarrow> mps_shdict_expire z 0 s;
          Some (NGX_OK, mps_slab_unlock s) }"

text \<open>The \<^verbatim>\<open>long\<close> result: a signed 64-bit difference.\<close>

definition mps_shdict_get_ttl :: "byte list \<Rightarrow> shm \<Rightarrow> (int \<times> shm) option" where
  "mps_shdict_get_ttl key s =
     (let hash = ngx_murmur_hash2 key
      in do {
        s \<leftarrow> mps_slab_lock s;
        (rc, sdp) \<leftarrow> mps_shdict_peek (ucast hash) key s;
        if rc = NGX_DECLINED then Some (NGX_DECLINED, mps_slab_unlock s)
        else do {
          sd \<leftarrow> sdp;
          let e = expires s sd;
              s = mps_slab_unlock s in
          if e = 0 then Some (0, s)
          else let (now, s) = mps_clock_time_ms s in Some (sint (e - now), s) } })"

definition mps_shdict_set_expire :: "byte list \<Rightarrow> int \<Rightarrow> shm \<Rightarrow> (int \<times> shm) option" where
  "mps_shdict_set_expire key exptime s =
     (let (now, s) = (if exptime > 0 then mps_clock_time_ms s else (0, s));
          hash = ngx_murmur_hash2 key
      in do {
        s \<leftarrow> mps_slab_lock s;
        (rc, sdp) \<leftarrow> mps_shdict_peek (ucast hash) key s;
        if rc = NGX_DECLINED then Some (NGX_DECLINED, mps_slab_unlock s)
        else do {
          sd \<leftarrow> sdp;
          let s = set_expires sd (if exptime > 0 then now + of_int exptime else 0) s in
          Some (NGX_OK, mps_slab_unlock s) } })"

definition mps_shdict_capacity :: "shm \<Rightarrow> nat" where
  "mps_shdict_capacity s = pool_end (slab s)"

definition mps_shdict_free_space :: "slab_sizes \<Rightarrow> shm \<Rightarrow> (u64 \<times> shm) option" where
  "mps_shdict_free_space z s =
     do { s \<leftarrow> mps_slab_lock s;
          let free = pfree (slab s) * of_nat (pagesize z) in
          Some (free, mps_slab_unlock s) }"

end
