(* ===== verification/RBDict.thy ===== *)
theory RBDict
  imports RBDelete
begin

text \<open>
  The red-black tree in the order of the dictionary: by hash, then by the bytes of the key. The
  contract the dictionary relies on is the locale \<open>ordered_index\<close>: a tree stands for the ascending
  list of its nodes, insertion and deletion are total and act on that list. It is interpreted on
  \<^verbatim>\<open>mps_rbtree_insert\<close>, \<^verbatim>\<open>mps_rbtree_delete\<close> and \<^verbatim>\<open>mps_rbtree_next\<close>.
\<close>

definition nkey :: "(off \<Rightarrow> byte list) \<Rightarrow> rbtree_mem \<Rightarrow> off \<Rightarrow> u64 \<times> byte list" where
  "nkey kd t a = (rb_key t a, kd a)"

text \<open>Lists in strictly ascending order of a key.\<close>

lemma ascending_distinct:
  fixes f :: "'a \<Rightarrow> 'k :: linorder"
  shows "sorted_wrt (\<lambda>a b. f a < f b) xs \<Longrightarrow> distinct xs"
  by (induction xs) auto

lemma ascending_inj:
  fixes f :: "'a \<Rightarrow> 'k :: linorder"
  shows "sorted_wrt (\<lambda>a b. f a < f b) xs \<Longrightarrow> a \<in> set xs \<Longrightarrow> b \<in> set xs \<Longrightarrow> f a = f b \<Longrightarrow> a = b"
proof (induction xs)
  case (Cons x xs)
  then show ?case by (metis less_irrefl set_ConsD sorted_wrt.simps(2))
qed simp

lemma ascending_split:
  fixes f :: "'a \<Rightarrow> 'k :: linorder"
  shows "sorted_wrt (\<lambda>a b. f a < f b) xs \<Longrightarrow> \<forall>b \<in> set xs. f b \<noteq> k \<Longrightarrow>
     filter (\<lambda>b. f b < k) xs @ filter (\<lambda>b. k < f b) xs = xs"
proof (induction xs)
  case (Cons x xs)
  show ?case
  proof (cases "f x < k")
    case False
    with Cons.prems have x: "k < f x" by (auto simp: not_less_iff_gr_or_eq)
    with Cons.prems(1) have "\<forall>b \<in> set xs. k < f b" by (auto intro: less_trans)
    then have "filter (\<lambda>b. f b < k) xs = []" "filter (\<lambda>b. k < f b) xs = xs"
      by (auto simp: filter_empty_conv filter_id_conv dest: less_asym)
    with False x show ?thesis by simp
  qed (use Cons in auto)
qed simp

lemma ascending_cong:
  "\<forall>a \<in> set xs. f a = g a \<Longrightarrow> sorted_wrt (\<lambda>a b. f a < f b) xs = sorted_wrt (\<lambda>a b. g a < g b) xs"
  by (induction xs) auto

lemma shdict_less_nkey: "shdict_less kd t = (\<lambda>a b. nkey kd t a < nkey kd t b)"
  by (auto simp: shdict_less_def nkey_def ngx_memn2cmp_less fun_eq_iff)

lemma insert_values_luadict:
  "insert_values kd MPS_RBTREE_INSERT_TYPE_ID_LUADICT = rbtree_insert_below (shdict_less kd)"
  by (simp add: insert_values_def MPS_RBTREE_INSERT_TYPE_ID_LUADICT_def MPS_RBTREE_INSERT_TYPE_ID_TIMER_def
      MPS_RBTREE_INSERT_TYPE_ID_STANDARD_def mps_shdict_rbtree_insert_value_def)

text \<open>The tree as the ascending list of its nodes.\<close>

definition index_rep :: "(off \<Rightarrow> byte list) \<Rightarrow> rbtree_mem \<Rightarrow> off list \<Rightarrow> bool" where
  "index_rep kd t xs \<longleftrightarrow> rb_insert t = MPS_RBTREE_INSERT_TYPE_ID_LUADICT
     \<and> (\<exists>T. represents t T \<and> rbt T \<and> inorder T = xs)
     \<and> sorted_wrt (\<lambda>a b. nkey kd t a < nkey kd t b) xs"

text \<open>Only the key and the links of the tree's nodes and of the sentinel matter.\<close>

definition fresh_in :: "rbtree_mem \<Rightarrow> off \<Rightarrow> bool" where
  "fresh_in t a \<longleftrightarrow> a \<noteq> rb_sentinel t"

locale ordered_index =
  fixes rep :: "('o \<Rightarrow> 'd) \<Rightarrow> 't \<Rightarrow> 'o list \<Rightarrow> bool"
    and key :: "('o \<Rightarrow> 'd) \<Rightarrow> 't \<Rightarrow> 'o \<Rightarrow> 'k :: linorder"
    and free :: "'t \<Rightarrow> 'o \<Rightarrow> bool"
    and insert :: "('o \<Rightarrow> 'd) \<Rightarrow> 't \<Rightarrow> 'o \<Rightarrow> 't option"
    and delete :: "'t \<Rightarrow> 'o \<Rightarrow> 't option"
    and successor :: "'t \<Rightarrow> 'o \<Rightarrow> 'o option"
    and null :: 'o
  assumes rep_sorted: "rep kd t xs \<Longrightarrow> sorted_wrt (\<lambda>a b. key kd t a < key kd t b) xs"
    and rep_kd: "\<forall>a \<in> set xs. kd' a = kd a \<Longrightarrow> rep kd' t xs = rep kd t xs"
    and insert_rep: "rep kd t xs \<Longrightarrow> free t a \<Longrightarrow> a \<notin> set xs \<Longrightarrow> \<forall>b \<in> set xs. key kd t b \<noteq> key kd t a \<Longrightarrow>
      \<exists>t'. insert kd t a = Some t' \<and> key kd t' = key kd t \<and> free t' = free t
        \<and> rep kd t' (filter (\<lambda>b. key kd t b < key kd t a) xs @ a # filter (\<lambda>b. key kd t a < key kd t b) xs)"
    and delete_rep: "rep kd t xs \<Longrightarrow> a \<in> set xs \<Longrightarrow>
      \<exists>t'. delete t a = Some t' \<and> (\<forall>b. b \<noteq> a \<longrightarrow> key kd t' b = key kd t b) \<and> free t' = free t
        \<and> rep kd t' (remove1 a xs)"
    and successor_rep: "rep kd t (as @ a # bs) \<Longrightarrow>
      successor t a = Some (case bs of [] \<Rightarrow> null | b # _ \<Rightarrow> b)"
begin

lemma rep_distinct: "rep kd t xs \<Longrightarrow> distinct xs"
  by (rule ascending_distinct [OF rep_sorted])

lemma rep_inj: "rep kd t xs \<Longrightarrow> a \<in> set xs \<Longrightarrow> b \<in> set xs \<Longrightarrow> key kd t a = key kd t b \<Longrightarrow> a = b"
  by (rule ascending_inj [OF rep_sorted])

lemma insert_set:
  assumes "rep kd t xs" "free t a" "a \<notin> set xs" "\<forall>b \<in> set xs. key kd t b \<noteq> key kd t a"
  shows "\<exists>t' ys. insert kd t a = Some t' \<and> rep kd t' ys \<and> set ys = Set.insert a (set xs)
     \<and> length ys = Suc (length xs)"
proof -
  let ?ys = "filter (\<lambda>b. key kd t b < key kd t a) xs @ a # filter (\<lambda>b. key kd t a < key kd t b) xs"
  from insert_rep [OF assms] obtain t' where t': "insert kd t a = Some t'" "rep kd t' ?ys" by blast
  have s: "set ?ys = Set.insert a (set xs)" using assms(4) by (auto simp: not_less_iff_gr_or_eq)
  have "length ?ys = card (set ?ys)" using rep_distinct [OF t'(2)] by (simp only: distinct_card)
  also have "\<dots> = Suc (length xs)"
    unfolding s using assms(3) rep_distinct [OF assms(1)] by (simp add: distinct_card)
  finally show ?thesis using t' s by blast
qed

lemma delete_set:
  assumes "rep kd t xs" "a \<in> set xs"
  shows "\<exists>t' ys. delete t a = Some t' \<and> rep kd t' ys \<and> set ys = set xs - {a}
     \<and> (\<forall>b. b \<noteq> a \<longrightarrow> key kd t' b = key kd t b) \<and> free t' = free t"
  using delete_rep [OF assms] rep_distinct [OF assms(1)] by (metis set_remove1_eq)

text \<open>Deleting what was inserted gives the list back.\<close>

lemma insert_delete:
  assumes "rep kd t xs" "free t a" "a \<notin> set xs" "\<forall>b \<in> set xs. key kd t b \<noteq> key kd t a"
  shows "\<exists>t' t''. insert kd t a = Some t' \<and> delete t' a = Some t'' \<and> rep kd t'' xs"
proof -
  let ?l = "filter (\<lambda>b. key kd t b < key kd t a) xs" and ?r = "filter (\<lambda>b. key kd t a < key kd t b) xs"
  from insert_rep [OF assms] obtain t' where t': "insert kd t a = Some t'" "rep kd t' (?l @ a # ?r)" by blast
  from delete_rep [OF t'(2), of a] obtain t'' where
    t'': "delete t' a = Some t''" "rep kd t'' (remove1 a (?l @ a # ?r))" by auto
  have "remove1 a (?l @ a # ?r) = ?l @ ?r" by (simp add: remove1_append)
  also have "?l @ ?r = xs"
    using rep_sorted [OF assms(1)] assms(4) by (rule ascending_split)
  finally show ?thesis using t' t'' by auto
qed

end

subsection \<open>The tree provides the contract\<close>

lemma kept_nkey: "kept t' t \<Longrightarrow> nkey kd t' = nkey kd t"
  by (simp add: kept_def nkey_def fun_eq_iff)

lemma sorted_splits:
  "sorted_wrt (\<lambda>a b. nkey kd t a < nkey kd t b) xs \<Longrightarrow> splits (\<lambda>b. nkey kd t a < nkey kd t b) xs"
  unfolding splits_def by (erule sorted_wrt_mono_rel [rotated]) (auto intro: less_trans)

lemma index_insert:
  assumes rep: "index_rep kd t xs" and fresh: "fresh_in t a" "a \<notin> set xs"
    and new: "\<forall>b \<in> set xs. nkey kd t b \<noteq> nkey kd t a"
  shows "\<exists>t'. mps_rbtree_insert kd t a = Some t' \<and> nkey kd t' = nkey kd t \<and> fresh_in t' = fresh_in t
    \<and> index_rep kd t' (filter (\<lambda>b. nkey kd t b < nkey kd t a) xs @ a # filter (\<lambda>b. nkey kd t a < nkey kd t b) xs)"
proof -
  from rep obtain T where T: "represents t T" "rbt T" "inorder T = xs"
    and srt: "sorted_wrt (\<lambda>a b. nkey kd t a < nkey kd t b) xs"
    and i: "rb_insert t = MPS_RBTREE_INSERT_TYPE_ID_LUADICT"
    by (auto simp: index_rep_def)
  have "splits (shdict_less kd t a) (inorder T)"
    using sorted_splits [OF srt] T(3) by (simp add: shdict_less_nkey)
  moreover have "insert_values kd (rb_insert t) = rbtree_insert_below (shdict_less kd)"
    by (simp add: i insert_values_luadict)
  ultimately obtain t' T' where t': "mps_rbtree_insert kd t a = Some t'" "represents t' T'" "rbt T'" "kept t' t"
    "inorder T' = filter (\<lambda>b. \<not> nkey kd t a < nkey kd t b) xs @ a # filter (\<lambda>b. nkey kd t a < nkey kd t b) xs"
    using insert_ok [OF T(1,2), of a kd "shdict_less kd"] fresh T(3)
    by (auto simp: fresh_in_def shdict_less_nkey)
  have e: "filter (\<lambda>b. \<not> nkey kd t a < nkey kd t b) xs = filter (\<lambda>b. nkey kd t b < nkey kd t a) xs"
    using new by (auto simp: not_less le_less intro!: filter_cong)
  have "sorted_wrt (\<lambda>a b. nkey kd t a < nkey kd t b) (inorder T')"
    using srt unfolding t'(5) e by (auto simp: sorted_wrt_append sorted_wrt_filter intro: less_trans)
  then show ?thesis
    using t' kept_nkey [OF t'(4), of kd] i e
    by (auto simp: index_rep_def kept_def fresh_in_def fun_eq_iff)
qed

lemma index_delete:
  assumes rep: "index_rep kd t xs" and a: "a \<in> set xs"
  shows "\<exists>t'. mps_rbtree_delete t a = Some t' \<and> (\<forall>b. b \<noteq> a \<longrightarrow> nkey kd t' b = nkey kd t b)
    \<and> fresh_in t' = fresh_in t \<and> index_rep kd t' (remove1 a xs)"
proof -
  from rep obtain T where T: "represents t T" "rbt T" "inorder T = xs"
    and srt: "sorted_wrt (\<lambda>a b. nkey kd t a < nkey kd t b) xs"
    and i: "rb_insert t = MPS_RBTREE_INSERT_TYPE_ID_LUADICT"
    by (auto simp: index_rep_def)
  from delete_ok [OF T(1,2), of a] a obtain t' T' where
    t': "mps_rbtree_delete t a = Some t'" "represents t' T'" "rbt T'" "inorder T' = remove1 a xs"
      "deleted_from a t' t" unfolding T(3) by blast
  have d: "distinct xs" using T(1,3) by (auto simp: represents_def tree_at_def)
  have k: "b \<noteq> a \<Longrightarrow> nkey kd t' b = nkey kd t b" for b using t'(5) by (simp add: deleted_from_def nkey_def)
  have "sorted_wrt (\<lambda>a b. nkey kd t a < nkey kd t b) (remove1 a xs)"
    using srt d by (simp add: distinct_remove1_removeAll removeAll_filter_not_eq sorted_wrt_filter)
  then have "sorted_wrt (\<lambda>a b. nkey kd t' a < nkey kd t' b) (remove1 a xs)"
    by (rule sorted_wrt_mono_rel [rotated]) (use d k in auto)
  then show ?thesis using t' k i by (auto simp: index_rep_def deleted_from_def fresh_in_def fun_eq_iff)
qed

interpretation index: ordered_index index_rep nkey fresh_in mps_rbtree_insert mps_rbtree_delete
  mps_rbtree_next mps_nulloff
proof
  fix kd kd' :: "off \<Rightarrow> byte list" and t xs
  assume "\<forall>a \<in> set xs. kd' a = kd a"
  then show "index_rep kd' t xs = index_rep kd t xs"
    using ascending_cong [of xs "nkey kd' t" "nkey kd t"] by (simp add: index_rep_def nkey_def)
next
  fix kd t as a bs
  assume "index_rep kd t (as @ a # bs)"
  then show "mps_rbtree_next t a = Some (case bs of [] \<Rightarrow> mps_nulloff | b # _ \<Rightarrow> b)"
    using next_ok by (auto simp: index_rep_def first_or_null_def)
qed (use index_insert index_delete in \<open>auto simp: index_rep_def\<close>)

end
