(* ===== verification/SlabList.thy ===== *)
theory SlabList
  imports Slab
begin

text \<open>
  The doubly linked lists of page structs: the free list and the list of partly used pages of each
  slot. Such a list starts and ends at a head of which only \<^verbatim>\<open>next\<close> is used; the \<^verbatim>\<open>prev\<close> of a member is
  the offset of its predecessor plus the type of the pages in the list. \<open>pchain nx pv ty a xs b\<close> reads
  the members between \<open>a\<close> and \<open>b\<close> from the two field maps. The lemmas are the four updates the code
  makes: unlinking, inserting at the front, replacing a member, and changes elsewhere.
\<close>

fun pchain :: "(off \<Rightarrow> off) \<Rightarrow> (off \<Rightarrow> off) \<Rightarrow> nat \<Rightarrow> off \<Rightarrow> off list \<Rightarrow> off \<Rightarrow> bool" where
  "pchain nx pv ty a [] b \<longleftrightarrow> nx a = b"
| "pchain nx pv ty a (x # xs) b \<longleftrightarrow> nx a = x \<and> pv x = a + ty \<and> pchain nx pv ty x xs b"

lemma pchain_append [simp]:
  "pchain nx pv ty a (xs @ x # ys) b \<longleftrightarrow>
     pchain nx pv ty a xs x \<and> pv x = last (a # xs) + ty \<and> pchain nx pv ty x ys b"
  by (induction xs arbitrary: a) auto

lemma pchain_frame:
  assumes "\<And>y. y \<in> set (a # xs) \<Longrightarrow> nx' y = nx y" "\<And>y. y \<in> set xs \<Longrightarrow> pv' y = pv y"
  shows "pchain nx' pv' ty a xs b = pchain nx pv ty a xs b"
  using assms by (induction xs arbitrary: a) auto

lemma pchain_hd: "pchain nx pv ty a xs b \<Longrightarrow> nx a = hd (xs @ [b])"
  by (cases xs) auto

lemma pchain_last: "pchain nx pv ty a xs b \<Longrightarrow> nx (last (a # xs)) = b"
  by (induction xs arbitrary: a) auto

text \<open>Replacing the end of a segment by a link to another end.\<close>

lemma pchain_end:
  "pchain nx pv ty a xs b \<Longrightarrow> distinct (a # xs) \<Longrightarrow> pchain (nx(last (a # xs) := c)) pv ty a xs c"
proof (induction xs arbitrary: a)
  case (Cons x xs)
  have "pchain (nx(last (x # xs) := c)) pv ty x xs c"
    by (rule Cons.IH) (use Cons.prems in auto)
  moreover have "last (x # xs) \<noteq> a" using Cons.prems(2) by (metis distinct.simps(2) last_in_set list.distinct(1))
  ultimately show ?case using Cons.prems(1) by (auto simp: fun_upd_def)
qed simp

lemma pchain_unlink:
  assumes ch: "pchain nx pv ty a (xs @ x # ys) b" and d: "distinct (a # xs @ x # ys)" and b: "b \<notin> set (xs @ x # ys)"
  shows "pchain (nx(last (a # xs) := nx x)) (pv(nx x := pv x)) ty a (xs @ ys) b"
proof (cases ys)
  case Nil
  with ch have "nx x = b" "pchain nx pv ty a xs x" by auto
  with pchain_end [OF this(2)] d have "pchain (nx(last (a # xs) := b)) pv ty a xs b" by simp
  then have "pchain (nx(last (a # xs) := b)) (pv(b := pv x)) ty a xs b"
    by (subst pchain_frame [where nx = "nx(last (a # xs) := b)" and pv = pv]) (use b in auto)
  with Nil \<open>nx x = b\<close> show ?thesis by simp
next
  case (Cons y zs)
  with ch have y: "nx x = y" "pchain nx pv ty a xs x" "pchain nx pv ty y zs b" "pv x = last (a # xs) + ty" by auto
  have l: "last (a # xs) \<in> set (a # xs)" by (rule last_in_set) simp
  have "pchain (nx(last (a # xs) := y)) pv ty a xs y" using pchain_end [OF y(2)] d by simp
  then have "pchain (nx(last (a # xs) := y)) (pv(y := pv x)) ty a xs y"
    by (subst pchain_frame [where nx = "nx(last (a # xs) := y)" and pv = pv]) (use d Cons in auto)
  moreover have "pchain (nx(last (a # xs) := y)) (pv(y := pv x)) ty y zs b"
    by (subst pchain_frame [where nx = nx and pv = pv]) (use d Cons l y(3) in auto)
  ultimately show ?thesis using y Cons by simp
qed

lemma pchain_push:
  assumes ch: "pchain nx pv ty a xs b" and d: "x \<notin> set (a # xs)" "distinct (a # xs)" "b \<notin> set (x # xs)"
  shows "pchain (nx(x := nx a, a := x)) (pv(x := a + ty, nx a := x + ty)) ty a (x # xs) b"
proof (cases xs)
  case Nil
  with ch d show ?thesis by auto
next
  case (Cons y ys)
  with ch have y: "nx a = y" "pchain nx pv ty y ys b" by auto
  have "pchain (nx(x := nx a, a := x)) (pv(x := a + ty, nx a := x + ty)) ty y ys b = pchain nx pv ty y ys b"
    by (rule pchain_frame) (use d Cons y in auto)
  with y Cons d show ?thesis by auto
qed

lemma pchain_replace:
  assumes ch: "pchain nx pv ty a (xs @ x # ys) b" and d: "distinct (a # xs @ x # ys)" "x' \<notin> set (a # xs @ ys)"
    and b: "b \<notin> set (xs @ x # ys)" "b \<noteq> x'" and xx: "x' \<noteq> x"
  shows "pchain (nx(x' := nx x, last (a # xs) := x')) (pv(x' := pv x, nx x := x' + ty)) ty a (xs @ x' # ys) b"
proof -
  have l: "last (a # xs) \<in> set (a # xs)" by (rule last_in_set) simp
  from ch have y: "pchain nx pv ty a xs x" "pv x = last (a # xs) + ty" "pchain nx pv ty x ys b" by auto
  let ?nx = "nx(x' := nx x, last (a # xs) := x')" and ?pv = "pv(x' := pv x, nx x := x' + ty)"
  have nxx: "nx x \<notin> set xs" "nx x \<noteq> x'"
    using y(3) d b by (cases ys; auto)+
  have "pchain (nx(last (a # xs) := x')) pv ty a xs x'" using pchain_end [OF y(1)] d by simp
  then have 1: "pchain ?nx ?pv ty a xs x'"
    by (subst pchain_frame [where nx = "nx(last (a # xs) := x')" and pv = pv]) (use d l nxx in auto)
  have 2: "pchain ?nx ?pv ty x' ys b"
  proof (cases ys)
    case Nil
    with y(3) l d(2) show ?thesis by auto
  next
    case (Cons v vs)
    with y(3) have v: "nx x = v" "pchain nx pv ty v vs b" by auto
    have "pchain ?nx ?pv ty v vs b"
      by (subst pchain_frame [where nx = nx and pv = pv]) (use d Cons l v in auto)
    with v Cons l d show ?thesis by auto
  qed
  have "?pv x' = last (a # xs) + ty" using y(2) nxx by simp
  with 1 2 show ?thesis by simp
qed

end
