(* ===== verification/SlabFrame.thy ===== *)
theory SlabFrame
  imports Slab
begin

text \<open>
  The members of the pool header that \<^verbatim>\<open>mps_slab_init\<close> sets and no allocation or release changes:
  \<open>geom\<close> collects them. The rules of \<open>geom_lets\<close> follow the assignments of a definition one by one.
\<close>

definition geom :: "slab_pool \<Rightarrow> (off \<times> nat \<times> nat) \<times> (off \<times> off \<times> off) \<times> (off \<times> off)" where
  "geom s = ((pool_data s, min_size s, min_shift s), (pool_pages s, pool_last s, pool_stats s),
     (pool_start s, pool_end s))"

lemma geom_sel:
  assumes "geom s' = geom s"
  shows "pool_data s' = pool_data s" "min_size s' = min_size s" "min_shift s' = min_shift s"
    "pool_pages s' = pool_pages s" "pool_last s' = pool_last s" "pool_stats s' = pool_stats s"
    "pool_start s' = pool_start s" "pool_end s' = pool_end s"
  using assms by (simp_all add: geom_def)

lemma geom_basic [simp]:
  "geom (pg_set_slab a v s) = geom s" "geom (pg_set_next a w s) = geom s"
  "geom (pg_set_prev a w s) = geom s" "geom (set_bitmap a v s) = geom s"
  "geom (incr_used i s) = geom s" "geom (decr_used i s) = geom s"
  "geom (incr_reqs i s) = geom s" "geom (incr_fails i s) = geom s"
  "geom (add_total i v s) = geom s" "geom (set_pfree v s) = geom s"
  by (simp_all add: geom_def pg_set_slab_def pg_set_next_def pg_set_prev_def set_bitmap_def incr_used_def
      decr_used_def incr_reqs_def incr_fails_def add_total_def set_pfree_def)

text \<open>The last component of a result is the pool: \<open>gsnd\<close> and \<open>gsnd2\<close> read it.\<close>

lemma geom_LetS: "geom u = c \<Longrightarrow> (\<And>v. geom v = c \<Longrightarrow> geom (f v) = c) \<Longrightarrow> geom (Let u f) = c"
  by simp

lemma geom_LetN: "(\<And>v. geom (f v) = c) \<Longrightarrow> geom (Let (u :: nat) f) = c"
  by simp

lemma geom_LetW: "(\<And>v. geom (f v) = c) \<Longrightarrow> geom (Let (u :: u64) f) = c"
  by simp

lemma geom_LetP: "geom (snd u) = c \<Longrightarrow> (\<And>n v. geom v = c \<Longrightarrow> geom (f n v) = c) \<Longrightarrow> geom (Let u (case_prod f)) = c"
  by (cases u) simp

lemma geom_LetT: "geom (snd (snd u)) = c \<Longrightarrow> (\<And>m n v. geom v = c \<Longrightarrow> geom (f m n v) = c)
    \<Longrightarrow> geom (Let u (\<lambda>(m, n, v). f m n v)) = c"
  by (cases u) simp

lemma gsnd_LetS: "geom u = c \<Longrightarrow> (\<And>v. geom v = c \<Longrightarrow> geom (snd (f v)) = c) \<Longrightarrow> geom (snd (Let u f)) = c"
  by simp

lemma gsnd_LetN: "(\<And>v. geom (snd (f v)) = c) \<Longrightarrow> geom (snd (Let (u :: nat) f)) = c"
  by simp

lemma gsnd_LetW: "(\<And>v. geom (snd (f v)) = c) \<Longrightarrow> geom (snd (Let (u :: u64) f)) = c"
  by simp

lemma gsnd2_LetS: "geom u = c \<Longrightarrow> (\<And>v. geom v = c \<Longrightarrow> geom (snd (snd (f v))) = c) \<Longrightarrow> geom (snd (snd (Let u f))) = c"
  by simp

lemma gsnd2_LetN: "(\<And>v. geom (snd (snd (f v))) = c) \<Longrightarrow> geom (snd (snd (Let (u :: nat) f))) = c"
  by simp

lemma geom_if: "geom u = c \<Longrightarrow> geom v = c \<Longrightarrow> geom (if b then u else v) = c"
  by simp

lemma gsnd_if: "geom (snd u) = c \<Longrightarrow> geom (snd v) = c \<Longrightarrow> geom (snd (if b then u else v)) = c"
  by simp

lemma gsnd2_if: "geom (snd (snd u)) = c \<Longrightarrow> geom (snd (snd v)) = c \<Longrightarrow> geom (snd (snd (if b then u else v))) = c"
  by simp

lemmas geom_lets = geom_LetS geom_LetN geom_LetW geom_LetP geom_LetT gsnd_LetS gsnd_LetN gsnd_LetW
  gsnd2_LetS gsnd2_LetN geom_if gsnd_if gsnd2_if

lemma geom_zero_pages [simp]: "geom (zero_pages p n s) = geom s"
  by (induction p n s rule: zero_pages.induct) simp_all

lemma geom_mark_busy [simp]: "geom (mark_busy p n s) = geom s"
  by (induction p n s rule: mark_busy.induct) simp_all

lemma geom_fold_bitmap [simp]: "geom (fold (\<lambda>i. set_bitmap (f i) v) is s) = geom s"
  by (induction "is" arbitrary: s) simp_all

lemma geom_links [simp]:
  "geom (slab_unlink page s) = geom s" "geom (slab_relink slot page ty s) = geom s"
  "geom (slab_link_first slot page ty s) = geom s" "geom (slab_page_full page ty s) = geom s"
  by (simp_all add: slab_unlink_def slab_relink_def slab_link_first_def slab_page_full_def Let_def)

lemma geom_join [simp]:
  "geom (snd (slab_join_next page n s)) = geom s"
  "geom (snd (snd (slab_join_prev page n s))) = geom s"
  unfolding slab_join_next_def slab_join_prev_def by (intro geom_lets; simp)+

lemma geom_free_ends [simp]: "geom (slab_clear_run page n s) = geom s" "geom (slab_push_free page n s) = geom s"
  by (simp_all add: slab_clear_run_def slab_push_free_def Let_def)

lemma geom_free_pages [simp]: "geom (mps_slab_free_pages page n s) = geom s"
  unfolding mps_slab_free_pages_def by (intro geom_lets) simp_all

lemma geom_take_run [simp]: "geom (slab_take_run page n s) = geom s"
  unfolding slab_take_run_def by (intro geom_lets) simp_all

lemma geom_alloc_pages: "mps_slab_alloc_pages s n = Some (p, s') \<Longrightarrow> geom s' = geom s"
  unfolding mps_slab_alloc_pages_def
  by (cases "slab_find_run s n (mps_slab_page_next s pool_free)") (auto split: option.splits)

lemma geom_init_bitmap [simp]: "geom (slab_init_bitmap bm n m s) = geom s"
  unfolding slab_init_bitmap_def by (intro geom_lets) simp_all

lemma geom_free_locked [simp]: "geom (snd (mps_slab_free_locked z s p)) = geom s"
proof -
  have "geom (snd (slab_free_small z page p s)) = geom s" for page
    unfolding slab_free_small_def by (intro geom_lets) simp_all
  moreover have "geom (snd (slab_free_exact z page p s)) = geom s" for page
    unfolding slab_free_exact_def by (intro geom_lets) simp_all
  moreover have "geom (snd (slab_free_big z page p s)) = geom s" for page
    unfolding slab_free_big_def by (intro geom_lets) simp_all
  moreover have "geom (snd (slab_free_page z page p s)) = geom s" for page
    unfolding slab_free_page_def by (intro geom_lets) simp_all
  ultimately show ?thesis by (simp add: mps_slab_free_locked_def Let_def)
qed

lemma geom_page_new [simp]: "geom (snd (slab_page_new z slot shift page s)) = geom s"
  unfolding slab_page_new_def by (intro geom_lets) simp_all

lemma geom_alloc_chunk [simp]: "geom (snd (slab_alloc_chunk z slot shift page s)) = geom s"
proof -
  have "slab_alloc_small z slot shift page s = Some (p, s') \<Longrightarrow> geom s' = geom s" for p s'
    by (auto simp: slab_alloc_small_def bind_eq_Some_conv Let_def split: if_splits)
  moreover have "slab_alloc_exact z slot shift page s = Some (p, s') \<Longrightarrow> geom s' = geom s" for p s'
    by (auto simp: slab_alloc_exact_def bind_eq_Some_conv Let_def split: if_splits)
  moreover have "slab_alloc_big z slot shift page s = Some (p, s') \<Longrightarrow> geom s' = geom s" for p s'
    by (auto simp: slab_alloc_big_def bind_eq_Some_conv Let_def split: if_splits)
  ultimately show ?thesis by (auto simp: slab_alloc_chunk_def split: option.splits)
qed

lemma geom_alloc_locked: "mps_slab_alloc_locked z s n = Some (p, s') \<Longrightarrow> geom s' = geom s"
  by (auto simp: mps_slab_alloc_locked_def bind_eq_Some_conv split_def Let_def
      dest!: geom_alloc_pages split: if_splits)
    (metis geom_alloc_chunk geom_page_new geom_basic snd_conv)+

end
