(* ===== verification/SlabInv.thy ===== *)
theory SlabInv
  imports SlabList SlabFrame
begin

text \<open>
  What a pool's page array holds: the invariant of the slab allocator. The array is a sequence of
  segments: free runs, allocated runs, pages cut into chunks and, while \<^verbatim>\<open>mps_slab_free_pages\<close> runs, the
  run it is giving back, which is in no list yet (\<open>Loose\<close>). \<open>slab_inv z s G F SL\<close> says that the
  page structs and bitmaps describe the segments \<open>G\<close>, that \<open>F\<close> lists the heads of the free runs as the
  free list links them, and \<open>SL k\<close> the pages of slot \<open>k\<close> that have a free chunk. \<open>blocks\<close> is the set of
  the memory blocks that are handed out, as offset and size; what an allocator promises is stated in
  terms of it.
\<close>

subsection \<open>Selectors\<close>

lemma pg_sel [simp]:
  "pg_slab (pg_set_slab a v s) = (pg_slab s)(a := v)" "pg_next (pg_set_slab a v s) = pg_next s"
  "pg_prev (pg_set_slab a v s) = pg_prev s" "bitmap (pg_set_slab a v s) = bitmap s"
  "pg_slab (pg_set_next a w s) = pg_slab s" "pg_next (pg_set_next a w s) = (pg_next s)(a := w)"
  "pg_prev (pg_set_next a w s) = pg_prev s" "bitmap (pg_set_next a w s) = bitmap s"
  "pg_slab (pg_set_prev a w s) = pg_slab s" "pg_next (pg_set_prev a w s) = pg_next s"
  "pg_prev (pg_set_prev a w s) = (pg_prev s)(a := w)" "bitmap (pg_set_prev a w s) = bitmap s"
  "pg_slab (set_bitmap a v s) = pg_slab s" "pg_next (set_bitmap a v s) = pg_next s"
  "pg_prev (set_bitmap a v s) = pg_prev s" "bitmap (set_bitmap a v s) = (bitmap s)(a := v)"
  "pfree (pg_set_slab a v s) = pfree s" "pfree (pg_set_next a w s) = pfree s" "pfree (pg_set_prev a w s) = pfree s"
  "pfree (set_bitmap a v s) = pfree s" "pfree (set_pfree v s) = v"
  "pg_slab (set_pfree v s) = pg_slab s" "pg_next (set_pfree v s) = pg_next s"
  "pg_prev (set_pfree v s) = pg_prev s" "bitmap (set_pfree v s) = bitmap s"
  by (simp_all add: pg_set_slab_def pg_set_next_def pg_set_prev_def set_bitmap_def set_pfree_def)

lemma geom_pages [simp]:
  "pool_pages (pg_set_slab a v s) = pool_pages s" "pool_pages (pg_set_next a w s) = pool_pages s"
  "pool_pages (pg_set_prev a w s) = pool_pages s" "pool_pages (set_pfree v s) = pool_pages s"
  "pool_last (pg_set_slab a v s) = pool_last s" "pool_last (pg_set_next a w s) = pool_last s"
  "pool_last (pg_set_prev a w s) = pool_last s" "pool_last (set_pfree v s) = pool_last s"
  by (simp_all add: pg_set_slab_def pg_set_next_def pg_set_prev_def set_pfree_def)

text \<open>The statistics are not read by the allocator.\<close>

definition same_pages :: "slab_pool \<Rightarrow> slab_pool \<Rightarrow> bool" where
  "same_pages s' s \<longleftrightarrow> geom s' = geom s \<and> pg_slab s' = pg_slab s \<and> pg_next s' = pg_next s \<and> pg_prev s' = pg_prev s
     \<and> bitmap s' = bitmap s \<and> pfree s' = pfree s"

lemma same_pages_stats [simp]:
  "same_pages (incr_used k s) s" "same_pages (decr_used k s) s" "same_pages (incr_reqs k s) s"
  "same_pages (incr_fails k s) s" "same_pages (add_total k v s) s"
  by (simp_all add: same_pages_def incr_used_def decr_used_def incr_reqs_def incr_fails_def add_total_def geom_def)

subsection \<open>Page structs\<close>

abbreviation pg :: "slab_pool \<Rightarrow> nat \<Rightarrow> off" where
  "pg s i \<equiv> page_at (pool_pages s) i"

lemma page_at_inj [simp]: "page_at b i = page_at b j \<longleftrightarrow> i = j"
  by (simp add: page_at_def slab_consts)

lemma page_at_page_at [simp]: "page_at (page_at b i) j = page_at b (i + j)"
  by (simp add: page_at_def algebra_simps)

lemma page_at_less [simp]: "page_at b i < page_at b j \<longleftrightarrow> i < j"
  by (simp add: page_at_def slab_consts)

lemma page_at_0 [simp]: "page_at b 0 = b"
  by (simp add: page_at_def)

lemma page_at_Suc: "page_at b i + page_size = page_at b (Suc i)"
  by (simp add: page_at_def)

lemma page_at_pred: "0 < i \<Longrightarrow> page_at b i - page_size = page_at b (i - 1)"
  by (cases i) (simp_all add: page_at_def)

lemma page_at_mod4: "4 dvd b \<Longrightarrow> page_at b i mod 4 = 0"
  unfolding page_at_def slab_consts by (elim dvdE) presburger

lemma mark_busy_sel:
  "pg_slab (mark_busy p n s) a = (if a \<in> page_at p ` {..<n} then MPS_SLAB_PAGE_BUSY else pg_slab s a)"
  "pg_next (mark_busy p n s) a = (if a \<in> page_at p ` {..<n} then 0 else pg_next s a)"
  "pg_prev (mark_busy p n s) a = (if a \<in> page_at p ` {..<n} then 0 else pg_prev s a)"
  "bitmap (mark_busy p n s) = bitmap s" "pfree (mark_busy p n s) = pfree s"
proof (induction p n s rule: mark_busy.induct)
  case (2 p n s)
  have i: "page_at p ` {..<Suc n} = insert p (page_at (p + page_size) ` {..<n})"
    unfolding lessThan_Suc_eq_insert_0 by (force simp: page_at_def image_iff)
  have n: "p \<notin> page_at (p + page_size) ` {..<n}" by (auto simp: page_at_def slab_consts)
  { case 1 show ?case unfolding i using n by (simp add: "2.IH" Let_def) }
  { case 2 show ?case unfolding i using n by (simp add: "2.IH" Let_def mps_nulloff_def) }
  { case 3 show ?case unfolding i using n by (simp add: "2.IH" Let_def MPS_SLAB_PAGE_def) }
  { case 4 show ?case by (simp add: "2.IH" Let_def) }
  { case 5 show ?case by (simp add: "2.IH" Let_def) }
qed simp_all

lemma zero_pages_sel:
  "pg_slab (zero_pages p n s) a = (if a \<in> page_at p ` {..<n} then 0 else pg_slab s a)"
  "pg_next (zero_pages p n s) a = (if a \<in> page_at p ` {..<n} then 0 else pg_next s a)"
  "pg_prev (zero_pages p n s) a = (if a \<in> page_at p ` {..<n} then 0 else pg_prev s a)"
  "bitmap (zero_pages p n s) = bitmap s" "pfree (zero_pages p n s) = pfree s"
proof (induction p n s rule: zero_pages.induct)
  case (2 p n s)
  have i: "page_at p ` {..<Suc n} = insert p (page_at (p + page_size) ` {..<n})"
    unfolding lessThan_Suc_eq_insert_0 by (force simp: page_at_def image_iff)
  have n: "p \<notin> page_at (p + page_size) ` {..<n}" by (auto simp: page_at_def slab_consts)
  { case 1 show ?case unfolding i using n by (simp add: "2.IH") }
  { case 2 show ?case unfolding i using n by (simp add: "2.IH") }
  { case 3 show ?case unfolding i using n by (simp add: "2.IH") }
  { case 4 show ?case by (simp add: "2.IH") }
  { case 5 show ?case by (simp add: "2.IH") }
qed simp_all

subsection \<open>Sizes\<close>

lemma shift_loop_power: "shift_loop (2 ^ k) = k"
proof (induction k)
  case 0
  then show ?case by (subst shift_loop.simps) simp
next
  case (Suc k)
  then show ?case by (subst shift_loop.simps) simp
qed

lemma shift_loop_bounds: "0 < n \<Longrightarrow> 2 ^ shift_loop n \<le> n \<and> n < 2 ^ Suc (shift_loop n)"
proof (induction n rule: less_induct)
  case (less n)
  show ?case
  proof (cases "n div 2 = 0")
    case True
    with less.prems show ?thesis by (subst (1 2) shift_loop.simps) auto
  next
    case False
    then have "2 ^ shift_loop (n div 2) \<le> n div 2 \<and> n div 2 < 2 ^ Suc (shift_loop (n div 2))"
      by (intro less.IH) auto
    with False show ?thesis by (subst (1 2) shift_loop.simps) auto
  qed
qed

text \<open>The page sizes the allocator is made for, from 4 KB to 64 KB.\<close>

definition sizes_ok :: "slab_sizes \<Rightarrow> bool" where
  "sizes_ok z \<longleftrightarrow> (\<exists>k. 12 \<le> k \<and> k \<le> 16 \<and> z = mps_slab_sizes_init (2 ^ k))"

lemma sizes_okD:
  assumes "sizes_ok z"
  shows "pagesize z = 2 ^ pagesize_shift z" "12 \<le> pagesize_shift z" "pagesize_shift z \<le> 16"
    "max_size z = 2 ^ (pagesize_shift z - 1)" "exact_size z = 2 ^ exact_shift z" "exact_shift z = pagesize_shift z - 6"
proof -
  from assms obtain k where k: "12 \<le> k" "k \<le> 16" "z = mps_slab_sizes_init (2 ^ k)" by (auto simp: sizes_ok_def)
  have 64: "(2 :: nat) ^ k div 64 = 2 ^ (k - 6)"
    using power_diff [of "2 :: nat" 6 k] k(1) by simp
  have 2: "(2 :: nat) ^ k div 2 = 2 ^ (k - 1)"
    using power_diff [of "2 :: nat" 1 k] k(1) by simp
  show "pagesize z = 2 ^ pagesize_shift z" "12 \<le> pagesize_shift z" "pagesize_shift z \<le> 16"
    "max_size z = 2 ^ (pagesize_shift z - 1)" "exact_size z = 2 ^ exact_shift z" "exact_shift z = pagesize_shift z - 6"
    using k by (simp_all add: mps_slab_sizes_init_def shift_loop_power 64 2)
qed

subsection \<open>Segments\<close>

datatype seg = Free nat | Run nat | Chunks nat "nat set" | Loose nat

fun seg_len :: "seg \<Rightarrow> nat" where
  "seg_len (Free n) = n"
| "seg_len (Run n) = n"
| "seg_len (Chunks sh U) = 1"
| "seg_len (Loose n) = n"

fun layout :: "nat \<Rightarrow> seg list \<Rightarrow> (nat \<times> seg) set" where
  "layout i [] = {}"
| "layout i (g # G) = insert (i, g) (layout (i + seg_len g) G)"

definition seg_total :: "seg list \<Rightarrow> nat" where
  "seg_total G = sum_list (map seg_len G)"

lemma seg_total_simps [simp]: "seg_total [] = 0" "seg_total (g # G) = seg_len g + seg_total G" "seg_total (A @ B) = seg_total A + seg_total B"
  by (simp_all add: seg_total_def)

lemma layout_append [simp]: "layout i (A @ B) = layout i A \<union> layout (i + seg_total A) B"
  by (induction A arbitrary: i) (auto simp: add.assoc)

lemma layout_bounds: "(j, g) \<in> layout i G \<Longrightarrow> i \<le> j \<and> j + seg_len g \<le> i + seg_total G"
  by (induction G arbitrary: i) fastforce+

lemma layout_split: "(j, g) \<in> layout i G \<Longrightarrow> \<exists>A B. G = A @ g # B \<and> j = i + seg_total A"
proof (induction G arbitrary: i)
  case (Cons h G)
  show ?case
  proof (cases "(j, g) = (i, h)")
    case True
    then have "h # G = [] @ g # G \<and> j = i + seg_total []" by simp
    then show ?thesis by blast
  next
    case False
    with Cons.prems have "(j, g) \<in> layout (i + seg_len h) G" by auto
    from Cons.IH [OF this] obtain A B where "G = A @ g # B" "j = i + seg_len h + seg_total A" by blast
    then have "h # G = (h # A) @ g # B \<and> j = i + seg_total (h # A)" by simp
    then show ?thesis by blast
  qed
qed simp

subsection \<open>Chunks of a page\<close>

definition chunk_count :: "slab_sizes \<Rightarrow> nat \<Rightarrow> nat" where
  "chunk_count z sh = pagesize z div 2 ^ sh"

definition reserved :: "slab_sizes \<Rightarrow> nat \<Rightarrow> nat" where
  "reserved z sh = (if sh < exact_shift z then small_reserved z sh else 0)"

definition chunk_type :: "slab_sizes \<Rightarrow> nat \<Rightarrow> nat" where
  "chunk_type z sh = (if sh < exact_shift z then MPS_SLAB_SMALL
     else if sh = exact_shift z then MPS_SLAB_EXACT else MPS_SLAB_BIG)"

definition page_addr :: "slab_sizes \<Rightarrow> slab_pool \<Rightarrow> nat \<Rightarrow> off" where
  "page_addr z s i = i * 2 ^ pagesize_shift z + pool_start s"

lemma page_addr_eq: "mps_slab_page_addr z s (pg s i) = page_addr z s i"
  by (simp add: mps_slab_page_addr_def page_addr_def page_at_def slab_consts)

text \<open>The chunks in use (the reserved ones included), as the bitmap of each kind of page records them.\<close>

definition chunk_bits :: "slab_sizes \<Rightarrow> slab_pool \<Rightarrow> nat \<Rightarrow> nat \<Rightarrow> nat set \<Rightarrow> bool" where
  "chunk_bits z s i sh U \<longleftrightarrow>
     (if sh < exact_shift z then
        pg_slab s (pg s i) = of_nat sh
        \<and> (\<forall>c < chunk_count z sh. bit (bitmap s (page_addr z s i + 8 * (c div 64))) (c mod 64) \<longleftrightarrow> c \<in> U)
      else if sh = exact_shift z then (\<forall>c < 64. bit (pg_slab s (pg s i)) c \<longleftrightarrow> c \<in> U)
      else pg_slab s (pg s i) AND MPS_SLAB_SHIFT_MASK = of_nat sh
        \<and> (\<forall>c < 32. bit (pg_slab s (pg s i)) (MPS_SLAB_MAP_SHIFT + c) \<longleftrightarrow> c \<in> U))"

definition chunk_set_ok :: "slab_sizes \<Rightarrow> nat \<Rightarrow> nat set \<Rightarrow> bool" where
  "chunk_set_ok z sh U \<longleftrightarrow> {..<reserved z sh} \<subseteq> U \<and> U \<subseteq> {..<chunk_count z sh}"

definition full :: "slab_sizes \<Rightarrow> nat \<Rightarrow> nat set \<Rightarrow> bool" where
  "full z sh U \<longleftrightarrow> U = {..<chunk_count z sh}"

subsection \<open>The invariant\<close>

text \<open>A segment whose head is in one of the lists: its \<^verbatim>\<open>next\<close> and \<^verbatim>\<open>prev\<close> belong to the list.\<close>

fun linked :: "slab_sizes \<Rightarrow> seg \<Rightarrow> bool" where
  "linked z (Free n) \<longleftrightarrow> True"
| "linked z (Run n) \<longleftrightarrow> False"
| "linked z (Chunks sh U) \<longleftrightarrow> \<not> full z sh U"
| "linked z (Loose n) \<longleftrightarrow> False"

fun seg_ok :: "slab_sizes \<Rightarrow> slab_pool \<Rightarrow> nat \<Rightarrow> nat \<Rightarrow> seg \<Rightarrow> bool" where
  "seg_ok z s N i (Free n) \<longleftrightarrow> 0 < n \<and> pg_slab s (pg s i) = of_nat n
     \<and> (\<forall>j. i < j \<and> j < i + n \<longrightarrow> pg_slab s (pg s j) = 0 \<and> pg_next s (pg s j) = 0 \<and> pg_prev s (pg s j) mod 4 = 0)
     \<and> (1 < n \<and> i + n < N \<longrightarrow> pg_prev s (pg s (i + n - 1)) = pg s i)"
| "seg_ok z s N i (Run n) \<longleftrightarrow> 0 < n \<and> pg_slab s (pg s i) = of_nat n OR MPS_SLAB_PAGE_START
     \<and> pg_next s (pg s i) = 0 \<and> pg_prev s (pg s i) = 0
     \<and> (\<forall>j. i < j \<and> j < i + n \<longrightarrow>
          pg_slab s (pg s j) = MPS_SLAB_PAGE_BUSY \<and> pg_next s (pg s j) = 0 \<and> pg_prev s (pg s j) = 0)"
| "seg_ok z s N i (Chunks sh U) \<longleftrightarrow> min_shift s \<le> sh \<and> sh < pagesize_shift z \<and> chunk_set_ok z sh U
     \<and> chunk_bits z s i sh U \<and> (full z sh U \<longrightarrow> pg_next s (pg s i) = 0 \<and> pg_prev s (pg s i) = chunk_type z sh)"
| "seg_ok z s N i (Loose n) \<longleftrightarrow> 0 < n \<and> pg_slab s (pg s i) = of_nat n
     \<and> (\<forall>j. i < j \<and> j < i + n \<longrightarrow> pg_slab s (pg s j) = 0 \<and> pg_next s (pg s j) = 0 \<and> pg_prev s (pg s j) mod 4 = 0)"

text \<open>The geometry that \<^verbatim>\<open>mps_slab_init\<close> lays out, for \<open>N\<close> pages.\<close>

definition geo_ok :: "slab_sizes \<Rightarrow> slab_pool \<Rightarrow> nat \<Rightarrow> bool" where
  "geo_ok z s N \<longleftrightarrow> sizes_ok z \<and> pg s N = pool_last s \<and> 4 dvd pool_pages s
     \<and> mps_slab_slots (pagesize_shift z - min_shift s) \<le> pool_pages s
     \<and> 3 \<le> min_shift s \<and> min_shift s < pagesize_shift z \<and> min_size s = 2 ^ min_shift s
     \<and> pagesize z dvd pool_start s \<and> 0 < pool_start s \<and> pool_start s + N * pagesize z \<le> pool_end s
     \<and> pool_end s < 2 ^ 63"

definition free_heads :: "slab_pool \<Rightarrow> nat \<Rightarrow> seg list \<Rightarrow> off set" where
  "free_heads s i G = {pg s j | j n. (j, Free n) \<in> layout i G}"

definition slot_pages :: "slab_sizes \<Rightarrow> slab_pool \<Rightarrow> nat \<Rightarrow> nat \<Rightarrow> seg list \<Rightarrow> off set" where
  "slot_pages z s k i G =
     {pg s j | j U. (j, Chunks (min_shift s + k) U) \<in> layout i G \<and> \<not> full z (min_shift s + k) U}"

definition list_inv :: "slab_pool \<Rightarrow> nat \<Rightarrow> off \<Rightarrow> off list \<Rightarrow> bool" where
  "list_inv s ty a xs \<longleftrightarrow> distinct xs \<and> pchain (pg_next s) (pg_prev s) ty a xs a"

definition free_pages :: "seg list \<Rightarrow> nat" where
  "free_pages G = sum_list (map (\<lambda>g. case g of Free n \<Rightarrow> n | Loose n \<Rightarrow> n | _ \<Rightarrow> 0) G)"

definition slab_inv :: "slab_sizes \<Rightarrow> slab_pool \<Rightarrow> seg list \<Rightarrow> off list \<Rightarrow> (nat \<Rightarrow> off list) \<Rightarrow> bool" where
  "slab_inv z s G F SL \<longleftrightarrow> geo_ok z s (seg_total G)
     \<and> (\<forall>(i, g) \<in> layout 0 G. seg_ok z s (seg_total G) i g)
     \<and> list_inv s 0 pool_free F \<and> set F = free_heads s 0 G
     \<and> (\<forall>k < pagesize_shift z - min_shift s.
          list_inv s (chunk_type z (min_shift s + k)) (mps_slab_slots k) (SL k) \<and> set (SL k) = slot_pages z s k 0 G)
     \<and> pfree s = of_nat (free_pages G)"

text \<open>The memory that is handed out.\<close>

fun seg_blocks :: "slab_sizes \<Rightarrow> slab_pool \<Rightarrow> nat \<Rightarrow> seg \<Rightarrow> (off \<times> nat) set" where
  "seg_blocks z s i (Free n) = {}"
| "seg_blocks z s i (Loose n) = {}"
| "seg_blocks z s i (Run n) = {(page_addr z s i, n * pagesize z)}"
| "seg_blocks z s i (Chunks sh U) = {(page_addr z s i + c * 2 ^ sh, 2 ^ sh) | c. c \<in> U \<and> reserved z sh \<le> c}"

definition blocks :: "slab_sizes \<Rightarrow> slab_pool \<Rightarrow> seg list \<Rightarrow> (off \<times> nat) set" where
  "blocks z s G = (\<Union>(i, g) \<in> layout 0 G. seg_blocks z s i g)"

subsection \<open>Changes elsewhere\<close>

lemma chunk_count_le: "chunk_count z sh \<le> pagesize z"
  by (simp add: chunk_count_def div_le_dividend)

lemma seg_ok_frame:
  assumes g: "geom s' = geom s"
    and sl: "\<And>j. i \<le> j \<Longrightarrow> j < i + seg_len g \<Longrightarrow> pg_slab s' (pg s j) = pg_slab s (pg s j)"
    and np: "\<And>j. i \<le> j \<Longrightarrow> j < i + seg_len g \<Longrightarrow> \<not> (linked z g \<and> j = i) \<Longrightarrow>
        pg_next s' (pg s j) = pg_next s (pg s j) \<and> pg_prev s' (pg s j) = pg_prev s (pg s j)"
    and bm: "\<And>c. c < pagesize z \<Longrightarrow> bitmap s' (page_addr z s i + 8 * (c div 64)) = bitmap s (page_addr z s i + 8 * (c div 64))"
  shows "seg_ok z s' N i g = seg_ok z s N i g"
proof -
  note e = geom_sel [OF g]
  show ?thesis
  proof (cases g)
    case (Free n)
    then show ?thesis using sl np by (auto simp: e)
  next
    case (Run n)
    then show ?thesis using sl np by (auto simp: e)
  next
    case (Chunks sh U)
    have "bitmap s' (page_addr z s' i + 8 * (c div 64)) = bitmap s (page_addr z s i + 8 * (c div 64))"
      if "c < chunk_count z sh" for c
      using bm [of c] that chunk_count_le [of z sh] by (simp add: page_addr_def e)
    moreover have "pg_slab s' (pg s' i) = pg_slab s (pg s i)" using sl [of i] Chunks by (simp add: e)
    ultimately have "chunk_bits z s' i sh U = chunk_bits z s i sh U" by (simp add: chunk_bits_def)
    then show ?thesis using Chunks np [of i] by (auto simp: e)
  next
    case (Loose n)
    then show ?thesis using sl np by (auto simp: e)
  qed
qed

lemma list_inv_frame:
  assumes "\<And>y. y \<in> set (a # xs) \<Longrightarrow> pg_next s' y = pg_next s y" "\<And>y. y \<in> set xs \<Longrightarrow> pg_prev s' y = pg_prev s y"
  shows "list_inv s' ty a xs = list_inv s ty a xs"
  unfolding list_inv_def using pchain_frame [of a xs "pg_next s'" "pg_next s" "pg_prev s'" "pg_prev s" ty a] assms by blast

lemma same_pages_inv: "same_pages s' s \<Longrightarrow> slab_inv z s' G F SL = slab_inv z s G F SL"
proof -
  assume a: "same_pages s' s"
  then have g: "geom s' = geom s" and f: "pg_slab s' = pg_slab s" "pg_next s' = pg_next s" "pg_prev s' = pg_prev s"
    "bitmap s' = bitmap s" "pfree s' = pfree s" by (auto simp: same_pages_def)
  note e = geom_sel [OF g]
  have "seg_ok z s' N i h = seg_ok z s N i h" for N i h by (rule seg_ok_frame) (use g f in auto)
  moreover have "list_inv s' ty x xs = list_inv s ty x xs" for ty x xs by (rule list_inv_frame) (use f in auto)
  ultimately show ?thesis by (simp add: slab_inv_def geo_ok_def free_heads_def slot_pages_def e f)
qed

lemma slab_inv_stats [simp]:
  "slab_inv z (incr_used k s) G F SL = slab_inv z s G F SL" "slab_inv z (decr_used k s) G F SL = slab_inv z s G F SL"
  "slab_inv z (incr_reqs k s) G F SL = slab_inv z s G F SL" "slab_inv z (incr_fails k s) G F SL = slab_inv z s G F SL"
  "slab_inv z (add_total k v s) G F SL = slab_inv z s G F SL"
  by (rule same_pages_inv; simp)+

text \<open>A page of the array is never a list head; two heads differ.\<close>

lemma heads_distinct:
  assumes "geo_ok z s N"
  shows "pg s i \<noteq> pool_free" "k < pagesize_shift z - min_shift s \<Longrightarrow> pg s i \<noteq> mps_slab_slots k"
    "mps_slab_slots k \<noteq> pool_free" "mps_slab_slots k = mps_slab_slots l \<longleftrightarrow> k = l"
    "0 < pg s i" "mps_slab_slots k mod 4 = 0" "pg s i mod 4 = 0"
proof -
  let ?n = "pagesize_shift z - min_shift s"
  have b: "144 + ?n * 24 \<le> pool_pages s" "4 dvd pool_pages s"
    using assms by (auto simp: geo_ok_def mps_slab_slots_def slab_consts)
  show "pg s i \<noteq> pool_free" "0 < pg s i" using b by (auto simp: page_at_def slab_consts)
  show "k < ?n \<Longrightarrow> pg s i \<noteq> mps_slab_slots k"
    using b by (auto simp: page_at_def mps_slab_slots_def slab_consts)
  show "mps_slab_slots k \<noteq> pool_free" "mps_slab_slots k = mps_slab_slots l \<longleftrightarrow> k = l"
    by (auto simp: mps_slab_slots_def slab_consts)
  show "mps_slab_slots k mod 4 = 0" unfolding mps_slab_slots_def slab_consts by presburger
  show "pg s i mod 4 = 0" using b(2) by (rule page_at_mod4)
qed

lemma free_heads_simps [simp]:
  "free_heads s i [] = {}" "free_heads s i (Free n # G) = insert (pg s i) (free_heads s (i + n) G)"
  "free_heads s i (Run n # G) = free_heads s (i + n) G"
  "free_heads s i (Chunks sh U # G) = free_heads s (Suc i) G"
  "free_heads s i (Loose n # G) = free_heads s (i + n) G"
  "free_heads s i (A @ B) = free_heads s i A \<union> free_heads s (i + seg_total A) B"
  by (auto simp: free_heads_def)

lemma slot_pages_simps [simp]:
  "slot_pages z s k i [] = {}" "slot_pages z s k i (Free n # G) = slot_pages z s k (i + n) G"
  "slot_pages z s k i (Run n # G) = slot_pages z s k (i + n) G"
  "slot_pages z s k i (Loose n # G) = slot_pages z s k (i + n) G"
  "slot_pages z s k i (Chunks sh U # G) =
     (if sh = min_shift s + k \<and> \<not> full z sh U then {pg s i} else {}) \<union> slot_pages z s k (Suc i) G"
  "slot_pages z s k i (A @ B) = slot_pages z s k i A \<union> slot_pages z s k (i + seg_total A) B"
  by (auto simp: slot_pages_def)

lemma free_pages_simps [simp]:
  "free_pages [] = 0" "free_pages (Free n # G) = n + free_pages G" "free_pages (Run n # G) = free_pages G"
  "free_pages (Chunks sh U # G) = free_pages G" "free_pages (Loose n # G) = n + free_pages G"
  "free_pages (A @ B) = free_pages A + free_pages B"
  by (simp_all add: free_pages_def)

lemma free_heads_range: "x \<in> free_heads s i G \<Longrightarrow> \<forall>(j, g) \<in> layout i G. 0 < seg_len g \<Longrightarrow> \<exists>j. x = pg s j \<and> i \<le> j \<and> j < i + seg_total G"
  using layout_bounds by (fastforce simp: free_heads_def)

lemma slot_pages_range: "x \<in> slot_pages z s k i G \<Longrightarrow> \<exists>j. x = pg s j \<and> i \<le> j \<and> j < i + seg_total G"
  using layout_bounds by (fastforce simp: slot_pages_def)

lemma layout_disjoint:
  "\<forall>(j, g) \<in> layout i G. 0 < seg_len g \<Longrightarrow> (j, g) \<in> layout i G \<Longrightarrow> (k, h) \<in> layout i G \<Longrightarrow>
     (j, g) = (k, h) \<or> j + seg_len g \<le> k \<or> k + seg_len h \<le> j"
proof (induction G arbitrary: i)
  case (Cons f G)
  show ?case
  proof (cases "(j, g) = (i, f) \<or> (k, h) = (i, f)")
    case True
    with Cons.prems show ?thesis by (auto dest!: layout_bounds)
  next
    case False
    with Cons.prems have "(j, g) \<in> layout (i + seg_len f) G" "(k, h) \<in> layout (i + seg_len f) G"
      "\<forall>(j, g) \<in> layout (i + seg_len f) G. 0 < seg_len g" by auto
    with Cons.IH show ?thesis by blast
  qed
qed simp

lemma seg_ok_len: "seg_ok z s N i g \<Longrightarrow> 0 < seg_len g"
  by (cases g) auto

lemma slab_inv_lens: "slab_inv z s G F SL \<Longrightarrow> \<forall>(j, g) \<in> layout 0 G. 0 < seg_len g"
  using seg_ok_len by (fastforce simp: slab_inv_def)

text \<open>A page that is not the head of a linked segment is in no list.\<close>

lemma unlinked_page:
  assumes inv: "slab_inv z s G F SL" and g: "(i, g) \<in> layout 0 G" and j: "i \<le> j" "j < i + seg_len g" "\<not> (linked z g \<and> j = i)"
  shows "pg s j \<notin> set F" "k < pagesize_shift z - min_shift s \<Longrightarrow> pg s j \<notin> set (SL k)"
proof -
  note len = slab_inv_lens [OF inv]
  have head: "(j, h) \<in> layout 0 G \<Longrightarrow> linked z h \<Longrightarrow> False" for h
    using layout_disjoint [OF len g, of j h] len j by fastforce
  then show "pg s j \<notin> set F" using inv by (force simp: slab_inv_def free_heads_def)
  show "k < pagesize_shift z - min_shift s \<Longrightarrow> pg s j \<notin> set (SL k)"
    using inv head by (force simp: slab_inv_def slot_pages_def)
qed

lemma page_in_list:
  assumes inv: "slab_inv z s G F SL"
  shows "pg s j \<in> set F \<longleftrightarrow> (\<exists>n. (j, Free n) \<in> layout 0 G)"
    "k < pagesize_shift z - min_shift s \<Longrightarrow>
       pg s j \<in> set (SL k) \<longleftrightarrow> (\<exists>U. (j, Chunks (min_shift s + k) U) \<in> layout 0 G \<and> \<not> full z (min_shift s + k) U)"
  using inv by (auto simp: slab_inv_def free_heads_def slot_pages_def)

lemma lists_disjoint:
  assumes inv: "slab_inv z s G F SL" and k: "k < pagesize_shift z - min_shift s"
  shows "set F \<inter> set (SL k) = {}" "l < pagesize_shift z - min_shift s \<Longrightarrow> k \<noteq> l \<Longrightarrow> set (SL k) \<inter> set (SL l) = {}"
proof -
  note len = slab_inv_lens [OF inv]
  have u: "(j, g) \<in> layout 0 G \<Longrightarrow> (j, h) \<in> layout 0 G \<Longrightarrow> g = h" for j g h
    using layout_disjoint [OF len, of j g j h] len by fastforce
  show "set F \<inter> set (SL k) = {}"
    using inv k by (auto simp: slab_inv_def free_heads_def slot_pages_def dest: u)
  show "l < pagesize_shift z - min_shift s \<Longrightarrow> k \<noteq> l \<Longrightarrow> set (SL k) \<inter> set (SL l) = {}"
    using inv k by (fastforce simp: slab_inv_def slot_pages_def dest: u)
qed

text \<open>How the code changes the state: some segments \<open>X\<close> become \<open>Y\<close>, the lists are relinked.\<close>

lemma slab_inv_update:
  assumes inv: "slab_inv z s (A @ X @ B) F SL" and t: "seg_total Y = seg_total X" and g: "geom s' = geom s"
    and sl: "\<And>j. j < seg_total A \<or> seg_total A + seg_total X \<le> j \<Longrightarrow> pg_slab s' (pg s j) = pg_slab s (pg s j)"
    and np: "\<And>j. j < seg_total A \<or> seg_total A + seg_total X \<le> j \<and> j < seg_total (A @ X @ B) \<Longrightarrow> pg s j \<notin> set F \<Longrightarrow>
        (\<And>k. k < pagesize_shift z - min_shift s \<Longrightarrow> pg s j \<notin> set (SL k)) \<Longrightarrow>
        pg_next s' (pg s j) = pg_next s (pg s j) \<and> pg_prev s' (pg s j) = pg_prev s (pg s j)"
    and bm: "\<And>j c. j < seg_total A \<or> seg_total A + seg_total X \<le> j \<Longrightarrow> c < pagesize z \<Longrightarrow>
        bitmap s' (page_addr z s j + 8 * (c div 64)) = bitmap s (page_addr z s j + 8 * (c div 64))"
    and new: "\<And>i g. (i, g) \<in> layout (seg_total A) Y \<Longrightarrow> seg_ok z s' (seg_total (A @ X @ B)) i g"
    and F': "list_inv s' 0 pool_free F'"
      "set F' = free_heads s 0 A \<union> free_heads s (seg_total A) Y \<union> free_heads s (seg_total A + seg_total X) B"
    and SL': "\<And>k. k < pagesize_shift z - min_shift s \<Longrightarrow> list_inv s' (chunk_type z (min_shift s + k)) (mps_slab_slots k) (SL' k)"
      "\<And>k. k < pagesize_shift z - min_shift s \<Longrightarrow>
         set (SL' k) = slot_pages z s k 0 A \<union> slot_pages z s k (seg_total A) Y \<union> slot_pages z s k (seg_total A + seg_total X) B"
    and pf: "pfree s' = of_nat (free_pages (A @ Y @ B))"
  shows "slab_inv z s' (A @ Y @ B) F' SL'"
proof -
  note e = geom_sel [OF g]
  let ?N = "seg_total (A @ X @ B)"
  have N: "seg_total (A @ Y @ B) = ?N" using t by simp
  have fh: "free_heads s' = free_heads s" "slot_pages z s' = slot_pages z s"
    by (simp_all add: free_heads_def slot_pages_def e fun_eq_iff)
  have old: "seg_ok z s' ?N i h"
    if l: "(i, h) \<in> layout 0 (A @ X @ B)" and out: "i + seg_len h \<le> seg_total A \<or> seg_total A + seg_total X \<le> i" for i h
  proof -
    have ok: "seg_ok z s ?N i h" using inv l by (auto simp: slab_inv_def)
    have lt: "i + seg_len h \<le> ?N" using layout_bounds [OF l] by simp
    have j: "j < seg_total A \<or> seg_total A + seg_total X \<le> j" if "i \<le> j" "j < i + seg_len h" for j using out that by linarith
    have "seg_ok z s' ?N i h = seg_ok z s ?N i h"
    proof (rule seg_ok_frame [OF g])
      fix j assume ij: "i \<le> j" "j < i + seg_len h"
      show "pg_slab s' (pg s j) = pg_slab s (pg s j)" using j [OF ij] by (rule sl)
      assume "\<not> (linked z h \<and> j = i)"
      from unlinked_page [OF inv l ij this]
      show "pg_next s' (pg s j) = pg_next s (pg s j) \<and> pg_prev s' (pg s j) = pg_prev s (pg s j)"
        using j [OF ij] ij lt by (intro np) auto
    next
      fix c assume "c < pagesize z"
      moreover have "i < seg_total A \<or> seg_total A + seg_total X \<le> i" using out seg_ok_len [OF ok] by linarith
      ultimately show "bitmap s' (page_addr z s i + 8 * (c div 64)) = bitmap s (page_addr z s i + 8 * (c div 64))"
        by (intro bm)
    qed
    with ok show ?thesis by simp
  qed
  have "seg_ok z s' ?N i h" if l: "(i, h) \<in> layout 0 (A @ Y @ B)" for i h
  proof -
    from l t consider "(i, h) \<in> layout 0 A" | "(i, h) \<in> layout (seg_total A) Y" | "(i, h) \<in> layout (seg_total A + seg_total X) B" by auto
    then show ?thesis
    proof cases
      case 1
      then show ?thesis using old [of i h] layout_bounds [OF 1] by auto
    next
      case 2
      then show ?thesis by (rule new)
    next
      case 3
      then show ?thesis using old [of i h] layout_bounds [OF 3] by auto
    qed
  qed
  moreover have "geo_ok z s' ?N" using inv by (simp add: slab_inv_def geo_ok_def e)
  ultimately show ?thesis
    using F' SL' pf t unfolding slab_inv_def N fh by (auto simp: e)
qed

end
