(* ===== verification/SlabPages.thy ===== *)
theory SlabPages
  imports SlabInv
begin

text \<open>
  The page level of the allocator: \<^verbatim>\<open>mps_slab_alloc_pages\<close> takes a run off the free list,
  \<^verbatim>\<open>mps_slab_free_pages\<close> gives one back and joins it with its free neighbours. Both keep \<open>slab_inv\<close>.
\<close>

subsection \<open>Counters in words\<close>

lemma unat_of_nat_u64: "n < 2 ^ 64 \<Longrightarrow> unat (of_nat n :: u64) = n"
  by (simp add: unat_of_nat)

lemma of_nat_sub_u64: "n \<le> m \<Longrightarrow> (of_nat m - of_nat n :: u64) = of_nat (m - n)"
  by (simp add: of_nat_diff)

subsection \<open>Finding a run\<close>

lemma slab_inv_total:
  assumes "slab_inv z s G F SL"
  shows "seg_total G < 2 ^ 63"
proof -
  have "seg_total G * pagesize z < 2 ^ 63" "0 < pagesize z"
    using assms sizes_okD(1) by (auto simp: slab_inv_def geo_ok_def)
  then show ?thesis by (metis One_nat_def Suc_leI le_less_trans mult.right_neutral mult_le_mono2)
qed

lemma free_head_slab:
  assumes inv: "slab_inv z s G F SL" and x: "x \<in> set F"
  shows "\<exists>A n B. G = A @ Free n # B \<and> x = pg s (seg_total A) \<and> unat (pg_slab s x) = n \<and> 0 < n"
proof -
  from inv x obtain i n where l: "(i, Free n) \<in> layout 0 G" "x = pg s i"
    by (auto simp: slab_inv_def free_heads_def)
  from layout_split [OF l(1)] obtain A B where G: "G = A @ Free n # B" "i = seg_total A" by auto
  have "seg_ok z s (seg_total G) i (Free n)" using inv l(1) by (auto simp: slab_inv_def)
  then have n: "0 < n" "pg_slab s x = of_nat n" using l(2) by auto
  have "n \<le> seg_total G" using G by simp
  then show ?thesis using G l(2) n slab_inv_total [OF inv] by (auto simp: unat_of_nat_u64)
qed

lemma find_run_ok:
  assumes "pchain (pg_next s) pv 0 a xs pool_free" "pool_free \<notin> set xs"
  shows "slab_find_run s n (pg_next s a) = Some (List.find (\<lambda>x. n \<le> unat (pg_slab s x)) xs)"
  using assms
proof (induction xs arbitrary: a)
  case Nil
  then show ?case by (simp add: slab_find_run.simps)
next
  case (Cons x xs)
  then have "slab_find_run s n (pg_next s x) = Some (List.find (\<lambda>x. n \<le> unat (pg_slab s x)) xs)" by simp
  with Cons.prems show ?case by (subst slab_find_run.simps) (auto simp: mps_slab_page_next_def)
qed

subsection \<open>Taking a run\<close>

lemma interior: "page_at (page_at b i) ` {..<n} = page_at b ` {i..<i + n}"
proof -
  have "{i..<i + n} = (\<lambda>j. i + j) ` {..<n}"
    by (auto simp: image_iff lessThan_def) (metis le_add_diff_inverse nat_add_left_cancel_less)
  then show ?thesis by (simp add: image_image)
qed

lemma take_run_split:
  assumes x: "x = page_at b i" and m: "unat (pg_slab s x) = m" and n: "0 < n" "n < m"
    and p: "pg_prev s x = p" "p \<noteq> x" and y: "pg_next s x = y" "y \<noteq> x"
  defines "r \<equiv> page_at b (i + n)" and "I \<equiv> page_at b ` {i + 1..<i + n}"
  shows "pg_slab (slab_take_run x n s) a = (if a = x then of_nat n OR MPS_SLAB_PAGE_START
      else if a \<in> I then MPS_SLAB_PAGE_BUSY else if a = r then pg_slab s x - of_nat n else pg_slab s a)"
    "pg_next (slab_take_run x n s) a = (if a = x \<or> a \<in> I then 0 else ((pg_next s)(r := y, p := r)) a)"
    "pg_prev (slab_take_run x n s) a = (if a = x \<or> a \<in> I then 0
      else ((pg_prev s)(page_at b (i + m - 1) := r, r := p, y := r)) a)"
    "bitmap (slab_take_run x n s) = bitmap s" "pfree (slab_take_run x n s) = pfree s - of_nat n"
proof -
  have rest: "page_at x n = r" "page_at x (m - 1) = page_at b (i + m - 1)" using n by (simp_all add: x r_def)
  have ne: "r \<noteq> x" "page_at b (i + m - 1) \<noteq> x" using n by (auto simp: x r_def)
  have int: "page_at (x + page_size) ` {..<n - Suc 0} = I"
    using interior [of b "Suc i" "n - 1"] n by (simp add: x page_at_Suc I_def)
  have xI: "x \<notin> I" by (auto simp: I_def x)
  note defs = slab_take_run_def Let_def m mps_slab_page_next_def rest n
  show "pg_slab (slab_take_run x n s) a = (if a = x then of_nat n OR MPS_SLAB_PAGE_START
      else if a \<in> I then MPS_SLAB_PAGE_BUSY else if a = r then pg_slab s x - of_nat n else pg_slab s a)"
    unfolding defs using n ne xI by (simp add: mark_busy_sel int)
  show "pg_next (slab_take_run x n s) a = (if a = x \<or> a \<in> I then 0 else ((pg_next s)(r := y, p := r)) a)"
    unfolding defs using n ne xI p y by (auto simp: mark_busy_sel int mps_nulloff_def)
  show "pg_prev (slab_take_run x n s) a = (if a = x \<or> a \<in> I then 0
      else ((pg_prev s)(page_at b (i + m - 1) := r, r := p, y := r)) a)"
    unfolding defs using n ne xI p y by (auto simp: mark_busy_sel int MPS_SLAB_PAGE_def)
  show "bitmap (slab_take_run x n s) = bitmap s" "pfree (slab_take_run x n s) = pfree s - of_nat n"
    unfolding defs using n by (simp_all add: mark_busy_sel)
qed

lemma take_run_whole:
  assumes x: "x = page_at b i" and m: "unat (pg_slab s x) = n" and n: "0 < n"
    and p: "pg_prev s x = p" "p \<noteq> x" and y: "pg_next s x = y" "y \<noteq> x"
  defines "I \<equiv> page_at b ` {i + 1..<i + n}"
  shows "pg_slab (slab_take_run x n s) a = (if a = x then of_nat n OR MPS_SLAB_PAGE_START
      else if a \<in> I then MPS_SLAB_PAGE_BUSY else pg_slab s a)"
    "pg_next (slab_take_run x n s) a = (if a = x \<or> a \<in> I then 0 else ((pg_next s)(p := y)) a)"
    "pg_prev (slab_take_run x n s) a = (if a = x \<or> a \<in> I then 0 else ((pg_prev s)(y := p)) a)"
    "bitmap (slab_take_run x n s) = bitmap s" "pfree (slab_take_run x n s) = pfree s - of_nat n"
proof -
  have int: "page_at (x + page_size) ` {..<n - Suc 0} = I"
    using interior [of b "Suc i" "n - 1"] n by (simp add: x page_at_Suc I_def)
  have xI: "x \<notin> I" by (auto simp: I_def x)
  note defs = slab_take_run_def Let_def m mps_slab_page_next_def
  show "pg_slab (slab_take_run x n s) a = (if a = x then of_nat n OR MPS_SLAB_PAGE_START
      else if a \<in> I then MPS_SLAB_PAGE_BUSY else pg_slab s a)"
    unfolding defs using xI by (simp add: mark_busy_sel int)
  show "pg_next (slab_take_run x n s) a = (if a = x \<or> a \<in> I then 0 else ((pg_next s)(p := y)) a)"
    unfolding defs using xI p y by (auto simp: mark_busy_sel int mps_nulloff_def)
  show "pg_prev (slab_take_run x n s) a = (if a = x \<or> a \<in> I then 0 else ((pg_prev s)(y := p)) a)"
    unfolding defs using xI p y by (auto simp: mark_busy_sel int MPS_SLAB_PAGE_def)
  show "bitmap (slab_take_run x n s) = bitmap s" "pfree (slab_take_run x n s) = pfree s - of_nat n"
    unfolding defs by (simp_all add: mark_busy_sel)
qed

text \<open>A list head is in no list.\<close>

lemma heads_unlisted:
  assumes inv: "slab_inv z s G F SL"
  shows "pool_free \<notin> set F" "l < pagesize_shift z - min_shift s \<Longrightarrow> mps_slab_slots l \<notin> set F"
    "k < pagesize_shift z - min_shift s \<Longrightarrow> pool_free \<notin> set (SL k)"
    "k < pagesize_shift z - min_shift s \<Longrightarrow> l < pagesize_shift z - min_shift s \<Longrightarrow> mps_slab_slots l \<notin> set (SL k)"
proof -
  have geo: "geo_ok z s (seg_total G)" and F: "\<And>x. x \<in> set F \<Longrightarrow> \<exists>j. x = pg s j"
    and SL: "\<And>x k. k < pagesize_shift z - min_shift s \<Longrightarrow> x \<in> set (SL k) \<Longrightarrow> \<exists>j. x = pg s j"
    using inv by (auto simp: slab_inv_def free_heads_def slot_pages_def)
  show "pool_free \<notin> set F" using F heads_distinct(1) [OF geo] by metis
  show "l < pagesize_shift z - min_shift s \<Longrightarrow> mps_slab_slots l \<notin> set F" using F heads_distinct(2) [OF geo] by metis
  show "k < pagesize_shift z - min_shift s \<Longrightarrow> pool_free \<notin> set (SL k)" using SL heads_distinct(1) [OF geo] by metis
  show "k < pagesize_shift z - min_shift s \<Longrightarrow> l < pagesize_shift z - min_shift s \<Longrightarrow> mps_slab_slots l \<notin> set (SL k)"
    using SL heads_distinct(2) [OF geo] by metis
qed

text \<open>Changes to free runs leave the lists of the slots alone.\<close>

lemma slots_frame:
  assumes inv: "slab_inv z s (A @ X @ B) F SL"
    and chg: "\<And>a. a \<notin> set F \<Longrightarrow> a \<noteq> pool_free \<Longrightarrow> a \<notin> pg s ` {seg_total A..<seg_total A + seg_total X} \<Longrightarrow>
        pg_next s' a = pg_next s a \<and> pg_prev s' a = pg_prev s a"
    and X: "\<And>sh U. Chunks sh U \<in> set X \<Longrightarrow> full z sh U"
    and k: "k < pagesize_shift z - min_shift s"
  shows "list_inv s' (chunk_type z (min_shift s + k)) (mps_slab_slots k) (SL k)"
proof -
  have geo: "geo_ok z s (seg_total (A @ X @ B))" using inv by (simp add: slab_inv_def)
  have old: "list_inv s (chunk_type z (min_shift s + k)) (mps_slab_slots k) (SL k)"
    and SL: "set (SL k) = slot_pages z s k 0 (A @ X @ B)" using inv k by (simp_all add: slab_inv_def)
  have "slot_pages z s k (seg_total A) X = {}"
    using X layout_split by (fastforce simp: slot_pages_def)
  then have out: "a \<in> set (SL k) \<Longrightarrow> a \<notin> pg s ` {seg_total A..<seg_total A + seg_total X}" for a
    using SL slot_pages_range [of a z s k 0 A] slot_pages_range [of a z s k "seg_total A + seg_total X" B] by auto
  have slot: "mps_slab_slots k \<notin> pg s ` {seg_total A..<seg_total A + seg_total X}" "mps_slab_slots k \<noteq> pool_free"
    using heads_distinct(2,3) [OF geo] k by (metis imageE)+
  have "pg_next s' a = pg_next s a \<and> pg_prev s' a = pg_prev s a" if "a \<in> set (SL k)" for a
    by (rule chg) (use that out [OF that] lists_disjoint(1) [OF inv k] heads_unlisted(3) [OF inv k] in blast)+
  moreover have "pg_next s' (mps_slab_slots k) = pg_next s (mps_slab_slots k) \<and> pg_prev s' (mps_slab_slots k) = pg_prev s (mps_slab_slots k)"
    by (rule chg) (use slot heads_unlisted(2) [OF inv k] in blast)+
  ultimately have "a \<in> set (mps_slab_slots k # SL k) \<Longrightarrow> pg_next s' a = pg_next s a \<and> pg_prev s' a = pg_prev s a" for a
    by auto
  then have "list_inv s' (chunk_type z (min_shift s + k)) (mps_slab_slots k) (SL k)
      = list_inv s (chunk_type z (min_shift s + k)) (mps_slab_slots k) (SL k)"
    by (intro list_inv_frame) auto
  with old show ?thesis by simp
qed

lemma slots_sets:
  assumes inv: "slab_inv z s (A @ X @ B) F SL" and k: "k < pagesize_shift z - min_shift s"
    and X: "\<And>sh U. Chunks sh U \<in> set X \<Longrightarrow> full z sh U" and Y: "\<And>sh U. Chunks sh U \<in> set Y \<Longrightarrow> full z sh U"
  shows "set (SL k) = slot_pages z s k 0 A \<union> slot_pages z s k (seg_total A) Y \<union> slot_pages z s k (seg_total A + seg_total X) B"
proof -
  have "slot_pages z s k (seg_total A) X = {}" "slot_pages z s k (seg_total A) Y = {}"
    using X Y layout_split by (fastforce simp: slot_pages_def)+
  then show ?thesis using inv k by (simp add: slab_inv_def Un_assoc)
qed

text \<open>Steps that change the free list and the pages of the segments \<open>X\<close> only.\<close>

lemma slab_inv_free_update:
  assumes inv: "slab_inv z s (A @ X @ B) F SL" and t: "seg_total Y = seg_total X" and g: "geom s' = geom s"
    and X: "\<And>sh U. Chunks sh U \<in> set X \<Longrightarrow> full z sh U" and Y: "\<And>sh U. Chunks sh U \<in> set Y \<Longrightarrow> full z sh U"
    and chg: "\<And>a. a \<notin> set F \<Longrightarrow> a \<noteq> pool_free \<Longrightarrow> a \<notin> pg s ` {seg_total A..<seg_total A + seg_total X} \<Longrightarrow>
        pg_next s' a = pg_next s a \<and> pg_prev s' a = pg_prev s a"
    and sl: "\<And>a. a \<notin> pg s ` {seg_total A..<seg_total A + seg_total X} \<Longrightarrow> pg_slab s' a = pg_slab s a"
    and bm: "bitmap s' = bitmap s"
    and new: "\<And>i g. (i, g) \<in> layout (seg_total A) Y \<Longrightarrow> seg_ok z s' (seg_total (A @ X @ B)) i g"
    and F': "list_inv s' 0 pool_free F'"
      "set F' = free_heads s 0 A \<union> free_heads s (seg_total A) Y \<union> free_heads s (seg_total A + seg_total X) B"
    and pf: "pfree s' = of_nat (free_pages (A @ Y @ B))"
  shows "slab_inv z s' (A @ Y @ B) F' SL"
proof (rule slab_inv_update [OF inv t g])
  have geo: "geo_ok z s (seg_total (A @ X @ B))" using inv by (simp add: slab_inv_def)
  have away: "pg s j \<notin> pg s ` {seg_total A..<seg_total A + seg_total X}"
    if "j < seg_total A \<or> seg_total A + seg_total X \<le> j" for j using that by auto
  show "pg_slab s' (pg s j) = pg_slab s (pg s j)" if "j < seg_total A \<or> seg_total A + seg_total X \<le> j" for j
    using sl away [OF that] by simp
  show "pg_next s' (pg s j) = pg_next s (pg s j) \<and> pg_prev s' (pg s j) = pg_prev s (pg s j)"
    if "j < seg_total A \<or> seg_total A + seg_total X \<le> j \<and> j < seg_total (A @ X @ B)" "pg s j \<notin> set F" for j
    using that away heads_distinct(1) [OF geo] by (intro chg) auto
  show "list_inv s' (chunk_type z (min_shift s + k)) (mps_slab_slots k) (SL k)" if "k < pagesize_shift z - min_shift s" for k
    by (rule slots_frame [OF inv chg X that])
  show "set (SL k) = slot_pages z s k 0 A \<union> slot_pages z s k (seg_total A) Y \<union> slot_pages z s k (seg_total A + seg_total X) B"
    if "k < pagesize_shift z - min_shift s" for k
    by (rule slots_sets [OF inv that X Y])
qed (use new F' pf in \<open>auto simp: bm\<close>)

text \<open>The place of a free run in the free list.\<close>

lemma free_list_split:
  assumes inv: "slab_inv z s (A @ Free m # B) F SL"
  defines "x \<equiv> pg s (seg_total A)"
  obtains F1 F2 where "F = F1 @ x # F2" "distinct (F1 @ x # F2)"
    "pchain (pg_next s) (pg_prev s) 0 pool_free (F1 @ x # F2) pool_free"
    "pg_prev s x = last (pool_free # F1)" "pg_next s x = hd (F2 @ [pool_free])"
    "pool_free \<notin> set (F1 @ x # F2)" "x \<notin> set (F1 @ F2)"
    "set (F1 @ F2) = free_heads s 0 A \<union> free_heads s (seg_total A + m) B"
proof -
  have geo: "geo_ok z s (seg_total (A @ Free m # B))"
    and l: "list_inv s 0 pool_free F" and F: "set F = free_heads s 0 (A @ Free m # B)"
    using inv by (simp_all add: slab_inv_def)
  then have "x \<in> set F" by (simp add: x_def)
  then obtain F1 F2 where s: "F = F1 @ x # F2" by (meson split_list)
  note pf = heads_unlisted(1) [OF inv]
  have ch: "pchain (pg_next s) (pg_prev s) 0 pool_free (F1 @ x # F2) pool_free" and d: "distinct (F1 @ x # F2)"
    using l s by (simp_all add: list_inv_def)
  have lens: "\<forall>(j, g) \<in> layout 0 (A @ Free m # B). 0 < seg_len g" by (rule slab_inv_lens [OF inv])
  then have m: "0 < m" by simp
  have "x \<notin> free_heads s 0 A"
    using free_heads_range [of x s 0 A] lens by (auto simp: x_def)
  moreover have "x \<notin> free_heads s (seg_total A + m) B"
    using free_heads_range [of x s "seg_total A + m" B] lens m by (auto simp: x_def)
  moreover have "insert x (set (F1 @ F2)) = insert x (free_heads s 0 A \<union> free_heads s (seg_total A + m) B)"
    using F s by (simp add: x_def Un_left_commute)
  ultimately have "set (F1 @ F2) = free_heads s 0 A \<union> free_heads s (seg_total A + m) B"
    using d by (subst (asm) insert_ident) auto
  moreover have "pg_next s x = hd (F2 @ [pool_free])" using ch by (auto dest: pchain_hd)
  ultimately show thesis using s d ch pf by (intro that [of F1 F2]) auto
qed

text \<open>The front of a free run becomes an allocated run.\<close>

lemma take_run_inv_split:
  assumes inv: "slab_inv z s (A @ Free m # B) F SL" and n: "0 < n" "n < m"
  defines "s' \<equiv> slab_take_run (pg s (seg_total A)) n s"
  shows "\<exists>F'. slab_inv z s' (A @ [Run n, Free (m - n)] @ B) F' SL"
proof -
  define x r where "x = pg s (seg_total A)" and "r = pg s (seg_total A + n)"
  let ?i = "seg_total A" and ?N = "seg_total (A @ Free m # B)"
  from free_list_split [OF inv] obtain F1 F2 where F: "F = F1 @ x # F2" "distinct (F1 @ x # F2)"
    "pchain (pg_next s) (pg_prev s) 0 pool_free (F1 @ x # F2) pool_free"
    "pg_prev s x = last (pool_free # F1)" "pg_next s x = hd (F2 @ [pool_free])"
    "pool_free \<notin> set (F1 @ x # F2)" "x \<notin> set (F1 @ F2)"
    "set (F1 @ F2) = free_heads s 0 A \<union> free_heads s (?i + m) B" unfolding x_def .
  have ok: "seg_ok z s ?N ?i (Free m)" and geo: "geo_ok z s ?N" using inv by (simp_all add: slab_inv_def)
  have mm: "unat (pg_slab s x) = m" "pg_slab s x = of_nat m"
    using ok slab_inv_total [OF inv] by (simp_all add: x_def unat_of_nat_u64)
  have p: "last (pool_free # F1) \<in> insert pool_free (set F)" "last (pool_free # F1) \<noteq> x"
    and y: "hd (F2 @ [pool_free]) \<in> insert pool_free (set F)" "hd (F2 @ [pool_free]) \<noteq> x"
    using F(1,2,6) by (cases F1 rule: rev_cases; cases F2; auto)+
  have unl: "pg s j \<notin> insert pool_free (set F)" if "?i < j" "j < ?i + m" for j
    using unlinked_page(1) [OF inv, of ?i "Free m" j] that heads_distinct(1) [OF geo] by simp
  note t = take_run_split [OF x_def mm(1) n F(4) p(2) F(5) y(2), folded r_def s'_def]
  have t: "pg_slab s' a = (if a = x then of_nat n OR MPS_SLAB_PAGE_START
      else if a \<in> pg s ` {?i + 1..<?i + n} then MPS_SLAB_PAGE_BUSY else if a = r then pg_slab s x - of_nat n else pg_slab s a)"
    "pg_next s' a = (if a = x \<or> a \<in> pg s ` {?i + 1..<?i + n} then 0
       else ((pg_next s)(r := hd (F2 @ [pool_free]), last (pool_free # F1) := r)) a)"
    "pg_prev s' a = (if a = x \<or> a \<in> pg s ` {?i + 1..<?i + n} then 0
       else ((pg_prev s)(pg s (?i + m - 1) := r, r := last (pool_free # F1), hd (F2 @ [pool_free]) := r)) a)"
    "bitmap s' = bitmap s" "pfree s' = pfree s - of_nat n" for a
    using t unfolding s'_def x_def r_def by blast+
  have g: "geom s' = geom s" by (simp add: s'_def)
  note e = geom_sel [OF g]
  let ?p = "last (pool_free # F1)" and ?y = "hd (F2 @ [pool_free])"
  have inv': "slab_inv z s (A @ [Free m] @ B) F SL" using inv by simp
  have rn: "r \<notin> insert pool_free (set F)" "r \<noteq> x" using unl [of "?i + n"] n by (auto simp: r_def x_def)
  have ln: "pg s (?i + m - 1) \<notin> insert pool_free (set F)"
    using unl [of "?i + m - 1"] n by (auto simp: Suc_diff_Suc)
  have I: "a \<notin> pg s ` {?i + 1..<?i + n}" if "a \<in> insert pool_free (set F) \<or> a = r \<or> a = pg s (?i + m - 1)" for a
    using that unl n by (auto simp: r_def)
  have ch: "pchain ((pg_next s)(r := ?y, ?p := r)) ((pg_prev s)(r := ?p, ?y := r)) 0 pool_free (F1 @ r # F2) pool_free"
    using pchain_replace [of "pg_next s" "pg_prev s" 0 pool_free F1 x F2 pool_free r] F rn by auto
  have F': "list_inv s' 0 pool_free (F1 @ r # F2)"
    unfolding list_inv_def
  proof
    show "distinct (F1 @ r # F2)" using F(1,2) rn by auto
    show "pchain (pg_next s') (pg_prev s') 0 pool_free (F1 @ r # F2) pool_free"
    proof (subst pchain_frame)
      fix a assume "a \<in> set (pool_free # F1 @ r # F2)"
      moreover from this have "a \<noteq> x" using F(6,7) rn by auto
      ultimately show "pg_next s' a = ((pg_next s)(r := ?y, ?p := r)) a" using t(2) I F(1) by auto
    next
      fix a assume a: "a \<in> set (F1 @ r # F2)"
      then have "a \<noteq> x" "a = pg s (?i + m - 1) \<longrightarrow> a = r" using F(1,6,7) rn ln by auto
      with a show "pg_prev s' a = ((pg_prev s)(r := ?p, ?y := r)) a" using t(3) I F(1) by auto
    qed (rule ch)
  qed
  have run: "seg_ok z s' ?N ?i (Run n)"
    using n by (auto simp: e t(1-3) x_def)
  have free: "seg_ok z s' ?N (?i + n) (Free (m - n))"
  proof -
    have "pg_slab s' (pg s (?i + n)) = of_nat (m - n)"
      using n rn mm by (auto simp: t(1) r_def of_nat_diff)
    moreover have "pg_slab s' (pg s j) = 0 \<and> pg_next s' (pg s j) = 0 \<and> pg_prev s' (pg s j) mod 4 = 0"
      if j: "?i + n < j" "j < ?i + m" for j
    proof -
      have "pg s j \<notin> insert pool_free (set F)" using unl j n by auto
      then have "pg s j \<noteq> ?p" "pg s j \<noteq> ?y" "pg s j \<noteq> x" "pg s j \<noteq> r" "pg s j \<notin> pg s ` {?i + 1..<?i + n}"
        using p y j by (auto simp: x_def r_def)
      moreover have "r mod 4 = 0" using heads_distinct(7) [OF geo] by (simp add: r_def)
      ultimately show ?thesis using ok j n by (simp add: t)
    qed
    moreover have "pg_prev s' (pg s (?i + m - 1)) = r" if "1 < m - n"
    proof -
      have "pg s (?i + m - 1) \<noteq> r" "pg s (?i + m - 1) \<noteq> ?y" "pg s (?i + m - 1) \<noteq> x"
        using that ln y(1) by (auto simp: r_def x_def)
      then show ?thesis using I by (simp add: t(3))
    qed
    ultimately show ?thesis using n by (simp add: e r_def)
  qed
  have "slab_inv z s' (A @ [Run n, Free (m - n)] @ B) (F1 @ r # F2) SL"
  proof (rule slab_inv_free_update [OF inv' _ g _ _ _ _ t(4) _ F'])
    show "set (F1 @ r # F2) = free_heads s 0 A \<union> free_heads s ?i [Run n, Free (m - n)] \<union> free_heads s (?i + seg_total [Free m]) B"
      using F(8) by (auto simp: r_def)
    fix a assume "a \<notin> pg s ` {?i..<?i + seg_total [Free m]}"
    then have out: "a \<noteq> x" "a \<noteq> r" "a \<notin> pg s ` {?i + 1..<?i + n}" "a \<noteq> pg s (?i + m - 1)"
      using n by (auto simp: x_def r_def)
    then show "pg_slab s' a = pg_slab s a" by (simp add: t(1))
    assume "a \<notin> set F" "a \<noteq> pool_free"
    then have "a \<noteq> ?p" "a \<noteq> ?y" using p(1) y(1) by auto
    with out show "pg_next s' a = pg_next s a \<and> pg_prev s' a = pg_prev s a" by (simp add: t(2,3))
  next
    show "pfree s' = of_nat (free_pages (A @ [Run n, Free (m - n)] @ B))"
      using inv n by (simp add: t(5) slab_inv_def of_nat_diff)
  qed (use n run free in auto)
  then show ?thesis by blast
qed

lemma take_run_inv_whole:
  assumes inv: "slab_inv z s (A @ Free n # B) F SL" and n: "0 < n"
  defines "s' \<equiv> slab_take_run (pg s (seg_total A)) n s"
  shows "\<exists>F'. slab_inv z s' (A @ [Run n] @ B) F' SL"
proof -
  define x where "x = pg s (seg_total A)"
  let ?i = "seg_total A" and ?N = "seg_total (A @ Free n # B)"
  from free_list_split [OF inv] obtain F1 F2 where F: "F = F1 @ x # F2" "distinct (F1 @ x # F2)"
    "pchain (pg_next s) (pg_prev s) 0 pool_free (F1 @ x # F2) pool_free"
    "pg_prev s x = last (pool_free # F1)" "pg_next s x = hd (F2 @ [pool_free])"
    "pool_free \<notin> set (F1 @ x # F2)" "x \<notin> set (F1 @ F2)"
    "set (F1 @ F2) = free_heads s 0 A \<union> free_heads s (?i + n) B" unfolding x_def .
  have ok: "seg_ok z s ?N ?i (Free n)" and geo: "geo_ok z s ?N" using inv by (simp_all add: slab_inv_def)
  have nn: "unat (pg_slab s x) = n"
    using ok slab_inv_total [OF inv] by (simp add: x_def unat_of_nat_u64)
  have p: "last (pool_free # F1) \<in> insert pool_free (set F)" "last (pool_free # F1) \<noteq> x"
    and y: "hd (F2 @ [pool_free]) \<in> insert pool_free (set F)" "hd (F2 @ [pool_free]) \<noteq> x"
    using F(1,2,6) by (cases F1 rule: rev_cases; cases F2; auto)+
  have unl: "pg s j \<notin> insert pool_free (set F)" if "?i < j" "j < ?i + n" for j
    using unlinked_page(1) [OF inv, of ?i "Free n" j] that heads_distinct(1) [OF geo] by simp
  note t = take_run_whole [OF x_def nn n F(4) p(2) F(5) y(2)]
  have t: "pg_slab s' a = (if a = x then of_nat n OR MPS_SLAB_PAGE_START
      else if a \<in> pg s ` {?i + 1..<?i + n} then MPS_SLAB_PAGE_BUSY else pg_slab s a)"
    "pg_next s' a = (if a = x \<or> a \<in> pg s ` {?i + 1..<?i + n} then 0
       else ((pg_next s)(last (pool_free # F1) := hd (F2 @ [pool_free]))) a)"
    "pg_prev s' a = (if a = x \<or> a \<in> pg s ` {?i + 1..<?i + n} then 0
       else ((pg_prev s)(hd (F2 @ [pool_free]) := last (pool_free # F1))) a)"
    "bitmap s' = bitmap s" "pfree s' = pfree s - of_nat n" for a
    using t unfolding s'_def x_def by blast+
  have g: "geom s' = geom s" by (simp add: s'_def)
  note e = geom_sel [OF g]
  let ?p = "last (pool_free # F1)" and ?y = "hd (F2 @ [pool_free])"
  have inv': "slab_inv z s (A @ [Free n] @ B) F SL" using inv by simp
  have I: "a \<notin> pg s ` {?i + 1..<?i + n}" if "a \<in> insert pool_free (set F)" for a
    using that unl by auto
  have ch: "pchain ((pg_next s)(?p := ?y)) ((pg_prev s)(?y := ?p)) 0 pool_free (F1 @ F2) pool_free"
    using pchain_unlink [of "pg_next s" "pg_prev s" 0 pool_free F1 x F2 pool_free] F by auto
  have F': "list_inv s' 0 pool_free (F1 @ F2)"
    unfolding list_inv_def
  proof
    show "distinct (F1 @ F2)" using F(2) by auto
    show "pchain (pg_next s') (pg_prev s') 0 pool_free (F1 @ F2) pool_free"
    proof (subst pchain_frame)
      fix a assume "a \<in> set (pool_free # F1 @ F2)"
      moreover from this have "a \<noteq> x" using F(6,7) by auto
      ultimately show "pg_next s' a = ((pg_next s)(?p := ?y)) a" using t(2) I F(1) by auto
    next
      fix a assume "a \<in> set (F1 @ F2)"
      moreover from this have "a \<noteq> x" using F(6,7) by auto
      ultimately show "pg_prev s' a = ((pg_prev s)(?y := ?p)) a" using t(3) I F(1) by auto
    qed (rule ch)
  qed
  have run: "seg_ok z s' ?N ?i (Run n)" using n by (auto simp: e t(1-3) x_def)
  have "slab_inv z s' (A @ [Run n] @ B) (F1 @ F2) SL"
  proof (rule slab_inv_free_update [OF inv' _ g _ _ _ _ t(4) _ F'])
    show "set (F1 @ F2) = free_heads s 0 A \<union> free_heads s ?i [Run n] \<union> free_heads s (?i + seg_total [Free n]) B"
      using F(8) by simp
    fix a assume "a \<notin> pg s ` {?i..<?i + seg_total [Free n]}"
    then have out: "a \<noteq> x" "a \<notin> pg s ` {?i + 1..<?i + n}" using n by (auto simp: x_def)
    then show "pg_slab s' a = pg_slab s a" by (simp add: t(1))
    assume "a \<notin> set F" "a \<noteq> pool_free"
    then have "a \<noteq> ?p" "a \<noteq> ?y" using p(1) y(1) by auto
    with out show "pg_next s' a = pg_next s a \<and> pg_prev s' a = pg_prev s a" by (simp add: t(2,3))
  next
    show "pfree s' = of_nat (free_pages (A @ [Run n] @ B))" using inv by (simp add: t(5) slab_inv_def)
  qed (use run in auto)
  then show ?thesis by blast
qed

text \<open>\<^verbatim>\<open>mps_slab_alloc_pages\<close> always returns: a run of the size asked for, or NULL when no free run is long enough.\<close>

definition split_run :: "nat \<Rightarrow> nat \<Rightarrow> seg list" where
  "split_run n m = Run n # (if n < m then [Free (m - n)] else [])"

theorem alloc_pages_ok:
  assumes inv: "slab_inv z s G F SL" and n: "0 < n"
  obtains (fail) "mps_slab_alloc_pages s n = Some (0, s)" "\<And>m. Free m \<in> set G \<Longrightarrow> m < n"
  | (run) A m B s' F' where "G = A @ Free m # B" "n \<le> m"
      "mps_slab_alloc_pages s n = Some (pg s (seg_total A), s')" "geom s' = geom s"
      "slab_inv z s' (A @ split_run n m @ B) F' SL"
proof -
  have l: "pchain (pg_next s) (pg_prev s) 0 pool_free F pool_free" using inv by (simp add: slab_inv_def list_inv_def)
  have f: "slab_find_run s n (mps_slab_page_next s pool_free) = Some (List.find (\<lambda>x. n \<le> unat (pg_slab s x)) F)"
    unfolding mps_slab_page_next_def by (rule find_run_ok [OF l heads_unlisted(1) [OF inv]])
  show thesis
  proof (cases "List.find (\<lambda>x. n \<le> unat (pg_slab s x)) F")
    case None
    have "m < n" if m: "Free m \<in> set G" for m
    proof -
      from m obtain A B where G: "G = A @ Free m # B" by (auto dest: split_list)
      then have "pg s (seg_total A) \<in> set F" "unat (pg_slab s (pg s (seg_total A))) = m"
        using inv slab_inv_total [OF inv] by (auto simp: slab_inv_def unat_of_nat_u64)
      with None show ?thesis by (auto simp: find_None_iff)
    qed
    then show thesis using None f by (intro fail) (simp_all add: mps_slab_alloc_pages_def mps_nulloff_def)
  next
    case (Some x)
    then have x: "x \<in> set F" "n \<le> unat (pg_slab s x)" by (auto simp: find_Some_iff in_set_conv_nth)
    from free_head_slab [OF inv x(1)] x(2) obtain A m B where
      G: "G = A @ Free m # B" "x = pg s (seg_total A)" "n \<le> m" by auto
    define s' where "s' = slab_take_run (pg s (seg_total A)) n s"
    have "\<exists>F'. slab_inv z s' (A @ split_run n m @ B) F' SL"
    proof (cases "n < m")
      case True
      with take_run_inv_split [OF inv [unfolded G(1)] n True] show ?thesis by (simp add: split_run_def s'_def)
    next
      case False
      with G(3) inv [unfolded G(1)] take_run_inv_whole [of z s A n B F SL] n show ?thesis
        by (simp add: split_run_def s'_def)
    qed
    with run [of A m B s'] G f Some show thesis by (auto simp: mps_slab_alloc_pages_def s'_def)
  qed
qed

end
