(* ===== verification/SlabJoin.thy ===== *)
theory SlabJoin
  imports SlabPages
begin

text \<open>
  Giving pages back. \<^verbatim>\<open>mps_slab_free_pages\<close> is four steps on the segments: the run becomes \<open>Loose\<close>, takes
  in a free run after it, a free run before it, and goes to the front of the free list.
\<close>

subsection \<open>What the heads of segments look like\<close>

lemma pchain_member:
  "pchain nx pv ty a xs b \<Longrightarrow> x \<in> set xs \<Longrightarrow> (\<exists>p \<in> set (a # xs). pv x = p + ty) \<and> nx x \<in> set xs \<union> {b}"
  by (induction xs arbitrary: a) (auto dest: pchain_hd simp: hd_append split: if_splits)

lemma chunk_type_less: "0 < chunk_type z sh" "chunk_type z sh < 4"
  by (simp_all add: chunk_type_def slab_consts)

lemma free_head_fields:
  assumes inv: "slab_inv z s G F SL" and g: "(i, Free m) \<in> layout 0 G"
  shows "pg_prev s (pg s i) mod 4 = 0" "pg_next s (pg s i) \<noteq> 0"
proof -
  have geo: "geo_ok z s (seg_total G)" using inv by (simp add: slab_inv_def)
  have ch: "pchain (pg_next s) (pg_prev s) 0 pool_free F pool_free" using inv by (simp add: slab_inv_def list_inv_def)
  have F: "x \<in> insert pool_free (set F) \<Longrightarrow> x mod 4 = 0 \<and> x \<noteq> 0" for x
    using inv heads_distinct(5,7) [OF geo] by (auto simp: slab_inv_def free_heads_def pool_free_def)
  have x: "pg s i \<in> set F" using inv g by (auto simp: slab_inv_def free_heads_def)
  from pchain_member [OF ch x] F show "pg_prev s (pg s i) mod 4 = 0" "pg_next s (pg s i) \<noteq> 0" by auto
qed

lemma slot_member_fields:
  assumes inv: "slab_inv z s G F SL" and k: "k < pagesize_shift z - min_shift s" and x: "x \<in> set (SL k)"
  shows "mps_slab_page_type s x = chunk_type z (min_shift s + k)" "pg_next s x \<noteq> 0"
proof -
  have geo: "geo_ok z s (seg_total G)" using inv by (simp add: slab_inv_def)
  have ch: "pchain (pg_next s) (pg_prev s) (chunk_type z (min_shift s + k)) (mps_slab_slots k) (SL k) (mps_slab_slots k)"
    using inv k by (simp add: slab_inv_def list_inv_def)
  have "y \<in> set (SL k) \<Longrightarrow> \<exists>j. y = pg s j" for y using inv k by (auto simp: slab_inv_def slot_pages_def)
  moreover have "0 < mps_slab_slots k" by (simp add: mps_slab_slots_def slab_consts)
  ultimately have m: "y \<in> insert (mps_slab_slots k) (set (SL k)) \<Longrightarrow> y mod 4 = 0 \<and> 0 < y" for y
    using heads_distinct(5-7) [OF geo] by (metis insertE)
  from pchain_member [OF ch x] obtain p where p: "p \<in> set (mps_slab_slots k # SL k)"
    "pg_prev s x = p + chunk_type z (min_shift s + k)" "pg_next s x \<in> set (SL k) \<union> {mps_slab_slots k}" by blast
  have "p mod 4 = 0" using m p(1) by auto
  then have "(p + chunk_type z (min_shift s + k)) mod 4 = chunk_type z (min_shift s + k)"
    using chunk_type_less(2) by (metis add_0 mod_add_left_eq mod_less)
  with p(2) show "mps_slab_page_type s x = chunk_type z (min_shift s + k)"
    by (simp add: mps_slab_page_type_def MPS_SLAB_PAGE_MASK_def)
  show "pg_next s x \<noteq> 0" using m p(3) by auto
qed

lemma chunk_head_type:
  assumes inv: "slab_inv z s G F SL" and g: "(i, Chunks sh U) \<in> layout 0 G"
  shows "mps_slab_page_type s (pg s i) = chunk_type z sh" "full z sh U \<longleftrightarrow> pg_next s (pg s i) = 0"
proof -
  have ok: "seg_ok z s (seg_total G) i (Chunks sh U)" using inv g by (auto simp: slab_inv_def)
  define k where "k = sh - min_shift s"
  have k: "k < pagesize_shift z - min_shift s" "min_shift s + k = sh" using ok by (auto simp: k_def)
  have "mps_slab_page_type s (pg s i) = chunk_type z sh \<and> pg_next s (pg s i) = 0" if "full z sh U"
    using ok that chunk_type_less(2) [of z sh] by (simp add: mps_slab_page_type_def MPS_SLAB_PAGE_MASK_def)
  moreover have "mps_slab_page_type s (pg s i) = chunk_type z sh \<and> pg_next s (pg s i) \<noteq> 0" if "\<not> full z sh U"
  proof -
    have "pg s i \<in> set (SL k)" using page_in_list(2) [OF inv k(1)] k(2) g that by auto
    from slot_member_fields [OF inv k(1) this] k(2) show ?thesis by simp
  qed
  ultimately show "mps_slab_page_type s (pg s i) = chunk_type z sh" "full z sh U \<longleftrightarrow> pg_next s (pg s i) = 0" by blast+
qed

subsection \<open>Unlinking\<close>

lemma unlink_fields:
  assumes "pg_prev s x = p + ty" "ty < 4" "p mod 4 = 0" "pg_next s x = y" "p \<noteq> x" "y \<noteq> x"
  shows "pg_slab (slab_unlink x s) = pg_slab s" "pg_next (slab_unlink x s) = (pg_next s)(p := y)"
    "pg_prev (slab_unlink x s) = (pg_prev s)(y := pg_prev s x)" "bitmap (slab_unlink x s) = bitmap s"
    "pfree (slab_unlink x s) = pfree s"
proof -
  have "(p + ty) mod 4 = ty" using assms by (metis add_0 mod_add_left_eq mod_less)
  then have "mps_slab_page_prev s x = p" using assms by (simp add: mps_slab_page_prev_def MPS_SLAB_PAGE_MASK_def)
  then show "pg_slab (slab_unlink x s) = pg_slab s" "pg_next (slab_unlink x s) = (pg_next s)(p := y)"
    "pg_prev (slab_unlink x s) = (pg_prev s)(y := pg_prev s x)" "bitmap (slab_unlink x s) = bitmap s"
    "pfree (slab_unlink x s) = pfree s"
    using assms by (simp_all add: slab_unlink_def Let_def mps_slab_page_next_def)
qed

text \<open>A free run is taken out of the free list, as the first step of joining it.\<close>

lemma unlink_free:
  assumes inv: "slab_inv z s (A @ Free m # B) F SL" and x: "x = pg s (seg_total A)"
  shows "\<exists>F' p y. list_inv (slab_unlink x s) 0 pool_free F' \<and> set F' = free_heads s 0 A \<union> free_heads s (seg_total A + m) B
    \<and> pg_next (slab_unlink x s) = (pg_next s)(p := y) \<and> pg_prev (slab_unlink x s) = (pg_prev s)(y := p)
    \<and> p \<in> insert pool_free (set F') \<and> y \<in> insert pool_free (set F')
    \<and> set F' \<subseteq> set F \<and> x \<notin> insert pool_free (set F')"
proof -
  from free_list_split [OF inv] obtain F1 F2 where F: "F = F1 @ x # F2" "distinct (F1 @ x # F2)"
    "pchain (pg_next s) (pg_prev s) 0 pool_free (F1 @ x # F2) pool_free"
    "pg_prev s x = last (pool_free # F1)" "pg_next s x = hd (F2 @ [pool_free])"
    "pool_free \<notin> set (F1 @ x # F2)" "x \<notin> set (F1 @ F2)"
    "set (F1 @ F2) = free_heads s 0 A \<union> free_heads s (seg_total A + m) B" unfolding x .
  let ?p = "last (pool_free # F1)" and ?y = "hd (F2 @ [pool_free])"
  have p: "?p \<in> insert pool_free (set (F1 @ F2))" "?p \<noteq> x" and y: "?y \<in> insert pool_free (set (F1 @ F2))" "?y \<noteq> x"
    using F(1,2,6) by (cases F1 rule: rev_cases; cases F2; auto)+
  have "pg_prev s x mod 4 = 0" unfolding x by (rule free_head_fields(1) [OF inv, of "seg_total A" m]) simp
  then have p4: "?p mod 4 = 0" "pg_prev s x = ?p + 0" using F(4) by simp_all
  note u = unlink_fields [OF p4(2) _ p4(1) F(5) p(2) y(2)]
  have "pchain ((pg_next s)(?p := ?y)) ((pg_prev s)(?y := ?p)) 0 pool_free (F1 @ F2) pool_free"
    using pchain_unlink [of "pg_next s" "pg_prev s" 0 pool_free F1 x F2 pool_free] F by auto
  then have "list_inv (slab_unlink x s) 0 pool_free (F1 @ F2)"
    unfolding list_inv_def using u F(2,4) by auto
  moreover have "pg_prev (slab_unlink x s) = (pg_prev s)(?y := ?p)" using u(3) F(4) by simp
  moreover have "set (F1 @ F2) \<subseteq> set F" "x \<notin> insert pool_free (set (F1 @ F2))" using F(1,6,7) by auto
  ultimately show ?thesis using u(2) [OF zero_less_numeral] F(8) p(1) y(1)
    by - (rule exI [of _ "F1 @ F2"], rule exI [of _ ?p], rule exI [of _ ?y], intro conjI)
qed

subsection \<open>The run becomes loose\<close>

lemma loosen_run:
  assumes inv: "slab_inv z s (A @ Run n # B) F SL"
  defines "x \<equiv> pg s (seg_total A)"
  defines "s' \<equiv> slab_clear_run x n s"
  shows "slab_inv z s' (A @ Loose n # B) F SL" "pg_next s' x = 0"
proof -
  let ?i = "seg_total A" and ?N = "seg_total (A @ Run n # B)"
  have inv': "slab_inv z s (A @ [Run n] @ B) F SL" using inv by simp
  have ok: "seg_ok z s ?N ?i (Run n)" using inv by (simp add: slab_inv_def)
  then have n: "0 < n" by simp
  have int: "page_at (x + page_size) ` {..<n - Suc 0} = pg s ` {?i + 1..<?i + n}"
    using interior [of "pool_pages s" "Suc ?i" "n - 1"] n by (simp add: x_def page_at_Suc)
  have g: "geom s' = geom s" by (simp add: s'_def)
  note e = geom_sel [OF g]
  have t: "pg_slab s' a = (if a \<in> pg s ` {?i + 1..<?i + n} then 0 else ((pg_slab s)(x := of_nat n)) a)"
    "pg_next s' a = (if a \<in> pg s ` {?i + 1..<?i + n} then 0 else pg_next s a)"
    "pg_prev s' a = (if a \<in> pg s ` {?i + 1..<?i + n} then 0 else pg_prev s a)"
    "bitmap s' = bitmap s" "pfree s' = pfree s + of_nat n" for a
    unfolding s'_def slab_clear_run_def Let_def using int by (cases "n - 1 = 0"; simp add: zero_pages_sel)+
  show "pg_next s' x = 0" using ok by (simp add: t(2) x_def)
  have unl: "pg s j \<notin> insert pool_free (set F)" if "?i \<le> j" "j < ?i + n" for j
    using unlinked_page(1) [OF inv, of ?i "Run n" j] that inv heads_distinct(1) by (auto simp: slab_inv_def)
  have F': "list_inv s' 0 pool_free F"
  proof (subst list_inv_frame)
    show "list_inv s 0 pool_free F" using inv by (simp add: slab_inv_def)
    fix y assume y: "y \<in> set (pool_free # F)"
    then have "y \<notin> pg s ` {?i + 1..<?i + n}" using unl by fastforce
    then show "pg_next s' y = pg_next s y" by (simp add: t)
  next
    fix y assume "y \<in> set F"
    then have "y \<notin> pg s ` {?i + 1..<?i + n}" using unl by fastforce
    then show "pg_prev s' y = pg_prev s y" by (simp add: t)
  qed
  have loose: "seg_ok z s' ?N ?i (Loose n)" using n by (auto simp: e t x_def)
  have "slab_inv z s' (A @ [Loose n] @ B) F SL"
  proof (rule slab_inv_free_update [OF inv' _ g _ _ _ _ t(4) _ F'])
    fix a assume "a \<notin> pg s ` {?i..<?i + seg_total [Run n]}"
    then have "a \<noteq> x" "a \<notin> pg s ` {?i + 1..<?i + n}" using n by (auto simp: x_def)
    then show "pg_slab s' a = pg_slab s a" "pg_next s' a = pg_next s a \<and> pg_prev s' a = pg_prev s a" by (simp_all add: t)
  qed (use loose inv in \<open>auto simp: t(5) slab_inv_def\<close>)
  then show "slab_inv z s' (A @ Loose n # B) F SL" by simp
qed

subsection \<open>Joining\<close>

text \<open>The free run after the loose one.\<close>

lemma join_next_free:
  assumes inv: "slab_inv z s (A @ Loose n # Free m # B) F SL"
  defines "x \<equiv> pg s (seg_total A)"
  shows "\<exists>s' F'. slab_join_next x (n - 1) s = (n + m - 1, s') \<and> geom s' = geom s \<and> slab_inv z s' (A @ Loose (n + m) # B) F' SL"
proof -
  let ?i = "seg_total A" and ?N = "seg_total (A @ Loose n # Free m # B)"
  define j where "j = pg s (?i + n)"
  have invA: "slab_inv z s ((A @ [Loose n]) @ Free m # B) F SL" and inv': "slab_inv z s (A @ [Loose n, Free m] @ B) F SL"
    using inv by simp_all
  have ok: "seg_ok z s ?N ?i (Loose n)" "seg_ok z s ?N (?i + n) (Free m)" and geo: "geo_ok z s ?N"
    using inv by (simp_all add: slab_inv_def)
  then have n: "0 < n" "0 < m" by simp_all
  have w: "pg_slab s x = of_nat n" "pg_slab s j = of_nat m" "unat (pg_slab s x) = n" "unat (pg_slab s j) = m"
    using ok slab_inv_total [OF inv] by (simp_all add: x_def j_def unat_of_nat_u64)
  have jA: "j = pg s (seg_total (A @ [Loose n]))" by (simp add: j_def)
  obtain F' p y where u: "list_inv (slab_unlink j s) 0 pool_free F'"
    "set F' = free_heads s 0 A \<union> free_heads s (?i + n + m) B"
    "pg_next (slab_unlink j s) = (pg_next s)(p := y)" "pg_prev (slab_unlink j s) = (pg_prev s)(y := p)"
    "p \<in> insert pool_free (set F')" "y \<in> insert pool_free (set F')" "set F' \<subseteq> set F" "j \<notin> insert pool_free (set F')"
    using unlink_free [OF invA jA] by (simp only: seg_total_simps free_heads_simps seg_len.simps add_0_right Un_empty_right) blast
  define s' where "s' = pg_set_prev j MPS_SLAB_PAGE (pg_set_next j mps_nulloff (pg_set_slab j MPS_SLAB_PAGE_FREE
    (slab_unlink j (pg_set_slab x (pg_slab s x + pg_slab s j) s))))"
  have sel: "pg_next (slab_unlink j (pg_set_slab x v s)) = pg_next (slab_unlink j s)"
    "pg_prev (slab_unlink j (pg_set_slab x v s)) = pg_prev (slab_unlink j s)"
    "pg_slab (slab_unlink j (pg_set_slab x v s)) = (pg_slab s)(x := v)"
    "bitmap (slab_unlink j (pg_set_slab x v s)) = bitmap s" "pfree (slab_unlink j (pg_set_slab x v s)) = pfree s" for v
    by (simp_all add: slab_unlink_def Let_def mps_slab_page_prev_def mps_slab_page_next_def)
  have t: "pg_slab s' = (pg_slab s)(x := of_nat n + of_nat m, j := 0)" "pg_next s' = (pg_next s)(p := y, j := 0)"
    "pg_prev s' = (pg_prev s)(y := p, j := 0)" "bitmap s' = bitmap s" "pfree s' = pfree s"
    by (simp_all add: s'_def sel u(3,4) w slab_consts mps_nulloff_def)
  have g: "geom s' = geom s" by (simp add: s'_def)
  note e = geom_sel [OF g]
  have "pg s (?i + n) < pg s ?N" using n by simp
  then have "j < pool_last s" using geo by (simp only: geo_ok_def j_def)
  moreover have "mps_slab_page_type s j = MPS_SLAB_PAGE" "pg_next s j \<noteq> mps_nulloff"
    using free_head_fields [OF invA, of "?i + n" m] by (simp_all add: j_def mps_slab_page_type_def slab_consts mps_nulloff_def)
  moreover have "page_at x n = j" by (simp add: x_def j_def)
  ultimately have run: "slab_join_next x (n - 1) s = (n + m - 1, s')"
    unfolding slab_join_next_def Let_def w(3) using n by (simp add: w(4) s'_def)
  have unl: "pg s l \<notin> insert pool_free (set F')" if "?i \<le> l" "l < ?i + n + m" for l
  proof (cases "l < ?i + n")
    case True
    with that unlinked_page(1) [OF inv, of ?i "Loose n" l] heads_distinct(1) [OF geo] u(7) show ?thesis by auto
  next
    case False
    with that unlinked_page(1) [OF inv, of "?i + n" "Free m" l] heads_distinct(1) [OF geo] u(7,8) show ?thesis
      by (cases "l = ?i + n") (auto simp: j_def)
  qed
  have F': "list_inv s' 0 pool_free F'"
  proof (subst list_inv_frame)
    show "list_inv (slab_unlink j s) 0 pool_free F'" by (rule u(1))
  qed (use u(8) in \<open>auto simp: t u(3,4)\<close>)
  have loose: "seg_ok z s' ?N ?i (Loose (n + m))"
  proof -
    have "pg_slab s' (pg s l) = 0 \<and> pg_next s' (pg s l) = 0 \<and> pg_prev s' (pg s l) mod 4 = 0"
      if l: "?i < l" "l < ?i + (n + m)" for l
    proof -
      have ne: "pg s l \<noteq> p" "pg s l \<noteq> y" using unl [of l] l u(5,6) by auto
      show ?thesis using ok l ne by (cases "l < ?i + n"; cases "l = ?i + n") (auto simp: t x_def j_def)
    qed
    then show ?thesis using n by (simp add: t e x_def j_def)
  qed
  have "slab_inv z s' (A @ [Loose (n + m)] @ B) F' SL"
  proof (rule slab_inv_free_update [OF inv' _ g _ _ _ _ t(4) _ F'])
    fix a assume "a \<notin> pg s ` {?i..<?i + seg_total [Loose n, Free m]}"
    then have out: "a \<noteq> x" "a \<noteq> j" using n by (auto simp: x_def j_def)
    then show "pg_slab s' a = pg_slab s a" by (simp add: t)
    assume "a \<notin> set F" "a \<noteq> pool_free"
    then have "a \<noteq> p" "a \<noteq> y" using u(5-7) by auto
    with out show "pg_next s' a = pg_next s a \<and> pg_prev s' a = pg_prev s a" by (simp add: t)
  qed (use loose inv u(2) in \<open>auto simp: t(5) slab_inv_def add.assoc\<close>)
  with run g show ?thesis by auto
qed

lemma join_next_other:
  assumes inv: "slab_inv z s (A @ Loose n # B) F SL"
    and B: "\<And>m B'. B \<noteq> Free m # B'" "\<And>m B'. B \<noteq> Loose m # B'"
  shows "slab_join_next (pg s (seg_total A)) k s = (k, s)"
proof -
  let ?i = "seg_total A" and ?N = "seg_total (A @ Loose n # B)"
  have invA: "slab_inv z s ((A @ [Loose n]) @ B) F SL" using inv by simp
  have ok: "seg_ok z s ?N ?i (Loose n)" and geo: "geo_ok z s ?N" using inv by (simp_all add: slab_inv_def)
  then have w: "unat (pg_slab s (pg s ?i)) = n" using slab_inv_total [OF inv] by (simp add: unat_of_nat_u64)
  have "mps_slab_page_type s (pg s (?i + n)) \<noteq> MPS_SLAB_PAGE \<or> pg_next s (pg s (?i + n)) = mps_nulloff"
    if "pg s (?i + n) < pool_last s"
  proof -
    have "pg s (?i + n) < pg s ?N" using that geo by (simp add: geo_ok_def)
    then obtain h B' where h: "B = h # B'" by (cases B) auto
    have l: "(?i + n, h) \<in> layout 0 (A @ Loose n # B)" by (simp add: h)
    then have "seg_ok z s ?N (?i + n) h" using inv by (auto simp: slab_inv_def)
    then show ?thesis
    proof (cases h)
      case (Chunks sh U)
      with l chunk_head_type(1) [OF inv, of "?i + n" sh U] chunk_type_less(1) [of z sh] show ?thesis
        by (simp add: MPS_SLAB_PAGE_def)
    qed (use B h in \<open>auto simp: mps_nulloff_def\<close>)
  qed
  then show ?thesis unfolding slab_join_next_def Let_def w by auto
qed

text \<open>The free run before it.\<close>

lemma join_prev_free:
  assumes inv: "slab_inv z s (A @ Free m # Loose n # B) F SL"
  defines "x \<equiv> pg s (seg_total A + m)"
  shows "\<exists>s' F'. slab_join_prev x (n - 1) s = (pg s (seg_total A), m + n - 1, s') \<and> geom s' = geom s
     \<and> slab_inv z s' (A @ Loose (m + n) # B) F' SL"
proof -
  let ?i = "seg_total A" and ?N = "seg_total (A @ Free m # Loose n # B)"
  define j where "j = pg s ?i"
  have invA: "slab_inv z s ((A @ [Free m]) @ Loose n # B) F SL" and inv': "slab_inv z s (A @ [Free m, Loose n] @ B) F SL"
    using inv by simp_all
  have ok: "seg_ok z s ?N (?i + m) (Loose n)" "seg_ok z s ?N ?i (Free m)" and geo: "geo_ok z s ?N"
    using inv by (simp_all add: slab_inv_def)
  then have n: "0 < n" "0 < m" by simp_all
  have w: "pg_slab s x = of_nat n" "pg_slab s j = of_nat m" "unat (pg_slab s x) = n" "unat (pg_slab s j) = m"
    using ok slab_inv_total [OF inv] by (simp_all add: x_def j_def unat_of_nat_u64)
  obtain F' p y where u: "list_inv (slab_unlink j s) 0 pool_free F'"
    "set F' = free_heads s 0 A \<union> free_heads s (?i + m) (Loose n # B)"
    "pg_next (slab_unlink j s) = (pg_next s)(p := y)" "pg_prev (slab_unlink j s) = (pg_prev s)(y := p)"
    "p \<in> insert pool_free (set F')" "y \<in> insert pool_free (set F')" "set F' \<subseteq> set F" "j \<notin> insert pool_free (set F')"
    using unlink_free [OF inv j_def] by blast
  define s' where "s' = pg_set_prev x MPS_SLAB_PAGE (pg_set_next x mps_nulloff (pg_set_slab x MPS_SLAB_PAGE_FREE
    (slab_unlink j (pg_set_slab j (pg_slab s j + pg_slab s x) s))))"
  have sel: "pg_next (slab_unlink j (pg_set_slab j v s)) = pg_next (slab_unlink j s)"
    "pg_prev (slab_unlink j (pg_set_slab j v s)) = pg_prev (slab_unlink j s)"
    "pg_slab (slab_unlink j (pg_set_slab j v s)) = (pg_slab s)(j := v)"
    "bitmap (slab_unlink j (pg_set_slab j v s)) = bitmap s" "pfree (slab_unlink j (pg_set_slab j v s)) = pfree s" for v
    by (simp_all add: slab_unlink_def Let_def mps_slab_page_prev_def mps_slab_page_next_def)
  have t: "pg_slab s' = (pg_slab s)(j := of_nat m + of_nat n, x := 0)" "pg_next s' = (pg_next s)(p := y, x := 0)"
    "pg_prev s' = (pg_prev s)(y := p, x := 0)" "bitmap s' = bitmap s" "pfree s' = pfree s"
    by (simp_all add: s'_def sel u(3,4) w slab_consts mps_nulloff_def)
  have g: "geom s' = geom s" by (simp add: s'_def)
  note e = geom_sel [OF g]
  have last: "x - page_size = pg s (?i + m - 1)" using n by (simp add: x_def page_at_pred)
  have j4: "j mod 4 = 0" using heads_distinct(7) [OF geo] by (simp add: j_def)
  have lastp: "mps_slab_page_type s (pg s (?i + m - 1)) = MPS_SLAB_PAGE"
    "(if pg_slab s (pg s (?i + m - 1)) = MPS_SLAB_PAGE_FREE then mps_slab_page_prev s (pg s (?i + m - 1))
      else pg s (?i + m - 1)) = j"
  proof -
    have one: "m = 1 \<Longrightarrow> pg s (?i + m - 1) = j" by (simp add: j_def)
    have 1: "pg_slab s (pg s (?i + m - 1)) \<noteq> 0" if "m = 1" using that w one by simp
    have 2: "pg_slab s (pg s (?i + m - 1)) = 0 \<and> pg_prev s (pg s (?i + m - 1)) = j" if "m \<noteq> 1"
      using ok(2) n that by (simp add: j_def)
    show "mps_slab_page_type s (pg s (?i + m - 1)) = MPS_SLAB_PAGE"
      using 2 j4 one free_head_fields(1) [OF inv, of ?i m]
      by (cases "m = 1") (auto simp: mps_slab_page_type_def slab_consts j_def)
    show "(if pg_slab s (pg s (?i + m - 1)) = MPS_SLAB_PAGE_FREE then mps_slab_page_prev s (pg s (?i + m - 1))
      else pg s (?i + m - 1)) = j"
      using 1 2 j4 one by (cases "m = 1") (simp_all add: MPS_SLAB_PAGE_FREE_def MPS_SLAB_PAGE_MASK_def mps_slab_page_prev_def)
  qed
  have "pool_pages s < x" using n by (simp add: x_def page_at_def page_size_def)
  moreover have "pg_next s j \<noteq> mps_nulloff"
    using free_head_fields(2) [OF inv, of ?i m] by (simp add: j_def mps_nulloff_def)
  ultimately have run: "slab_join_prev x (n - 1) s = (j, m + n - 1, s')"
    unfolding slab_join_prev_def Let_def last lastp using n by (simp add: w(4) s'_def)
  have unl: "pg s l \<notin> insert pool_free (set F')" if "?i \<le> l" "l < ?i + m + n" for l
  proof (cases "l < ?i + m")
    case False
    with that unlinked_page(1) [OF inv, of "?i + m" "Loose n" l] heads_distinct(1) [OF geo] u(7) show ?thesis by auto
  next
    case True
    with that unlinked_page(1) [OF inv, of ?i "Free m" l] heads_distinct(1) [OF geo] u(7,8) show ?thesis
      by (cases "l = ?i") (auto simp: j_def)
  qed
  have xF: "x \<notin> insert pool_free (set F')" using unl [of "?i + m"] n by (simp add: x_def)
  have F': "list_inv s' 0 pool_free F'"
  proof (subst list_inv_frame)
    show "list_inv (slab_unlink j s) 0 pool_free F'" by (rule u(1))
  qed (use xF in \<open>auto simp: t u(3,4)\<close>)
  have loose: "seg_ok z s' ?N ?i (Loose (m + n))"
  proof -
    have "pg_slab s' (pg s l) = 0 \<and> pg_next s' (pg s l) = 0 \<and> pg_prev s' (pg s l) mod 4 = 0"
      if l: "?i < l" "l < ?i + (m + n)" for l
    proof -
      have ne: "pg s l \<noteq> p" "pg s l \<noteq> y" using unl [of l] l u(5,6) by auto
      show ?thesis using ok l ne by (cases "l < ?i + m"; cases "l = ?i + m") (auto simp: t x_def j_def)
    qed
    then show ?thesis using n by (simp add: t e x_def j_def)
  qed
  have "slab_inv z s' (A @ [Loose (m + n)] @ B) F' SL"
  proof (rule slab_inv_free_update [OF inv' _ g _ _ _ _ t(4) _ F'])
    fix a assume "a \<notin> pg s ` {?i..<?i + seg_total [Free m, Loose n]}"
    then have out: "a \<noteq> x" "a \<noteq> j" using n by (auto simp: x_def j_def)
    then show "pg_slab s' a = pg_slab s a" by (simp add: t)
    assume "a \<notin> set F" "a \<noteq> pool_free"
    then have "a \<noteq> p" "a \<noteq> y" using u(5-7) by auto
    with out show "pg_next s' a = pg_next s a \<and> pg_prev s' a = pg_prev s a" by (simp add: t)
  qed (use loose inv u(2) in \<open>auto simp: t(5) slab_inv_def add.assoc\<close>)
  with run g show ?thesis by (auto simp: j_def)
qed

lemma or_start_nonzero: "w OR MPS_SLAB_PAGE_START \<noteq> 0"
proof
  assume "w OR MPS_SLAB_PAGE_START = 0"
  then have "bit (w OR MPS_SLAB_PAGE_START) 63 = bit (0 :: u64) 63" by simp
  then show False by (simp add: bit_or_iff MPS_SLAB_PAGE_START_def bit_numeral_rec)
qed

lemma join_prev_other:
  assumes inv: "slab_inv z s (A @ Loose n # B) F SL"
    and A: "\<And>m A'. A \<noteq> A' @ [Free m]" "\<And>m A'. A \<noteq> A' @ [Loose m]"
  defines "x \<equiv> pg s (seg_total A)"
  shows "slab_join_prev x k s = (x, k, s)"
proof (cases A rule: rev_cases)
  case Nil
  then show ?thesis by (simp add: slab_join_prev_def x_def)
next
  case (snoc A' h)
  let ?i = "seg_total A'"
  have l: "(?i, h) \<in> layout 0 (A @ Loose n # B)" by (simp add: snoc)
  have ok: "seg_ok z s (seg_total (A @ Loose n # B)) ?i h" using inv l by (auto simp: slab_inv_def)
  have last: "x - page_size = pg s (?i + seg_len h - 1)" using seg_ok_len [OF ok] by (simp add: x_def snoc page_at_pred)
  show ?thesis
  proof (cases h)
    case (Run m)
    then have "pg_slab s (pg s (?i + m - 1)) \<noteq> 0 \<and> pg_next s (pg s (?i + m - 1)) = 0"
      using ok or_start_nonzero by (cases "m = 1") (auto simp: MPS_SLAB_PAGE_BUSY_def)
    then show ?thesis unfolding slab_join_prev_def Let_def last
      using Run by (auto simp: MPS_SLAB_PAGE_FREE_def mps_nulloff_def)
  next
    case (Chunks sh U)
    then have "mps_slab_page_type s (pg s (?i + seg_len h - 1)) \<noteq> MPS_SLAB_PAGE"
      using chunk_head_type(1) [OF inv, of ?i sh U] l chunk_type_less(1) [of z sh] by (simp add: MPS_SLAB_PAGE_def)
    then show ?thesis unfolding slab_join_prev_def Let_def last by simp
  qed (use A snoc in auto)
qed

subsection \<open>Onto the free list\<close>

lemma push_free_ok:
  assumes inv: "slab_inv z s (A @ Loose n # B) F SL"
  defines "x \<equiv> pg s (seg_total A)"
  defines "s' \<equiv> slab_push_free x (n - 1) s"
  shows "slab_inv z s' (A @ Free n # B) (x # F) SL"
proof -
  let ?i = "seg_total A" and ?N = "seg_total (A @ Loose n # B)"
  have inv': "slab_inv z s (A @ [Loose n] @ B) F SL" using inv by simp
  have ok: "seg_ok z s ?N ?i (Loose n)" and geo: "geo_ok z s ?N" using inv by (simp_all add: slab_inv_def)
  then have n: "0 < n" by simp
  have unl: "pg s l \<notin> insert pool_free (set F)" if "?i \<le> l" "l < ?i + n" for l
    using unlinked_page(1) [OF inv, of ?i "Loose n" l] that heads_distinct(1) [OF geo] by auto
  then have x: "x \<notin> insert pool_free (set F)" using n by (simp add: x_def)
  let ?y = "pg_next s pool_free" and ?l = "pg s (?i + n - 1)"
  have l: "?l \<notin> insert pool_free (set F)" using unl [of "?i + n - 1"] n by simp
  have ch: "pchain (pg_next s) (pg_prev s) 0 pool_free F pool_free" "distinct F"
    using inv by (simp_all add: slab_inv_def list_inv_def)
  have pf: "pool_free \<notin> set F" by (rule heads_unlisted(1) [OF inv])
  have y: "?y \<in> insert pool_free (set F)" using pchain_hd [OF ch(1)] by (cases F) auto
  have t: "pg_slab s' = pg_slab s" "pg_next s' = (pg_next s)(x := ?y, pool_free := x)"
    "pg_prev s' = (if n = 1 then pg_prev s else (pg_prev s)(?l := x))(x := pool_free, ?y := x)"
    "bitmap s' = bitmap s" "pfree s' = pfree s"
  proof -
    have "page_at x (n - 1) = ?l" using n by (simp add: x_def)
    then show "pg_slab s' = pg_slab s" "pg_next s' = (pg_next s)(x := ?y, pool_free := x)"
      "pg_prev s' = (if n = 1 then pg_prev s else (pg_prev s)(?l := x))(x := pool_free, ?y := x)"
      "bitmap s' = bitmap s" "pfree s' = pfree s"
      using n by (auto simp: s'_def slab_push_free_def Let_def mps_slab_page_next_def)
  qed
  have g: "geom s' = geom s" by (simp add: s'_def slab_push_free_def Let_def)
  note e = geom_sel [OF g]
  have F': "list_inv s' 0 pool_free (x # F)"
    unfolding list_inv_def
  proof
    show "distinct (x # F)" using ch x by simp
    have "pchain (pg_next s') (pg_prev s') 0 pool_free (x # F) pool_free
        = pchain ((pg_next s)(x := ?y, pool_free := x)) ((pg_prev s)(x := pool_free + 0, ?y := x + 0)) 0 pool_free (x # F) pool_free"
      by (rule pchain_frame) (use l in \<open>auto simp: t\<close>)
    also have "\<dots>" by (rule pchain_push [OF ch(1)]) (use x pf ch in auto)
    finally show "pchain (pg_next s') (pg_prev s') 0 pool_free (x # F) pool_free" .
  qed
  have free: "seg_ok z s' ?N ?i (Free n)"
  proof -
    have x4: "x mod 4 = 0" using heads_distinct(7) [OF geo] by (simp add: x_def)
    have "pg_slab s' (pg s j) = 0 \<and> pg_next s' (pg s j) = 0 \<and> pg_prev s' (pg s j) mod 4 = 0"
      if j: "?i < j" "j < ?i + n" for j
    proof -
      have "pg s j \<noteq> x" "pg s j \<noteq> ?y" "pg s j \<noteq> pool_free" using unl [of j] j y by (auto simp: x_def)
      then show ?thesis using ok j x4 by (simp add: t)
    qed
    moreover have "pg_prev s' ?l = x" if "1 < n"
    proof -
      have "?l \<noteq> x" "?l \<noteq> ?y" using that l y by (auto simp: x_def)
      then show ?thesis using that by (simp add: t(3))
    qed
    moreover have "pg_slab s' x = of_nat n" using ok by (simp add: t(1) x_def)
    ultimately show ?thesis using n by (simp add: e x_def [symmetric])
  qed
  have "slab_inv z s' (A @ [Free n] @ B) (x # F) SL"
  proof (rule slab_inv_free_update [OF inv' _ g _ _ _ _ t(4) _ F'])
    fix a assume "a \<notin> pg s ` {?i..<?i + seg_total [Loose n]}"
    then have out: "a \<noteq> x" "a \<noteq> ?l" using n by (auto simp: x_def)
    show "pg_slab s' a = pg_slab s a" by (simp add: t)
    assume "a \<notin> set F" "a \<noteq> pool_free"
    with out y show "pg_next s' a = pg_next s a \<and> pg_prev s' a = pg_prev s a" by (auto simp: t)
  qed (use free inv in \<open>auto simp: t(5) slab_inv_def x_def\<close>)
  then show ?thesis by simp
qed

subsection \<open>All steps\<close>

text \<open>The segments after a run of \<open>n\<close> pages between \<open>A\<close> and \<open>B\<close> is freed.\<close>

definition absorb_next :: "nat \<Rightarrow> seg list \<Rightarrow> nat \<times> seg list" where
  "absorb_next n B = (case B of Free m # B' \<Rightarrow> (n + m, B') | _ \<Rightarrow> (n, B))"

definition absorb_prev :: "seg list \<Rightarrow> nat \<Rightarrow> seg list \<times> nat" where
  "absorb_prev A n = (case rev A of Free m # A' \<Rightarrow> (rev A', m + n) | _ \<Rightarrow> (A, n))"

definition freed :: "seg list \<Rightarrow> nat \<Rightarrow> seg list \<Rightarrow> seg list" where
  "freed A n B = (let (n, B) = absorb_next n B; (A, n) = absorb_prev A n in A @ Free n # B)"

definition no_loose :: "seg list \<Rightarrow> bool" where
  "no_loose G \<longleftrightarrow> (\<forall>n. Loose n \<notin> set G)"

lemma join_next_ok:
  assumes inv: "slab_inv z s (A @ Loose n # B) F SL" and nl: "no_loose B" and b: "absorb_next n B = (n', B')"
  shows "\<exists>s' F'. slab_join_next (pg s (seg_total A)) (n - 1) s = (n' - 1, s') \<and> geom s' = geom s
    \<and> slab_inv z s' (A @ Loose n' # B') F' SL"
proof (cases "\<exists>m B2. B = Free m # B2")
  case True
  then obtain m B2 where B: "B = Free m # B2" by blast
  with join_next_free [OF inv [unfolded B]] b show ?thesis by (simp add: absorb_next_def)
next
  case False
  with nl have "slab_join_next (pg s (seg_total A)) (n - 1) s = (n - 1, s)"
    by (intro join_next_other [OF inv]) (auto simp: no_loose_def)
  moreover have "(n', B') = (n, B)" using False b by (auto simp: absorb_next_def split: list.splits seg.splits)
  ultimately show ?thesis using inv by auto
qed

lemma join_prev_ok:
  assumes inv: "slab_inv z s (A @ Loose n # B) F SL" and nl: "no_loose A" and a: "absorb_prev A n = (A', n')"
  shows "\<exists>s' F'. slab_join_prev (pg s (seg_total A)) (n - 1) s = (pg s (seg_total A'), n' - 1, s') \<and> geom s' = geom s
    \<and> slab_inv z s' (A' @ Loose n' # B) F' SL"
proof (cases "\<exists>m A2. A = A2 @ [Free m]")
  case True
  then obtain m A2 where A: "A = A2 @ [Free m]" by blast
  then have "slab_inv z s (A2 @ Free m # Loose n # B) F SL" using inv by simp
  from join_prev_free [OF this] a A show ?thesis by (simp add: absorb_prev_def)
next
  case False
  with nl have "slab_join_prev (pg s (seg_total A)) (n - 1) s = (pg s (seg_total A), n - 1, s)"
    by (intro join_prev_other [OF inv]) (auto simp: no_loose_def)
  moreover have "(A', n') = (A, n)"
    using False a by (auto simp: absorb_prev_def rev_eq_Cons_iff split: list.splits seg.splits)
  ultimately show ?thesis using inv by auto
qed

lemma free_pages_tail:
  assumes inv: "slab_inv z s (A @ Loose n # B) F SL" and nl: "no_loose A" "no_loose B"
  defines "r \<equiv> slab_join_next (pg s (seg_total A)) (n - 1) s"
  defines "r2 \<equiv> slab_join_prev (pg s (seg_total A)) (fst r) (snd r)"
  shows "\<exists>F'. slab_inv z (slab_push_free (fst r2) (fst (snd r2)) (snd (snd r2))) (freed A n B) F' SL"
proof -
  obtain n1 B1 where b: "absorb_next n B = (n1, B1)" by fastforce
  obtain A2 n2 where a: "absorb_prev A n1 = (A2, n2)" by fastforce
  from join_next_ok [OF inv nl(2) b] obtain s1 F1 where
    1: "r = (n1 - 1, s1)" "geom s1 = geom s" "slab_inv z s1 (A @ Loose n1 # B1) F1 SL" unfolding r_def by blast
  note e1 = geom_sel [OF 1(2)]
  from join_prev_ok [OF 1(3) nl(1) a] obtain s2 F2 where
    2: "slab_join_prev (pg s1 (seg_total A)) (n1 - 1) s1 = (pg s1 (seg_total A2), n2 - 1, s2)" "geom s2 = geom s1"
      "slab_inv z s2 (A2 @ Loose n2 # B1) F2 SL" by blast
  have "r2 = (pg s2 (seg_total A2), n2 - 1, s2)" using 2(1) by (simp add: r2_def 1(1) e1 geom_sel [OF 2(2)])
  with push_free_ok [OF 2(3)] show ?thesis by (auto simp: freed_def a b)
qed

lemma free_pages_eq:
  assumes "s1 = slab_clear_run x n s" "s2 = (if pg_next s1 x \<noteq> 0 then slab_unlink x s1 else s1)"
    "r = slab_join_next x (n - 1) s2" "r2 = slab_join_prev x (fst r) (snd r)"
  shows "mps_slab_free_pages x n s = slab_push_free (fst r2) (fst (snd r2)) (snd (snd r2))"
  unfolding mps_slab_free_pages_def assms by (simp add: Let_def split_def mps_nulloff_def)

lemma free_pages_from_loose:
  assumes inv: "slab_inv z s2 (A @ Loose n # B) F SL" and nl: "no_loose A" "no_loose B"
    and x: "x = pg s2 (seg_total A)"
    and s1: "s1 = slab_clear_run x n s" and s2: "s2 = (if pg_next s1 x \<noteq> 0 then slab_unlink x s1 else s1)"
  shows "\<exists>F'. slab_inv z (mps_slab_free_pages x n s) (freed A n B) F' SL"
  using free_pages_tail [OF inv nl] by (subst free_pages_eq [OF s1 s2 refl refl]) (simp add: x)

text \<open>The allocated run of \<open>n\<close> pages that starts at page \<^verbatim>\<open>seg_total A\<close> is given back.\<close>

theorem free_pages_run:
  assumes inv: "slab_inv z s (A @ Run n # B) F SL" and nl: "no_loose A" "no_loose B"
  shows "\<exists>F'. slab_inv z (mps_slab_free_pages (pg s (seg_total A)) n s) (freed A n B) F' SL"
proof -
  have e: "pool_pages (slab_clear_run (pg s (seg_total A)) n s) = pool_pages s" by (rule geom_sel) simp
  show ?thesis
    by (rule free_pages_from_loose [OF loosen_run(1) [OF inv] nl _ refl]) (use loosen_run(2) [OF inv] in \<open>simp_all add: e\<close>)
qed

end
