(* ===== verification/SlabSlots.thy ===== *)
theory SlabSlots
  imports SlabJoin
begin

text \<open>
  The lists of the slots. A page enters its slot's list when it is cut (\<^verbatim>\<open>slab_link_first\<close>) or gets its
  first free chunk again (\<open>slab_relink\<close>); it leaves it when it is full (\<open>slab_page_full\<close>) or given back.
  Each step changes the list of one slot and the struct of one page.
\<close>

lemma slab_inv_slot_update:
  assumes inv: "slab_inv z s (A @ [X] @ B) F SL" and k: "k < pagesize_shift z - min_shift s"
    and len: "seg_len X = 1" "seg_len Y = 1" and nf: "\<And>n. X \<noteq> Free n" "\<And>n. Y \<noteq> Free n"
    and X: "\<And>sh U. X = Chunks sh U \<Longrightarrow> sh = min_shift s + k \<or> full z sh U"
    and Y: "\<And>sh U. Y = Chunks sh U \<Longrightarrow> sh = min_shift s + k \<or> full z sh U"
    and g: "geom s' = geom s"
    and chg: "\<And>a. a \<notin> set (SL k) \<Longrightarrow> a \<noteq> mps_slab_slots k \<Longrightarrow> a \<noteq> pg s (seg_total A) \<Longrightarrow>
        pg_next s' a = pg_next s a \<and> pg_prev s' a = pg_prev s a"
    and sl: "\<And>a. a \<noteq> pg s (seg_total A) \<Longrightarrow> pg_slab s' a = pg_slab s a"
    and bm: "\<And>j c. j \<noteq> seg_total A \<Longrightarrow> c < pagesize z \<Longrightarrow>
        bitmap s' (page_addr z s j + 8 * (c div 64)) = bitmap s (page_addr z s j + 8 * (c div 64))"
    and new: "seg_ok z s' (seg_total (A @ [X] @ B)) (seg_total A) Y"
    and L': "list_inv s' (chunk_type z (min_shift s + k)) (mps_slab_slots k) L'"
      "set L' = slot_pages z s k 0 A \<union> slot_pages z s k (seg_total A) [Y] \<union> slot_pages z s k (seg_total A + 1) B"
    and pf: "pfree s' = of_nat (free_pages (A @ [Y] @ B))"
  shows "slab_inv z s' (A @ [Y] @ B) F (SL(k := L'))"
proof (rule slab_inv_update [OF inv _ g])
  let ?i = "seg_total A" and ?K = "pagesize_shift z - min_shift s"
  have geo: "geo_ok z s (seg_total (A @ [X] @ B))" using inv by (simp add: slab_inv_def)
  have page: "(?i, X) \<in> layout 0 (A @ [X] @ B)" by simp
  note len' = slab_inv_lens [OF inv]
  have uniq: "(?i, h) \<in> layout 0 (A @ [X] @ B) \<Longrightarrow> h = X" for h
    using layout_disjoint [OF len' page, of ?i h] len len' by fastforce
  have iF: "pg s ?i \<notin> set F" using page_in_list(1) [OF inv, of ?i] uniq nf by metis
  have iL: "pg s ?i \<notin> set (SL l)" if "l < ?K" "l \<noteq> k" for l
    using page_in_list(2) [OF inv that(1), of ?i] uniq X that(2) by (metis add_left_cancel)
  show "seg_total [Y] = seg_total [X]" using len by simp
  show "pg_slab s' (pg s j) = pg_slab s (pg s j)" if "j < ?i \<or> ?i + seg_total [X] \<le> j" for j
    using that len by (intro sl) auto
  show "pg_next s' (pg s j) = pg_next s (pg s j) \<and> pg_prev s' (pg s j) = pg_prev s (pg s j)"
    if "j < ?i \<or> ?i + seg_total [X] \<le> j \<and> j < seg_total (A @ [X] @ B)"
      "\<And>k. k < ?K \<Longrightarrow> pg s j \<notin> set (SL k)" for j
    using that len k heads_distinct(2) [OF geo k] by (intro chg) auto
  show "bitmap s' (page_addr z s j + 8 * (c div 64)) = bitmap s (page_addr z s j + 8 * (c div 64))"
    if "j < ?i \<or> ?i + seg_total [X] \<le> j" "c < pagesize z" for j c
    using that len by (intro bm) auto
  show "seg_ok z s' (seg_total (A @ [X] @ B)) i h" if "(i, h) \<in> layout ?i [Y]" for i h
    using that new by simp
  have F: "list_inv s 0 pool_free F" "set F = free_heads s 0 (A @ [X] @ B)" using inv by (simp_all add: slab_inv_def)
  have "list_inv s' 0 pool_free F = list_inv s 0 pool_free F"
  proof (rule list_inv_frame)
    have same: "pg_next s' y = pg_next s y \<and> pg_prev s' y = pg_prev s y" if "y \<in> set (pool_free # F)" for y
    proof (rule chg)
      show "y \<notin> set (SL k)" using that lists_disjoint(1) [OF inv k] heads_unlisted(3) [OF inv k] by auto
      show "y \<noteq> mps_slab_slots k"
        using that heads_unlisted(2) [OF inv k] heads_distinct(3) [OF geo, of k] by auto
      show "y \<noteq> pg s ?i" using that iF heads_distinct(1) [OF geo, of ?i] by auto
    qed
    then show "pg_next s' y = pg_next s y" if "y \<in> set (pool_free # F)" for y using that by blast
    show "pg_prev s' y = pg_prev s y" if "y \<in> set F" for y using same that by simp
  qed
  with F show "list_inv s' 0 pool_free F" by simp
  have "free_heads s ?i [Y] = {}" using nf by (cases Y) auto
  moreover have "free_heads s ?i (X # B) = free_heads s (?i + seg_total [X]) B" using nf by (cases X) auto
  ultimately show "set F = free_heads s 0 A \<union> free_heads s ?i [Y] \<union> free_heads s (?i + seg_total [X]) B"
    using F(2) by simp
  show "pfree s' = of_nat (free_pages (A @ [Y] @ B))" by (rule pf)
  fix l assume l: "l < ?K"
  show "list_inv s' (chunk_type z (min_shift s + l)) (mps_slab_slots l) ((SL(k := L')) l)"
  proof (cases "l = k")
    case False
    have "list_inv s' (chunk_type z (min_shift s + l)) (mps_slab_slots l) (SL l)
        = list_inv s (chunk_type z (min_shift s + l)) (mps_slab_slots l) (SL l)"
    proof (rule list_inv_frame)
      have same: "pg_next s' y = pg_next s y \<and> pg_prev s' y = pg_prev s y" if "y \<in> set (mps_slab_slots l # SL l)" for y
      proof (rule chg)
        show "y \<notin> set (SL k)" using that False lists_disjoint(2) [OF inv l k] heads_unlisted(4) [OF inv k l] by auto
        show "y \<noteq> mps_slab_slots k"
          using that False heads_unlisted(4) [OF inv l k] heads_distinct(4) [OF geo, of l k] by auto
        show "y \<noteq> pg s ?i" using that iL [OF l False] heads_distinct(2) [OF geo l, of ?i] by auto
      qed
      then show "pg_next s' y = pg_next s y" if "y \<in> set (mps_slab_slots l # SL l)" for y using that by blast
      show "pg_prev s' y = pg_prev s y" if "y \<in> set (SL l)" for y using same that by simp
    qed
    with False l inv show ?thesis by (simp add: slab_inv_def)
  qed (use L' in simp)
  have "slot_pages z s l ?i (X # B) = slot_pages z s l (?i + seg_total [X]) B" "slot_pages z s l ?i [Y] = {}" if "l \<noteq> k"
    using that X Y nf by (cases X; cases Y; auto)+
  then show "set ((SL(k := L')) l) = slot_pages z s l 0 A \<union> slot_pages z s l ?i [Y] \<union> slot_pages z s l (?i + seg_total [X]) B"
    using L'(2) l inv len by (cases "l = k") (simp_all add: slab_inv_def)
qed

subsection \<open>List operations\<close>

lemma slab_unlink_sel [simp]:
  "pg_slab (slab_unlink x s) = pg_slab s" "bitmap (slab_unlink x s) = bitmap s" "pfree (slab_unlink x s) = pfree s"
  by (simp_all add: slab_unlink_def Let_def)

lemma slab_unlink_cong:
  assumes "pg_next s1 = pg_next s" "pg_prev s1 = pg_prev s"
  shows "pg_next (slab_unlink x s1) = pg_next (slab_unlink x s)" "pg_prev (slab_unlink x s1) = pg_prev (slab_unlink x s)"
  using assms by (simp_all add: slab_unlink_def Let_def mps_slab_page_prev_def mps_slab_page_next_def)

lemma or_type:
  assumes "a mod 4 = 0" "t < 4"
  shows "a OR t = a + (t :: nat)"
proof (rule disjunctive_add_eq_or [symmetric])
  have "a AND t = 0"
  proof (rule bit_eqI)
    fix n assume "possible_bit TYPE(nat) n"
    show "bit (a AND t) n = bit 0 n"
    proof (cases "n < 2")
      case True
      have "take_bit 2 a = 0" using assms(1) by (simp add: take_bit_eq_mod)
      then have "\<not> bit a n" using True by (metis bit_0_eq bit_take_bit_iff bot_apply bot_bool_def)
      then show ?thesis by (simp add: bit_and_iff)
    next
      case False
      then have "(2 :: nat) ^ 2 \<le> 2 ^ n" by (intro power_increasing) auto
      then have "t < 2 ^ n" using assms(2) by simp
      then have "\<not> bit t n" by (simp add: bit_iff_odd)
      then show ?thesis by (simp add: bit_and_iff)
    qed
  qed
  then show "a AND t = 0" .
qed

lemma slot_of:
  assumes "slab_inv z s G F SL" "(i, Chunks sh U) \<in> layout 0 G"
  shows "sh - min_shift s < pagesize_shift z - min_shift s" "min_shift s + (sh - min_shift s) = sh"
proof -
  have "seg_ok z s (seg_total G) i (Chunks sh U)" using assms by (auto simp: slab_inv_def)
  then show "sh - min_shift s < pagesize_shift z - min_shift s" "min_shift s + (sh - min_shift s) = sh" by auto
qed

text \<open>A page is taken out of its slot's list.\<close>

lemma unlink_slot:
  assumes inv: "slab_inv z s (A @ Chunks sh U # B) F SL" and nf: "\<not> full z sh U" and x: "x = pg s (seg_total A)"
    and k: "k = sh - min_shift s"
  shows "\<exists>L' p y. list_inv (slab_unlink x s) (chunk_type z sh) (mps_slab_slots k) L'
    \<and> set L' = slot_pages z s k 0 A \<union> slot_pages z s k (seg_total A + 1) B
    \<and> pg_next (slab_unlink x s) = (pg_next s)(p := y) \<and> pg_prev (slab_unlink x s) = (pg_prev s)(y := pg_prev s x)
    \<and> p \<in> insert (mps_slab_slots k) (set L') \<and> y \<in> insert (mps_slab_slots k) (set L')
    \<and> set L' \<subseteq> set (SL k) \<and> x \<notin> insert (mps_slab_slots k) (set L')"
proof -
  let ?G = "A @ Chunks sh U # B" and ?ty = "chunk_type z sh" and ?h = "mps_slab_slots k"
  have page: "(seg_total A, Chunks sh U) \<in> layout 0 ?G" by simp
  note k2 = slot_of [OF inv page, folded k]
  have geo: "geo_ok z s (seg_total ?G)" using inv by (simp add: slab_inv_def)
  have L: "distinct (SL k)" "pchain (pg_next s) (pg_prev s) ?ty ?h (SL k) ?h" "set (SL k) = slot_pages z s k 0 ?G"
    using inv k2(1) unfolding slab_inv_def list_inv_def by (metis k2(2))+
  have "x \<in> set (SL k)" using L(3) nf k2(2) by (simp add: x)
  then obtain L1 L2 where s: "SL k = L1 @ x # L2" by (meson split_list)
  have h: "?h \<notin> set (L1 @ x # L2)" using heads_unlisted(4) [OF inv k2(1) k2(1)] s by simp
  have ch: "pchain (pg_next s) (pg_prev s) ?ty ?h (L1 @ x # L2) ?h" and d: "distinct (L1 @ x # L2)" using L s by simp_all
  let ?p = "last (?h # L1)" and ?y = "hd (L2 @ [?h])"
  have p: "?p \<in> insert ?h (set (L1 @ L2))" "?p \<noteq> x" and y: "?y \<in> insert ?h (set (L1 @ L2))" "?y \<noteq> x"
    using d h by (cases L1 rule: rev_cases; cases L2; auto)+
  have f: "pg_prev s x = ?p + ?ty" "pg_next s x = ?y" using ch by (auto dest: pchain_hd)
  have "w \<in> set (SL k) \<Longrightarrow> \<exists>j. w = pg s j" for w using L(3) by (auto simp: slot_pages_def)
  moreover have "?p = ?h \<or> ?p \<in> set (SL k)" using p(1) s by auto
  ultimately have "?p mod 4 = 0" using heads_distinct(6,7) [OF geo] by metis
  note u = unlink_fields [OF f(1) chunk_type_less(2) this f(2) p(2) y(2)]
  have "pchain ((pg_next s)(?p := ?y)) ((pg_prev s)(?y := pg_prev s x)) ?ty ?h (L1 @ L2) ?h"
    using pchain_unlink [OF ch] d h f(2) by simp
  then have "list_inv (slab_unlink x s) ?ty ?h (L1 @ L2)" unfolding list_inv_def u using d by auto
  moreover have "set (L1 @ L2) = slot_pages z s k 0 A \<union> slot_pages z s k (seg_total A + 1) B"
  proof -
    note lens = slab_inv_lens [OF inv]
    have "insert x (set (L1 @ L2)) = insert x (slot_pages z s k 0 A \<union> slot_pages z s k (seg_total A + 1) B)"
      using L(3) s nf k2(2) by (simp add: x)
    moreover have "x \<notin> slot_pages z s k 0 A \<union> slot_pages z s k (seg_total A + 1) B"
      using slot_pages_range [of x z s k 0 A] slot_pages_range [of x z s k "seg_total A + 1" B] by (auto simp: x)
    ultimately show ?thesis using d by (subst (asm) insert_ident) auto
  qed
  moreover have "set (L1 @ L2) \<subseteq> set (SL k)" "x \<notin> insert ?h (set (L1 @ L2))" using s h d by auto
  ultimately show ?thesis using u(2,3) p(1) y(1)
    by - (rule exI [of _ "L1 @ L2"], rule exI [of _ ?p], rule exI [of _ ?y], intro conjI)
qed

text \<open>A page that is in no list goes to the front of its slot's list.\<close>

lemma push_slot:
  assumes inv: "slab_inv z s G F SL" and k: "k < pagesize_shift z - min_shift s" "min_shift s + k = sh"
    and x: "x = pg s i" "x \<notin> set (SL k)"
  shows "list_inv (slab_relink k x (chunk_type z sh) s) (chunk_type z sh) (mps_slab_slots k) (x # SL k)"
    "pg_slab (slab_relink k x (chunk_type z sh) s) = pg_slab s" "bitmap (slab_relink k x (chunk_type z sh) s) = bitmap s" "pfree (slab_relink k x (chunk_type z sh) s) = pfree s"
    "\<And>a. a \<notin> set (SL k) \<Longrightarrow> a \<noteq> mps_slab_slots k \<Longrightarrow> a \<noteq> x \<Longrightarrow>
       pg_next (slab_relink k x (chunk_type z sh) s) a = pg_next s a \<and> pg_prev (slab_relink k x (chunk_type z sh) s) a = pg_prev s a"
proof -
  let ?h = "mps_slab_slots k"
  have geo: "geo_ok z s (seg_total G)" using inv by (simp add: slab_inv_def)
  have L: "distinct (SL k)" "pchain (pg_next s) (pg_prev s) (chunk_type z sh) ?h (SL k) ?h"
    using inv k(1) unfolding slab_inv_def list_inv_def by (metis k(2))+
  have h: "?h \<notin> set (SL k)" by (rule heads_unlisted(4) [OF inv k(1) k(1)])
  have xh: "x \<noteq> ?h" using heads_distinct(2) [OF geo k(1)] x(1) by simp
  have sel: "pg_slab (slab_relink k x t s) = pg_slab s" "bitmap (slab_relink k x t s) = bitmap s"
    "pfree (slab_relink k x t s) = pfree s" "pg_next (slab_relink k x t s) = (pg_next s)(x := pg_next s ?h, ?h := x)"
    "pg_prev (slab_relink k x t s) = (pg_prev s)(x := ?h OR t, pg_next s ?h := x OR t)" for t
    using xh by (simp_all add: slab_relink_def Let_def mps_slab_page_next_def)
  then show "pg_slab (slab_relink k x (chunk_type z sh) s) = pg_slab s" "bitmap (slab_relink k x (chunk_type z sh) s) = bitmap s"
    "pfree (slab_relink k x (chunk_type z sh) s) = pfree s" by simp_all
  have "pg_next s ?h \<in> insert ?h (set (SL k))" using pchain_hd [OF L(2)] by (cases "SL k") auto
  then show "pg_next (slab_relink k x (chunk_type z sh) s) a = pg_next s a \<and> pg_prev (slab_relink k x (chunk_type z sh) s) a = pg_prev s a"
    if "a \<notin> set (SL k)" "a \<noteq> ?h" "a \<noteq> x" for a using that by (auto simp: sel)
  have "?h OR chunk_type z sh = ?h + chunk_type z sh" "x OR chunk_type z sh = x + chunk_type z sh"
    using heads_distinct(6,7) [OF geo] chunk_type_less(2) x(1) by (auto intro: or_type)
  then show "list_inv (slab_relink k x (chunk_type z sh) s) (chunk_type z sh) ?h (x # SL k)"
    unfolding list_inv_def sel using pchain_push [OF L(2)] x(2) xh h L(1) by simp
qed

subsection \<open>Marking chunks\<close>

text \<open>The bits of the page \<open>i\<close> become \<open>U\<close>; nothing else changes (but statistics).\<close>

definition marks :: "slab_sizes \<Rightarrow> slab_pool \<Rightarrow> slab_pool \<Rightarrow> nat \<Rightarrow> nat \<Rightarrow> nat set \<Rightarrow> bool" where
  "marks z s s1 i sh U \<longleftrightarrow> geom s1 = geom s \<and> pg_next s1 = pg_next s \<and> pg_prev s1 = pg_prev s \<and> pfree s1 = pfree s
     \<and> (\<forall>a. a \<noteq> pg s i \<longrightarrow> pg_slab s1 a = pg_slab s a)
     \<and> (\<forall>j c. j \<noteq> i \<longrightarrow> c < pagesize z \<longrightarrow>
          bitmap s1 (page_addr z s j + 8 * (c div 64)) = bitmap s (page_addr z s j + 8 * (c div 64)))
     \<and> chunk_bits z s1 i sh U \<and> chunk_set_ok z sh U"

lemma marksD:
  assumes "marks z s s1 i sh U"
  shows "geom s1 = geom s" "pg_next s1 = pg_next s" "pg_prev s1 = pg_prev s" "pfree s1 = pfree s"
    "a \<noteq> pg s i \<Longrightarrow> pg_slab s1 a = pg_slab s a"
    "j \<noteq> i \<Longrightarrow> c < pagesize z \<Longrightarrow>
       bitmap s1 (page_addr z s j + 8 * (c div 64)) = bitmap s (page_addr z s j + 8 * (c div 64))"
    "chunk_bits z s1 i sh U" "chunk_set_ok z sh U"
  using assms unfolding marks_def by blast+

lemma chunk_bits_same:
  assumes "pg_slab s2 = pg_slab s1" "bitmap s2 = bitmap s1" "geom s2 = geom s1"
  shows "chunk_bits z s2 i sh U = chunk_bits z s1 i sh U"
  using assms geom_sel [OF assms(3)] by (simp add: chunk_bits_def page_addr_def)

lemma mark_stay:
  assumes inv: "slab_inv z s (A @ Chunks sh U # B) F SL" and m: "marks z s s1 (seg_total A) sh U'"
    and nf: "\<not> full z sh U" "\<not> full z sh U'"
  shows "slab_inv z s1 (A @ Chunks sh U' # B) F SL"
proof -
  have inv': "slab_inv z s (A @ [Chunks sh U] @ B) F SL" using inv by simp
  have page: "(seg_total A, Chunks sh U) \<in> layout 0 (A @ Chunks sh U # B)" by simp
  define k where "k = sh - min_shift s"
  note k = slot_of [OF inv page, folded k_def]
  note d = marksD [OF m]
  note e = geom_sel [OF d(1)]
  have ok: "seg_ok z s (seg_total (A @ Chunks sh U # B)) (seg_total A) (Chunks sh U)"
    and L: "set (SL k) = slot_pages z s k 0 (A @ Chunks sh U # B)" using inv k by (auto simp: slab_inv_def)
  have "list_inv s (chunk_type z (min_shift s + k)) (mps_slab_slots k) (SL k)" using inv k(1) by (simp add: slab_inv_def)
  then have L': "list_inv s1 (chunk_type z (min_shift s + k)) (mps_slab_slots k) (SL k)" by (simp add: list_inv_def d)
  have "slab_inv z s1 (A @ [Chunks sh U'] @ B) F (SL(k := SL k))"
    by (rule slab_inv_slot_update [OF inv' k(1) _ _ _ _ _ _ d(1) _ d(5,6) _ L'])
      (use ok nf inv k(2) L d in \<open>auto simp: e slab_inv_def\<close>)
  then show ?thesis by simp
qed

lemma mark_fill:
  assumes inv: "slab_inv z s (A @ Chunks sh U # B) F SL" and m: "marks z s s1 (seg_total A) sh U'"
    and nf: "\<not> full z sh U" "full z sh U'"
  shows "\<exists>SL'. slab_inv z (slab_page_full (pg s (seg_total A)) (chunk_type z sh) s1) (A @ Chunks sh U' # B) F SL'"
proof -
  define x where "x = pg s (seg_total A)"
  have inv': "slab_inv z s (A @ [Chunks sh U] @ B) F SL" using inv by simp
  have page: "(seg_total A, Chunks sh U) \<in> layout 0 (A @ Chunks sh U # B)" by simp
  define k where "k = sh - min_shift s"
  note k = slot_of [OF inv page, folded k_def]
  note d = marksD [OF m]
  define s2 where "s2 = slab_page_full x (chunk_type z sh) s1"
  have g: "geom s2 = geom s" by (simp add: s2_def d(1))
  note e = geom_sel [OF g]
  from unlink_slot [OF inv nf(1) x_def k_def] obtain L' p y where
    u: "list_inv (slab_unlink x s) (chunk_type z sh) (mps_slab_slots k) L'"
      "set L' = slot_pages z s k 0 A \<union> slot_pages z s k (seg_total A + 1) B"
      "pg_next (slab_unlink x s) = (pg_next s)(p := y)" "pg_prev (slab_unlink x s) = (pg_prev s)(y := pg_prev s x)"
      "p \<in> insert (mps_slab_slots k) (set L')" "y \<in> insert (mps_slab_slots k) (set L')"
      "set L' \<subseteq> set (SL k)" "x \<notin> insert (mps_slab_slots k) (set L')" by blast
  note c = slab_unlink_cong [OF d(2,3), of x]
  have t: "pg_slab s2 = pg_slab s1" "bitmap s2 = bitmap s1" "pfree s2 = pfree s" "pg_next s2 = (pg_next s)(p := y, x := 0)"
    "pg_prev s2 = (pg_prev s)(y := pg_prev s x, x := chunk_type z sh)"
    by (simp_all add: s2_def slab_page_full_def Let_def mps_nulloff_def c u(3,4) d(4))
  have L: "list_inv s2 (chunk_type z (min_shift s + k)) (mps_slab_slots k) L'"
    by (subst list_inv_frame [where s = "slab_unlink x s"]) (use u k(2) in \<open>auto simp: t\<close>)
  have ok: "seg_ok z s (seg_total (A @ Chunks sh U # B)) (seg_total A) (Chunks sh U)" using inv by (auto simp: slab_inv_def)
  have "chunk_bits z s2 (seg_total A) sh U'"
    using d(7) by (subst chunk_bits_same [where ?s1.0 = s1]) (simp_all add: t g d(1))
  then have new: "seg_ok z s2 (seg_total (A @ [Chunks sh U] @ B)) (seg_total A) (Chunks sh U')"
    using ok d(8) by (simp add: e t x_def)
  have "slab_inv z s2 (A @ [Chunks sh U'] @ B) F (SL(k := L'))"
  proof (rule slab_inv_slot_update [OF inv' k(1) _ _ _ _ _ _ g _ _ _ new L])
    fix a assume "a \<notin> set (SL k)" "a \<noteq> mps_slab_slots k" "a \<noteq> pg s (seg_total A)"
    then show "pg_next s2 a = pg_next s a \<and> pg_prev s2 a = pg_prev s a" using u(5-7) by (auto simp: t x_def)
  qed (use nf inv k(2) u(2) d(5,6) in \<open>auto simp: t slab_inv_def\<close>)
  then show ?thesis by (auto simp: s2_def x_def)
qed

text \<open>A full page gets a free chunk: it is linked first, then marked.\<close>

lemma mark_relink:
  assumes inv: "slab_inv z s (A @ Chunks sh U # B) F SL" and nf: "full z sh U" "\<not> full z sh U'"
    and m: "marks z (slab_relink (sh - min_shift s) (pg s (seg_total A)) (chunk_type z sh) s) s2 (seg_total A) sh U'"
  shows "\<exists>SL'. slab_inv z s2 (A @ Chunks sh U' # B) F SL'"
proof -
  define x k where "x = pg s (seg_total A)" and "k = sh - min_shift s"
  have inv': "slab_inv z s (A @ [Chunks sh U] @ B) F SL" using inv by simp
  have page: "(seg_total A, Chunks sh U) \<in> layout 0 (A @ Chunks sh U # B)" by simp
  note k = slot_of [OF inv page, folded k_def]
  define s1 where "s1 = slab_relink k x (chunk_type z sh) s"
  have g1: "geom s1 = geom s" by (simp add: s1_def)
  note e1 = geom_sel [OF g1]
  have m1: "marks z s1 s2 (seg_total A) sh U'" using m by (simp add: s1_def k_def x_def)
  have pa: "page_addr z s1 = page_addr z s" by (simp add: page_addr_def e1 fun_eq_iff)
  note d = marksD [OF m1, unfolded g1 e1 pa]
  note e = geom_sel [OF d(1)]
  have "x \<notin> set (SL k)" using unlinked_page(2) [OF inv page, of "seg_total A" k] nf(1) k(1) by (simp add: x_def)
  note p = push_slot [OF inv k x_def this, folded s1_def]
  have L: "list_inv s2 (chunk_type z (min_shift s + k)) (mps_slab_slots k) (x # SL k)"
    using p(1) by (simp add: list_inv_def d(2,3) k(2))
  have ok: "seg_ok z s (seg_total (A @ Chunks sh U # B)) (seg_total A) (Chunks sh U)"
    and S: "set (SL k) = slot_pages z s k 0 (A @ Chunks sh U # B)" using inv k by (auto simp: slab_inv_def)
  have new: "seg_ok z s2 (seg_total (A @ [Chunks sh U] @ B)) (seg_total A) (Chunks sh U')"
    using ok d(7,8) nf(2) by (simp add: e)
  have "slab_inv z s2 (A @ [Chunks sh U'] @ B) F (SL(k := x # SL k))"
  proof (rule slab_inv_slot_update [OF inv' k(1) _ _ _ _ _ _ d(1) _ _ _ new L])
    show "pg_next s2 a = pg_next s a \<and> pg_prev s2 a = pg_prev s a"
      if "a \<notin> set (SL k)" "a \<noteq> mps_slab_slots k" "a \<noteq> pg s (seg_total A)" for a
      using p(5) [OF that(1,2)] that(3) by (simp add: x_def d(2,3))
    show "pg_slab s2 a = pg_slab s a" if "a \<noteq> pg s (seg_total A)" for a using d(5) that p(2) by (simp add: x_def)
    show "bitmap s2 (page_addr z s j + 8 * (c div 64)) = bitmap s (page_addr z s j + 8 * (c div 64))"
      if "j \<noteq> seg_total A" "c < pagesize z" for j c using d(6) [OF that] p(3) by simp
    show "set (x # SL k) = slot_pages z s k 0 A \<union> slot_pages z s k (seg_total A) [Chunks sh U'] \<union> slot_pages z s k (seg_total A + 1) B"
      using S nf k(2) by (auto simp: x_def)
    show "pfree s2 = of_nat (free_pages (A @ [Chunks sh U'] @ B))" using inv by (simp add: d(4) p(4) slab_inv_def)
  qed (use nf k(2) in auto)
  then show ?thesis by auto
qed

text \<open>A fresh page is cut into chunks; it becomes the only page in its slot's list.\<close>

lemma cut_page:
  assumes inv: "slab_inv z s (A @ Run 1 # B) F SL" and m: "marks z s s1 (seg_total A) sh U'" and nf: "\<not> full z sh U'"
    and sh: "min_shift s \<le> sh" "sh < pagesize_shift z" and k: "k = sh - min_shift s" and e0: "SL k = []"
  shows "\<exists>SL'. slab_inv z (slab_link_first k (pg s (seg_total A)) (chunk_type z sh) s1) (A @ Chunks sh U' # B) F SL'"
proof -
  define x where "x = pg s (seg_total A)"
  have inv': "slab_inv z s (A @ [Run 1] @ B) F SL" using inv by simp
  have k2: "k < pagesize_shift z - min_shift s" "min_shift s + k = sh" using sh k by auto
  define s2 where "s2 = slab_link_first k x (chunk_type z sh) s1"
  note d = marksD [OF m]
  have geo: "geo_ok z s (seg_total (A @ Run 1 # B))" using inv by (simp add: slab_inv_def)
  have g: "geom s2 = geom s" by (simp add: s2_def d(1))
  note e = geom_sel [OF g]
  have xh: "x \<noteq> mps_slab_slots k" using heads_distinct(2) [OF geo k2(1)] by (simp add: x_def)
  have ot: "mps_slab_slots k OR chunk_type z sh = mps_slab_slots k + chunk_type z sh"
    by (rule or_type [OF heads_distinct(6) [OF geo] chunk_type_less(2)])
  have t: "pg_slab s2 = pg_slab s1" "bitmap s2 = bitmap s1" "pfree s2 = pfree s"
    "pg_next s2 = (pg_next s)(x := mps_slab_slots k, mps_slab_slots k := x)"
    "pg_prev s2 = (pg_prev s)(x := mps_slab_slots k + chunk_type z sh)"
    by (simp_all add: s2_def slab_link_first_def Let_def d(2-4) ot)
  have L: "list_inv s2 (chunk_type z (min_shift s + k)) (mps_slab_slots k) [x]"
    using xh by (simp add: list_inv_def t k2(2))
  have "chunk_bits z s2 (seg_total A) sh U'"
    using d(7) by (subst chunk_bits_same [where ?s1.0 = s1]) (simp_all add: t g d(1))
  then have new: "seg_ok z s2 (seg_total (A @ [Run 1] @ B)) (seg_total A) (Chunks sh U')"
    using sh d(8) nf by (simp add: e)
  have S: "slot_pages z s k 0 (A @ Run 1 # B) = {}" using inv k2(1) e0 by (auto simp: slab_inv_def)
  have "slab_inv z s2 (A @ [Chunks sh U'] @ B) F (SL(k := [x]))"
    by (rule slab_inv_slot_update [OF inv' k2(1) _ _ _ _ _ _ g _ _ _ new L])
      (use inv S nf k2(2) d(5,6) in \<open>auto simp: t slab_inv_def x_def\<close>)
  then show ?thesis by (auto simp: s2_def x_def)
qed

text \<open>A page whose last chunk was released is given back.\<close>

theorem free_pages_chunks:
  assumes inv: "slab_inv z s (A @ Chunks sh U # B) F SL" and nf: "\<not> full z sh U" and nl: "no_loose A" "no_loose B"
  shows "\<exists>F' SL'. slab_inv z (mps_slab_free_pages (pg s (seg_total A)) 1 s) (freed A 1 B) F' SL'"
proof -
  define x k where "x = pg s (seg_total A)" and "k = sh - min_shift s"
  have inv': "slab_inv z s (A @ [Chunks sh U] @ B) F SL" using inv by simp
  have page: "(seg_total A, Chunks sh U) \<in> layout 0 (A @ Chunks sh U # B)" by simp
  note k = slot_of [OF inv page, folded k_def]
  define s1 where "s1 = slab_clear_run x 1 s"
  define s2 where "s2 = slab_unlink x s1"
  have s1: "s1 = pg_set_slab x 1 (set_pfree (pfree s + 1) s)" by (simp add: s1_def slab_clear_run_def)
  have g: "geom s2 = geom s" by (simp add: s1 s2_def)
  note e = geom_sel [OF g]
  from unlink_slot [OF inv nf(1) x_def k_def] obtain L' p y where
    u: "list_inv (slab_unlink x s) (chunk_type z sh) (mps_slab_slots k) L'"
      "set L' = slot_pages z s k 0 A \<union> slot_pages z s k (seg_total A + 1) B"
      "pg_next (slab_unlink x s) = (pg_next s)(p := y)" "pg_prev (slab_unlink x s) = (pg_prev s)(y := pg_prev s x)"
      "p \<in> insert (mps_slab_slots k) (set L')" "y \<in> insert (mps_slab_slots k) (set L')"
      "set L' \<subseteq> set (SL k)" "x \<notin> insert (mps_slab_slots k) (set L')" by blast
  have "pg_next s1 = pg_next s" "pg_prev s1 = pg_prev s" by (simp_all add: s1)
  note c = slab_unlink_cong [OF this, of x]
  have t: "pg_slab s2 = (pg_slab s)(x := 1)" "bitmap s2 = bitmap s" "pfree s2 = pfree s + 1"
    "pg_next s2 = (pg_next s)(p := y)" "pg_prev s2 = (pg_prev s)(y := pg_prev s x)"
    by (simp_all add: s2_def c u(3,4)) (simp_all add: s1)
  have L: "list_inv s2 (chunk_type z (min_shift s + k)) (mps_slab_slots k) L'"
    by (subst list_inv_frame [where s = "slab_unlink x s"]) (use u k(2) in \<open>auto simp: t\<close>)
  have new: "seg_ok z s2 (seg_total (A @ [Chunks sh U] @ B)) (seg_total A) (Loose 1)"
    by (auto simp: e t x_def)
  have "slab_inv z s2 (A @ [Loose 1] @ B) F (SL(k := L'))"
  proof (rule slab_inv_slot_update [OF inv' k(1) _ _ _ _ _ _ g _ _ _ new L])
    fix a assume "a \<notin> set (SL k)" "a \<noteq> mps_slab_slots k" "a \<noteq> pg s (seg_total A)"
    then show "pg_next s2 a = pg_next s a \<and> pg_prev s2 a = pg_prev s a" using u(5-7) by (auto simp: t x_def)
  qed (use nf inv k(2) u(2) in \<open>auto simp: t slab_inv_def x_def\<close>)
  then have "slab_inv z s2 (A @ Loose 1 # B) F (SL(k := L'))" by simp
  note l = this
  have "pg_next s1 x \<noteq> 0" using chunk_head_type(2) [OF inv page] nf by (simp add: s1 x_def)
  then have s2: "s2 = (if pg_next s1 x \<noteq> 0 then slab_unlink x s1 else s1)" by (simp add: s2_def)
  have "pg s2 (seg_total A) = x" by (simp add: e x_def)
  from free_pages_from_loose [OF l nl this [symmetric] s1_def s2] show ?thesis by (auto simp: x_def)
qed

end
