(* ===== verification/SlabChunks.thy ===== *)
theory SlabChunks
  imports SlabSlots
begin

text \<open>
  Taking a chunk from a page: the search for a clear bit in the page's bitmap, which is in the page's
  struct (\<^verbatim>\<open>slab\<close>) or, for small chunks, in the first words of the page itself.
\<close>

subsection \<open>Bits\<close>

lemma and_bit_zero: "w AND push_bit n 1 = 0 \<longleftrightarrow> \<not> bit (w :: u64) n"
proof
  assume "w AND push_bit n 1 = 0"
  then have "bit (w AND push_bit n 1) n = bit (0 :: u64) n" by simp
  then show "\<not> bit w n" by (auto simp: bit_simps dest: bit_imp_le_length)
next
  assume "\<not> bit w n"
  show "w AND push_bit n 1 = 0"
  proof (rule bit_word_eqI)
    fix m assume "m < LENGTH(64)"
    then show "bit (w AND push_bit n 1) m \<longleftrightarrow> bit (0 :: u64) m"
      using \<open>\<not> bit w n\<close> by (cases "m = n") (auto simp: bit_and_iff bit_exp_iff)
  qed
qed

lemma bit_set: "bit (w OR push_bit n 1 :: u64) m \<longleftrightarrow> bit w m \<or> (m = n \<and> n < 64)"
  by (auto simp: bit_simps)

lemma bit_clear: "bit (w AND NOT (push_bit n 1) :: u64) m \<longleftrightarrow> bit w m \<and> m \<noteq> n"
  by (auto simp: bit_simps dest: bit_imp_le_length)

lemmas bit_set_clear = bit_set [unfolded push_bit_of_1] bit_clear [unfolded push_bit_of_1]

lemma busy_iff: "(w :: u64) = MPS_SLAB_BUSY \<longleftrightarrow> (\<forall>c < 64. bit w c)"
  by (auto simp: MPS_SLAB_BUSY_def bit_eq_iff)

lemma find_clear_eq: "find_clear w lo n = List.find (\<lambda>i. \<not> bit w (lo + i)) [0..<n]"
  by (simp only: find_clear_def and_bit_zero)

lemma find_clear_some:
  assumes "c < n" "\<not> bit w (lo + c)"
  obtains i where "find_clear w lo n = Some i" "i < n" "\<not> bit w (lo + i)"
proof (cases "find_clear w lo n")
  case None
  with assms show thesis by (auto simp: find_clear_eq find_None_iff)
next
  case (Some i)
  then obtain j where "j < length [0..<n]" "\<not> bit w (lo + [0..<n] ! j)" "i = [0..<n] ! j"
    by (auto simp: find_clear_eq find_Some_iff)
  with that [OF Some] show thesis by simp
qed

subsection \<open>Counts\<close>

lemma chunk_count_eq: "sizes_ok z \<Longrightarrow> sh \<le> pagesize_shift z \<Longrightarrow> chunk_count z sh = 2 ^ (pagesize_shift z - sh)"
  by (simp add: chunk_count_def sizes_okD(1) power_diff)

lemma chunk_fits:
  assumes z: "sizes_ok z" and c: "c < chunk_count z sh"
  shows "c * 2 ^ sh + 2 ^ sh \<le> pagesize z"
proof -
  have "Suc c \<le> pagesize z div 2 ^ sh" using c by (simp add: chunk_count_def)
  then have "Suc c * 2 ^ sh \<le> pagesize z div 2 ^ sh * 2 ^ sh" by (rule mult_le_mono1)
  also have "\<dots> \<le> pagesize z" by simp
  finally show ?thesis by simp
qed

lemma exact_count: "sizes_ok z \<Longrightarrow> chunk_count z (exact_shift z) = 64"
  using sizes_okD [of z] by (simp add: chunk_count_eq)

lemma big_count:
  assumes "sizes_ok z" "exact_shift z < sh" "sh < pagesize_shift z"
  shows "chunk_count z sh \<le> 32"
proof -
  have "pagesize_shift z - sh \<le> 5" using assms sizes_okD [OF assms(1)] by simp
  then have "(2 :: nat) ^ (pagesize_shift z - sh) \<le> 2 ^ 5" by (intro power_increasing) auto
  then show ?thesis using assms by (simp add: chunk_count_eq)
qed

lemma small_count:
  assumes "sizes_ok z" "sh < exact_shift z"
  shows "chunk_count z sh = 64 * (chunk_count z sh div 64)" "1 < chunk_count z sh div 64"
proof -
  define d where "d = pagesize_shift z - sh - 7"
  have sh: "pagesize_shift z - sh = 7 + d" "sh \<le> pagesize_shift z"
    using assms sizes_okD [OF assms(1)] by (simp_all add: d_def)
  have "chunk_count z sh = 2 ^ (7 + d)" unfolding chunk_count_eq [OF assms(1) sh(2)] sh(1) ..
  then have "chunk_count z sh = 64 * (2 * 2 ^ d)" by (simp add: power_add)
  moreover have "(1 :: nat) \<le> 2 ^ d" by simp
  ultimately show "chunk_count z sh = 64 * (chunk_count z sh div 64)" "1 < chunk_count z sh div 64" by (simp, linarith)
qed

lemma page_addr_inj:
  assumes "pagesize z = 2 ^ pagesize_shift z" "a < pagesize z" "b < pagesize z"
    "page_addr z s j + a = page_addr z s i + b"
  shows "j = i \<and> a = b"
proof -
  have "j * pagesize z + a = i * pagesize z + b" using assms by (simp add: page_addr_def)
  then have "(j * pagesize z + a) div pagesize z = (i * pagesize z + b) div pagesize z" by simp
  then show ?thesis using assms by (simp add: page_addr_def)
qed

subsection \<open>A chunk of a page\<close>

lemma chunk_page:
  assumes inv: "slab_inv z s G F SL" and g: "(i, Chunks sh U) \<in> layout 0 G"
  shows "sizes_ok z" "min_shift s \<le> sh" "3 \<le> sh" "sh < pagesize_shift z" "chunk_set_ok z sh U" "chunk_bits z s i sh U"
proof -
  have "seg_ok z s (seg_total G) i (Chunks sh U)" "geo_ok z s (seg_total G)" using inv g by (auto simp: slab_inv_def)
  then show "sizes_ok z" "min_shift s \<le> sh" "3 \<le> sh" "sh < pagesize_shift z" "chunk_set_ok z sh U" "chunk_bits z s i sh U"
    by (auto simp: geo_ok_def)
qed

lemma not_full:
  assumes "chunk_set_ok z sh U" "\<not> full z sh U"
  obtains c where "c < chunk_count z sh" "c \<notin> U" "reserved z sh \<le> c"
proof -
  from assms have "\<exists>c < chunk_count z sh. c \<notin> U" by (auto simp: chunk_set_ok_def full_def)
  then obtain c where c: "c < chunk_count z sh" "c \<notin> U" by blast
  with assms(1) have "reserved z sh \<le> c" by (force simp: chunk_set_ok_def)
  with that c show thesis by blast
qed

lemma chunk_set_insert: "chunk_set_ok z sh U \<Longrightarrow> c < chunk_count z sh \<Longrightarrow> chunk_set_ok z sh (insert c U)"
  by (auto simp: chunk_set_ok_def)

lemma chunk_set_remove: "chunk_set_ok z sh U \<Longrightarrow> reserved z sh \<le> c \<Longrightarrow> chunk_set_ok z sh (U - {c})"
  by (auto simp: chunk_set_ok_def)

lemma marks_stats [simp]:
  "marks z s (incr_used k s1) i sh U = marks z s s1 i sh U" "marks z s (incr_used k (set_bitmap a w s1)) i sh U = marks z s (set_bitmap a w s1) i sh U"
  by (simp_all add: marks_def chunk_bits_def page_addr_def incr_used_def geom_def set_bitmap_def)

text \<open>Setting or clearing the bit of a chunk.\<close>

lemma marks_exact:
  assumes "chunk_set_ok z sh U'" "sh = exact_shift z" "\<And>c. c < 64 \<Longrightarrow> bit w c \<longleftrightarrow> c \<in> U'"
  shows "marks z s (pg_set_slab (pg s i) w s) i sh U'"
  using assms by (auto simp: marks_def chunk_bits_def geom_def pg_set_slab_def)

lemma marks_big:
  assumes "chunk_set_ok z sh U'" "exact_shift z < sh" "w AND MPS_SLAB_SHIFT_MASK = of_nat sh"
    "\<And>c. c < 32 \<Longrightarrow> bit w (MPS_SLAB_MAP_SHIFT + c) \<longleftrightarrow> c \<in> U'"
  shows "marks z s (pg_set_slab (pg s i) w s) i sh U'"
  using assms by (auto simp: marks_def chunk_bits_def geom_def pg_set_slab_def)

lemma set_bitmap_pages: "pool_pages (set_bitmap a w s) = pool_pages s"
  by (simp add: set_bitmap_def)

lemma marks_small:
  assumes z: "sizes_ok z" and c: "chunk_set_ok z sh U'" "sh < exact_shift z" "3 \<le> sh" and sl: "pg_slab s (pg s i) = of_nat sh"
    and n: "n < chunk_count z sh div 64"
    and same: "\<And>c. c < chunk_count z sh \<Longrightarrow> c div 64 \<noteq> n \<Longrightarrow>
       bit (bitmap s (page_addr z s i + 8 * (c div 64))) (c mod 64) \<longleftrightarrow> c \<in> U'"
    and new: "\<And>j. j < 64 \<Longrightarrow> bit w j \<longleftrightarrow> 64 * n + j \<in> U'"
  shows "marks z s (set_bitmap (page_addr z s i + 8 * n) w s) i sh U'"
proof -
  let ?s = "set_bitmap (page_addr z s i + 8 * n) w s"
  have pa: "page_addr z ?s = page_addr z s" by (simp add: page_addr_def set_bitmap_def fun_eq_iff)
  have small: "8 * (c div 64) < pagesize z" if "c < pagesize z" for c using that by linarith
  have nn: "64 * n < pagesize z" using n chunk_count_le [of z sh] by linarith
  have "page_addr z s j + 8 * (c div 64) \<noteq> page_addr z s i + 8 * n" if "j \<noteq> i" "c < pagesize z" for j c
    using page_addr_inj [OF sizes_okD(1) [OF z] small [OF that(2)], of "8 * n" s j i] nn that(1) by linarith
  moreover have "bit (bitmap ?s (page_addr z s i + 8 * (c div 64))) (c mod 64) \<longleftrightarrow> c \<in> U'" if "c < chunk_count z sh" for c
  proof (cases "c div 64 = n")
    case True
    then have "64 * n + c mod 64 = c" by (metis mult_div_mod_eq)
    with True new [of "c mod 64"] show ?thesis by simp
  next
    case False
    with same [OF that] show ?thesis by simp
  qed
  ultimately show ?thesis using c sl by (simp add: marks_def chunk_bits_def pa set_bitmap_pages)
qed

subsection \<open>Allocation of a chunk\<close>

lemma addr_geom: "geom s' = geom s \<Longrightarrow> mps_slab_page_addr z s' x = mps_slab_page_addr z s x"
  by (simp add: mps_slab_page_addr_def geom_def)

lemma addr_simps [simp]:
  "mps_slab_page_addr z (pg_set_slab a w s) x = mps_slab_page_addr z s x"
  "mps_slab_page_addr z (slab_page_full y t s) x = mps_slab_page_addr z s x"
  "mps_slab_page_addr z (slab_link_first k y t s) x = mps_slab_page_addr z s x"
  "mps_slab_page_addr z (slab_init_bitmap b n m s) x = mps_slab_page_addr z s x"
  "mps_slab_page_addr z (add_total k w s) x = mps_slab_page_addr z s x"
  by (rule addr_geom; simp)+

lemma alloc_exact_ok:
  assumes inv: "slab_inv z s (A @ Chunks sh U # B) F SL" and nf: "\<not> full z sh U" and sh: "sh = exact_shift z"
  defines "x \<equiv> pg s (seg_total A)"
  shows "\<exists>c s' SL'. slab_alloc_exact z slot sh x s = Some (page_addr z s (seg_total A) + c * 2 ^ sh, s') \<and> geom s' = geom s
     \<and> c < chunk_count z sh \<and> c \<notin> U \<and> slab_inv z s' (A @ Chunks sh (insert c U) # B) F SL'"
proof -
  have page: "(seg_total A, Chunks sh U) \<in> layout 0 (A @ Chunks sh U # B)" by simp
  note p = chunk_page [OF inv page]
  have cnt: "chunk_count z sh = 64" using exact_count [OF p(1)] sh by simp
  have bits: "\<And>c. c < 64 \<Longrightarrow> bit (pg_slab s x) c \<longleftrightarrow> c \<in> U" using p(6) sh by (simp add: chunk_bits_def x_def)
  from not_full [OF p(5) nf] obtain d where "d < 64" "\<not> bit (pg_slab s x) (0 + d)" using bits cnt by auto
  from find_clear_some [OF this] obtain c where c: "find_clear (pg_slab s x) 0 64 = Some c" "c < 64" "\<not> bit (pg_slab s x) (0 + c)" .
  define w where "w = pg_slab s x OR 2 ^ c"
  define s1 where "s1 = pg_set_slab x w s"
  have bw: "\<And>j. j < 64 \<Longrightarrow> bit w j \<longleftrightarrow> j \<in> insert c U" using bits c(2) by (auto simp: w_def bit_set_clear)
  have m: "marks z s s1 (seg_total A) sh (insert c U)"
    unfolding s1_def x_def by (rule marks_exact) (use p(5) c(2) cnt sh bw in \<open>auto intro: chunk_set_insert\<close>)
  have sub: "insert c U \<subseteq> {..<64}" using p(5) c(2) by (auto simp: chunk_set_ok_def cnt)
  have busy: "pg_slab s1 x = MPS_SLAB_BUSY \<longleftrightarrow> full z sh (insert c U)"
    using bw sub by (auto simp: s1_def busy_iff full_def cnt)
  define s2 where "s2 = (if full z sh (insert c U) then slab_page_full x MPS_SLAB_EXACT s1 else s1)"
  have ty: "chunk_type z sh = MPS_SLAB_EXACT" by (simp add: chunk_type_def sh)
  have "\<exists>SL'. slab_inv z s2 (A @ Chunks sh (insert c U) # B) F SL'"
    using mark_fill [OF inv m nf] mark_stay [OF inv m nf] by (auto simp: s2_def ty x_def)
  then have "\<exists>SL'. slab_inv z (incr_used slot s2) (A @ Chunks sh (insert c U) # B) F SL'"
    by simp
  moreover have g: "geom s2 = geom s" by (simp add: s2_def s1_def)
  moreover have "slab_alloc_exact z slot sh x s = Some (page_addr z s (seg_total A) + c * 2 ^ sh, incr_used slot s2)"
    using c(1) busy page_addr_eq [of z s "seg_total A", folded x_def]
    by (simp add: slab_alloc_exact_def Let_def s2_def s1_def w_def)
  ultimately show ?thesis using c(2,3) bits cnt g by (auto intro!: exI [of _ c])
qed

lemma nibble:
  assumes "4 \<le> n"
  shows "(w OR 2 ^ n) AND MPS_SLAB_SHIFT_MASK = w AND MPS_SLAB_SHIFT_MASK"
    "(w AND NOT (2 ^ n)) AND MPS_SLAB_SHIFT_MASK = w AND MPS_SLAB_SHIFT_MASK"
proof -
  have m: "MPS_SLAB_SHIFT_MASK = mask 4" by (simp add: MPS_SLAB_SHIFT_MASK_def mask_eq_exp_minus_1)
  show "(w OR 2 ^ n) AND MPS_SLAB_SHIFT_MASK = w AND MPS_SLAB_SHIFT_MASK"
    "(w AND NOT (2 ^ n)) AND MPS_SLAB_SHIFT_MASK = w AND MPS_SLAB_SHIFT_MASK"
    unfolding m using assms by (auto intro!: bit_word_eqI simp: bit_and_iff bit_or_iff bit_not_iff bit_exp_iff bit_mask_iff)
qed

lemma map_mask_bits: "bit (w AND MPS_SLAB_MAP_MASK) j \<longleftrightarrow> 32 \<le> j \<and> bit w j"
proof -
  have e: "MPS_SLAB_MAP_MASK = push_bit 32 (mask 32)" by (simp add: MPS_SLAB_MAP_MASK_def mask_eq_exp_minus_1)
  have "bit MPS_SLAB_MAP_MASK j \<longleftrightarrow> 32 \<le> j \<and> j < 64" unfolding e by (auto simp: bit_push_bit_iff bit_mask_iff)
  then show ?thesis by (auto simp: bit_and_iff dest: bit_imp_le_length)
qed

lemma map_full:
  assumes "n \<le> 32"
  shows "w AND MPS_SLAB_MAP_MASK = push_bit MPS_SLAB_MAP_SHIFT (2 ^ n - 1) \<longleftrightarrow> (\<forall>c < 32. bit w (MPS_SLAB_MAP_SHIFT + c) \<longleftrightarrow> c < n)"
proof -
  have r: "bit (push_bit 32 (2 ^ n - 1) :: u64) j \<longleftrightarrow> 32 \<le> j \<and> j < 32 + n" for j
  proof -
    have "(2 ^ n - 1 :: u64) = mask n" by (simp add: mask_eq_exp_minus_1)
    then show ?thesis using assms by (auto simp: bit_push_bit_iff bit_mask_iff)
  qed
  show ?thesis
  proof
    assume e: "w AND MPS_SLAB_MAP_MASK = push_bit MPS_SLAB_MAP_SHIFT (2 ^ n - 1)"
    show "\<forall>c < 32. bit w (MPS_SLAB_MAP_SHIFT + c) \<longleftrightarrow> c < n"
    proof (intro allI impI)
      fix c :: nat assume "c < 32"
      have "bit (w AND MPS_SLAB_MAP_MASK) (32 + c) \<longleftrightarrow> bit (push_bit 32 (2 ^ n - 1) :: u64) (32 + c)"
        using e by (simp add: MPS_SLAB_MAP_SHIFT_def)
      then show "bit w (MPS_SLAB_MAP_SHIFT + c) \<longleftrightarrow> c < n" unfolding map_mask_bits r by (simp add: MPS_SLAB_MAP_SHIFT_def)
    qed
  next
    assume a: "\<forall>c < 32. bit w (MPS_SLAB_MAP_SHIFT + c) \<longleftrightarrow> c < n"
    show "w AND MPS_SLAB_MAP_MASK = push_bit MPS_SLAB_MAP_SHIFT (2 ^ n - 1)"
    proof (rule bit_word_eqI)
      fix j assume "j < LENGTH(64)"
      then show "bit (w AND MPS_SLAB_MAP_MASK) j \<longleftrightarrow> bit (push_bit MPS_SLAB_MAP_SHIFT (2 ^ n - 1) :: u64) j"
        using a [rule_format, of "j - 32"] assms unfolding map_mask_bits MPS_SLAB_MAP_SHIFT_def r
        by (cases "32 \<le> j") auto
    qed
  qed
qed

lemma alloc_big_ok:
  assumes inv: "slab_inv z s (A @ Chunks sh U # B) F SL" and nf: "\<not> full z sh U" and sh: "exact_shift z < sh"
  defines "x \<equiv> pg s (seg_total A)"
  shows "\<exists>c s' SL'. slab_alloc_big z slot sh x s = Some (page_addr z s (seg_total A) + c * 2 ^ sh, s') \<and> geom s' = geom s
     \<and> c < chunk_count z sh \<and> c \<notin> U \<and> slab_inv z s' (A @ Chunks sh (insert c U) # B) F SL'"
proof -
  have page: "(seg_total A, Chunks sh U) \<in> layout 0 (A @ Chunks sh U # B)" by simp
  note p = chunk_page [OF inv page]
  let ?n = "chunk_count z sh"
  have cnt: "?n \<le> 32" by (rule big_count [OF p(1) sh p(4)])
  have bits: "\<And>c. c < 32 \<Longrightarrow> bit (pg_slab s x) (MPS_SLAB_MAP_SHIFT + c) \<longleftrightarrow> c \<in> U"
    and low: "pg_slab s x AND MPS_SLAB_SHIFT_MASK = of_nat sh"
    using p(6) sh by (simp_all add: chunk_bits_def x_def)
  from not_full [OF p(5) nf] obtain d where "d < ?n" "\<not> bit (pg_slab s x) (MPS_SLAB_MAP_SHIFT + d)"
    using bits cnt by (metis less_le_trans)
  from find_clear_some [OF this] obtain c where c: "find_clear (pg_slab s x) MPS_SLAB_MAP_SHIFT ?n = Some c" "c < ?n"
    "\<not> bit (pg_slab s x) (MPS_SLAB_MAP_SHIFT + c)" .
  define w where "w = pg_slab s x OR 2 ^ (MPS_SLAB_MAP_SHIFT + c)"
  define s1 where "s1 = pg_set_slab x w s"
  have bw: "\<And>j. j < 32 \<Longrightarrow> bit w (MPS_SLAB_MAP_SHIFT + j) \<longleftrightarrow> j \<in> insert c U"
    using bits c(2) cnt by (auto simp: w_def bit_set_clear MPS_SLAB_MAP_SHIFT_def)
  have m: "marks z s s1 (seg_total A) sh (insert c U)"
    unfolding s1_def x_def
    by (rule marks_big) (use p(5) c(2) sh bw low nibble(1) in \<open>auto intro: chunk_set_insert simp: w_def MPS_SLAB_MAP_SHIFT_def\<close>)
  have sub: "insert c U \<subseteq> {..<?n}" using p(5) c(2) by (auto simp: chunk_set_ok_def)
  have busy: "pg_slab s1 x AND MPS_SLAB_MAP_MASK = push_bit MPS_SLAB_MAP_SHIFT (2 ^ ?n - 1) \<longleftrightarrow> full z sh (insert c U)"
    unfolding map_full [OF cnt] using bw sub cnt by (auto simp: s1_def full_def dest: less_le_trans)
  define s2 where "s2 = (if full z sh (insert c U) then slab_page_full x MPS_SLAB_BIG s1 else s1)"
  have ty: "chunk_type z sh = MPS_SLAB_BIG" using sh by (simp add: chunk_type_def)
  have "\<exists>SL'. slab_inv z s2 (A @ Chunks sh (insert c U) # B) F SL'"
    using mark_fill [OF inv m nf] mark_stay [OF inv m nf] by (auto simp: s2_def ty x_def)
  then have "\<exists>SL'. slab_inv z (incr_used slot s2) (A @ Chunks sh (insert c U) # B) F SL'"
    by simp
  moreover have g: "geom s2 = geom s" by (simp add: s2_def s1_def)
  moreover have "slab_alloc_big z slot sh x s = Some (page_addr z s (seg_total A) + c * 2 ^ sh, incr_used slot s2)"
    using c(1) busy page_addr_eq [of z s "seg_total A", folded x_def]
    by (simp add: slab_alloc_big_def Let_def s2_def s1_def w_def chunk_count_def)
  ultimately show ?thesis using c(2,3) bits cnt g by (auto intro!: exI [of _ c])
qed

lemma find_busy_some:
  assumes "n < m" "f n \<noteq> MPS_SLAB_BUSY"
  obtains k where "List.find (\<lambda>n. f n \<noteq> MPS_SLAB_BUSY) [0..<m] = Some k" "k < m" "f k \<noteq> MPS_SLAB_BUSY"
    "\<And>j. j < k \<Longrightarrow> f j = MPS_SLAB_BUSY"
proof (cases "List.find (\<lambda>n. f n \<noteq> MPS_SLAB_BUSY) [0..<m]")
  case None
  with assms show thesis by (auto simp: find_None_iff)
next
  case (Some k)
  then obtain i where "i < m" "f ([0..<m] ! i) \<noteq> MPS_SLAB_BUSY" "k = [0..<m] ! i" "\<And>j. j < i \<Longrightarrow> f ([0..<m] ! j) = MPS_SLAB_BUSY"
    unfolding find_Some_iff by auto
  with that [OF Some] show thesis by auto
qed

lemma alloc_small_ok:
  assumes inv: "slab_inv z s (A @ Chunks sh U # B) F SL" and nf: "\<not> full z sh U" and sh: "sh < exact_shift z"
  defines "x \<equiv> pg s (seg_total A)"
  shows "\<exists>c s' SL'. slab_alloc_small z slot sh x s = Some (page_addr z s (seg_total A) + c * 2 ^ sh, s') \<and> geom s' = geom s
     \<and> c < chunk_count z sh \<and> c \<notin> U \<and> slab_inv z s' (A @ Chunks sh (insert c U) # B) F SL'"
proof -
  have page: "(seg_total A, Chunks sh U) \<in> layout 0 (A @ Chunks sh U # B)" by simp
  note p = chunk_page [OF inv page]
  let ?m = "chunk_count z sh div 64" and ?a = "page_addr z s (seg_total A)"
  note cnt = small_count [OF p(1) sh]
  have bits: "\<And>c. c < chunk_count z sh \<Longrightarrow> bit (bitmap s (?a + 8 * (c div 64))) (c mod 64) \<longleftrightarrow> c \<in> U"
    and sl: "pg_slab s (pg s (seg_total A)) = of_nat sh" using p(6) sh by (simp_all add: chunk_bits_def)
  have wbits: "bit (bitmap s (?a + 8 * n)) j \<longleftrightarrow> 64 * n + j \<in> U" if "n < ?m" "j < 64" for n j
    using bits [of "64 * n + j"] that cnt(1) by simp
  from not_full [OF p(5) nf] obtain d where d: "d < chunk_count z sh" "d \<notin> U" by metis
  then have "d div 64 < ?m" "bitmap s (?a + 8 * (d div 64)) \<noteq> MPS_SLAB_BUSY"
    using bits cnt(1) by (auto simp: busy_iff) (metis mod_less_divisor zero_less_numeral)
  from find_busy_some [where f = "\<lambda>n. bitmap s (?a + 8 * n)", OF this] obtain n where n:
    "List.find (\<lambda>n. bitmap s (?a + 8 * n) \<noteq> MPS_SLAB_BUSY) [0..<?m] = Some n" "n < ?m"
    "bitmap s (?a + 8 * n) \<noteq> MPS_SLAB_BUSY" "\<And>j. j < n \<Longrightarrow> bitmap s (?a + 8 * j) = MPS_SLAB_BUSY" by metis
  then obtain e where "e < 64" "\<not> bit (bitmap s (?a + 8 * n)) (0 + e)" by (auto simp: busy_iff)
  from find_clear_some [OF this] obtain i where
    i: "find_clear (bitmap s (?a + 8 * n)) 0 64 = Some i" "i < 64" "\<not> bit (bitmap s (?a + 8 * n)) (0 + i)" .
  define c where "c = n * 64 + i"
  have c: "c < chunk_count z sh" "c div 64 = n" "c mod 64 = i" "c \<notin> U"
    using n(2) i(2,3) cnt(1) wbits [OF n(2) i(2)] by (auto simp: c_def mult.commute)
  define w where "w = bitmap s (?a + 8 * n) OR 2 ^ i"
  define s1 where "s1 = set_bitmap (?a + 8 * n) w s"
  have m: "marks z s s1 (seg_total A) sh (insert c U)"
    unfolding s1_def
  proof (rule marks_small [OF p(1) _ sh p(3) sl n(2)])
    show "chunk_set_ok z sh (insert c U)" by (rule chunk_set_insert [OF p(5) c(1)])
    show "bit (bitmap s (?a + 8 * (b div 64))) (b mod 64) \<longleftrightarrow> b \<in> insert c U" if "b < chunk_count z sh" "b div 64 \<noteq> n" for b
      using bits that c(2) by auto
    show "bit w j \<longleftrightarrow> 64 * n + j \<in> insert c U" if "j < 64" for j
      using wbits [OF n(2) that] i(2) that by (auto simp: w_def bit_set_clear c_def)
  qed
  have sub: "insert c U \<subseteq> {..<chunk_count z sh}" using p(5) c(1) by (auto simp: chunk_set_ok_def)
  have busy: "bitmap s1 (?a + 8 * n) = MPS_SLAB_BUSY \<and> list_all (\<lambda>n. bitmap s1 (?a + 8 * n) = MPS_SLAB_BUSY) [n + 1..<?m]
      \<longleftrightarrow> full z sh (insert c U)" (is "?l = ?r")
  proof -
    have all: "(\<forall>k < ?m. bitmap s1 (?a + 8 * k) = MPS_SLAB_BUSY) \<longleftrightarrow> full z sh (insert c U)"
    proof -
      have "bit (bitmap s1 (?a + 8 * k)) j \<longleftrightarrow> 64 * k + j \<in> insert c U" if "k < ?m" "j < 64" for k j
        using wbits [OF that] i(2) that by (auto simp: s1_def w_def bit_set_clear c_def)
      then have "(\<forall>k < ?m. bitmap s1 (?a + 8 * k) = MPS_SLAB_BUSY) \<longleftrightarrow> (\<forall>k < ?m. \<forall>j < 64. 64 * k + j \<in> insert c U)"
        by (auto simp: busy_iff)
      also have "\<dots> \<longleftrightarrow> (\<forall>b < chunk_count z sh. b \<in> insert c U)"
      proof (intro iffI allI impI)
        fix b assume "\<forall>k < ?m. \<forall>j < 64. 64 * k + j \<in> insert c U" "b < chunk_count z sh"
        moreover from this cnt(1) have "b div 64 < ?m" by linarith
        ultimately have "64 * (b div 64) + b mod 64 \<in> insert c U" by (metis mod_less_divisor zero_less_numeral)
        then show "b \<in> insert c U" by simp
      next
        fix k j assume "\<forall>b < chunk_count z sh. b \<in> insert c U" "k < ?m" "j < (64 :: nat)"
        moreover from this cnt(1) have "64 * k + j < chunk_count z sh" by linarith
        ultimately show "64 * k + j \<in> insert c U" by blast
      qed
      also have "\<dots> \<longleftrightarrow> full z sh (insert c U)" using sub by (auto simp: full_def)
      finally show ?thesis .
    qed
    have low: "bitmap s1 (?a + 8 * j) = MPS_SLAB_BUSY" if "j < n" for j using n(4) [OF that] that by (simp add: s1_def)
    have "?l \<longleftrightarrow> (\<forall>k < ?m. bitmap s1 (?a + 8 * k) = MPS_SLAB_BUSY)"
    proof
      assume l: ?l
      show "\<forall>k < ?m. bitmap s1 (?a + 8 * k) = MPS_SLAB_BUSY"
      proof (intro allI impI)
        fix k assume "k < ?m"
        consider "k < n" | "k = n" | "n < k" by linarith
        then show "bitmap s1 (?a + 8 * k) = MPS_SLAB_BUSY"
          by cases (use low l \<open>k < ?m\<close> in \<open>auto simp: list_all_iff\<close>)
      qed
    qed (use n(2) in \<open>auto simp: list_all_iff\<close>)
    with all show ?thesis by simp
  qed
  define s2 where "s2 = (if full z sh (insert c U) then slab_page_full x MPS_SLAB_SMALL (incr_used slot s1) else incr_used slot s1)"
  have ty: "chunk_type z sh = MPS_SLAB_SMALL" using sh by (simp add: chunk_type_def)
  have m2: "marks z s (incr_used slot s1) (seg_total A) sh (insert c U)" using m by (simp add: s1_def)
  have "\<exists>SL'. slab_inv z s2 (A @ Chunks sh (insert c U) # B) F SL'"
    using mark_fill [OF inv m2 nf] mark_stay [OF inv m2 nf] by (auto simp: s2_def ty x_def)
  moreover have g: "geom s2 = geom s" by (simp add: s2_def s1_def)
  moreover have "slab_alloc_small z slot sh x s = Some (?a + c * 2 ^ sh, s2)"
  proof -
    have bmu: "bitmap (incr_used slot s1) = bitmap s1" by (simp add: incr_used_def)
    have a: "mps_slab_page_addr z s x = ?a" by (simp add: x_def page_addr_eq)
    show ?thesis
      unfolding slab_alloc_small_def Let_def chunk_count_def [symmetric] a n(1) bind.bind_lunit i(1) push_bit_of_1
        w_def [symmetric] s1_def [symmetric] bmu busy s2_def c_def [symmetric]
      by (simp add: add.commute)
  qed
  ultimately show ?thesis using c by (auto intro!: exI [of _ c])
qed

text \<open>The three kinds together: what \<^verbatim>\<open>mps_slab_alloc_locked\<close> does with a page that has a free chunk.\<close>

theorem alloc_chunk_ok:
  assumes inv: "slab_inv z s (A @ Chunks sh U # B) F SL" and nf: "\<not> full z sh U"
  shows "\<exists>c s' SL'. slab_alloc_chunk z slot sh (pg s (seg_total A)) s = (page_addr z s (seg_total A) + c * 2 ^ sh, s')
     \<and> geom s' = geom s \<and> c < chunk_count z sh \<and> c \<notin> U \<and> slab_inv z s' (A @ Chunks sh (insert c U) # B) F SL'"
proof -
  consider "sh < exact_shift z" | "sh = exact_shift z" | "exact_shift z < sh" by linarith
  then show ?thesis
  proof cases
    case 1
    from alloc_small_ok [OF inv nf 1, of slot] 1 show ?thesis by (auto simp: slab_alloc_chunk_def)
  next
    case 2
    from alloc_exact_ok [OF inv nf 2, of slot] 2 show ?thesis by (auto simp: slab_alloc_chunk_def)
  next
    case 3
    from alloc_big_ok [OF inv nf 3, of slot] 3 show ?thesis by (auto simp: slab_alloc_chunk_def)
  qed
qed

subsection \<open>A fresh page\<close>

lemma bitmap_fold: "bitmap (fold (\<lambda>i. set_bitmap (b + 8 * i) v) is s) a = (if a \<in> (\<lambda>i. b + 8 * i) ` set is then v else bitmap s a)"
  by (induction "is" arbitrary: s) auto

lemma fold_bitmap_sel [simp]:
  "pg_slab (fold (\<lambda>i. set_bitmap (b + 8 * i) v) is s) = pg_slab s" "pg_next (fold (\<lambda>i. set_bitmap (b + 8 * i) v) is s) = pg_next s"
  "pg_prev (fold (\<lambda>i. set_bitmap (b + 8 * i) v) is s) = pg_prev s" "pfree (fold (\<lambda>i. set_bitmap (b + 8 * i) v) is s) = pfree s"
  by (induction "is" arbitrary: s) simp_all

lemma init_bitmap_sel:
  "pg_slab (slab_init_bitmap b n m s) = pg_slab s" "pg_next (slab_init_bitmap b n m s) = pg_next s"
  "pg_prev (slab_init_bitmap b n m s) = pg_prev s" "pfree (slab_init_bitmap b n m s) = pfree s"
  by (simp_all add: slab_init_bitmap_def Let_def)

text \<open>The first \<open>n + 1\<close> bits are set: the chunks of the bitmap and the one that is handed out.\<close>

lemma init_bitmap_bits:
  assumes n: "(n + 1) div 64 < m" and k: "k < m" and j: "j < 64"
  shows "bit (bitmap (slab_init_bitmap b n m s) (b + 8 * k)) j \<longleftrightarrow> 64 * k + j \<le> n"
proof -
  let ?i = "(n + 1) div 64" and ?r = "(n + 1) mod 64"
  have ni: "n + 1 = 64 * ?i + ?r" by simp
  have r: "?r < 64" by simp
  have w: "bitmap (slab_init_bitmap b n m s) (b + 8 * k)
      = (if k < ?i then MPS_SLAB_BUSY else if k = ?i then push_bit ?r 1 - 1 else 0)"
    unfolding slab_init_bitmap_def Let_def using k by (auto simp: bitmap_fold)
  have "(push_bit ?r 1 - 1 :: u64) = mask ?r" by (simp add: mask_eq_exp_minus_1)
  then have "bit (push_bit ?r 1 - 1 :: u64) j \<longleftrightarrow> j < ?r" using j by (simp only: bit_mask_iff) auto
  moreover have "bit MPS_SLAB_BUSY j" using j by (simp add: MPS_SLAB_BUSY_def)
  moreover have "k < ?i \<Longrightarrow> 64 * k + j \<le> n" "?i < k \<Longrightarrow> \<not> 64 * k + j \<le> n" "k = ?i \<Longrightarrow> 64 * k + j \<le> n \<longleftrightarrow> j < ?r"
    using j r ni by linarith+
  ultimately show ?thesis unfolding w by (cases "k < ?i"; cases "k = ?i") auto
qed

lemma init_bitmap_outside:
  assumes "\<And>k. k < m \<Longrightarrow> a \<noteq> b + 8 * k" "(n + 1) div 64 < m"
  shows "bitmap (slab_init_bitmap b n m s) a = bitmap s a"
proof -
  have "a \<notin> (\<lambda>i. b + 8 * i) ` X" if "X \<subseteq> {..<m}" for X using assms(1) that by auto
  moreover have "set [0..<(n + 1) div 64] \<subseteq> {..<m}" "set [(n + 1) div 64 + 1..<m] \<subseteq> {..<m}" using assms(2) by auto
  ultimately show ?thesis
    unfolding slab_init_bitmap_def Let_def using assms by (simp add: bitmap_fold)
qed

lemma reserved_less:
  assumes z: "sizes_ok z" and sh: "3 \<le> sh" "sh < pagesize_shift z"
  shows "reserved z sh + 1 < chunk_count z sh"
proof (cases "sh < exact_shift z")
  case True
  note c = small_count [OF z True]
  have "(2 :: nat) ^ 3 \<le> 2 ^ sh" using sh(1) by (intro power_increasing) auto
  then have "chunk_count z sh div (2 ^ sh * 8) \<le> chunk_count z sh div 64" by (intro div_le_mono2) auto
  then show ?thesis using True c by (simp add: reserved_def small_reserved_def Let_def chunk_count_def)
next
  case False
  have "(2 :: nat) ^ 1 \<le> 2 ^ (pagesize_shift z - sh)" using sh by (intro power_increasing) auto
  then show ?thesis using False sh z by (simp add: reserved_def chunk_count_eq)
qed

lemma page_new_ok:
  assumes inv: "slab_inv z s (A @ Run 1 # B) F SL" and sh: "min_shift s \<le> sh" "sh < pagesize_shift z"
    and k: "k = sh - min_shift s" and e0: "SL k = []"
  defines "x \<equiv> pg s (seg_total A)"
  shows "\<exists>s' SL'. slab_page_new z k sh x s = (page_addr z s (seg_total A) + reserved z sh * 2 ^ sh, s')
     \<and> geom s' = geom s \<and> slab_inv z s' (A @ Chunks sh {..reserved z sh} # B) F SL'"
proof -
  have geo: "geo_ok z s (seg_total (A @ Run 1 # B))" using inv by (simp add: slab_inv_def)
  then have z: "sizes_ok z" and sh3: "3 \<le> sh" using sh by (auto simp: geo_ok_def)
  note res = reserved_less [OF z sh3 sh(2)]
  let ?U = "{..reserved z sh}" and ?a = "page_addr z s (seg_total A)"
  have "reserved z sh + 1 \<in> {..<chunk_count z sh}" using res by simp
  moreover have "reserved z sh + 1 \<notin> ?U" by simp
  ultimately have "\<not> full z sh ?U" unfolding full_def by metis
  moreover have "chunk_set_ok z sh ?U" unfolding chunk_set_ok_def using res by (intro conjI subsetI) simp_all
  ultimately have U: "chunk_set_ok z sh ?U" "\<not> full z sh ?U" by blast+
  have addr: "mps_slab_page_addr z s x = ?a" by (simp add: x_def page_addr_eq)
  have fin: ?thesis if m: "marks z s s1 (seg_total A) sh ?U"
    and r: "slab_page_new z k sh x s = (?a + reserved z sh * 2 ^ sh, incr_used k (add_total k v (slab_link_first k x (chunk_type z sh) s1)))"
    for s1 v
  proof -
    obtain SL' where "slab_inv z (slab_link_first k x (chunk_type z sh) s1) (A @ Chunks sh ?U # B) F SL'"
      using cut_page [OF inv m U(2) sh k e0] unfolding x_def by blast
    then have "slab_inv z (incr_used k (add_total k v (slab_link_first k x (chunk_type z sh) s1))) (A @ Chunks sh ?U # B) F SL'"
      by simp
    with r marksD(1) [OF m] show ?thesis by auto
  qed
  consider "sh < exact_shift z" | "sh = exact_shift z" | "exact_shift z < sh" by linarith
  then show ?thesis
  proof cases
    case 1
    let ?m = "chunk_count z sh div 64" and ?n = "small_reserved z sh"
    define s1 where "s1 = pg_set_slab x (of_nat sh) (slab_init_bitmap ?a ?n ?m s)"
    note cnt = small_count [OF z 1]
    have n: "reserved z sh = ?n" "(?n + 1) div 64 < ?m" using 1 res cnt by (simp_all add: reserved_def)
    have g: "geom s1 = geom s" by (simp add: s1_def)
    have pa: "page_addr z s1 = page_addr z s" using geom_sel [OF g] by (simp add: page_addr_def fun_eq_iff)
    have "bitmap s1 (page_addr z s j + 8 * (c div 64)) = bitmap s (page_addr z s j + 8 * (c div 64))"
      if "j \<noteq> seg_total A" "c < pagesize z" for j c
    proof -
      have "page_addr z s j + 8 * (c div 64) \<noteq> ?a + 8 * l" if l: "l < ?m" for l
      proof -
        have "8 * l < pagesize z" "8 * (c div 64) < pagesize z" using l chunk_count_le [of z sh] \<open>c < pagesize z\<close> by linarith+
        then show ?thesis
          using page_addr_inj [OF sizes_okD(1) [OF z], of "8 * (c div 64)" "8 * l" s j "seg_total A"] \<open>j \<noteq> seg_total A\<close> by blast
      qed
      then show ?thesis using n(2) by (simp add: s1_def init_bitmap_outside)
    qed
    moreover have "bit (bitmap s1 (?a + 8 * (c div 64))) (c mod 64) \<longleftrightarrow> c \<in> ?U" if "c < chunk_count z sh" for c
    proof -
      have "c div 64 < ?m" using that cnt(1) by linarith
      from init_bitmap_bits [OF n(2) this, of "c mod 64" ?a s] show ?thesis by (simp add: s1_def n(1))
    qed
    ultimately have "marks z s s1 (seg_total A) sh ?U"
      using 1 U(1) g geom_sel(4) [OF g] by (auto simp: marks_def chunk_bits_def pa) (auto simp: s1_def init_bitmap_sel x_def)
    moreover have "slab_page_new z k sh x s = (?a + reserved z sh * 2 ^ sh,
        incr_used k (add_total k (of_nat (pagesize z div 2 ^ sh) - of_nat ?n) (slab_link_first k x (chunk_type z sh) s1)))"
      using 1 by (simp add: slab_page_new_def Let_def addr s1_def chunk_count_def n(1) chunk_type_def)
    ultimately show ?thesis by (rule fin)
  next
    case 2
    have "marks z s (pg_set_slab x 1 s) (seg_total A) sh ?U"
      unfolding x_def by (rule marks_exact [OF U(1) 2]) (auto simp: 2 reserved_def bit_1_iff)
    moreover have "slab_page_new z k sh x s = (?a + reserved z sh * 2 ^ sh,
        incr_used k (add_total k 64 (slab_link_first k x (chunk_type z sh) (pg_set_slab x 1 s))))"
      using 2 by (simp add: slab_page_new_def Let_def addr chunk_type_def reserved_def)
    ultimately show ?thesis by (rule fin)
  next
    case 3
    let ?w = "push_bit MPS_SLAB_MAP_SHIFT 1 OR of_nat sh :: u64"
    have s16: "sh < 16" using sh(2) sizes_okD(3) [OF z] by simp
    then have "sh < 2 ^ 4" by simp
    then have bs: "bit (of_nat sh :: u64) j \<Longrightarrow> j < 4" for j
      by (metis bit_take_bit_iff of_nat_take_bit take_bit_nat_eq_self bit_of_nat_iff take_bit_nat_eq_self_iff)
    have "marks z s (pg_set_slab x ?w s) (seg_total A) sh ?U"
      unfolding x_def
    proof (rule marks_big [OF U(1) 3])
      have m: "MPS_SLAB_SHIFT_MASK = mask 4" by (simp add: MPS_SLAB_SHIFT_MASK_def mask_eq_exp_minus_1)
      show "?w AND MPS_SLAB_SHIFT_MASK = of_nat sh"
      proof (rule bit_word_eqI)
        fix j assume "j < LENGTH(64)"
        then show "bit (?w AND MPS_SLAB_SHIFT_MASK) j \<longleftrightarrow> bit (of_nat sh :: u64) j"
          unfolding m bit_and_iff bit_or_iff bit_push_bit_iff bit_mask_iff MPS_SLAB_MAP_SHIFT_def using bs by auto
      qed
      show "bit ?w (MPS_SLAB_MAP_SHIFT + c) \<longleftrightarrow> c \<in> ?U" if "c < 32" for c
        using that bs [of "32 + c"] 3
        unfolding bit_or_iff bit_push_bit_iff MPS_SLAB_MAP_SHIFT_def by (auto simp: bit_1_iff reserved_def)
    qed
    moreover have "slab_page_new z k sh x s = (?a + reserved z sh * 2 ^ sh,
        incr_used k (add_total k (of_nat (pagesize z div 2 ^ sh)) (slab_link_first k x (chunk_type z sh) (pg_set_slab x ?w s))))"
      using 3 by (simp add: slab_page_new_def Let_def addr chunk_type_def reserved_def)
    ultimately show ?thesis by (rule fin)
  qed
qed

end
