(* ===== verification/SlabFree.thy ===== *)
theory SlabFree
  imports SlabChunks
begin

text \<open>
  Releasing a chunk: its bit is cleared, a page that was full returns to its slot's list, and a page
  without a used chunk is given back. A chunk whose bit is not set is refused.
\<close>

subsection \<open>Addresses\<close>

lemma chunk_address:
  assumes inv: "slab_inv z s G F SL" and g: "(i, Chunks sh U) \<in> layout 0 G" and c: "c < chunk_count z sh"
  defines "p \<equiv> page_addr z s i + c * 2 ^ sh"
  shows "p mod 2 ^ sh = 0" "p mod pagesize z = c * 2 ^ sh" "p mod pagesize z div 2 ^ sh = c" "p - p mod pagesize z = page_addr z s i"
proof -
  note q = chunk_page [OF inv g]
  have d: "pagesize z dvd pool_start s" using inv by (simp add: slab_inv_def geo_ok_def)
  have pg: "pagesize z = 2 ^ pagesize_shift z" by (rule sizes_okD(1) [OF q(1)])
  have a: "pagesize z dvd page_addr z s i" using d by (simp add: page_addr_def pg)
  have "(2 :: nat) ^ sh dvd pagesize z" unfolding pg using q(4) by (intro le_imp_power_dvd) simp
  then have "2 ^ sh dvd page_addr z s i" using a by (rule dvd_trans)
  then show "p mod 2 ^ sh = 0" by (simp add: p_def flip: dvd_eq_mod_eq_0)
  have "0 < (2 :: nat) ^ sh" by simp
  then have lt: "c * 2 ^ sh < pagesize z" using chunk_fits [OF q(1) c] by linarith
  from a obtain r where "page_addr z s i = pagesize z * r" by (elim dvdE)
  with lt show m: "p mod pagesize z = c * 2 ^ sh" by (simp add: p_def)
  show "p mod pagesize z div 2 ^ sh = c" "p - p mod pagesize z = page_addr z s i" unfolding m by (simp_all add: p_def)
qed

text \<open>Clearing the bit, after a full page has been linked again.\<close>

definition relinked :: "slab_sizes \<Rightarrow> nat \<Rightarrow> off \<Rightarrow> slab_pool \<Rightarrow> slab_pool" where
  "relinked z sh x s = (if pg_next s x = 0 then slab_relink (sh - min_shift s) x (chunk_type z sh) s else s)"

lemma relinked_sel:
  assumes inv: "slab_inv z s (A @ Chunks sh U # B) F SL"
  defines "s1 \<equiv> relinked z sh (pg s (seg_total A)) s"
  shows "geom s1 = geom s" "pg_slab s1 = pg_slab s" "bitmap s1 = bitmap s"
proof -
  have page: "(seg_total A, Chunks sh U) \<in> layout 0 (A @ Chunks sh U # B)" by simp
  define k x where "k = sh - min_shift s" and "x = pg s (seg_total A)"
  note k = slot_of [OF inv page, folded k_def]
  show g: "geom s1 = geom s" by (simp add: s1_def relinked_def)
  have "pg_slab s1 = pg_slab s \<and> bitmap s1 = bitmap s"
  proof (cases "full z sh U")
    case True
    have "x \<notin> set (SL k)" using unlinked_page(2) [OF inv page, of "seg_total A" k] True k(1) by (simp add: x_def)
    from push_slot(2,3) [OF inv k x_def this] show ?thesis by (simp add: s1_def relinked_def k_def x_def)
  next
    case False
    then show ?thesis using chunk_head_type(2) [OF inv page] by (simp add: s1_def relinked_def)
  qed
  then show "pg_slab s1 = pg_slab s" "bitmap s1 = bitmap s" by simp_all
qed

lemma clear_ok:
  assumes inv: "slab_inv z s (A @ Chunks sh U # B) F SL" and c: "c \<in> U"
    and m: "marks z (relinked z sh (pg s (seg_total A)) s) s2 (seg_total A) sh (U - {c})"
  shows "\<exists>SL'. slab_inv z s2 (A @ Chunks sh (U - {c}) # B) F SL'"
proof -
  have page: "(seg_total A, Chunks sh U) \<in> layout 0 (A @ Chunks sh U # B)" by simp
  note p = chunk_page [OF inv page]
  have nf: "\<not> full z sh (U - {c})" using p(5) c by (auto simp: full_def chunk_set_ok_def)
  show ?thesis
  proof (cases "full z sh U")
    case True
    then have "pg_next s (pg s (seg_total A)) = 0" using chunk_head_type(2) [OF inv page] by simp
    then show ?thesis using mark_relink [OF inv True nf] m by (simp add: relinked_def)
  next
    case False
    then have "pg_next s (pg s (seg_total A)) \<noteq> 0" using chunk_head_type(2) [OF inv page] by simp
    then show ?thesis using mark_stay [OF inv _ False nf] m by (auto simp: relinked_def)
  qed
qed

text \<open>The segments after the release of chunk \<open>c\<close>.\<close>

definition released :: "slab_sizes \<Rightarrow> seg list \<Rightarrow> nat \<Rightarrow> nat set \<Rightarrow> seg list \<Rightarrow> seg list" where
  "released z A sh U B = (if U \<subseteq> {..<reserved z sh} then freed A 1 B else A @ Chunks sh U # B)"

lemma release_ok:
  assumes inv: "slab_inv z s (A @ Chunks sh U # B) F SL" and c: "c \<in> U" and nl: "no_loose A" "no_loose B"
    and m: "marks z (relinked z sh (pg s (seg_total A)) s) s2 (seg_total A) sh (U - {c})"
    and s3: "s3 = (if U - {c} \<subseteq> {..<reserved z sh} then mps_slab_free_pages (pg s (seg_total A)) 1 s2 else s2)"
  shows "\<exists>F' SL'. slab_inv z s3 (released z A sh (U - {c}) B) F' SL'"
proof -
  from clear_ok [OF inv c m] obtain SL' where 1: "slab_inv z s2 (A @ Chunks sh (U - {c}) # B) F SL'" by blast
  have page: "(seg_total A, Chunks sh U) \<in> layout 0 (A @ Chunks sh U # B)" by simp
  have nf: "\<not> full z sh (U - {c})" using chunk_page(5) [OF inv page] c by (auto simp: full_def chunk_set_ok_def)
  have "geom s2 = geom s" using marksD(1) [OF m] relinked_sel(1) [OF inv] by simp
  then have "pool_pages s2 = pool_pages s" by (rule geom_sel)
  with free_pages_chunks [OF 1 nf nl] 1 show ?thesis by (auto simp: released_def s3)
qed

subsection \<open>The three kinds\<close>

lemma free_exact_ok:
  assumes inv: "slab_inv z s (A @ Chunks sh U # B) F SL" and nl: "no_loose A" "no_loose B"
    and sh: "sh = exact_shift z" and c: "c < chunk_count z sh"
  defines "x \<equiv> pg s (seg_total A)" and "p \<equiv> page_addr z s (seg_total A) + c * 2 ^ sh"
  shows "c \<in> U \<Longrightarrow> \<exists>s' F' SL'. slab_free_exact z x p s = (None, s') \<and> slab_inv z s' (released z A sh (U - {c}) B) F' SL'"
    "c \<notin> U \<Longrightarrow> slab_free_exact z x p s = (Some Chunk_already_free, s)"
proof -
  have page: "(seg_total A, Chunks sh U) \<in> layout 0 (A @ Chunks sh U # B)" by simp
  note q = chunk_page [OF inv page]
  note a = chunk_address [OF inv page c, folded p_def]
  have cnt: "chunk_count z sh = 64" using exact_count [OF q(1)] sh by simp
  have sz: "exact_size z = 2 ^ sh" using sizes_okD(5) [OF q(1)] sh by simp
  have bits: "\<And>c. c < 64 \<Longrightarrow> bit (pg_slab s x) c \<longleftrightarrow> c \<in> U" using q(6) sh by (simp add: chunk_bits_def x_def)
  have test: "pg_slab s x AND push_bit c 1 \<noteq> 0 \<longleftrightarrow> c \<in> U" using bits c cnt by (simp only: and_bit_zero) simp
  show "slab_free_exact z x p s = (Some Chunk_already_free, s)" if "c \<notin> U"
    using that test a(1,3) by (simp add: slab_free_exact_def Let_def sz sh)
  assume cU: "c \<in> U"
  define s1 where "s1 = relinked z sh x s"
  note r = relinked_sel [OF inv, folded x_def, folded s1_def]
  define w where "w = pg_slab s x AND NOT (2 ^ c)"
  define s2 where "s2 = pg_set_slab x w s1"
  have res: "reserved z sh = 0" using sh by (simp add: reserved_def)
  have px: "pg s1 (seg_total A) = x" using geom_sel(4) [OF r(1)] by (simp add: x_def)
  have bw: "\<And>j. j < 64 \<Longrightarrow> bit w j \<longleftrightarrow> j \<in> U - {c}" using bits by (auto simp: w_def bit_set_clear)
  have m: "marks z s1 s2 (seg_total A) sh (U - {c})"
    unfolding s2_def px [symmetric]
    by (rule marks_exact) (use q(5) sh bw res in \<open>auto intro!: chunk_set_remove\<close>)
  have busy: "pg_slab s x = MPS_SLAB_BUSY \<longleftrightarrow> pg_next s x = 0"
    using chunk_head_type(2) [OF inv page] q(5) bits by (auto simp: busy_iff full_def chunk_set_ok_def cnt x_def)
  have "w = 0 \<longleftrightarrow> (\<forall>j < 64. \<not> bit w j)" by (auto simp: bit_eq_iff)
  then have zero: "w \<noteq> 0 \<longleftrightarrow> \<not> U - {c} \<subseteq> {..<reserved z sh}"
    using bw q(5) by (auto simp: res chunk_set_ok_def cnt)
  define s3 where "s3 = (if U - {c} \<subseteq> {..<reserved z sh} then mps_slab_free_pages x 1 s2 else s2)"
  from release_ok [OF inv cU nl, of s2 s3] m s3_def obtain F' SL' where "slab_inv z s3 (released z A sh (U - {c}) B) F' SL'"
    unfolding x_def [symmetric] s1_def by blast
  then have "slab_inv z (decr_used k (if b then add_total k v s3 else s3)) (released z A sh (U - {c}) B) F' SL'" for k b v
    by simp
  moreover have "\<exists>v. slab_free_exact z x p s = (None, decr_used (sh - min_shift s)
      (if U - {c} \<subseteq> {..<reserved z sh} then add_total (sh - min_shift s) v s3 else s3))"
  proof -
    have "min_shift s1 = min_shift s" using geom_sel [OF r(1)] by simp
    have e: "(if pg_slab s x = MPS_SLAB_BUSY then slab_relink (exact_shift z - min_shift s) x MPS_SLAB_EXACT s else s) = s1"
      using busy by (simp add: s1_def relinked_def sh chunk_type_def)
    show ?thesis
      unfolding slab_free_exact_def Let_def e sz using test cU a(1,3) zero
      by (intro exI [of _ "- 64"]) (simp add: r(2) s3_def s2_def w_def sh)
  qed
  ultimately show "\<exists>s' F' SL'. slab_free_exact z x p s = (None, s') \<and> slab_inv z s' (released z A sh (U - {c}) B) F' SL'" by metis
qed

lemma nonzero_iff: "(w :: u64) \<noteq> 0 \<longleftrightarrow> (\<exists>j < 64. bit w j)"
  by (auto simp: bit_eq_iff)

lemma shift_of:
  assumes "sizes_ok z" "sh < pagesize_shift z"
  shows "unat (of_nat sh AND MPS_SLAB_SHIFT_MASK) = sh" "unat (of_nat sh :: u64) = sh"
proof -
  have s16: "sh < 16" using assms sizes_okD(3) [OF assms(1)] by simp
  then show "unat (of_nat sh :: u64) = sh" by (simp add: unat_of_nat)
  have "MPS_SLAB_SHIFT_MASK = mask 4" by (simp add: MPS_SLAB_SHIFT_MASK_def mask_eq_exp_minus_1)
  then have "of_nat sh AND MPS_SLAB_SHIFT_MASK = take_bit 4 (of_nat sh :: u64)" by (simp only: take_bit_eq_mask)
  then show "unat (of_nat sh AND MPS_SLAB_SHIFT_MASK) = sh"
    using s16 by (simp add: unat_of_nat take_bit_eq_mod unat_mod)
qed

lemma free_big_ok:
  assumes inv: "slab_inv z s (A @ Chunks sh U # B) F SL" and nl: "no_loose A" "no_loose B"
    and sh: "exact_shift z < sh" and c: "c < chunk_count z sh"
  defines "x \<equiv> pg s (seg_total A)" and "p \<equiv> page_addr z s (seg_total A) + c * 2 ^ sh"
  shows "c \<in> U \<Longrightarrow> \<exists>s' F' SL'. slab_free_big z x p s = (None, s') \<and> slab_inv z s' (released z A sh (U - {c}) B) F' SL'"
    "c \<notin> U \<Longrightarrow> slab_free_big z x p s = (Some Chunk_already_free, s)"
proof -
  have page: "(seg_total A, Chunks sh U) \<in> layout 0 (A @ Chunks sh U # B)" by simp
  note q = chunk_page [OF inv page]
  note a = chunk_address [OF inv page c, folded p_def]
  have cnt: "chunk_count z sh \<le> 32" by (rule big_count [OF q(1) sh q(4)])
  have bits: "\<And>c. c < 32 \<Longrightarrow> bit (pg_slab s x) (c + MPS_SLAB_MAP_SHIFT) \<longleftrightarrow> c \<in> U"
    and low: "pg_slab s x AND MPS_SLAB_SHIFT_MASK = of_nat sh"
    using q(6) sh by (simp_all add: chunk_bits_def x_def add.commute)
  have shift: "unat (pg_slab s x AND MPS_SLAB_SHIFT_MASK) = sh" unfolding low by (rule shift_of(2) [OF q(1,4)])
  have test: "pg_slab s x AND push_bit (c + MPS_SLAB_MAP_SHIFT) 1 \<noteq> 0 \<longleftrightarrow> c \<in> U"
    using bits c cnt by (simp only: and_bit_zero) simp
  show "slab_free_big z x p s = (Some Chunk_already_free, s)" if "c \<notin> U"
    using that test a(1,3) by (simp add: slab_free_big_def Let_def shift)
  assume cU: "c \<in> U"
  define s1 where "s1 = relinked z sh x s"
  note r = relinked_sel [OF inv, folded x_def, folded s1_def]
  define w where "w = pg_slab s x AND NOT (2 ^ (c + MPS_SLAB_MAP_SHIFT))"
  define s2 where "s2 = pg_set_slab x w s1"
  have res: "reserved z sh = 0" using sh by (simp add: reserved_def)
  have px: "pg s1 (seg_total A) = x" using geom_sel(4) [OF r(1)] by (simp add: x_def)
  have bw: "\<And>j. j < 32 \<Longrightarrow> bit w (MPS_SLAB_MAP_SHIFT + j) \<longleftrightarrow> j \<in> U - {c}"
    using bits by (auto simp: w_def bit_set_clear add.commute)
  have m: "marks z s1 s2 (seg_total A) sh (U - {c})"
    unfolding s2_def px [symmetric]
  proof (rule marks_big [OF _ sh])
    show "w AND MPS_SLAB_SHIFT_MASK = of_nat sh" unfolding w_def using low nibble(2) by (simp add: MPS_SLAB_MAP_SHIFT_def)
  qed (use q(5) bw res in \<open>auto intro!: chunk_set_remove\<close>)
  have linked: "full z sh U \<longleftrightarrow> pg_next s x = 0" using chunk_head_type(2) [OF inv page] by (simp add: x_def)
  have "w AND MPS_SLAB_MAP_MASK \<noteq> 0 \<longleftrightarrow> (\<exists>j < 32. bit w (MPS_SLAB_MAP_SHIFT + j))"
  proof
    assume "w AND MPS_SLAB_MAP_MASK \<noteq> 0"
    then obtain j where "32 \<le> j" "j < 64" "bit w j" unfolding nonzero_iff map_mask_bits by blast
    then show "\<exists>j < 32. bit w (MPS_SLAB_MAP_SHIFT + j)" by (intro exI [of _ "j - 32"]) (simp add: MPS_SLAB_MAP_SHIFT_def)
  next
    assume "\<exists>j < 32. bit w (MPS_SLAB_MAP_SHIFT + j)"
    then obtain j where "j < 32" "bit w (32 + j)" by (auto simp: MPS_SLAB_MAP_SHIFT_def)
    then show "w AND MPS_SLAB_MAP_MASK \<noteq> 0" unfolding nonzero_iff map_mask_bits by (intro exI [of _ "32 + j"]) simp
  qed
  also have "\<dots> \<longleftrightarrow> \<not> U - {c} \<subseteq> {..<reserved z sh}"
    using bw q(5) cnt by (auto simp: res chunk_set_ok_def)
  finally have zero: "w AND MPS_SLAB_MAP_MASK \<noteq> 0 \<longleftrightarrow> \<not> U - {c} \<subseteq> {..<reserved z sh}" .
  define s3 where "s3 = (if U - {c} \<subseteq> {..<reserved z sh} then mps_slab_free_pages x 1 s2 else s2)"
  from release_ok [OF inv cU nl, of s2 s3] m s3_def obtain F' SL' where "slab_inv z s3 (released z A sh (U - {c}) B) F' SL'"
    unfolding x_def [symmetric] s1_def by blast
  then have "slab_inv z (decr_used k (if b then add_total k v s3 else s3)) (released z A sh (U - {c}) B) F' SL'" for k b v
    by simp
  moreover have "\<exists>v. slab_free_big z x p s = (None, decr_used (sh - min_shift s)
      (if U - {c} \<subseteq> {..<reserved z sh} then add_total (sh - min_shift s) v s3 else s3))"
  proof -
    have e: "(if pg_next s x = 0 then slab_relink (sh - min_shift s) x MPS_SLAB_BIG s else s) = s1"
      using sh by (simp add: s1_def relinked_def chunk_type_def)
    show ?thesis
      unfolding slab_free_big_def Let_def shift e using test cU a(1,3) zero
      by (intro exI [of _ "- of_nat (pagesize z div 2 ^ sh)"]) (simp add: r(2) s3_def s2_def w_def)
  qed
  ultimately show "\<exists>s' F' SL'. slab_free_big z x p s = (None, s') \<and> slab_inv z s' (released z A sh (U - {c}) B) F' SL'" by metis
qed

text \<open>The test whether a small page has a used chunk, besides those of its bitmap.\<close>

lemma small_idle:
  assumes bits: "\<And>k j. k < m \<Longrightarrow> j < 64 \<Longrightarrow> bit (f k :: u64) j \<longleftrightarrow> 64 * k + j \<in> U"
    and U: "U \<subseteq> {..<64 * m}" and n: "n < 64 * m"
  shows "f (n div 64) AND NOT (push_bit (n mod 64) 1 - 1) \<noteq> 0 \<or> list_ex (\<lambda>i. f i \<noteq> 0) [n div 64 + 1..<m] \<longleftrightarrow> \<not> U \<subseteq> {..<n}"
    (is "?L \<longleftrightarrow> ?R")
proof -
  let ?i = "n div 64" and ?r = "n mod 64"
  have i: "?i < m" "n = 64 * ?i + ?r" "?r < 64" using n by simp_all
  have "(push_bit ?r 1 - 1 :: u64) = mask ?r" by (simp add: mask_eq_exp_minus_1)
  then have first: "f ?i AND NOT (push_bit ?r 1 - 1) \<noteq> 0 \<longleftrightarrow> (\<exists>j < 64. ?r \<le> j \<and> 64 * ?i + j \<in> U)"
    unfolding nonzero_iff using bits [OF i(1)] by (auto simp: bit_and_iff bit_not_iff bit_mask_iff)
  have rest: "list_ex (\<lambda>i. f i \<noteq> 0) [?i + 1..<m] \<longleftrightarrow> (\<exists>k j. ?i < k \<and> k < m \<and> j < 64 \<and> 64 * k + j \<in> U)"
  proof -
    have "set [?i + 1..<m] = {k. ?i < k \<and> k < m}" by auto
    then show ?thesis unfolding list_ex_iff nonzero_iff using bits by auto
  qed
  show ?thesis
  proof
    assume ?L
    then obtain k j where kj: "64 * k + j \<in> U" "j < 64" "?i < k \<or> (k = ?i \<and> ?r \<le> j)" unfolding first rest by blast
    then have "n \<le> 64 * k + j" using i by linarith
    with kj(1) show ?R by fastforce
  next
    assume ?R
    then obtain b where b: "b \<in> U" "n \<le> b" by (auto simp: subset_iff not_less)
    have "b < 64 * m" using U b(1) by auto
    then have kj: "64 * (b div 64) + b mod 64 \<in> U" "b mod 64 < 64" "b div 64 < m" using b(1) by simp_all
    have "b = 64 * (b div 64) + b mod 64" by simp
    then have "?i < b div 64 \<or> (b div 64 = ?i \<and> ?r \<le> b mod 64)"
      using div_le_mono [OF b(2), of 64] b(2) i(2) by (cases "?i = b div 64") (linarith, simp)
    then show ?L unfolding first rest using kj by metis
  qed
qed

lemma free_small_ok:
  assumes inv: "slab_inv z s (A @ Chunks sh U # B) F SL" and nl: "no_loose A" "no_loose B"
    and sh: "sh < exact_shift z" and c: "c < chunk_count z sh"
  defines "x \<equiv> pg s (seg_total A)" and "p \<equiv> page_addr z s (seg_total A) + c * 2 ^ sh"
  shows "c \<in> U \<Longrightarrow> reserved z sh \<le> c \<Longrightarrow>
      \<exists>s' F' SL'. slab_free_small z x p s = (None, s') \<and> slab_inv z s' (released z A sh (U - {c}) B) F' SL'"
    "c \<notin> U \<Longrightarrow> slab_free_small z x p s = (Some Chunk_already_free, s)"
proof -
  have page: "(seg_total A, Chunks sh U) \<in> layout 0 (A @ Chunks sh U # B)" by simp
  note q = chunk_page [OF inv page]
  note a = chunk_address [OF inv page c, folded p_def]
  let ?m = "chunk_count z sh div 64" and ?a = "page_addr z s (seg_total A)"
  note cnt = small_count [OF q(1) sh]
  have bits: "\<And>c. c < chunk_count z sh \<Longrightarrow> bit (bitmap s (?a + 8 * (c div 64))) (c mod 64) \<longleftrightarrow> c \<in> U"
    and sl: "pg_slab s x = of_nat sh" using q(6) sh by (simp_all add: chunk_bits_def x_def)
  have shift: "unat (pg_slab s x AND MPS_SLAB_SHIFT_MASK) = sh" unfolding sl by (rule shift_of(1) [OF q(1,4)])
  have test: "bitmap s (?a + 8 * (c div 64)) AND push_bit (c mod 64) 1 \<noteq> 0 \<longleftrightarrow> c \<in> U"
    using bits [OF c] by (simp only: and_bit_zero) simp
  show "slab_free_small z x p s = (Some Chunk_already_free, s)" if "c \<notin> U"
    unfolding slab_free_small_def Let_def shift a(3,4) using that test a(1) by simp
  assume cU: "c \<in> U" and cr: "reserved z sh \<le> c"
  define s1 where "s1 = relinked z sh x s"
  note r = relinked_sel [OF inv, folded x_def, folded s1_def]
  define w where "w = bitmap s (?a + 8 * (c div 64)) AND NOT (2 ^ (c mod 64))"
  define s2 where "s2 = set_bitmap (?a + 8 * (c div 64)) w s1"
  have px: "pg s1 (seg_total A) = x" "page_addr z s1 = page_addr z s"
    using geom_sel [OF r(1)] by (simp_all add: x_def page_addr_def fun_eq_iff)
  have U': "chunk_set_ok z sh (U - {c})" by (rule chunk_set_remove [OF q(5) cr])
  have cm: "c div 64 < ?m" using c cnt(1) by linarith
  have wbits: "bit (bitmap s (?a + 8 * n)) j \<longleftrightarrow> 64 * n + j \<in> U" if "n < ?m" "j < 64" for n j
    using bits [of "64 * n + j"] that cnt(1) by simp
  have wb: "bit w j \<longleftrightarrow> 64 * (c div 64) + j \<in> U - {c}" if "j < 64" for j
  proof -
    have "j = c mod 64 \<longleftrightarrow> 64 * (c div 64) + j = c" by (metis add_left_cancel mult_div_mod_eq)
    then show ?thesis using wbits [OF cm that] by (auto simp: w_def bit_set_clear)
  qed
  have m: "marks z s1 s2 (seg_total A) sh (U - {c})"
    unfolding s2_def px(2) [symmetric]
  proof (rule marks_small [OF q(1) U' sh q(3) _ cm])
    show "pg_slab s1 (pg s1 (seg_total A)) = of_nat sh" using sl px r(2) by simp
    show "bit (bitmap s1 (page_addr z s1 (seg_total A) + 8 * (b div 64))) (b mod 64) \<longleftrightarrow> b \<in> U - {c}"
      if "b < chunk_count z sh" "b div 64 \<noteq> c div 64" for b using bits that px r(3) by auto
  qed (rule wb)
  have b2: "bit (bitmap s2 (?a + 8 * k)) j \<longleftrightarrow> 64 * k + j \<in> U - {c}" if "k < ?m" "j < 64" for k j
    using wbits [OF that] wb [OF that(2)] r(3) that by (auto simp: s2_def)
  have n: "small_reserved z sh = reserved z sh" using sh by (simp add: reserved_def)
  have zero: "bitmap s2 (?a + 8 * (reserved z sh div 64)) AND NOT (push_bit (reserved z sh mod 64) 1 - 1) \<noteq> 0
      \<or> list_ex (\<lambda>i. bitmap s2 (?a + 8 * i) \<noteq> 0) [reserved z sh div 64 + 1..<?m] \<longleftrightarrow> \<not> U - {c} \<subseteq> {..<reserved z sh}"
    using small_idle [of ?m "\<lambda>k. bitmap s2 (?a + 8 * k)" "U - {c}" "reserved z sh", OF b2] U' reserved_less [OF q(1,3,4)] cnt(1)
    by (simp add: chunk_set_ok_def)
  define s3 where "s3 = (if U - {c} \<subseteq> {..<reserved z sh} then mps_slab_free_pages x 1 s2 else s2)"
  from release_ok [OF inv cU nl, of s2 s3] m s3_def obtain F' SL' where "slab_inv z s3 (released z A sh (U - {c}) B) F' SL'"
    unfolding x_def [symmetric] s1_def by blast
  then have "slab_inv z (decr_used k (if b then s3 else add_total k v s3)) (released z A sh (U - {c}) B) F' SL'" for k b v
    by simp
  moreover have "\<exists>v. slab_free_small z x p s = (None, decr_used (sh - min_shift s)
      (if \<not> U - {c} \<subseteq> {..<reserved z sh} then s3 else add_total (sh - min_shift s) v s3))"
  proof -
    have e: "(if pg_next s x = 0 then slab_relink (sh - min_shift s) x MPS_SLAB_SMALL s else s) = s1"
      using sh by (simp add: s1_def relinked_def chunk_type_def)
    have e2: "set_bitmap (?a + 8 * (c div 64)) (bitmap s1 (?a + 8 * (c div 64)) AND NOT (push_bit (c mod 64) 1)) s1 = s2"
      by (simp add: s2_def w_def r(3))
    show ?thesis
      unfolding slab_free_small_def Let_def shift e a(3,4) e2 n chunk_count_def [symmetric] zero using test cU a(1)
      by (intro exI [of _ "- (of_nat (chunk_count z sh) - of_nat (reserved z sh))"]) (simp add: s3_def)
  qed
  ultimately show "\<exists>s' F' SL'. slab_free_small z x p s = (None, s') \<and> slab_inv z s' (released z A sh (U - {c}) B) F' SL'" by metis
qed

end
