(* ===== verification/SlabAlloc.thy ===== *)
theory SlabAlloc
  imports SlabFree
begin

text \<open>
  What \<^verbatim>\<open>mps_slab_alloc_locked\<close> and \<^verbatim>\<open>mps_slab_free_locked\<close> promise. \<open>slab_holds z s L\<close> says that \<open>s\<close>
  is a well-formed pool in which \<open>L\<close> is the set of the blocks handed out, as offset and size. The locale
  \<open>block_allocator\<close> is the contract the dictionary relies on.
\<close>

subsection \<open>Blocks\<close>

definition blocks_at :: "slab_sizes \<Rightarrow> slab_pool \<Rightarrow> nat \<Rightarrow> seg list \<Rightarrow> (off \<times> nat) set" where
  "blocks_at z s i G = (\<Union>(j, g) \<in> layout i G. seg_blocks z s j g)"

lemma blocks_at_simps [simp]:
  "blocks_at z s i [] = {}" "blocks_at z s i (g # G) = seg_blocks z s i g \<union> blocks_at z s (i + seg_len g) G"
  "blocks_at z s i (A @ B) = blocks_at z s i A \<union> blocks_at z s (i + seg_total A) B"
  by (auto simp: blocks_at_def)

lemma blocks_blocks_at: "blocks z s G = blocks_at z s 0 G"
  by (simp add: blocks_def blocks_at_def)

lemma seg_blocks_geom: "geom s' = geom s \<Longrightarrow> seg_blocks z s' = seg_blocks z s"
proof -
  assume "geom s' = geom s"
  then have "page_addr z s' = page_addr z s" by (simp add: page_addr_def geom_def fun_eq_iff)
  then have "seg_blocks z s' i g = seg_blocks z s i g" for i g by (cases g) simp_all
  then show ?thesis by (simp add: fun_eq_iff)
qed

lemma blocks_geom: "geom s' = geom s \<Longrightarrow> blocks z s' G = blocks z s G"
  unfolding blocks_def by (simp only: seg_blocks_geom [of s' s z])

text \<open>A block is inside the pages of its segment.\<close>

lemma seg_blocks_range:
  assumes z: "sizes_ok z" and ok: "seg_ok z s N i g" and b: "(p, m) \<in> seg_blocks z s i g"
  shows "page_addr z s i \<le> p" "p + m \<le> page_addr z s (i + seg_len g)" "0 < m"
proof -
  have pg: "pagesize z = 2 ^ pagesize_shift z" by (rule sizes_okD(1) [OF z])
  then have s: "page_addr z s (i + n) = page_addr z s i + n * pagesize z" for n by (simp add: page_addr_def algebra_simps)
  have "page_addr z s i \<le> p \<and> p + m \<le> page_addr z s (i + seg_len g) \<and> 0 < m"
  proof (cases g)
    case (Run n)
    then show ?thesis using b ok pg by (simp add: s)
  next
    case (Chunks sh U)
    with b obtain c where c: "p = page_addr z s i + c * 2 ^ sh" "m = 2 ^ sh" "c \<in> U" by auto
    with ok Chunks have "c < chunk_count z sh" by (auto simp: chunk_set_ok_def)
    from chunk_fits [OF z this] c show ?thesis using Chunks s [of 1] by simp
  qed (use b in auto)
  then show "page_addr z s i \<le> p" "p + m \<le> page_addr z s (i + seg_len g)" "0 < m" by simp_all
qed

lemma page_addr_mono: "i \<le> j \<Longrightarrow> page_addr z s i \<le> page_addr z s j"
  by (simp add: page_addr_def)

text \<open>Blocks are inside the pool, and two blocks do not overlap.\<close>

lemma block_range:
  assumes inv: "slab_inv z s G F SL" and b: "(p, m) \<in> blocks z s G"
  shows "0 < p" "pool_start s \<le> p" "p + m \<le> pool_start s + seg_total G * pagesize z" "p + m \<le> pool_end s" "0 < m"
proof -
  from b obtain i g where g: "(i, g) \<in> layout 0 G" "(p, m) \<in> seg_blocks z s i g" by (auto simp: blocks_def)
  have ok: "seg_ok z s (seg_total G) i g" and geo: "geo_ok z s (seg_total G)" using inv g by (auto simp: slab_inv_def)
  then have z: "sizes_ok z" by (simp add: geo_ok_def)
  note r = seg_blocks_range [OF z ok g(2)]
  have "page_addr z s 0 \<le> p" using r(1) page_addr_mono [of 0 i z s] by linarith
  moreover have "p + m \<le> page_addr z s (seg_total G)"
    using r(2) page_addr_mono [of "i + seg_len g" "seg_total G" z s] layout_bounds [OF g(1)] by linarith
  ultimately show "0 < p" "pool_start s \<le> p" "p + m \<le> pool_start s + seg_total G * pagesize z" "p + m \<le> pool_end s" "0 < m"
    using geo sizes_okD(1) [OF z] r(3) by (auto simp: page_addr_def geo_ok_def)
qed

text \<open>Blocks are aligned as the ABI needs it.\<close>

lemma block_aligned:
  assumes inv: "slab_inv z s G F SL" and b: "(p, m) \<in> blocks z s G"
  shows "8 dvd p"
proof -
  from b obtain i g where g: "(i, g) \<in> layout 0 G" "(p, m) \<in> seg_blocks z s i g" by (auto simp: blocks_def)
  have ok: "seg_ok z s (seg_total G) i g" and geo: "geo_ok z s (seg_total G)" using inv g by (auto simp: slab_inv_def)
  have pow: "8 dvd (2 :: nat) ^ n" if "3 \<le> n" for n
  proof -
    have "(2 :: nat) ^ 3 dvd 2 ^ n" using that by (rule le_imp_power_dvd)
    then show ?thesis by simp
  qed
  have z: "sizes_ok z" "3 \<le> min_shift s" "pagesize z dvd pool_start s" using geo by (simp_all add: geo_ok_def)
  have "8 dvd (2 :: nat) ^ pagesize_shift z" by (rule pow) (use sizes_okD(2) [OF z(1)] in simp)
  then have a: "8 dvd page_addr z s i"
    using z(3) unfolding page_addr_def sizes_okD(1) [OF z(1)] by (meson dvd_add dvd_mult dvd_trans)
  show ?thesis
  proof (cases g)
    case (Chunks sh U)
    with g ok obtain c where c: "p = page_addr z s i + c * 2 ^ sh" "min_shift s \<le> sh" by auto
    have "8 dvd c * 2 ^ sh" by (rule dvd_mult) (rule pow, use c(2) z(2) in simp)
    then show ?thesis unfolding c(1) using a by (rule dvd_add [rotated])
  qed (use g a in auto)
qed

lemma blocks_disjoint:
  assumes inv: "slab_inv z s G F SL" and a: "(p, m) \<in> blocks z s G" and b: "(q, n) \<in> blocks z s G"
  shows "(p, m) = (q, n) \<or> p + m \<le> q \<or> q + n \<le> p"
proof -
  from a obtain i g where g: "(i, g) \<in> layout 0 G" "(p, m) \<in> seg_blocks z s i g" by (auto simp: blocks_def)
  from b obtain j h where h: "(j, h) \<in> layout 0 G" "(q, n) \<in> seg_blocks z s j h" by (auto simp: blocks_def)
  have z: "sizes_ok z" and ok: "seg_ok z s (seg_total G) i g" "seg_ok z s (seg_total G) j h"
    using inv g h by (auto simp: slab_inv_def geo_ok_def)
  note r = seg_blocks_range [OF z ok(1) g(2)] seg_blocks_range [OF z ok(2) h(2)]
  from layout_disjoint [OF slab_inv_lens [OF inv] g(1) h(1)]
  consider "(i, g) = (j, h)" | "i + seg_len g \<le> j" | "j + seg_len h \<le> i" by blast
  then show ?thesis
  proof cases
    case 1
    show ?thesis
    proof (cases g)
      case (Chunks sh U)
      with g h 1 obtain c d where cd: "p = page_addr z s i + c * 2 ^ sh" "q = page_addr z s i + d * 2 ^ sh" "m = 2 ^ sh" "n = 2 ^ sh"
        by auto
      consider "c = d" | "Suc c \<le> d" | "Suc d \<le> c" by linarith
      then show ?thesis
      proof cases
        case 2
        then have "Suc c * 2 ^ sh \<le> d * 2 ^ sh" by (rule mult_le_mono1)
        with cd show ?thesis by simp
      next
        case 3
        then have "Suc d * 2 ^ sh \<le> c * 2 ^ sh" by (rule mult_le_mono1)
        with cd show ?thesis by simp
      qed (use cd in simp)
    qed (use 1 g h in auto)
  next
    case 2
    then show ?thesis using r(2,4) page_addr_mono [OF 2, of z s] by linarith
  next
    case 3
    then show ?thesis using r(1,5) page_addr_mono [OF 3, of z s] by linarith
  qed
qed

subsection \<open>A pool at rest\<close>

text \<open>
  Between two calls no run is being given back, two free runs never touch, and each page that is cut has
  a chunk in use.
\<close>

fun is_free :: "seg \<Rightarrow> bool" where
  "is_free (Free n) \<longleftrightarrow> True"
| "is_free g \<longleftrightarrow> False"

definition no_idle :: "slab_sizes \<Rightarrow> seg list \<Rightarrow> bool" where
  "no_idle z G \<longleftrightarrow> (\<forall>sh U. Chunks sh U \<in> set G \<longrightarrow> \<not> U \<subseteq> {..<reserved z sh})"

definition coalesced :: "seg list \<Rightarrow> bool" where
  "coalesced G \<longleftrightarrow> successively (\<lambda>g h. \<not> (is_free g \<and> is_free h)) G"

definition tidy :: "slab_sizes \<Rightarrow> seg list \<Rightarrow> bool" where
  "tidy z G \<longleftrightarrow> no_loose G \<and> no_idle z G \<and> coalesced G"

lemma coalesced_append:
  "coalesced (A @ B) \<longleftrightarrow> coalesced A \<and> coalesced B \<and> (A = [] \<or> B = [] \<or> \<not> (is_free (last A) \<and> is_free (hd B)))"
  by (auto simp: coalesced_def successively_append_iff)

lemma coalesced_simps [simp]: "coalesced []" "coalesced [g]"
  "coalesced (g # h # G) \<longleftrightarrow> \<not> (is_free g \<and> is_free h) \<and> coalesced (h # G)"
  by (auto simp: coalesced_def)

lemma coalesced_Cons: "coalesced (g # G) \<longleftrightarrow> coalesced G \<and> (G = [] \<or> \<not> (is_free g \<and> is_free (hd G)))"
  by (cases G) auto

lemma no_loose_append [simp]: "no_loose (A @ B) \<longleftrightarrow> no_loose A \<and> no_loose B" "no_loose (g # G) \<longleftrightarrow> (\<forall>n. g \<noteq> Loose n) \<and> no_loose G" "no_loose []"
  by (auto simp: no_loose_def)

lemma no_idle_append [simp]: "no_idle z (A @ B) \<longleftrightarrow> no_idle z A \<and> no_idle z B"
  "no_idle z (g # G) \<longleftrightarrow> (\<forall>sh U. g = Chunks sh U \<longrightarrow> \<not> U \<subseteq> {..<reserved z sh}) \<and> no_idle z G" "no_idle z []"
  by (auto simp: no_idle_def)

lemma absorb_next_cases:
  obtains (join) m B' where "B = Free m # B'" "absorb_next n B = (n + m, B')"
    | (keep) "absorb_next n B = (n, B)" "B = [] \<or> \<not> is_free (hd B)"
proof (cases B)
  case (Cons g B')
  then show thesis using that by (cases g) (auto simp: absorb_next_def)
qed (use that in \<open>auto simp: absorb_next_def\<close>)

lemma absorb_prev_cases:
  obtains (join) m A' where "A = A' @ [Free m]" "absorb_prev A n = (A', m + n)"
    | (keep) "absorb_prev A n = (A, n)" "A = [] \<or> \<not> is_free (last A)"
proof (cases A rule: rev_cases)
  case (snoc A' g)
  then show thesis using that by (cases g) (auto simp: absorb_prev_def)
qed (use that in \<open>auto simp: absorb_prev_def\<close>)

lemma freed_eq: "absorb_next n B = (n1, B1) \<Longrightarrow> absorb_prev A n1 = (A2, n2) \<Longrightarrow> freed A n B = A2 @ Free n2 # B1"
  by (simp add: freed_def)

lemma freed_cases:
  obtains A' n' B' where "freed A n B = A' @ Free n' # B'"
    "(A' = A \<and> (A = [] \<or> \<not> is_free (last A))) \<or> (\<exists>m. A = A' @ [Free m])"
    "(B' = B \<and> (B = [] \<or> \<not> is_free (hd B))) \<or> (\<exists>m. B = Free m # B')"
    "seg_total A' + n' + seg_total B' = seg_total A + n + seg_total B"
proof (cases B n rule: absorb_next_cases)
  case (join m B')
  note B = this
  show thesis
  proof (cases A "n + m" rule: absorb_prev_cases)
    case (join m' A')
    from freed_eq [OF B(2) join(2)] show thesis using that B(1) join(1) by auto
  next
    case keep
    from freed_eq [OF B(2) keep(1)] show thesis using that B(1) keep(2) by auto
  qed
next
  case keep
  note B = this
  show thesis
  proof (cases A n rule: absorb_prev_cases)
    case (join m' A')
    from freed_eq [OF B(1) join(2)] show thesis using that B(2) join(1) by auto
  next
    case keep
    from freed_eq [OF B(1) keep(1)] show thesis using that B(2) keep(2) by auto
  qed
qed

lemma blocks_freed: "blocks_at z s 0 (freed A n B) = blocks_at z s 0 A \<union> blocks_at z s (seg_total A + n) B"
proof (rule freed_cases [of A n B])
  fix A' n' B'
  assume f: "freed A n B = A' @ Free n' # B'" "(A' = A \<and> (A = [] \<or> \<not> is_free (last A))) \<or> (\<exists>m. A = A' @ [Free m])"
    "(B' = B \<and> (B = [] \<or> \<not> is_free (hd B))) \<or> (\<exists>m. B = Free m # B')"
    "seg_total A' + n' + seg_total B' = seg_total A + n + seg_total B"
  have "blocks_at z s 0 A' = blocks_at z s 0 A" using f(2) by auto
  moreover have "blocks_at z s (seg_total A' + n') B' = blocks_at z s (seg_total A + n) B"
    using f(3)
  proof
    assume "\<exists>m. B = Free m # B'"
    then obtain m where B: "B = Free m # B'" by blast
    then have "seg_total A' + n' = seg_total A + n + m" using f(4) by simp
    with B show ?thesis by simp
  qed (use f(4) in auto)
  ultimately show ?thesis by (simp add: f(1))
qed

lemma tidy_freed:
  assumes "tidy z (A @ X # B)"
  shows "tidy z (freed A n B)"
proof (rule freed_cases [of A n B])
  fix A' n' B'
  assume f: "freed A n B = A' @ Free n' # B'" "(A' = A \<and> (A = [] \<or> \<not> is_free (last A))) \<or> (\<exists>m. A = A' @ [Free m])"
    "(B' = B \<and> (B = [] \<or> \<not> is_free (hd B))) \<or> (\<exists>m. B = Free m # B')"
  have "no_loose A'" "no_idle z A'" "coalesced A'" "A' = [] \<or> \<not> is_free (last A')"
    using assms f(2) by (auto simp: tidy_def coalesced_append)
  moreover have "no_loose B'" "no_idle z B'" "coalesced B'" "B' = [] \<or> \<not> is_free (hd B')"
    using assms f(3) by (auto simp: tidy_def coalesced_append coalesced_Cons)
  ultimately show ?thesis by (auto simp: f(1) tidy_def coalesced_append coalesced_Cons)
qed

lemma tidy_replace:
  assumes "tidy z (A @ X # B)" "no_loose Y" "no_idle z Y" "coalesced Y" "Y \<noteq> []" "is_free (hd Y) \<Longrightarrow> is_free X" "is_free (last Y) \<Longrightarrow> is_free X"
  shows "tidy z (A @ Y @ B)"
  using assms by (cases B) (auto simp: tidy_def coalesced_append coalesced_Cons)

subsection \<open>Allocation\<close>

lemma shift_slot_ok:
  assumes geo: "geo_ok z s N" and sz: "sz \<le> max_size z" and r: "slab_shift_slot s sz = (sh, k)"
  shows "min_shift s \<le> sh" "sh < pagesize_shift z" "k = sh - min_shift s" "sz \<le> 2 ^ sh"
    "sh \<noteq> min_shift s \<Longrightarrow> 2 ^ (sh - 1) < sz"
proof -
  have z: "sizes_ok z" and ms: "3 \<le> min_shift s" "min_shift s < pagesize_shift z" "min_size s = 2 ^ min_shift s"
    using geo by (simp_all add: geo_ok_def)
  note zd = sizes_okD [OF z]
  have "min_shift s \<le> sh \<and> sh < pagesize_shift z \<and> k = sh - min_shift s \<and> sz \<le> 2 ^ sh \<and> (sh \<noteq> min_shift s \<longrightarrow> 2 ^ (sh - 1) < sz)"
  proof (cases "sz > min_size s")
    case True
    define l where "l = shift_loop (sz - 1)"
    have lk: "sh = Suc l" "k = sh - min_shift s" using r True by (auto simp: slab_shift_slot_def l_def)
    have "(2 :: nat) ^ 3 \<le> 2 ^ min_shift s" using ms by (intro power_increasing) auto
    then have "0 < sz - 1" using True ms by simp
    from shift_loop_bounds [OF this] have b: "2 ^ l \<le> sz - 1" "sz - 1 < 2 ^ Suc l" by (simp_all add: l_def)
    have "2 ^ min_shift s < (2 :: nat) ^ Suc l" using True b(2) ms by linarith
    then have 1: "min_shift s < Suc l" by (rule power_less_imp_less_exp [rotated]) simp
    have "(2 :: nat) ^ l < 2 ^ (pagesize_shift z - 1)" using b(1) sz zd(4) \<open>0 < sz - 1\<close> by linarith
    then have "l < pagesize_shift z - 1" by (rule power_less_imp_less_exp [rotated]) simp
    with lk 1 b show ?thesis by auto
  next
    case False
    then show ?thesis using r ms by (auto simp: slab_shift_slot_def)
  qed
  then show "min_shift s \<le> sh" "sh < pagesize_shift z" "k = sh - min_shift s" "sz \<le> 2 ^ sh"
    "sh \<noteq> min_shift s \<Longrightarrow> 2 ^ (sh - 1) < sz" by auto
qed

text \<open>The block sizes: powers of two up to half a page, whole pages above.\<close>

definition block_size :: "slab_sizes \<Rightarrow> slab_pool \<Rightarrow> nat \<Rightarrow> nat" where
  "block_size z s sz = (if sz > max_size z then (sz div pagesize z + (if sz mod pagesize z \<noteq> 0 then 1 else 0)) * pagesize z
     else 2 ^ fst (slab_shift_slot s sz))"

lemma page_count:
  assumes "0 < (p :: nat)" "0 < sz"
  shows "0 < sz div p + (if sz mod p \<noteq> 0 then 1 else 0)" "sz \<le> (sz div p + (if sz mod p \<noteq> 0 then 1 else 0)) * p"
proof -
  have e: "sz = sz div p * p + sz mod p" "sz mod p < p" using assms by simp_all
  then show "0 < sz div p + (if sz mod p \<noteq> 0 then 1 else 0)" using assms by (cases "sz div p = 0") auto
  show "sz \<le> (sz div p + (if sz mod p \<noteq> 0 then 1 else 0)) * p" proof -
    have "sz \<le> p + sz div p * p" "sz mod p = 0 \<Longrightarrow> sz \<le> sz div p * p" using e by linarith+
    then show ?thesis by (cases "sz mod p = 0") simp_all
  qed
qed

lemma block_size_ge:
  assumes "slab_inv z s G F SL"
  shows "sz \<le> block_size z s sz"
proof -
  have geo: "geo_ok z s (seg_total G)" using assms by (simp add: slab_inv_def)
  then have z: "sizes_ok z" by (simp add: geo_ok_def)
  obtain sh k where r: "slab_shift_slot s sz = (sh, k)" by fastforce
  show ?thesis
  proof (cases "sz > max_size z")
    case True
    then show ?thesis using page_count(2) [of "pagesize z" sz] sizes_okD(1) [OF z] by (simp add: block_size_def)
  next
    case False
    then show ?thesis using shift_slot_ok(4) [OF geo _ r] r by (simp add: block_size_def)
  qed
qed

text \<open>A page with a free chunk of the shift is in the list of the slot, or the list is empty.\<close>

lemma slot_head:
  assumes inv: "slab_inv z s G F SL" and k: "k < pagesize_shift z - min_shift s"
  defines "page \<equiv> mps_slab_page_next s (mps_slab_slots k)"
  obtains (empty) "SL k = []" "mps_slab_page_next s page = page" "slot_pages z s k 0 G = {}"
  | (page) A U B where "mps_slab_page_next s page \<noteq> page" "G = A @ Chunks (min_shift s + k) U # B" "page = pg s (seg_total A)"
      "\<not> full z (min_shift s + k) U"
proof -
  let ?h = "mps_slab_slots k"
  have L: "distinct (SL k)" "pchain (pg_next s) (pg_prev s) (chunk_type z (min_shift s + k)) ?h (SL k) ?h"
    "set (SL k) = slot_pages z s k 0 G" using inv k by (simp_all add: slab_inv_def list_inv_def)
  have h: "?h \<notin> set (SL k)" by (rule heads_unlisted(4) [OF inv k k])
  show thesis
  proof (cases "SL k")
    case Nil
    then show thesis using L by (intro empty) (auto simp: page_def mps_slab_page_next_def)
  next
    case (Cons x xs)
    then have x: "page = x" "x \<in> slot_pages z s k 0 G" using L(2,3) by (auto simp: page_def mps_slab_page_next_def)
    have "pg_next s x \<noteq> x" using pchain_hd [of "pg_next s" "pg_prev s" _ x xs ?h] L h Cons by (cases xs) auto
    moreover from x(2) obtain j U where j: "(j, Chunks (min_shift s + k) U) \<in> layout 0 G" "x = pg s j" "\<not> full z (min_shift s + k) U"
      by (auto simp: slot_pages_def)
    moreover from layout_split [OF j(1)] obtain A B where "G = A @ Chunks (min_shift s + k) U # B" "j = seg_total A" by auto
    ultimately show thesis using page x(1) by (auto simp: mps_slab_page_next_def)
  qed
qed

lemma blocks_replace:
  assumes "seg_total Y = seg_len X"
  shows "blocks z s (A @ Y @ B) = blocks_at z s 0 A \<union> blocks_at z s (seg_total A) Y \<union> blocks_at z s (seg_total A + seg_len X) B"
    "blocks z s (A @ X # B) = blocks_at z s 0 A \<union> seg_blocks z s (seg_total A) X \<union> blocks_at z s (seg_total A + seg_len X) B"
  using assms by (auto simp: blocks_blocks_at)

lemma run_fresh:
  assumes inv: "slab_inv z s (A @ Y @ B) F SL" and b: "b \<in> blocks_at z s (seg_total A) Y"
  shows "b \<notin> blocks_at z s 0 A" "b \<notin> blocks_at z s (seg_total A + seg_total Y) B"
proof -
  obtain p m where pm: "b = (p, m)" by fastforce
  note lens = slab_inv_lens [OF inv]
  have z: "sizes_ok z" using inv by (simp add: slab_inv_def geo_ok_def)
  from b obtain j h where h: "(j, h) \<in> layout (seg_total A) Y" "(p, m) \<in> seg_blocks z s j h" by (auto simp: blocks_at_def pm)
  have rng: "page_addr z s i \<le> q \<and> q + n \<le> page_addr z s (i + seg_len g) \<and> 0 < n"
    if "(i, g) \<in> layout 0 (A @ Y @ B)" "(q, n) \<in> seg_blocks z s i g" for i g q n
  proof -
    have "seg_ok z s (seg_total (A @ Y @ B)) i g" using inv that(1) unfolding slab_inv_def by blast
    from seg_blocks_range [OF z this that(2)] show ?thesis by blast
  qed
  have r: "page_addr z s j \<le> p \<and> p + m \<le> page_addr z s (j + seg_len h) \<and> 0 < m" using rng [of j h p m] h by simp
  have False if "(i, g) \<in> layout 0 A" "(p, m) \<in> seg_blocks z s i g" for i g
  proof -
    have "i + seg_len g \<le> j" using layout_bounds [OF that(1)] layout_bounds [OF h(1)] by simp
    then show False using rng [of i g p m] that r page_addr_mono [of "i + seg_len g" j z s] by fastforce
  qed
  then show "b \<notin> blocks_at z s 0 A" by (auto simp: blocks_at_def pm)
  have False if "(i, g) \<in> layout (seg_total A + seg_total Y) B" "(p, m) \<in> seg_blocks z s i g" for i g
  proof -
    have "j + seg_len h \<le> i" using layout_bounds [OF that(1)] layout_bounds [OF h(1)] by simp
    then show False using rng [of i g p m] that r page_addr_mono [of "j + seg_len h" i z s] by fastforce
  qed
  then show "b \<notin> blocks_at z s (seg_total A + seg_total Y) B" by (auto simp: blocks_at_def pm)
qed

text \<open>When there is no room: no free run is long enough, and no page of the slot has a free chunk.\<close>

definition no_room :: "slab_sizes \<Rightarrow> slab_pool \<Rightarrow> seg list \<Rightarrow> nat \<Rightarrow> bool" where
  "no_room z s G sz \<longleftrightarrow>
     (if sz > max_size z then \<forall>n. Free n \<in> set G \<longrightarrow> n * pagesize z < block_size z s sz
      else (\<forall>n. Free n \<notin> set G) \<and> (\<forall>U. Chunks (fst (slab_shift_slot s sz)) U \<in> set G \<longrightarrow> full z (fst (slab_shift_slot s sz)) U))"

theorem alloc_locked_ok:
  assumes inv: "slab_inv z s G F SL" and t: "tidy z G"
  obtains (null) s' where "mps_slab_alloc_locked z s sz = Some (0, s')" "geom s' = geom s" "slab_inv z s' G F SL" "no_room z s G sz"
  | (block) p s' G' F' SL' where "mps_slab_alloc_locked z s sz = Some (p, s')" "geom s' = geom s" "slab_inv z s' G' F' SL'" "tidy z G'"
      "(p, block_size z s sz) \<notin> blocks z s G" "blocks z s' G' = insert (p, block_size z s sz) (blocks z s G)"
proof -
  have geo: "geo_ok z s (seg_total G)" using inv by (simp add: slab_inv_def)
  then have z: "sizes_ok z" by (simp add: geo_ok_def)
  note zd = sizes_okD [OF z]
  have p0: "0 < pagesize z" using zd(1) by simp
  show thesis
  proof (cases "sz > max_size z")
    case True
    define n where "n = sz div pagesize z + (if sz mod pagesize z \<noteq> 0 then 1 else 0)"
    have n: "0 < n" "block_size z s sz = n * pagesize z" using page_count(1) [OF p0] True by (simp_all add: n_def block_size_def)
    have eval: "mps_slab_alloc_locked z s sz = do { (page, s) \<leftarrow> mps_slab_alloc_pages s n;
        Some (if page \<noteq> mps_nulloff then mps_slab_page_addr z s page else 0, s) }"
      using True by (simp add: mps_slab_alloc_locked_def n_def zd(1))
    show thesis
    proof (cases rule: alloc_pages_ok [OF inv n(1)])
      case 1
      then show thesis using inv True n p0 by (intro null [of s]) (auto simp: eval mps_nulloff_def no_room_def)
    next
      case (2 A m B s' F')
      let ?i = "seg_total A"
      have "mps_slab_alloc_locked z s sz = Some (page_addr z s ?i, s')"
        using 2(3) heads_distinct(5) [OF geo, of ?i] addr_geom [OF 2(4), of z] by (simp add: eval mps_nulloff_def page_addr_eq)
      moreover have t': "tidy z (A @ split_run n m @ B)"
        by (rule tidy_replace [OF t [unfolded 2(1)]]) (auto simp: split_run_def)
      moreover have tot: "seg_total (split_run n m) = seg_len (Free m)" using 2(2) by (simp add: split_run_def)
      have "blocks_at z s ?i (split_run n m) = {(page_addr z s ?i, n * pagesize z)}" by (simp add: split_run_def)
      then have b: "blocks z s (A @ split_run n m @ B) = insert (page_addr z s ?i, n * pagesize z) (blocks z s G)"
        using blocks_replace [OF tot, of z s A B] by (auto simp: 2(1))
      moreover have e: "blocks_at z s' = blocks_at z s" using seg_blocks_geom [OF 2(4)] by (simp add: blocks_at_def fun_eq_iff)
      moreover have "(page_addr z s ?i, n * pagesize z) \<notin> blocks z s G"
        using run_fresh [OF 2(5), of "(page_addr z s ?i, n * pagesize z)"] tot
        by (auto simp: e 2(1) blocks_blocks_at split_run_def)
      ultimately show thesis
        using 2(4,5) n(2) blocks_geom [OF 2(4)] by (intro block [of "page_addr z s ?i" s' "A @ split_run n m @ B" F' SL]) auto
    qed
  next
    case False
    then have sz: "sz \<le> max_size z" by simp
    obtain sh k where r: "slab_shift_slot s sz = (sh, k)" by fastforce
    note q = shift_slot_ok [OF geo sz r]
    have kk: "k < pagesize_shift z - min_shift s" "min_shift s + k = sh" using q by auto
    have bs: "block_size z s sz = 2 ^ sh" using False r by (simp add: block_size_def)
    define s1 where "s1 = incr_reqs k s"
    have i1: "slab_inv z s1 G F SL" using inv by (simp add: s1_def)
    have g1: "geom s1 = geom s" by (simp add: s1_def)
    note e1 = geom_sel [OF g1]
    define page where "page = mps_slab_page_next s1 (mps_slab_slots k)"
    have eval: "mps_slab_alloc_locked z s sz =
       (if mps_slab_page_next s1 page \<noteq> page then Some (slab_alloc_chunk z k sh page s1)
        else do { (page, s) \<leftarrow> mps_slab_alloc_pages s1 1;
             Some (if page \<noteq> mps_nulloff then slab_page_new z k sh page s else (0, incr_fails k s)) })"
      using False by (simp add: mps_slab_alloc_locked_def r s1_def page_def Let_def)
    show thesis
    proof (cases rule: slot_head [OF i1, of k, folded page_def])
      case 1
      then show ?case using kk by (simp add: e1)
    next
      case 2
      note emp = 2
      show thesis
      proof (cases rule: alloc_pages_ok [OF i1, of 1])
        case 1
        then show ?case by simp
      next
        case 2
        have nf: "Free m \<notin> set G" for m
        proof
          assume m: "Free m \<in> set G"
          from 2(2) [OF this] have "m = 0" by simp
          moreover from split_list [OF m] slab_inv_lens [OF inv] have "0 < m" by auto
          ultimately show False by simp
        qed
        have "full z sh U" if "Chunks sh U \<in> set G" for U
          using emp(3) kk(2) split_list [OF that] by (auto simp: e1 split: if_splits)
        then have "no_room z s G sz" using nf r False by (simp add: no_room_def)
        moreover have "mps_slab_alloc_locked z s sz = Some (0, incr_fails k s1)"
          using emp(2) 2(1) by (simp add: eval mps_nulloff_def)
        ultimately show thesis using i1 g1 by (intro null [of "incr_fails k s1"]) auto
      next
        case (3 A m B s2 F')
        let ?i = "seg_total A" and ?Y = "Chunks sh {..reserved z sh} # (if 1 < m then [Free (m - 1)] else [])"
        note e2 = geom_sel [OF 3(4), unfolded e1]
        have i2: "slab_inv z s2 (A @ Run 1 # ((if 1 < m then [Free (m - 1)] else []) @ B)) F' SL" using 3(5) by (cases "1 < m") (simp_all add: split_run_def)
        have "min_shift s2 \<le> sh" "k = sh - min_shift s2" using q by (simp_all add: e2)
        from page_new_ok [OF i2 this(1) q(2) this(2) emp(1)] obtain s' SL' where
          n: "slab_page_new z k sh (pg s2 ?i) s2 = (page_addr z s2 ?i + reserved z sh * 2 ^ sh, s')" "geom s' = geom s2"
            "slab_inv z s' (A @ ?Y @ B) F' SL'" by auto
        have g': "geom s' = geom s" using n(2) 3(4) g1 by simp
        have pa: "page_addr z s2 ?i = page_addr z s ?i" by (simp add: page_addr_def e2)
        have "mps_slab_alloc_locked z s sz = Some (page_addr z s ?i + reserved z sh * 2 ^ sh, s')"
          using emp(2) 3(3) n(1) heads_distinct(5) [OF geo, of ?i] by (simp add: eval mps_nulloff_def e1 e2 pa)
        moreover have "tidy z (A @ ?Y @ B)"
          by (rule tidy_replace [OF t [unfolded 3(1)]]) (auto simp: subset_iff)
        moreover have tot: "seg_total ?Y = seg_len (Free m)" using 3(2) by simp
        have Y: "blocks_at z s ?i ?Y = {(page_addr z s ?i + reserved z sh * 2 ^ sh, 2 ^ sh)}" by auto
        then have b: "blocks z s (A @ ?Y @ B) = insert (page_addr z s ?i + reserved z sh * 2 ^ sh, 2 ^ sh) (blocks z s G)"
          using blocks_replace [OF tot, of z s A B] by (auto simp: 3(1))
        moreover have e: "blocks_at z s' = blocks_at z s" using seg_blocks_geom [OF g'] by (simp add: blocks_at_def fun_eq_iff)
        moreover have "(page_addr z s ?i + reserved z sh * 2 ^ sh, 2 ^ sh) \<notin> blocks z s G"
          using run_fresh [OF n(3), of "(page_addr z s ?i + reserved z sh * 2 ^ sh, 2 ^ sh)", unfolded e Y tot]
          by (simp add: 3(1) blocks_blocks_at)
        ultimately show thesis
          using n(3) g' bs blocks_geom [OF g'] by (intro block [of _ s' "A @ ?Y @ B" F' SL']) auto
      qed
    next
      case (3 A U B)
      note pageq = 3
      let ?i = "seg_total A"
      have G: "G = A @ Chunks sh U # B" and nf: "\<not> full z sh U" using 3 kk(2) by (simp_all add: e1)
      from alloc_chunk_ok [OF i1 [unfolded G] nf, of k] obtain c s' SL' where
        c: "slab_alloc_chunk z k sh (pg s1 ?i) s1 = (page_addr z s1 ?i + c * 2 ^ sh, s')" "geom s' = geom s1"
          "c < chunk_count z sh" "c \<notin> U" "slab_inv z s' (A @ Chunks sh (insert c U) # B) F SL'" by auto
      have g': "geom s' = geom s" using c(2) g1 by simp
      have pa: "page_addr z s1 ?i = page_addr z s ?i" by (simp add: page_addr_def e1)
      have page: "(?i, Chunks sh U) \<in> layout 0 G" by (simp add: G)
      have cr: "reserved z sh \<le> c" using chunk_page(5) [OF inv page] c(4) by (force simp: chunk_set_ok_def)
      have "mps_slab_alloc_locked z s sz = Some (page_addr z s ?i + c * 2 ^ sh, s')"
        using 3(1,3) c(1) by (simp add: eval pa)
      moreover have "tidy z (A @ [Chunks sh (insert c U)] @ B)"
        by (rule tidy_replace [OF t [unfolded G]]) (use cr in auto)
      moreover have new: "seg_blocks z s ?i (Chunks sh (insert c U)) = insert (page_addr z s ?i + c * 2 ^ sh, 2 ^ sh) (seg_blocks z s ?i (Chunks sh U))"
        using cr by auto
      then have "blocks z s (A @ [Chunks sh (insert c U)] @ B) = insert (page_addr z s ?i + c * 2 ^ sh, 2 ^ sh) (blocks z s G)"
        by (auto simp: G blocks_blocks_at)
      moreover have e: "blocks_at z s' = blocks_at z s" using seg_blocks_geom [OF g'] by (simp add: blocks_at_def fun_eq_iff)
      moreover have "(page_addr z s ?i + c * 2 ^ sh, 2 ^ sh) \<notin> blocks z s G"
      proof -
        have "(page_addr z s ?i + c * 2 ^ sh, 2 ^ sh) \<in> blocks_at z s' ?i [Chunks sh (insert c U)]" using new by (simp add: e)
        moreover have "slab_inv z s' (A @ [Chunks sh (insert c U)] @ B) F SL'" using c(5) by simp
        ultimately have "(page_addr z s ?i + c * 2 ^ sh, 2 ^ sh) \<notin> blocks_at z s 0 A"
          "(page_addr z s ?i + c * 2 ^ sh, 2 ^ sh) \<notin> blocks_at z s (?i + 1) B"
          using run_fresh [of z s' A "[Chunks sh (insert c U)]" B F SL'] by (auto simp: e)
        moreover have "(page_addr z s ?i + c * 2 ^ sh, 2 ^ sh) \<notin> seg_blocks z s ?i (Chunks sh U)" using c(4) by auto
        ultimately show ?thesis by (simp add: G blocks_blocks_at)
      qed
      ultimately show thesis
        using c(5) g' bs blocks_geom [OF g'] by (intro block [of _ s' "A @ [Chunks sh (insert c U)] @ B" F SL']) auto
    qed
  qed
qed

subsection \<open>Release\<close>

lemma page_of:
  assumes z: "sizes_ok z" and p: "pool_start s \<le> p" and r: "p = page_addr z s i + r" "r < pagesize z"
  shows "(p - pool_start s) div 2 ^ pagesize_shift z = i"
  using assms sizes_okD(1) [OF z] by (simp add: page_addr_def)

lemma run_word:
  assumes "n < 2 ^ 62"
  shows "(of_nat n OR MPS_SLAB_PAGE_START) AND MPS_SLAB_PAGE_START \<noteq> 0" "of_nat n OR MPS_SLAB_PAGE_START \<noteq> MPS_SLAB_PAGE_BUSY"
    "unat ((of_nat n OR MPS_SLAB_PAGE_START) AND NOT MPS_SLAB_PAGE_START) = n" "of_nat n AND MPS_SLAB_PAGE_START = 0"
proof -
  have s: "MPS_SLAB_PAGE_START = 2 ^ 63" by (simp add: MPS_SLAB_PAGE_START_def)
  have b: "\<not> bit (of_nat n :: u64) j" if "62 \<le> j" for j
  proof -
    have "n < 2 ^ j" using assms power_increasing [OF that, of "2 :: nat"] by linarith
    then have "\<not> bit n j" by (simp add: bit_iff_odd)
    then show ?thesis by (simp only: bit_of_nat_iff) simp
  qed
  have "bit ((of_nat n OR MPS_SLAB_PAGE_START) AND MPS_SLAB_PAGE_START) 63"
    unfolding s by (simp add: bit_and_iff bit_or_iff bit_exp_iff)
  then show "(of_nat n OR MPS_SLAB_PAGE_START) AND MPS_SLAB_PAGE_START \<noteq> 0" by fastforce
  have "\<not> bit (of_nat n OR MPS_SLAB_PAGE_START) 62" unfolding s using b by (simp add: bit_or_iff bit_exp_iff)
  moreover have "bit MPS_SLAB_PAGE_BUSY 62" by (simp add: MPS_SLAB_PAGE_BUSY_def)
  ultimately show "of_nat n OR MPS_SLAB_PAGE_START \<noteq> MPS_SLAB_PAGE_BUSY" by metis
  have "(of_nat n OR MPS_SLAB_PAGE_START) AND NOT MPS_SLAB_PAGE_START = (of_nat n :: u64)"
  proof (rule bit_word_eqI)
    fix j assume "j < LENGTH(64)"
    then show "bit ((of_nat n OR MPS_SLAB_PAGE_START) AND NOT MPS_SLAB_PAGE_START) j \<longleftrightarrow> bit (of_nat n :: u64) j"
      unfolding s bit_and_iff bit_or_iff bit_not_iff bit_exp_iff using b [of 63] by (cases "j = 63") simp_all
  qed
  then show "unat ((of_nat n OR MPS_SLAB_PAGE_START) AND NOT MPS_SLAB_PAGE_START) = n" using assms by (simp add: unat_of_nat)
  show "of_nat n AND MPS_SLAB_PAGE_START = 0"
  proof (rule bit_word_eqI)
    fix j assume "j < LENGTH(64)"
    then show "bit (of_nat n AND MPS_SLAB_PAGE_START) j \<longleftrightarrow> bit (0 :: u64) j"
      unfolding s bit_and_iff bit_exp_iff using b [of 63] by (cases "j = 63") simp_all
  qed
qed

lemma slab_inv_total62: "slab_inv z s G F SL \<Longrightarrow> seg_total G < 2 ^ 62"
proof -
  assume "slab_inv z s G F SL"
  then have z: "sizes_ok z" and b: "pool_start s + seg_total G * pagesize z \<le> pool_end s" "pool_end s < 2 ^ 63"
    by (auto simp: slab_inv_def geo_ok_def)
  have "(2 :: nat) ^ 1 \<le> 2 ^ pagesize_shift z" using sizes_okD(2) [OF z] by (intro power_increasing) auto
  then have "seg_total G * 2 \<le> seg_total G * pagesize z" unfolding sizes_okD(1) [OF z] by (intro mult_le_mono2) simp
  then have "seg_total G * 2 < 2 ^ 63" using b by (meson le_add2 le_less_trans order_trans)
  then show ?thesis by simp
qed

lemma free_locked_eval:
  assumes inv: "slab_inv z s G F SL" and p: "p = page_addr z s i + r" "r < pagesize z" "p \<le> pool_end s"
  shows "mps_slab_free_locked z s p =
    (let page = pg s i; type = mps_slab_page_type s page
     in if type = MPS_SLAB_SMALL then slab_free_small z page p s
        else if type = MPS_SLAB_EXACT then slab_free_exact z page p s
        else if type = MPS_SLAB_BIG then slab_free_big z page p s
        else slab_free_page z page p s)"
proof -
  have z: "sizes_ok z" using inv by (simp add: slab_inv_def geo_ok_def)
  have ps: "pool_start s \<le> p" using p by (simp add: page_addr_def)
  then show ?thesis using page_of [OF z ps p(1,2)] p(3) by (simp add: mps_slab_free_locked_def Let_def)
qed

lemma free_chunk_eval:
  assumes inv: "slab_inv z s (A @ Chunks sh U # B) F SL" and nl: "no_loose A" "no_loose B" and c: "c < chunk_count z sh"
  defines "p \<equiv> page_addr z s (seg_total A) + c * 2 ^ sh"
  shows "c \<in> U \<Longrightarrow> reserved z sh \<le> c \<Longrightarrow>
      \<exists>s' F' SL'. mps_slab_free_locked z s p = (None, s') \<and> slab_inv z s' (released z A sh (U - {c}) B) F' SL'"
    "c \<notin> U \<Longrightarrow> mps_slab_free_locked z s p = (Some Chunk_already_free, s)"
proof -
  have page: "(seg_total A, Chunks sh U) \<in> layout 0 (A @ Chunks sh U # B)" by simp
  note q = chunk_page [OF inv page]
  have "0 < (2 :: nat) ^ sh" by simp
  then have r: "c * 2 ^ sh < pagesize z" using chunk_fits [OF q(1) c] by linarith
  have geo: "geo_ok z s (seg_total (A @ Chunks sh U # B))" using inv by (simp add: slab_inv_def)
  then have "p \<le> pool_end s" using r sizes_okD(1) [OF q(1)] by (simp add: geo_ok_def p_def page_addr_def algebra_simps)
  note eval = free_locked_eval [OF inv p_def [THEN meta_eq_to_obj_eq] r this]
  note ty = chunk_head_type(1) [OF inv page]
  consider (s) "sh < exact_shift z" | (e) "sh = exact_shift z" | (b) "exact_shift z < sh" by linarith
  then have "(c \<in> U \<longrightarrow> reserved z sh \<le> c \<longrightarrow>
      (\<exists>s' F' SL'. mps_slab_free_locked z s p = (None, s') \<and> slab_inv z s' (released z A sh (U - {c}) B) F' SL'))
    \<and> (c \<notin> U \<longrightarrow> mps_slab_free_locked z s p = (Some Chunk_already_free, s))"
  proof cases
    case s
    then show ?thesis using free_small_ok [OF inv nl s c, folded p_def]
      by (simp add: eval ty chunk_type_def slab_consts)
  next
    case e
    then show ?thesis using free_exact_ok [OF inv nl e c, folded p_def]
      by (simp add: eval ty chunk_type_def slab_consts)
  next
    case b
    then show ?thesis using free_big_ok [OF inv nl b c, folded p_def]
      by (simp add: eval ty chunk_type_def slab_consts)
  qed
  then show "c \<in> U \<Longrightarrow> reserved z sh \<le> c \<Longrightarrow>
      \<exists>s' F' SL'. mps_slab_free_locked z s p = (None, s') \<and> slab_inv z s' (released z A sh (U - {c}) B) F' SL'"
    "c \<notin> U \<Longrightarrow> mps_slab_free_locked z s p = (Some Chunk_already_free, s)" by simp_all
qed

lemma blocks_remove:
  assumes inv: "slab_inv z s (A @ X # B) F SL" and b: "b \<in> seg_blocks z s (seg_total A) X"
  shows "blocks z s (A @ X # B) - {b} = blocks_at z s 0 A \<union> (seg_blocks z s (seg_total A) X - {b}) \<union> blocks_at z s (seg_total A + seg_len X) B"
proof -
  have "slab_inv z s (A @ [X] @ B) F SL" using inv by simp
  from run_fresh [OF this, of b] b show ?thesis by (auto simp: blocks_blocks_at)
qed

theorem free_locked_ok:
  assumes inv: "slab_inv z s G F SL" and t: "tidy z G" and b: "(p, m) \<in> blocks z s G"
  shows "\<exists>s' G' F' SL'. mps_slab_free_locked z s p = (None, s') \<and> slab_inv z s' G' F' SL' \<and> tidy z G'
     \<and> blocks z s' G' = blocks z s G - {(p, m)}"
proof -
  from b obtain i g where g: "(i, g) \<in> layout 0 G" "(p, m) \<in> seg_blocks z s i g" by (auto simp: blocks_def)
  from layout_split [OF g(1)] obtain A B where G: "G = A @ g # B" "i = seg_total A" by auto
  have nl: "no_loose A" "no_loose B" using t by (simp_all add: G tidy_def)
  have geo: "geo_ok z s (seg_total G)" and ok: "seg_ok z s (seg_total G) i g" using inv g by (auto simp: slab_inv_def)
  then have z: "sizes_ok z" by (simp add: geo_ok_def)
  note inv' = inv [unfolded G(1)]
  note rest = blocks_remove [OF inv' g(2) [unfolded G(2)], folded G]
  have geom': "geom s' = geom s" if "mps_slab_free_locked z s p = (r, s')" for r s' using geom_free_locked [of z s p] that by simp
  show ?thesis
  proof (cases g)
    case (Run n)
    have p: "p = page_addr z s i" "m = n * pagesize z" using g(2) Run by simp_all
    have pe: "p \<le> pool_end s" using block_range(4) [OF inv b] by simp
    have n62: "n < 2 ^ 62" using slab_inv_total62 [OF inv] by (simp add: G Run)
    have ty: "mps_slab_page_type s (pg s i) = 0" using ok Run by (simp add: mps_slab_page_type_def)
    have pm: "p mod pagesize z = 0" using geo sizes_okD(1) [OF z] by (auto simp: p page_addr_def geo_ok_def)
    have sl: "pg_slab s (pg s i) = of_nat n OR MPS_SLAB_PAGE_START" using ok Run by simp
    define s' where "s' = mps_slab_free_pages (pg s i) n s"
    have p0: "p = page_addr z s i + 0" "0 < pagesize z" using p sizes_okD(1) [OF z] by simp_all
    have e: "mps_slab_free_locked z s p = (None, s')"
      unfolding free_locked_eval [OF inv p0 pe] using ty pm run_word [OF n62]
      by (simp add: slab_consts(2-5) slab_free_page_def sl s'_def Let_def)
    from free_pages_run [OF inv' [unfolded Run] nl] obtain F' where "slab_inv z s' (freed A n B) F' SL"
      by (auto simp: s'_def G(2))
    moreover have "blocks z s' (freed A n B) = blocks z s G - {(p, m)}"
      unfolding blocks_geom [OF geom' [OF e]] using rest Run p by (simp add: blocks_blocks_at blocks_freed G(2))
    moreover have "tidy z (freed A n B)" using t by (intro tidy_freed [of z A g]) (simp add: G)
    ultimately show ?thesis using e by auto
  next
    case (Chunks sh U)
    with g(2) obtain c where c: "p = page_addr z s i + c * 2 ^ sh" "m = 2 ^ sh" "c \<in> U" "reserved z sh \<le> c" by auto
    have cc: "c < chunk_count z sh" using ok Chunks c(3) by (auto simp: chunk_set_ok_def)
    from free_chunk_eval(1) [OF inv' [unfolded Chunks] nl cc c(3,4)] obtain s' F' SL' where
      s': "mps_slab_free_locked z s p = (None, s')" "slab_inv z s' (released z A sh (U - {c}) B) F' SL'"
      by (auto simp: c(1) G(2))
    have new: "seg_blocks z s i (Chunks sh (U - {c})) = seg_blocks z s i g - {(p, m)}"
      using c by (auto simp: Chunks)
    have len: "seg_len g = 1" by (simp add: Chunks)
    have "blocks z s' (released z A sh (U - {c}) B) = blocks z s G - {(p, m)}"
    proof (cases "U - {c} \<subseteq> {..<reserved z sh}")
      case True
      then have "seg_blocks z s i (Chunks sh (U - {c})) = {}" by auto
      then have "seg_blocks z s i g - {(p, m)} = {}" using new by (simp only:)
      with rest True len show ?thesis
        unfolding blocks_geom [OF geom' [OF s'(1)]] by (simp add: released_def blocks_blocks_at blocks_freed G(2) [symmetric])
    next
      case False
      have "blocks z s (A @ Chunks sh (U - {c}) # B) = blocks z s G - {(p, m)}"
        unfolding rest new [symmetric] using len by (simp add: blocks_blocks_at Un_assoc G(2) [symmetric])
      with False show ?thesis
        unfolding blocks_geom [OF geom' [OF s'(1)]] by (simp add: released_def)
    qed
    moreover have "tidy z (released z A sh (U - {c}) B)"
    proof (cases "U - {c} \<subseteq> {..<reserved z sh}")
      case True
      then show ?thesis using tidy_freed [of z A g B 1] t by (simp add: released_def G)
    next
      case False
      then show ?thesis using tidy_replace [of z A g B "[Chunks sh (U - {c})]"] t by (simp add: released_def G)
    qed
    ultimately show ?thesis using s' by blast
  qed (use g(2) in auto)
qed

text \<open>What is not a block is refused, with the pool unchanged: an address outside the pool, a free page, the
  inside of a block, a chunk that is free.\<close>

lemma free_outside: "p < pool_start s \<or> pool_end s < p \<Longrightarrow> mps_slab_free_locked z s p = (Some Outside_of_pool, s)"
  by (auto simp: mps_slab_free_locked_def)

lemma layout_cover:
  assumes "\<forall>(j, g) \<in> layout i G. 0 < seg_len g" "i \<le> j" "j < i + seg_total G"
  shows "\<exists>k g. (k, g) \<in> layout i G \<and> k \<le> j \<and> j < k + seg_len g"
  using assms
proof (induction G arbitrary: i)
  case (Cons g G)
  show ?case
  proof (cases "j < i + seg_len g")
    case False
    with Cons.IH [of "i + seg_len g"] Cons.prems show ?thesis by fastforce
  qed (use Cons.prems in auto)
qed simp

definition in_bitmap :: "slab_sizes \<Rightarrow> slab_pool \<Rightarrow> seg list \<Rightarrow> off \<Rightarrow> bool" where
  "in_bitmap z s G p \<longleftrightarrow> (\<exists>i sh U. (i, Chunks sh U) \<in> layout 0 G \<and> page_addr z s i \<le> p \<and> p < page_addr z s i + reserved z sh * 2 ^ sh)"

theorem free_locked_refused:
  assumes inv: "slab_inv z s G F SL" and t: "tidy z G" and p: "p < pool_start s + seg_total G * pagesize z"
    and nb: "\<And>m. (p, m) \<notin> blocks z s G" and nr: "\<not> in_bitmap z s G p"
  shows "\<exists>e. mps_slab_free_locked z s p = (Some e, s)"
proof (cases "p < pool_start s")
  case True
  then show ?thesis using free_outside by blast
next
  case False
  have geo: "geo_ok z s (seg_total G)" using inv by (simp add: slab_inv_def)
  then have z: "sizes_ok z" and pe: "p \<le> pool_end s" using p by (auto simp: geo_ok_def)
  note zd = sizes_okD [OF z]
  define j r where "j = (p - pool_start s) div pagesize z" and "r = (p - pool_start s) mod pagesize z"
  have p0: "0 < pagesize z" using zd(1) by simp
  have "p = j * pagesize z + r + pool_start s" using False by (simp add: j_def r_def)
  then have pj: "p = page_addr z s j + r" by (simp add: page_addr_def zd(1))
  have r: "r < pagesize z" using p0 by (simp add: r_def)
  have "p - pool_start s < seg_total G * pagesize z" using p False by linarith
  then have "j < seg_total G" by (simp add: j_def less_mult_imp_div_less)
  from layout_cover [OF slab_inv_lens [OF inv], of j] this obtain i g where
    g: "(i, g) \<in> layout 0 G" "i \<le> j" "j < i + seg_len g" by auto
  have ok: "seg_ok z s (seg_total G) i g" using inv g by (auto simp: slab_inv_def)
  from layout_split [OF g(1)] obtain A B where G: "G = A @ g # B" "i = seg_total A" by auto
  have nl: "no_loose A" "no_loose B" using t by (simp_all add: G tidy_def)
  have "pagesize z dvd page_addr z s j" using geo by (simp add: page_addr_def zd(1) geo_ok_def)
  then have pm: "p mod pagesize z = r" using r by (auto simp: pj elim!: dvdE)
  note eval = free_locked_eval [OF inv pj r pe]
  have page: "\<exists>e. mps_slab_free_locked z s p = (Some e, s)" if "mps_slab_page_type s (pg s j) = MPS_SLAB_PAGE"
    "r \<noteq> 0 \<or> pg_slab s (pg s j) AND MPS_SLAB_PAGE_START = 0 \<or> pg_slab s (pg s j) = MPS_SLAB_PAGE_BUSY"
    using that by (auto simp: eval slab_free_page_def pm Let_def MPS_SLAB_PAGE_def MPS_SLAB_SMALL_def MPS_SLAB_EXACT_def MPS_SLAB_BIG_def)
  show ?thesis
  proof (cases g)
    case (Free n)
    have "n < 2 ^ 62" using slab_inv_total62 [OF inv] by (simp add: G Free)
    then have "pg_slab s (pg s j) AND MPS_SLAB_PAGE_START = 0" using ok g Free run_word(4) by (cases "j = i") simp_all
    moreover have "pg_prev s (pg s j) mod 4 = 0"
      using ok g Free free_head_fields(1) [OF inv, of i n] by (cases "j = i") simp_all
    ultimately show ?thesis by (intro page) (simp_all add: mps_slab_page_type_def MPS_SLAB_PAGE_MASK_def MPS_SLAB_PAGE_def)
  next
    case (Run n)
    have ty: "mps_slab_page_type s (pg s j) = MPS_SLAB_PAGE"
      using ok g Run by (cases "j = i") (simp_all add: mps_slab_page_type_def MPS_SLAB_PAGE_def)
    have "r \<noteq> 0" if "j = i"
    proof
      assume "r = 0"
      then have "(p, n * pagesize z) \<in> blocks z s G" using g(1) Run that pj by (force simp: blocks_def)
      with nb show False by blast
    qed
    moreover have "pg_slab s (pg s j) = MPS_SLAB_PAGE_BUSY" if "j \<noteq> i" using ok g Run that by simp
    ultimately show ?thesis using ty by (intro page) auto
  next
    case (Chunks sh U)
    then have ji: "j = i" using g by simp
    note g1 = g(1) [unfolded Chunks]
    note q = chunk_page [OF inv g1]
    define c where "c = r div 2 ^ sh"
    have cc: "c < chunk_count z sh"
    proof -
      have "(2 :: nat) ^ sh dvd pagesize z" using q(4) zd(1) by (simp add: le_imp_power_dvd)
      then have "pagesize z = chunk_count z sh * 2 ^ sh" by (simp add: chunk_count_def)
      then show ?thesis using r by (simp add: c_def less_mult_imp_div_less)
    qed
    show ?thesis
    proof (cases "r mod 2 ^ sh = 0")
      case True
      then have rc: "r = c * 2 ^ sh" by (auto simp: c_def)
      have "reserved z sh \<le> c"
      proof (rule ccontr)
        assume "\<not> reserved z sh \<le> c"
        then have "c * 2 ^ sh < reserved z sh * 2 ^ sh" by simp
        then have "in_bitmap z s G p" unfolding in_bitmap_def
          using g1 ji pj rc by (intro exI [of _ i] exI [of _ sh] exI [of _ U]) simp
        with nr show False by blast
      qed
      then have "c \<notin> U" using nb [of "2 ^ sh"] g1 ji pj rc by (force simp: blocks_def)
      from free_chunk_eval(2) [OF inv [unfolded G(1) Chunks] nl cc this] show ?thesis
        using pj rc ji by (simp add: G(2))
    next
      case False
      have "(2 :: nat) ^ sh dvd page_addr z s i"
      proof -
        have "(2 :: nat) ^ sh dvd pagesize z" using q(4) zd(1) by (simp add: le_imp_power_dvd)
        then show ?thesis using \<open>pagesize z dvd page_addr z s j\<close> ji by (metis dvd_trans)
      qed
      then have pm2: "p mod 2 ^ sh \<noteq> 0" using False pj ji by (auto simp: mod_add_left_eq [symmetric] elim!: dvdE)
      note ty = chunk_head_type(1) [OF inv g1]
      note bits = q(6)
      consider (s) "sh < exact_shift z" | (e) "sh = exact_shift z" | (b) "exact_shift z < sh" by linarith
      then show ?thesis
      proof cases
        case s
        then have "pg_slab s (pg s i) = of_nat sh" using bits by (simp add: chunk_bits_def)
        then show ?thesis using s pm2 shift_of(1) [OF q(1,4)] ty ji
          by (simp add: eval chunk_type_def slab_free_small_def Let_def)
      next
        case e
        then show ?thesis using pm2 ty ji zd(5)
          by (simp add: eval chunk_type_def slab_free_exact_def Let_def MPS_SLAB_SMALL_def MPS_SLAB_EXACT_def)
      next
        case b
        then have "pg_slab s (pg s i) AND MPS_SLAB_SHIFT_MASK = of_nat sh" using bits by (simp add: chunk_bits_def)
        then show ?thesis using b pm2 shift_of(2) [OF q(1,4)] ty ji
          by (simp add: eval chunk_type_def slab_free_big_def Let_def MPS_SLAB_SMALL_def MPS_SLAB_EXACT_def MPS_SLAB_BIG_def)
      qed
    qed
  next
    case (Loose n)
    then have False using t by (simp add: G tidy_def)
    then show ?thesis ..
  qed
qed

end
