(* ===== verification/SlabInit.thy ===== *)
theory SlabInit
  imports SlabAlloc
begin

text \<open>
  \<^verbatim>\<open>mps_slab_init\<close> lays out a pool that satisfies the allocator's invariant, with all its pages in one free
  run and nothing handed out; the allocator's operations are an instance of the contract
  \<open>block_allocator\<close>.
\<close>

subsection \<open>The contract\<close>

definition slab_holds :: "slab_sizes \<Rightarrow> slab_pool \<Rightarrow> (off \<times> nat) set \<Rightarrow> bool" where
  "slab_holds z s L \<longleftrightarrow> (\<exists>G F SL. slab_inv z s G F SL \<and> tidy z G \<and> L = blocks z s G)"

locale block_allocator =
  fixes rep :: "'s \<Rightarrow> (off \<times> nat) set \<Rightarrow> bool"
    and alloc :: "'s \<Rightarrow> nat \<Rightarrow> (off \<times> 's) option"
    and release :: "'s \<Rightarrow> off \<Rightarrow> 'e option \<times> 's"
  assumes positive: "rep s L \<Longrightarrow> (p, m) \<in> L \<Longrightarrow> 0 < p \<and> 0 < m"
    and aligned: "rep s L \<Longrightarrow> (p, m) \<in> L \<Longrightarrow> 8 dvd p"
    and disjoint: "rep s L \<Longrightarrow> (p, m) \<in> L \<Longrightarrow> (q, n) \<in> L \<Longrightarrow> (p, m) = (q, n) \<or> p + m \<le> q \<or> q + n \<le> p"
    and alloc_returns: "rep s L \<Longrightarrow> \<exists>p s'. alloc s sz = Some (p, s')"
    and alloc_null: "rep s L \<Longrightarrow> alloc s sz = Some (0, s') \<Longrightarrow> rep s' L"
    and alloc_block: "rep s L \<Longrightarrow> alloc s sz = Some (p, s') \<Longrightarrow> p \<noteq> 0 \<Longrightarrow> \<exists>m \<ge> sz. (p, m) \<notin> L \<and> rep s' (insert (p, m) L)"
    and release_block: "rep s L \<Longrightarrow> (p, m) \<in> L \<Longrightarrow> \<exists>s'. release s p = (None, s') \<and> rep s' (L - {(p, m)})"
begin

lemma block_unique: "rep s L \<Longrightarrow> (p, m) \<in> L \<Longrightarrow> (p, n) \<in> L \<Longrightarrow> m = n"
  using disjoint [of s L p m p n] positive [of s L p m] positive [of s L p n] by auto

text \<open>A new block overlaps no block that is handed out.\<close>

lemma alloc_fresh:
  assumes "rep s L" "alloc s sz = Some (p, s')" "p \<noteq> 0"
  shows "\<exists>m \<ge> sz. rep s' (insert (p, m) L) \<and> (\<forall>(q, n) \<in> L. p + m \<le> q \<or> q + n \<le> p)"
proof -
  from alloc_block [OF assms] obtain m where m: "sz \<le> m" "(p, m) \<notin> L" "rep s' (insert (p, m) L)" by blast
  have "p + m \<le> q \<or> q + n \<le> p" if "(q, n) \<in> L" for q n
    using disjoint [OF m(3), of p m q n] that m(2) by auto
  with m show ?thesis by auto
qed

text \<open>What is allocated and released at once leaves the blocks as they were.\<close>

lemma alloc_release:
  assumes "rep s L" "alloc s sz = Some (p, s')" "p \<noteq> 0"
  shows "\<exists>s''. release s' p = (None, s'') \<and> rep s'' L"
proof -
  from alloc_block [OF assms] obtain m where m: "(p, m) \<notin> L" "rep s' (insert (p, m) L)" by blast
  from release_block [OF m(2), of p m] m(1) show ?thesis by simp
qed

text \<open>Releasing two blocks gives the same set in either order.\<close>

lemma release_release:
  assumes "rep s L" "(p, m) \<in> L" "(q, n) \<in> L" "p \<noteq> q"
  shows "\<exists>s1 s2. release s p = (None, s1) \<and> release s1 q = (None, s2) \<and> rep s2 (L - {(p, m), (q, n)})"
proof -
  from release_block [OF assms(1,2)] obtain s1 where 1: "release s p = (None, s1)" "rep s1 (L - {(p, m)})" by blast
  have "(q, n) \<in> L - {(p, m)}" using assms(3,4) by auto
  from release_block [OF 1(2) this] obtain s2 where "release s1 q = (None, s2)" "rep s2 (L - {(p, m)} - {(q, n)})" by blast
  moreover have "L - {(p, m)} - {(q, n)} = L - {(p, m), (q, n)}" by blast
  ultimately show ?thesis using 1(1) by auto
qed

end

lemma slab_holds_alloc:
  assumes "slab_holds z s L"
  shows "(\<exists>s'. mps_slab_alloc_locked z s sz = Some (0, s') \<and> slab_holds z s' L)
    \<or> (\<exists>p s'. mps_slab_alloc_locked z s sz = Some (p, s') \<and> 0 < p \<and> sz \<le> block_size z s sz
         \<and> (p, block_size z s sz) \<notin> L \<and> slab_holds z s' (insert (p, block_size z s sz) L))"
proof -
  from assms obtain G F SL where h: "slab_inv z s G F SL" "tidy z G" "L = blocks z s G" by (auto simp: slab_holds_def)
  show ?thesis
  proof (cases rule: alloc_locked_ok [OF h(1,2), of sz])
    case (1 s')
    then have "slab_holds z s' L" using h blocks_geom [OF 1(2)] by (auto simp: slab_holds_def)
    with 1 show ?thesis by blast
  next
    case (2 p s' G' F' SL')
    then have "slab_holds z s' (insert (p, block_size z s sz) L)" using h(3) by (auto simp: slab_holds_def)
    moreover have "0 < p" using block_range(1) [OF 2(3), of p] 2(6) by auto
    ultimately show ?thesis using 2(1,5) block_size_ge [OF h(1)] h(3) by blast
  qed
qed

interpretation slab: block_allocator "slab_holds z" "mps_slab_alloc_locked z" "mps_slab_free_locked z" for z
proof
  fix s :: slab_pool and L p m
  assume r: "slab_holds z s L"
  { assume "(p, m) \<in> L"
    with r show "0 < p \<and> 0 < m" by (auto simp: slab_holds_def dest: block_range) }
  { assume "(p, m) \<in> L"
    with r show "8 dvd p" by (auto simp: slab_holds_def dest: block_aligned) }
  { fix q n assume "(p, m) \<in> L" "(q, n) \<in> L"
    with r show "(p, m) = (q, n) \<or> p + m \<le> q \<or> q + n \<le> p" by (auto simp: slab_holds_def dest: blocks_disjoint) }
  { fix sz show "\<exists>p s'. mps_slab_alloc_locked z s sz = Some (p, s')" using slab_holds_alloc [OF r, of sz] by blast }
  { fix sz s' assume "mps_slab_alloc_locked z s sz = Some (0, s')"
    then show "slab_holds z s' L" using slab_holds_alloc [OF r, of sz] by auto }
  { fix sz s' assume "mps_slab_alloc_locked z s sz = Some (p, s')" "p \<noteq> 0"
    then show "\<exists>m \<ge> sz. (p, m) \<notin> L \<and> slab_holds z s' (insert (p, m) L)" using slab_holds_alloc [OF r, of sz] by auto }
  { assume "(p, m) \<in> L"
    with r obtain G F SL where h: "slab_inv z s G F SL" "tidy z G" "(p, m) \<in> blocks z s G" "L = blocks z s G"
      by (auto simp: slab_holds_def)
    from free_locked_ok [OF h(1-3)] h(4) show "\<exists>s'. mps_slab_free_locked z s p = (None, s') \<and> slab_holds z s' (L - {(p, m)})"
      by (auto simp: slab_holds_def) }
qed

subsection \<open>Initialisation\<close>

lemma init_slots_sel:
  "pg_next (init_slots i n s) a = (if a \<in> mps_slab_slots ` {i..<i + n} then a else pg_next s a)"
  "geom (init_slots i n s) = geom s" "pfree (init_slots i n s) = pfree s" "bitmap (init_slots i n s) = bitmap s"
proof (induction i n s rule: init_slots.induct)
  case (2 i n s)
  have e: "mps_slab_slots ` {i..<i + Suc n} = insert (mps_slab_slots i) (mps_slab_slots ` {Suc i..<Suc i + n})"
  proof -
    have "{i..<i + Suc n} = insert i {Suc i..<Suc i + n}" by auto
    then show ?thesis by simp
  qed
  { case 1 show ?case unfolding e by (simp add: Let_def "2.IH") }
  { case 2 show ?case by (simp add: Let_def "2.IH") }
  { case 3 show ?case by (simp add: Let_def "2.IH") }
  { case 4 show ?case by (simp add: Let_def "2.IH") }
qed simp_all

text \<open>The header, the slots and the statistics take \<open>pages_off\<close> bytes; the rest is page structs and pages.\<close>

definition pages_off :: "slab_sizes \<Rightarrow> nat \<Rightarrow> nat" where
  "pages_off z shift = pool_size + (pagesize_shift z - shift) * (page_size + stat_size)"

definition init_pages :: "slab_sizes \<Rightarrow> nat \<Rightarrow> nat \<Rightarrow> nat" where
  "init_pages z shm_size shift =
     (let pages = (shm_size - pages_off z shift) div (pagesize z + page_size);
          start = ngx_align_ptr (pages_off z shift + pages * page_size) (pagesize z)
      in min pages ((shm_size - start) div pagesize z))"

lemma usub_le: "b \<le> a \<Longrightarrow> a < 2 ^ 63 \<Longrightarrow> usub a b = a - b"
proof -
  assume a: "b \<le> a" "a < 2 ^ 63"
  then have "(int a - int b) mod 2 ^ 64 = int a - int b" by (intro mod_pos_pos_trivial) auto
  then show ?thesis using a by (simp add: usub_def)
qed

lemma init_front_sel:
  fixes z shm_size shift s
  defines "s1 \<equiv> slab_init_front z shm_size shift s" and "n \<equiv> pagesize_shift z - shift"
  shows "pool_end s1 = shm_size" "min_shift s1 = shift" "min_size s1 = 2 ^ shift" "pool_stats s1 = pool_size + n * page_size"
    "k < n \<Longrightarrow> pg_next s1 (mps_slab_slots k) = mps_slab_slots k"
proof -
  define s0 where "s0 = s\<lparr>pool_data := 0, pool_end := shm_size, min_shift := shift, min_size := 2 ^ shift\<rparr>"
  have s1: "s1 = zero_stats n (init_slots 0 n s0\<lparr>pool_stats := pool_size + n * page_size\<rparr>)"
    by (simp add: s1_def n_def slab_init_front_def s0_def Let_def)
  have g: "pool_end (init_slots 0 n s0) = shm_size" "min_shift (init_slots 0 n s0) = shift" "min_size (init_slots 0 n s0) = 2 ^ shift"
    using geom_sel [OF init_slots_sel(2), of 0 n s0] by (simp_all add: s0_def)
  then show "pool_end s1 = shm_size" "min_shift s1 = shift" "min_size s1 = 2 ^ shift" "pool_stats s1 = pool_size + n * page_size"
    by (simp_all add: s1 zero_stats_def Let_def)
  show "pg_next s1 (mps_slab_slots k) = mps_slab_slots k" if "k < n"
    using that by (simp add: s1 zero_stats_def Let_def init_slots_sel(1))
qed

lemma init_run_sel:
  fixes p n s
  defines "s1 \<equiv> slab_init_run p n s"
  assumes n: "0 < n" and p: "p \<noteq> pool_free"
  shows "pg_slab s1 p = of_nat n" "pg_next s1 p = pool_free" "pg_prev s1 p = pool_free" "pg_next s1 pool_free = p"
    "0 < j \<Longrightarrow> j < n \<Longrightarrow> page_at p j \<noteq> pool_free \<Longrightarrow>
       pg_slab s1 (page_at p j) = 0 \<and> pg_next s1 (page_at p j) = 0 \<and> pg_prev s1 (page_at p j) = 0"
    "a \<notin> page_at p ` {..<n} \<Longrightarrow> a \<noteq> pool_free \<Longrightarrow> pg_next s1 a = pg_next s a"
    "pool_pages s1 = p" "pool_end s1 = pool_end s" "min_shift s1 = min_shift s" "min_size s1 = min_size s"
proof -
  define s0 where "s0 = zero_pages p n (s\<lparr>pool_pages := p\<rparr>)"
  have s1: "s1 = pg_set_prev p pool_free (pg_set_next p pool_free (pg_set_slab p (of_nat n)
      (pg_set_prev pool_free mps_nulloff (pg_set_next pool_free p (pg_set_slab pool_free 0 s0)))))"
    by (simp add: s1_def slab_init_run_def Let_def s0_def)
  have pj: "page_at p j \<noteq> p" if "0 < j" for j using page_at_inj [of p j 0] that by simp
  have p0: "p \<in> page_at p ` {..<n}" using n by (intro image_eqI [of _ _ 0]) auto
  have "geom s1 = geom (s\<lparr>pool_pages := p\<rparr>)" by (simp add: s1 s0_def)
  then show "pool_pages s1 = p" "pool_end s1 = pool_end s" "min_shift s1 = min_shift s" "min_size s1 = min_size s"
    by (simp_all add: geom_def)
  show "pg_slab s1 p = of_nat n" "pg_next s1 p = pool_free" "pg_prev s1 p = pool_free" "pg_next s1 pool_free = p"
    using p by (simp_all add: s1)
  show "pg_slab s1 (page_at p j) = 0 \<and> pg_next s1 (page_at p j) = 0 \<and> pg_prev s1 (page_at p j) = 0"
    if "0 < j" "j < n" "page_at p j \<noteq> pool_free" using that pj by (simp add: s1 s0_def zero_pages_sel)
  show "pg_next s1 a = pg_next s a" if "a \<notin> page_at p ` {..<n}" "a \<noteq> pool_free"
    using that p0 by (auto simp: s1 s0_def zero_pages_sel)
qed

theorem init_ok:
  fixes z shm_size shift s
  assumes z: "sizes_ok z" and sh: "3 \<le> shift" "shift < pagesize_shift z"
    and size: "pages_off z shift + 2 * (pagesize z + page_size) \<le> shm_size" "shm_size < 2 ^ 63"
  defines "s' \<equiv> mps_slab_init z shm_size shift s" and "N \<equiv> init_pages z shm_size shift"
  shows "slab_inv z s' [Free N] [pool_pages s'] (\<lambda>_. [])" "0 < N" "pool_pages s' = pages_off z shift"
proof -
  define n where "n = pagesize_shift z - shift"
  define off pages where "off = pages_off z shift" and "pages = (shm_size - off) div (pagesize z + page_size)"
  define start where "start = ngx_align_ptr (off + pages * page_size) (pagesize z)"
  define q where "q = (shm_size - start) div pagesize z"
  have pz: "0 < pagesize z" using sizes_okD(1) [OF z] by simp
  have off: "off = pool_size + n * page_size + n * stat_size" by (simp only: off_def pages_off_def n_def [symmetric] add_mult_distrib2 add.assoc)
  have sz: "off + 2 * (pagesize z + page_size) \<le> shm_size" using size(1) by (simp add: off_def)
  have "2 * (pagesize z + page_size) \<le> shm_size - off" using sz by simp
  then have pages2: "2 \<le> pages"
    unfolding pages_def using pz by (metis add_gr_0 div_le_mono nonzero_mult_div_cancel_right not_gr0)
  have tot: "off + pages * (pagesize z + page_size) \<le> shm_size"
  proof -
    have "pages * (pagesize z + page_size) \<le> shm_size - off" unfolding pages_def by (rule div_times_less_eq_dividend)
    then show ?thesis using sz by linarith
  qed
  have start: "off + pages * page_size \<le> start" "start < off + pages * page_size + pagesize z" "pagesize z dvd start"
    unfolding start_def using ngx_align_ptr_ge [OF pz] ngx_align_ptr_less [OF pz] ngx_align_ptr_dvd by blast+
  have e: "start + (pages - 1) * pagesize z \<le> shm_size"
  proof -
    have "(pages - 1) * pagesize z + pagesize z = pages * pagesize z" using pages2 by (metis add.commute le_add_diff_inverse2 mult_Suc one_le_numeral order_trans Suc_eq_plus1)
    then show ?thesis using start(2) tot by (simp add: algebra_simps)
  qed
  have q1: "1 \<le> q"
  proof -
    have "pagesize z \<le> (pages - 1) * pagesize z" using mult_le_mono1 [of 1 "pages - 1" "pagesize z"] pages2 by linarith
    then have "pagesize z \<le> shm_size - start" using e by linarith
    then show ?thesis unfolding q_def using pz by (simp add: div_greater_zero_iff Suc_le_eq)
  qed
  have N: "N = min pages q" by (simp add: N_def init_pages_def Let_def off_def pages_def start_def q_def)
  then show N0: "0 < N" using pages2 q1 by simp
  have Nend: "start + N * pagesize z \<le> shm_size"
  proof -
    have "N * pagesize z \<le> q * pagesize z" using N by simp
    also have "\<dots> \<le> shm_size - start" by (simp add: q_def)
    finally show ?thesis using e by linarith
  qed
  define s1 where "s1 = slab_init_front z shm_size shift s"
  note f = init_front_sel [where z = z and shm_size = shm_size and shift = shift and s = s, folded s1_def n_def]
  define s2 where "s2 = slab_init_run off pages s1"
  have offp: "off \<noteq> pool_free" "pool_free < off" using off by (simp_all add: slab_consts)
  have "0 < pages" using pages2 by simp
  note r = init_run_sel [OF this offp(1), where s = s1, folded s2_def]
  have s': "s' = (set_pfree (of_nat N) ((if N \<noteq> pages then pg_set_slab off (of_nat N) (s2\<lparr>pool_start := start\<rparr>) else s2\<lparr>pool_start := start\<rparr>)
      \<lparr>pool_last := page_at off N\<rparr>))\<lparr>log_nomem := True\<rparr>"
  proof -
    have u: "usub (usub shm_size pool_size) (n * (page_size + stat_size)) = shm_size - off"
      using sz size(2) by (simp add: usub_le off algebra_simps)
    have u2: "usub shm_size start = shm_size - start" using Nend size(2) by (intro usub_le) simp_all
    have p: "pool_stats s1 + n * stat_size = off" by (simp add: f off)
    have m: "int pages - int q > 0 \<longleftrightarrow> N \<noteq> pages" "(if N \<noteq> pages then nat (int pages - (int pages - int q)) else pages) = N"
      using N by auto
    show ?thesis
      unfolding s'_def mps_slab_init_def Let_def s1_def [symmetric] n_def [symmetric] p u pages_def [symmetric] s2_def [symmetric]
        start_def [symmetric] u2 q_def [symmetric] m ..
  qed
  have t: "pg_slab s' = (pg_slab s2)(off := of_nat N)" "pg_next s' = pg_next s2" "pg_prev s' = pg_prev s2" "pfree s' = of_nat N"
    "pool_pages s' = off" "pool_last s' = page_at off N" "pool_start s' = start" "pool_end s' = shm_size" "min_shift s' = shift"
    "min_size s' = 2 ^ shift"
    using r(1,7-10) f(1-3) by (cases "N = pages"; auto simp: s' pg_set_slab_def set_pfree_def)+
  show "pool_pages s' = pages_off z shift" by (simp add: t off_def)
  have far: "page_at off j \<noteq> pool_free" for j using offp(2) by (simp add: page_at_def)
  have 4: "4 dvd off" unfolding off slab_consts by presburger
  have "geo_ok z s' N"
    unfolding geo_ok_def t using z sh start Nend size(2) 4 off n_def pz offp(2)
    by (auto simp: mps_slab_slots_def pool_free_def)
  moreover have "seg_ok z s' N 0 (Free N)"
  proof -
    have "pg_slab s' (page_at off j) = 0 \<and> pg_next s' (page_at off j) = 0 \<and> pg_prev s' (page_at off j) mod 4 = 0" if "0 < j" "j < N" for j
      using r(5) [OF that(1) _ far] that(2) N page_at_inj [of off j 0] that(1) by (simp add: t)
    then show ?thesis using N0 by (simp add: t)
  qed
  moreover have "list_inv s' 0 pool_free [off]" using r by (simp add: list_inv_def t)
  moreover have "list_inv s' ty (mps_slab_slots k) []" if "k < n" for ty k
  proof -
    have "mps_slab_slots k + page_size \<le> pool_size + n * page_size"
      using mult_le_mono1 [of "Suc k" n page_size] that by (simp add: mps_slab_slots_def)
    then have "mps_slab_slots k < off" unfolding off by (simp add: page_size_def)
    then have "mps_slab_slots k \<notin> page_at off ` {..<pages}" by (auto simp: page_at_def)
    moreover have "mps_slab_slots k \<noteq> pool_free" by (simp add: mps_slab_slots_def slab_consts)
    ultimately show ?thesis using r(6) f(5) [OF that] by (simp add: list_inv_def t)
  qed
  ultimately show "slab_inv z s' [Free N] [pool_pages s'] (\<lambda>_. [])"
    unfolding slab_inv_def by (simp add: t n_def)
qed

corollary init_holds:
  assumes "sizes_ok z" "3 \<le> shift" "shift < pagesize_shift z"
    "pages_off z shift + 2 * (pagesize z + page_size) \<le> shm_size" "shm_size < 2 ^ 63"
  shows "slab_holds z (mps_slab_init z shm_size shift s) {}"
proof -
  have "blocks z s' [Free n] = {}" "tidy z [Free n]" for s' n by (simp_all add: blocks_def tidy_def)
  with init_ok(1) [OF assms, of s] show ?thesis unfolding slab_holds_def by metis
qed

lemma sizes_ok_4096: "sizes_ok (mps_slab_sizes_init 4096)" "pagesize (mps_slab_sizes_init 4096) = 4096"
  "pagesize_shift (mps_slab_sizes_init 4096) = 12" "max_size (mps_slab_sizes_init 4096) = 2048"
proof -
  have "sizes_ok (mps_slab_sizes_init (2 ^ 12))" unfolding sizes_ok_def by (intro exI [of _ 12]) simp
  then show "sizes_ok (mps_slab_sizes_init 4096)" by simp
  show "pagesize (mps_slab_sizes_init 4096) = 4096" "max_size (mps_slab_sizes_init 4096) = 2048"
    by (simp_all add: mps_slab_sizes_init_def)
  show "pagesize_shift (mps_slab_sizes_init 4096) = 12"
    using shift_loop_power [of 12] by (simp add: mps_slab_sizes_init_def)
qed

text \<open>A request that some free run can serve is served.\<close>

lemma alloc_succeeds:
  assumes "slab_inv z s G F SL" "tidy z G" "\<not> no_room z s G sz"
  shows "\<exists>p s'. mps_slab_alloc_locked z s sz = Some (p, s') \<and> 0 < p"
proof (cases rule: alloc_locked_ok [OF assms(1,2), of sz])
  case (2 p s' G' F' SL')
  with block_range(1) [OF 2(3), of p] show ?thesis by auto
qed (use assms(3) in auto)

end
