(* ===== verification/ShdictInv.thy ===== *)
theory ShdictInv
  imports ShdictMem RBDict SlabInit
begin

text \<open>
  What a pool holds: the invariant of the dictionary, and its abstraction. \<open>dict_inv s xs L V\<close> says
  that \<open>xs\<close> are the tree's nodes in key order, \<open>L\<close> the same nodes in LRU order (the most recently used
  first), and \<open>V a\<close> the list nodes of the list value at node \<open>a\<close>; that each tree key is the hash of the
  key bytes; and that no link and no byte of the values is shared. \<open>mem_inv\<close> says that the blocks the
  allocator has handed out are exactly the tree struct, the nodes and the list nodes, each with room for
  what it holds, so that nothing leaks and nothing freed is in use. \<open>dict_abs\<close> is the association list of
  keys and entries in LRU order, which is all the operations promise to maintain; \<open>holds z s D\<close> is the
  simulation relation between the two.
\<close>

definition node_link :: "off \<Rightarrow> off" where
  "node_link a = sd_queue (sd_of_node a)"

lemma node_link_simps [simp]:
  "sd_of_queue (node_link a) = sd_of_node a" "node_of_sd (sd_of_node a) = a"
  "node_link a = node_link b \<longleftrightarrow> a = b" "sd_of_node a = sd_of_node b \<longleftrightarrow> a = b"
  "sd_queue (sd_of_node a) = node_link a"
  by (simp_all add: node_link_def offsets)

definition is_list :: "shm \<Rightarrow> off \<Rightarrow> bool" where
  "is_list s a \<longleftrightarrow> uint (value_type s (sd_of_node a)) = MPS_SHDICT_TLIST"

definition list_head :: "shm \<Rightarrow> off \<Rightarrow> off" where
  "list_head s a = mps_shdict_get_list_head (sd_of_node a) (length (node_key s a))"

lemma length_node_key [simp]: "length (node_key s a) = unat (key_len s (sd_of_node a))"
  by (simp add: node_key_def sd_key_def)

subsection \<open>Ownership of links and bytes\<close>

definition own_links :: "shm \<Rightarrow> (off \<Rightarrow> off list) \<Rightarrow> off \<Rightarrow> off set" where
  "own_links s V a = (if is_list s a then set (list_head s a # V a) else {})"

definition node_span :: "shm \<Rightarrow> off \<Rightarrow> off set" where
  "node_span s a = {sd_data (sd_of_node a) ..< sd_data (sd_of_node a) + unat (key_len s (sd_of_node a))
     + (if is_list s a then 0 else unat (value_len s (sd_of_node a)))}"

definition item_span :: "shm \<Rightarrow> off \<Rightarrow> off set" where
  "item_span s l = {lnode_data l ..< lnode_data l + unat (lnode_value_len s l)}"

definition own_span :: "shm \<Rightarrow> (off \<Rightarrow> off list) \<Rightarrow> off \<Rightarrow> off set" where
  "own_span s V a = node_span s a \<union> (if is_list s a then \<Union> (item_span s ` set (V a)) else {})"

definition list_ok :: "shm \<Rightarrow> (off \<Rightarrow> off list) \<Rightarrow> off \<Rightarrow> bool" where
  "list_ok s V a \<longleftrightarrow> (is_list s a \<longrightarrow>
     dll (links s) (list_head s a) (V a) \<and> length (V a) = unat (value_len s (sd_of_node a))
     \<and> (\<forall>l \<in> set (V a). item_span s l \<inter> node_span s a = {})
     \<and> (\<forall>l \<in> set (V a). \<forall>m \<in> set (V a). l \<noteq> m \<longrightarrow> item_span s l \<inter> item_span s m = {}))"

definition separate :: "shm \<Rightarrow> (off \<Rightarrow> off list) \<Rightarrow> off set \<Rightarrow> bool" where
  "separate s V A \<longleftrightarrow>
     (\<forall>a \<in> A. lru_queue s \<noteq> node_link a)
     \<and> (\<forall>a \<in> A. lru_queue s \<notin> own_links s V a \<and> own_links s V a \<inter> node_link ` A = {})
     \<and> (\<forall>a \<in> A. \<forall>b \<in> A. a \<noteq> b \<longrightarrow> own_links s V a \<inter> own_links s V b = {} \<and> own_span s V a \<inter> own_span s V b = {})"

definition dict_inv :: "shm \<Rightarrow> off list \<Rightarrow> off list \<Rightarrow> (off \<Rightarrow> off list) \<Rightarrow> bool" where
  "dict_inv s xs L V \<longleftrightarrow>
     index_rep (node_key s) (tree s) xs
     \<and> (\<forall>a \<in> set xs. rb_key (tree s) a = ucast (ngx_murmur_hash2 (node_key s a)))
     \<and> distinct L \<and> set L = set xs
     \<and> dll (links s) (lru_queue s) (map node_link L)
     \<and> (\<forall>a \<in> set xs. list_ok s V a)
     \<and> separate s V (set xs)"

subsection \<open>Ownership of blocks\<close>

definition own_items :: "shm \<Rightarrow> (off \<Rightarrow> off list) \<Rightarrow> off \<Rightarrow> off set" where
  "own_items s V a = (if is_list s a then set (V a) else {})"

definition used_blocks :: "shm \<Rightarrow> (off \<Rightarrow> off list) \<Rightarrow> off set \<Rightarrow> off set" where
  "used_blocks s V A = insert (pool_data (slab s)) (A \<union> (\<Union>a \<in> A. own_items s V a))"

definition node_room :: "shm \<Rightarrow> off \<Rightarrow> nat" where
  "node_room s a = (if is_list s a then list_head s a + queue_size - a
     else node_header + unat (key_len s (sd_of_node a)) + unat (value_len s (sd_of_node a)))"

definition item_room :: "shm \<Rightarrow> off \<Rightarrow> nat" where
  "item_room s l = lnode_header + unat (lnode_value_len s l)"

definition room_ok :: "shm \<Rightarrow> (off \<Rightarrow> off list) \<Rightarrow> off set \<Rightarrow> (off \<Rightarrow> nat) \<Rightarrow> bool" where
  "room_ok s V A f \<longleftrightarrow> tree_size \<le> f (pool_data (slab s))
     \<and> (\<forall>a \<in> A. node_room s a \<le> f a \<and> (\<forall>l \<in> own_items s V a. item_room s l \<le> f l))"

definition apart :: "shm \<Rightarrow> (off \<Rightarrow> off list) \<Rightarrow> off set \<Rightarrow> bool" where
  "apart s V A \<longleftrightarrow> pool_data (slab s) \<notin> A
     \<and> (\<forall>a \<in> A. pool_data (slab s) \<notin> own_items s V a \<and> own_items s V a \<inter> A = {}
          \<and> (\<forall>b \<in> A. a \<noteq> b \<longrightarrow> own_items s V a \<inter> own_items s V b = {}))"

definition mem_inv :: "slab_sizes \<Rightarrow> shm \<Rightarrow> off set \<Rightarrow> (off \<Rightarrow> off list) \<Rightarrow> bool" where
  "mem_inv z s A V \<longleftrightarrow> rb_sentinel (tree s) = sentinel_off (pool_data (slab s)) \<and> apart s V A
     \<and> (\<exists>f. slab_holds z (slab s) ((\<lambda>p. (p, f p)) ` used_blocks s V A) \<and> room_ok s V A f)"

definition pool_inv :: "slab_sizes \<Rightarrow> shm \<Rightarrow> off list \<Rightarrow> off list \<Rightarrow> (off \<Rightarrow> off list) \<Rightarrow> bool" where
  "pool_inv z s xs L V \<longleftrightarrow> dict_inv s xs L V \<and> mem_inv z s (set xs) V"

lemma pool_invD: "pool_inv z s xs L V \<Longrightarrow> dict_inv s xs L V" "pool_inv z s xs L V \<Longrightarrow> mem_inv z s (set xs) V"
  by (simp_all add: pool_inv_def)

lemma mem_inv_change:
  assumes "slab s' = slab s" "rb_sentinel (tree s') = rb_sentinel (tree s)" "\<And>a. is_list s' a = is_list s a"
    "\<And>a. a \<in> A \<Longrightarrow> node_room s' a = node_room s a" "item_room s' = item_room s"
  shows "mem_inv z s' A V = mem_inv z s A V"
proof -
  have "own_items s' V = own_items s V" by (rule ext) (simp add: own_items_def assms)
  then show ?thesis by (simp add: mem_inv_def apart_def used_blocks_def room_ok_def assms)
qed

subsection \<open>The abstract dictionary\<close>

record entry =
  e_type :: byte
  e_bytes :: "byte list"
  e_items :: "(byte \<times> byte list) list"
  e_expires :: u64
  e_flags :: u32

type_synonym dict = "(byte list \<times> entry) list"

definition item_at :: "shm \<Rightarrow> off \<Rightarrow> byte \<times> byte list" where
  "item_at s l = (lnode_value_type s l, read_bytes (bytes s) (lnode_data l) (unat (lnode_value_len s l)))"

definition entry_at :: "shm \<Rightarrow> (off \<Rightarrow> off list) \<Rightarrow> off \<Rightarrow> entry" where
  "entry_at s V a =
     \<lparr>e_type = value_type s (sd_of_node a),
      e_bytes = (if is_list s a then [] else sd_value s (sd_of_node a)),
      e_items = (if is_list s a then map (item_at s) (V a) else []),
      e_expires = expires s (sd_of_node a),
      e_flags = user_flags s (sd_of_node a)\<rparr>"

definition dict_abs :: "shm \<Rightarrow> (off \<Rightarrow> off list) \<Rightarrow> off list \<Rightarrow> dict" where
  "dict_abs s V L = map (\<lambda>a. (node_key s a, entry_at s V a)) L"

definition holds :: "slab_sizes \<Rightarrow> shm \<Rightarrow> dict \<Rightarrow> bool" where
  "holds z s D \<longleftrightarrow> (\<exists>xs L V. pool_inv z s xs L V \<and> D = dict_abs s V L)"

lemma holdsI: "pool_inv z s xs L V \<Longrightarrow> D = dict_abs s V L \<Longrightarrow> holds z s D"
  by (auto simp: holds_def)

text \<open>The abstract operations on the association list.\<close>

definition dict_del :: "byte list \<Rightarrow> dict \<Rightarrow> dict" where
  "dict_del k D = filter (\<lambda>(k', e). k' \<noteq> k) D"

definition dict_touch :: "byte list \<Rightarrow> dict \<Rightarrow> dict" where
  "dict_touch k D = (case map_of D k of None \<Rightarrow> D | Some e \<Rightarrow> (k, e) # dict_del k D)"

lemma map_of_dict_del: "map_of (dict_del k D) k' = (if k' = k then None else map_of D k')"
  by (induction D) (auto simp: dict_del_def)

lemma map_of_dict_touch [simp]: "map_of (dict_touch k D) = map_of D"
  by (auto simp: dict_touch_def map_of_dict_del fun_eq_iff split: option.split)

lemma dict_del_absent: "map_of D k = None \<Longrightarrow> dict_del k D = D"
  by (induction D) (auto simp: dict_del_def split: if_splits)

subsection \<open>Changes that the invariant does not see\<close>

definition same_data :: "shm \<Rightarrow> shm \<Rightarrow> bool" where
  "same_data s' s \<longleftrightarrow> value_type s' = value_type s \<and> key_len s' = key_len s \<and> value_len s' = value_len s
     \<and> lnode_value_len s' = lnode_value_len s \<and> lnode_value_type s' = lnode_value_type s \<and> bytes s' = bytes s
     \<and> pool_data (slab s') = pool_data (slab s)"

definition same_dict :: "shm \<Rightarrow> shm \<Rightarrow> bool" where
  "same_dict s' s \<longleftrightarrow> same_data s' s \<and> tree s' = tree s \<and> links s' = links s
     \<and> expires s' = expires s \<and> user_flags s' = user_flags s"

lemma same_dict_refl [simp]: "same_data s s" "same_dict s s"
  by (simp_all add: same_data_def same_dict_def)

lemma same_dict_trans: "same_dict s'' s' \<Longrightarrow> same_dict s' s \<Longrightarrow> same_dict s'' s"
  by (simp add: same_dict_def same_data_def)

lemma same_data_funs:
  assumes "same_data s' s"
  shows "node_key s' = node_key s" "sd_value s' = sd_value s" "is_list s' = is_list s" "list_head s' = list_head s"
    "item_at s' = item_at s" "own_links s' = own_links s" "own_span s' = own_span s"
    "node_span s' = node_span s" "item_span s' = item_span s" "separate s' = separate s" "lru_queue s' = lru_queue s"
proof -
  note d = assms [unfolded same_data_def]
  show k: "node_key s' = node_key s" by (rule ext) (simp add: node_key_def sd_key_def d)
  show v: "sd_value s' = sd_value s" by (rule ext) (simp add: sd_value_def d)
  show l: "is_list s' = is_list s" by (rule ext) (simp add: is_list_def d)
  show i: "item_at s' = item_at s" by (rule ext) (simp add: item_at_def d)
  show lru: "lru_queue s' = lru_queue s" by (simp add: lru_queue_def d)
  show h: "list_head s' = list_head s" by (rule ext) (simp add: list_head_def k d)
  show n: "node_span s' = node_span s" by (rule ext) (simp add: node_span_def d l)
  show m: "item_span s' = item_span s" by (rule ext) (simp add: item_span_def d)
  show o: "own_links s' = own_links s" by (intro ext) (simp add: own_links_def l h)
  show p: "own_span s' = own_span s" by (intro ext) (simp add: own_span_def l m n)
  show "separate s' = separate s" by (intro ext) (simp add: separate_def o p lru)
qed

lemma same_dict_funs:
  assumes "same_dict s' s"
  shows "entry_at s' = entry_at s" "list_ok s' = list_ok s" "dict_abs s' = dict_abs s"
proof -
  from assms have e: "same_data s' s" by (simp add: same_dict_def)
  note d = assms [unfolded same_dict_def] e [unfolded same_data_def] same_data_funs [OF e]
  show e: "entry_at s' = entry_at s" by (intro ext) (simp add: entry_at_def d)
  show "list_ok s' = list_ok s" by (intro ext) (simp add: list_ok_def d)
  show "dict_abs s' = dict_abs s" by (intro ext) (simp add: dict_abs_def d e)
qed

lemma dict_inv_same: "same_dict s' s \<Longrightarrow> dict_inv s' xs L V = dict_inv s xs L V"
  using same_data_funs [of s' s] same_dict_funs [of s' s] by (simp add: dict_inv_def same_dict_def)

lemma mem_inv_same:
  assumes "same_data s' s" "slab s' = slab s" "rb_sentinel (tree s') = rb_sentinel (tree s)"
  shows "mem_inv z s' A V = mem_inv z s A V"
proof -
  note d = assms(1) [unfolded same_data_def] same_data_funs [OF assms(1)]
  have "node_room s' = node_room s" "item_room s' = item_room s"
    by (simp_all add: node_room_def item_room_def fun_eq_iff d)
  with assms(2,3) same_data_funs(3) [OF assms(1)] show ?thesis by (intro mem_inv_change) simp_all
qed

lemma pool_inv_same: "same_dict s' s \<Longrightarrow> slab s' = slab s \<Longrightarrow> pool_inv z s' xs L V = pool_inv z s xs L V"
  using dict_inv_same [of s' s xs L V] mem_inv_same [of s' s z "set xs" V] by (simp add: pool_inv_def same_dict_def)

lemma holds_same: "same_dict s' s \<Longrightarrow> slab s' = slab s \<Longrightarrow> holds z s' D = holds z s D"
  by (simp add: holds_def pool_inv_same same_dict_funs)

lemma same_dict_steps [simp]:
  "same_dict (s\<lparr>held := b\<rparr>) s" "same_dict (s\<lparr>ticks := n\<rparr>) s"
  "same_dict (mps_slab_unlock s) s" "same_dict (snd (mps_clock_time_ms s)) s"
  by (simp_all add: same_dict_def same_data_def mps_slab_unlock_def mps_clock_time_ms_def)

subsection \<open>Basic consequences\<close>

lemma dict_inv_key_inj:
  assumes "dict_inv s xs L V" "a \<in> set xs" "b \<in> set xs" "node_key s a = node_key s b"
  shows "a = b"
  using index.rep_inj [of "node_key s" "tree s" xs a b] assms by (auto simp: dict_inv_def nkey_def)

lemma map_of_dict_abs:
  assumes "dict_inv s xs L V" "a \<in> set xs"
  shows "map_of (dict_abs s V L) (node_key s a) = Some (entry_at s V a)"
proof -
  have "inj_on (node_key s) (set L)"
    using assms dict_inv_key_inj [OF assms(1)] by (auto simp: inj_on_def dict_inv_def)
  moreover have "a \<in> set L" using assms by (simp add: dict_inv_def)
  ultimately show ?thesis
    unfolding dict_abs_def by (induction L) (auto dest: inj_on_subset simp: inj_on_def)
qed

lemma map_of_dict_abs_None:
  assumes "dict_inv s xs L V"
  shows "map_of (dict_abs s V L) k = None \<longleftrightarrow> (\<forall>a \<in> set xs. node_key s a \<noteq> k)"
  using assms by (force simp: dict_abs_def map_of_eq_None_iff dict_inv_def)

lemma dict_del_abs:
  assumes inv: "dict_inv s xs L V" and a: "a \<in> set xs"
  shows "dict_del (node_key s a) (dict_abs s V L) = dict_abs s V (remove1 a L)"
proof -
  have "distinct L" "\<forall>b \<in> set L. node_key s b = node_key s a \<longleftrightarrow> b = a"
    using inv a dict_inv_key_inj [OF inv] by (auto simp: dict_inv_def)
  moreover have "filter (\<lambda>x. x \<noteq> a) L = filter ((\<noteq>) a) L" by (rule filter_cong) auto
  ultimately show ?thesis
    by (simp add: dict_abs_def dict_del_def filter_map o_def distinct_remove1_removeAll
        removeAll_filter_not_eq cong: filter_cong)
qed

lemma holds_keys_distinct: "holds z s D \<Longrightarrow> distinct (map fst D)"
proof -
  assume "holds z s D"
  then obtain xs L V where i: "dict_inv s xs L V" "D = dict_abs s V L" by (auto simp: holds_def pool_inv_def)
  then have "inj_on (node_key s) (set L)" "distinct L"
    using dict_inv_key_inj [OF i(1)] by (auto simp: inj_on_def dict_inv_def)
  with i(2) show ?thesis by (simp add: dict_abs_def o_def distinct_map)
qed

end
