(* ===== verification/ShdictLookup.thy ===== *)
theory ShdictLookup
  imports Shdict ShdictInv
begin

text \<open>
  Finding a key: the descent returns, and finds the node of the key if there is one. On top of it,
  \<^verbatim>\<open>mps_shdict_lookup\<close> moves the entry to the front of the LRU order and classifies it by its expiry
  time, \<^verbatim>\<open>mps_shdict_peek\<close> does neither, and the operations that only read (get, get_ttl) or only
  set the expiry time (set_expire, flush_all) act on the abstract dictionary as they should.
\<close>

lemma find_append1: "\<forall>y \<in> set ys. \<not> P y \<Longrightarrow> List.find P (xs @ ys) = List.find P xs"
  by (induction xs) (auto simp: find_None_iff)

lemma find_append2: "\<forall>x \<in> set xs. \<not> P x \<Longrightarrow> List.find P (xs @ ys) = List.find P ys"
  by (induction xs) auto

lemma find_unique:
  "a \<in> set xs \<Longrightarrow> P a \<Longrightarrow> \<forall>b \<in> set xs. P b \<longrightarrow> b = a \<Longrightarrow> List.find P xs = Some a"
proof (induction xs)
  case (Cons x xs)
  then show ?case by (cases "P x") fastforce+
qed simp

text \<open>The descent from a subtree finds what a search of its in-order sequence would.\<close>

lemma shdict_find_subtree:
  fixes s :: shm
  defines "k \<equiv> nkey (node_key s) (tree s)"
  assumes "links_ok (tree s) q T" "rb_sentinel (tree s) \<notin> addrs T"
    "sorted_wrt (\<lambda>a b. k a < k b) (inorder T)"
  shows "shdict_find s h key (ptr (rb_sentinel (tree s)) T) = Some (List.find (\<lambda>a. k a = (h, key)) (inorder T))"
  using assms(2-)
proof (induction T arbitrary: q)
  case Lf
  show ?case by (subst shdict_find.simps) simp
next
  case (Nd c l a r)
  let ?s = "rb_sentinel (tree s)" and ?P = "\<lambda>a. k a = (h, key)"
  have ka: "k a = (rb_key (tree s) a, node_key s a)" by (simp add: k_def nkey_def)
  from Nd.prems have l: "shdict_find s h key (ptr ?s l) = Some (List.find ?P (inorder l))"
    by (intro Nd.IH(1) [of "Some a"]) (auto simp: sorted_wrt_append)
  from Nd.prems have r: "shdict_find s h key (ptr ?s r) = Some (List.find ?P (inorder r))"
    by (intro Nd.IH(2) [of "Some a"]) (auto simp: sorted_wrt_append)
  from Nd.prems have ord: "\<forall>b \<in> addrs l. k b < k a" "\<forall>b \<in> addrs r. k a < k b"
    by (auto simp: sorted_wrt_append)
  have nd: "a \<noteq> ?s" "rb_left (tree s) a = ptr ?s l" "rb_right (tree s) a = ptr ?s r"
    using Nd.prems by auto
  consider "(h, key) < k a" | "(h, key) = k a" | "k a < (h, key)" by (rule linorder_cases)
  then show ?case
  proof cases
    case 1
    with ord(2) have "List.find ?P (inorder l @ a # inorder r) = List.find ?P (inorder l)"
      by (intro find_append1) (auto dest: less_trans)
    moreover have "shdict_find s h key a = shdict_find s h key (ptr ?s l)"
      using 1 nd by (subst shdict_find.simps) (auto simp: ka ngx_memn2cmp_order Let_def)
    ultimately show ?thesis using l by simp
  next
    case 2
    with ord have "List.find ?P (inorder l @ a # inorder r) = Some a"
      by (intro find_unique) auto
    moreover have "shdict_find s h key a = Some (Some a)"
      using 2 nd by (subst shdict_find.simps) (auto simp: ka ngx_memn2cmp_order Let_def)
    ultimately show ?thesis by simp
  next
    case 3
    with ord(1) have "List.find ?P (inorder l @ a # inorder r) = List.find ?P (inorder r)"
      by (subst find_append2) (auto dest: less_trans)
    moreover have "shdict_find s h key a = shdict_find s h key (ptr ?s r)"
      using 3 nd by (subst shdict_find.simps) (auto simp: ka ngx_memn2cmp_order Let_def)
    ultimately show ?thesis using r by simp
  qed
qed

lemma shdict_find_ok:
  assumes "dict_inv s xs L V"
  shows "shdict_find s (ucast (ngx_murmur_hash2 key)) key (rb_root (tree s))
    = Some (List.find (\<lambda>a. node_key s a = key) xs)"
proof -
  from assms obtain T where T: "represents (tree s) T" "inorder T = xs"
    and srt: "sorted_wrt (\<lambda>a b. nkey (node_key s) (tree s) a < nkey (node_key s) (tree s) b) xs"
    and h: "\<forall>a \<in> set xs. rb_key (tree s) a = ucast (ngx_murmur_hash2 (node_key s a))"
    by (auto simp: dict_inv_def index_rep_def)
  from T have "links_ok (tree s) None T" "rb_sentinel (tree s) \<notin> addrs T"
    "rb_root (tree s) = ptr (rb_sentinel (tree s)) T"
    by (auto simp: represents_def tree_at_def)
  with shdict_find_subtree [of s None T "ucast (ngx_murmur_hash2 key)" key] T srt
  have "shdict_find s (ucast (ngx_murmur_hash2 key)) key (rb_root (tree s)) =
      Some (List.find (\<lambda>a. nkey (node_key s) (tree s) a = (ucast (ngx_murmur_hash2 key), key)) xs)" by simp
  also have "List.find (\<lambda>a. nkey (node_key s) (tree s) a = (ucast (ngx_murmur_hash2 key), key)) xs
      = List.find (\<lambda>a. node_key s a = key) xs"
    using h by (intro find_cong) (auto simp: nkey_def)
  finally show ?thesis .
qed

text \<open>The node of a key, against the abstract dictionary.\<close>

lemma find_abs:
  assumes inv: "dict_inv s xs L V"
  shows "case List.find (\<lambda>a. node_key s a = key) xs of
      None \<Rightarrow> map_of (dict_abs s V L) key = None
    | Some a \<Rightarrow> a \<in> set xs \<and> node_key s a = key \<and> map_of (dict_abs s V L) key = Some (entry_at s V a)"
proof (cases "List.find (\<lambda>a. node_key s a = key) xs")
  case None
  then have "\<forall>a \<in> set xs. node_key s a \<noteq> key" by (auto simp: find_None_iff)
  with None map_of_dict_abs_None [OF inv] show ?thesis by simp
next
  case (Some a)
  then have "a \<in> set xs" "node_key s a = key" by (auto simp: find_Some_iff)
  with Some map_of_dict_abs [OF inv] show ?thesis by auto
qed

text \<open>
  The rounds of the descent. If it ends within a number of rounds, its answer is that of the loop; and
  from a subtree one round more than its height is enough, for the sentinel.
\<close>

lemma shdict_find_in_sound: "shdict_find_in n s h key a = Some r \<Longrightarrow> shdict_find s h key a = Some r"
proof (induction n s h key a rule: shdict_find_in.induct)
  case (2 n s h key a)
  then show ?case by (subst shdict_find.simps) (auto simp: Let_def split: if_split_asm)
qed simp

lemma shdict_find_in_ends:
  fixes s :: shm
  assumes "links_ok (tree s) q T" "rb_sentinel (tree s) \<notin> addrs T" "height T < n"
  shows "shdict_find_in n s h key (ptr (rb_sentinel (tree s)) T) \<noteq> None"
  using assms
proof (induction T arbitrary: q n)
  case Lf
  then show ?case by (cases n) simp_all
next
  case (Nd c l a r)
  then obtain m where n: "n = Suc m" "height l < m" "height r < m" by (cases n) auto
  from Nd.prems n have "shdict_find_in m s h key (ptr (rb_sentinel (tree s)) l) \<noteq> None"
    by (intro Nd.IH(1) [of "Some a"]) auto
  moreover from Nd.prems n have "shdict_find_in m s h key (ptr (rb_sentinel (tree s)) r) \<noteq> None"
    by (intro Nd.IH(2) [of "Some a"]) auto
  ultimately show ?case using Nd.prems by (auto simp: n(1) Let_def)
qed

text \<open>With \<open>n\<close> entries and \<open>n + 1 < 2 ^ j\<close>, the loop ends within \<open>2 j\<close> rounds.\<close>

lemma shdict_find_rounds:
  assumes inv: "dict_inv s xs L V" and j: "length xs + 1 < 2 ^ j"
  shows "shdict_find_in (2 * j) s h key (rb_root (tree s)) = shdict_find s h key (rb_root (tree s))"
proof -
  from inv obtain T where T: "represents (tree s) T" "inorder T = xs" "rbt T"
    by (auto simp: dict_inv_def index_rep_def)
  from rbt_height [OF T(3)] T(2) have "2 ^ (height T div 2) \<le> length xs + 1" by simp
  also note j
  finally have "height T < 2 * j" by simp
  moreover have "links_ok (tree s) None T" "rb_sentinel (tree s) \<notin> addrs T"
    "rb_root (tree s) = ptr (rb_sentinel (tree s)) T"
    using T(1) by (auto simp: represents_def tree_at_def)
  ultimately obtain r where "shdict_find_in (2 * j) s h key (rb_root (tree s)) = Some r"
    using shdict_find_in_ends by fastforce
  with shdict_find_in_sound show ?thesis by metis
qed

lemma find_rounds_abs:
  assumes "holds z s D" "length D + 1 < 2 ^ j"
  shows "\<exists>found. shdict_find_in (2 * j) s (ucast (ngx_murmur_hash2 key)) key (rb_root (tree s)) = Some found
    \<and> shdict_find s (ucast (ngx_murmur_hash2 key)) key (rb_root (tree s)) = Some found
    \<and> (case found of None \<Rightarrow> map_of D key = None
       | Some a \<Rightarrow> node_key s a = key \<and> map_of D key \<noteq> None)"
proof -
  from assms(1) obtain xs L V where i: "dict_inv s xs L V" "D = dict_abs s V L"
    by (auto simp: holds_def pool_inv_def)
  from i have "set L = set xs" "distinct L" "distinct xs" by (auto simp: dict_inv_def dest: index.rep_distinct)
  then have "length xs = length D" using i(2) by (simp add: dict_abs_def flip: distinct_card)
  with shdict_find_rounds [OF i(1), of j "ucast (ngx_murmur_hash2 key)" key] shdict_find_ok [OF i(1), of key]
    find_abs [OF i(1), of key] assms(2) i(2)
  show ?thesis by (auto split: option.splits)
qed

subsection \<open>Touching an entry\<close>

lemma upd_links_sel [simp]:
  "tree (upd_links f s) = tree s" "links (upd_links f s) = f (links s)" "expires (upd_links f s) = expires s"
  "value_type (upd_links f s) = value_type s" "value_len (upd_links f s) = value_len s"
  "key_len (upd_links f s) = key_len s" "bytes (upd_links f s) = bytes s"
  "user_flags (upd_links f s) = user_flags s" "slab (upd_links f s) = slab s" "held (upd_links f s) = held s"
  "clock (upd_links f s) = clock s" "ticks (upd_links f s) = ticks s" "same_data (upd_links f s) s"
  by (simp_all add: upd_links_def same_data_def)

lemma lru_upd_links [simp]: "lru_queue (upd_links f s) = lru_queue s"
  by (simp add: lru_queue_def)

text \<open>A change of the links that leaves the list values alone.\<close>

lemma links_change:
  assumes "same_data s' s" "\<And>a. a \<in> set xs \<Longrightarrow> is_list s a \<Longrightarrow>
      dll (links s') (list_head s a) (V a) = dll (links s) (list_head s a) (V a)"
  shows "\<forall>a \<in> set xs. list_ok s V a \<Longrightarrow> \<forall>a \<in> set xs. list_ok s' V a"
  using assms same_data_funs [OF assms(1)] by (auto simp: list_ok_def same_data_def)

lemma entry_at_links [simp]: "entry_at (upd_links f s) = entry_at s"
  using same_data_funs [of "upd_links f s" s] by (intro ext) (simp add: entry_at_def)

lemma dict_abs_links [simp]: "dict_abs (upd_links f s) = dict_abs s"
  using same_data_funs [of "upd_links f s" s] by (intro ext) (simp add: dict_abs_def)

lemma list_links_disjoint:
  assumes "dict_inv s xs L V" "a \<in> set xs" "is_list s a"
  shows "set (lru_queue s # map node_link L) \<inter> set (list_head s a # V a) = {}"
proof -
  have "own_links s V a = set (list_head s a # V a)" using assms(3) by (simp add: own_links_def)
  moreover have "lru_queue s \<notin> own_links s V a" "own_links s V a \<inter> node_link ` set xs = {}" "set L = set xs"
    using assms(1,2) by (auto simp: dict_inv_def separate_def)
  ultimately show ?thesis by auto
qed

lemma lru_touch_ok:
  assumes inv: "dict_inv s xs L V" and a: "a \<in> set xs"
  shows "dict_inv (lru_touch (sd_of_node a) s) xs (a # remove1 a L) V"
    "dict_abs (lru_touch (sd_of_node a) s) V (a # remove1 a L) = dict_touch (node_key s a) (dict_abs s V L)"
    "same_data (lru_touch (sd_of_node a) s) s" "expires (lru_touch (sd_of_node a) s) = expires s"
    "user_flags (lru_touch (sd_of_node a) s) = user_flags s" "entry_at (lru_touch (sd_of_node a) s) = entry_at s"
    "held (lru_touch (sd_of_node a) s) = held s" "clock (lru_touch (sd_of_node a) s) = clock s"
    "ticks (lru_touch (sd_of_node a) s) = ticks s"
    "tree (lru_touch (sd_of_node a) s) = tree s" "slab (lru_touch (sd_of_node a) s) = slab s"
proof -
  let ?t = "lru_touch (sd_of_node a) s"
  let ?f = "\<lambda>m. mps_queue_insert_head (lru_queue s) (node_link a) (mps_queue_remove (node_link a) m)"
  have t: "?t = upd_links ?f s" by (simp add: lru_touch_def) (simp add: upd_links_def)
  show d: "same_data ?t s" and "expires ?t = expires s" "user_flags ?t = user_flags s"
    and e: "entry_at ?t = entry_at s" and "held ?t = held s" "clock ?t = clock s" "ticks ?t = ticks s"
    "tree ?t = tree s" "slab ?t = slab s" by (simp_all add: t)
  have L: "dll (links s) (lru_queue s) (map node_link L)" "set L = set xs" "distinct L"
    using inv by (auto simp: dict_inv_def)
  have al: "node_link a \<in> set (map node_link L)" using a L(2) by simp
  have "dll (?f (links s)) (lru_queue s) (node_link a # remove1 (node_link a) (map node_link L))"
    by (rule lq.rep_move_to_head [OF L(1) al])
  moreover have "remove1 (node_link a) (map node_link L) = map node_link (remove1 a L)"
    by (induction L) auto
  ultimately have lru: "dll (links ?t) (lru_queue s) (map node_link (a # remove1 a L))" by (simp add: t)
  have "dll (links ?t) (list_head s b) (V b) = dll (links s) (list_head s b) (V b)"
    if "b \<in> set xs" "is_list s b" for b
    unfolding t upd_links_sel using list_links_disjoint [OF inv that]
    by (intro lq.other_move_to_head [OF L(1) al])
  then have "\<forall>b \<in> set xs. list_ok ?t V b"
    using links_change [OF d, of xs V] inv by (simp add: dict_inv_def)
  then show "dict_inv ?t xs (a # remove1 a L) V"
    using inv lru L a same_data_funs [OF d] by (auto simp: dict_inv_def t)
  have "dict_abs ?t V (a # remove1 a L) = (node_key s a, entry_at s V a) # dict_abs s V (remove1 a L)"
    using same_data_funs [OF d] e by (simp add: dict_abs_def)
  then show "dict_abs ?t V (a # remove1 a L) = dict_touch (node_key s a) (dict_abs s V L)"
    using map_of_dict_abs [OF inv a] dict_del_abs [OF inv a] by (simp add: dict_touch_def)
qed

lemma lru_touch_pool:
  assumes "pool_inv z s xs L V" "a \<in> set xs"
  shows "pool_inv z (lru_touch (sd_of_node a) s) xs (a # remove1 a L) V"
proof -
  note t = lru_touch_ok [OF pool_invD(1) [OF assms(1)] assms(2)]
  from mem_inv_same [OF t(3,11)] t(1,10) pool_invD(2) [OF assms(1)] show ?thesis by (simp add: pool_inv_def)
qed

subsection \<open>Lookup and peek\<close>

text \<open>The time the next reading of the clock gives, and the entries that have expired by then.\<close>

definition time_of :: "shm \<Rightarrow> u64" where
  "time_of s = fst (mps_clock_time_ms s)"

definition time_nth :: "shm \<Rightarrow> nat \<Rightarrow> u64" where
  "time_nth s i = (case clock s (ticks s + i) of None \<Rightarrow> 0 | Some ts \<Rightarrow> msec_from_timespec ts)"

lemma time_nth_0 [simp]: "time_nth s 0 = time_of s"
  by (simp add: time_nth_def time_of_def mps_clock_time_ms_def)

definition expired :: "u64 \<Rightarrow> entry \<Rightarrow> bool" where
  "expired now e \<longleftrightarrow> e_expires e \<noteq> 0 \<and> sint (e_expires e - now) < 0"

text \<open>What a lookup finds, as the rest of an operation needs it.\<close>

definition looked_up :: "slab_sizes \<Rightarrow> shm \<Rightarrow> byte list \<Rightarrow> off list \<Rightarrow> off list \<Rightarrow> (off \<Rightarrow> off list) \<Rightarrow> off \<Rightarrow> shm \<Rightarrow> bool" where
  "looked_up z s key xs L V a s' \<longleftrightarrow> a \<in> set xs \<and> node_key s a = key
     \<and> pool_inv z s' xs (a # remove1 a L) V
     \<and> dict_abs s' V (a # remove1 a L) = dict_touch key (dict_abs s V L)
     \<and> same_data s' s \<and> entry_at s' = entry_at s \<and> expires s' = expires s \<and> user_flags s' = user_flags s
     \<and> held s' = held s \<and> slab s' = slab s \<and> clock s' = clock s
     \<and> ticks s' = ticks s + (if expires s (sd_of_node a) = 0 then 0 else 1)"

lemma entry_expires [simp]: "e_expires (entry_at s V a) = expires s (sd_of_node a)"
  by (simp add: entry_at_def)

lemma lookup_ok:
  assumes pinv: "pool_inv z s xs L V"
  shows "case map_of (dict_abs s V L) key of
      None \<Rightarrow> mps_shdict_lookup (ucast (ngx_murmur_hash2 key)) key s = Some (NGX_DECLINED, None, s)
    | Some e \<Rightarrow> \<exists>a s'. mps_shdict_lookup (ucast (ngx_murmur_hash2 key)) key s
          = Some (if expired (time_of s) e then NGX_DONE else NGX_OK, Some (sd_of_node a), s')
        \<and> looked_up z s key xs L V a s' \<and> e = entry_at s V a"
proof -
  note inv = pool_invD(1) [OF pinv]
  show ?thesis
  proof (cases "List.find (\<lambda>a. node_key s a = key) xs")
  case None
  with find_abs [OF inv, of key] shdict_find_ok [OF inv, of key] show ?thesis
    by (simp add: mps_shdict_lookup_def)
next
  case (Some a)
  with find_abs [OF inv, of key] have a: "a \<in> set xs" "node_key s a = key"
    and m: "map_of (dict_abs s V L) key = Some (entry_at s V a)" by auto
  let ?t = "lru_touch (sd_of_node a) s" and ?sd = "sd_of_node a"
  note t = lru_touch_ok [OF inv a(1)]
  have lk: "looked_up z s key xs L V a (?t\<lparr>ticks := ticks s + (if expires s ?sd = 0 then 0 else 1)\<rparr>)"
  proof -
    let ?u = "?t\<lparr>ticks := ticks s + (if expires s ?sd = 0 then 0 else 1)\<rparr>"
    have "same_dict ?u ?t" by simp
    from pool_inv_same [OF this] same_dict_funs [OF this] show ?thesis
      using t a lru_touch_pool [OF pinv a(1)] by (simp add: looked_up_def same_data_def)
  qed
  have now: "fst (mps_clock_time_ms ?t) = time_of s" using t by (simp add: time_of_def mps_clock_time_ms_def)
  have snd: "snd (mps_clock_time_ms ?t) = ?t\<lparr>ticks := Suc (ticks ?t)\<rparr>" by (simp add: mps_clock_time_ms_def)
  have "mps_shdict_lookup (ucast (ngx_murmur_hash2 key)) key s
      = Some (if expired (time_of s) (entry_at s V a) then NGX_DONE else NGX_OK, Some ?sd,
              ?t\<lparr>ticks := ticks s + (if expires s ?sd = 0 then 0 else 1)\<rparr>)"
    using Some shdict_find_ok [OF inv, of key] now snd t(4,9)
    by (simp add: mps_shdict_lookup_def Let_def expired_def split_def)
  with lk m show ?thesis by auto
qed
qed

lemma peek_ok:
  assumes inv: "dict_inv s xs L V"
  shows "case map_of (dict_abs s V L) key of
      None \<Rightarrow> mps_shdict_peek (ucast (ngx_murmur_hash2 key)) key s = Some (NGX_DECLINED, None)
    | Some e \<Rightarrow> \<exists>a. mps_shdict_peek (ucast (ngx_murmur_hash2 key)) key s = Some (NGX_OK, Some (sd_of_node a))
        \<and> a \<in> set xs \<and> node_key s a = key \<and> e = entry_at s V a"
proof (cases "List.find (\<lambda>a. node_key s a = key) xs")
  case None
  with find_abs [OF inv, of key] shdict_find_ok [OF inv, of key] show ?thesis
    by (simp add: mps_shdict_peek_def)
next
  case (Some a)
  with find_abs [OF inv, of key] shdict_find_ok [OF inv, of key] show ?thesis
    by (simp add: mps_shdict_peek_def)
qed

subsection \<open>Get\<close>

text \<open>What get answers for an entry, in terms of the entry.\<close>

definition get_spec :: "nat \<Rightarrow> bool \<Rightarrow> bool \<Rightarrow> u64 \<Rightarrow> entry option \<Rightarrow> get_result" where
  "get_spec buf_len get_stale malloc_ok now found =
     (case found of
        None \<Rightarrow> get_fail NGX_OK MPS_SHDICT_TNIL False None
      | Some e \<Rightarrow>
          if expired now e \<and> \<not> get_stale then get_fail NGX_OK MPS_SHDICT_TNIL False None
          else
            let t = uint (e_type e);
                v = e_bytes e;
                ok = (\<lambda>r. r\<lparr>gt_flags := Some (e_flags e),
                       gt_stale := (if get_stale then Some (expired now e) else None)\<rparr>)
            in if t = MPS_SHDICT_TSTRING then
                 if buf_len < length v \<and> \<not> malloc_ok then get_fail NGX_ERROR t True None
                 else ok ((get_fail NGX_OK t (buf_len < length v) None)
                            \<lparr>gt_str := Some v, gt_str_len := Some (length v)\<rparr>)
               else if t = MPS_SHDICT_TNUMBER then
                 if length v \<noteq> 8 then get_fail NGX_ERROR t False None
                 else ok ((get_fail NGX_OK t False None)
                            \<lparr>gt_str_len := Some 8, gt_num := Some (bytes_double v)\<rparr>)
               else if t = MPS_SHDICT_TBOOLEAN then
                 if buf_len < length v \<or> length v \<noteq> 1 then get_fail NGX_ERROR t False None
                 else ok ((get_fail NGX_OK t False None)\<lparr>gt_str := Some v\<rparr>)
               else if t = MPS_SHDICT_TLIST then get_fail NGX_ERROR t False (Some ''value is a list'')
               else get_fail NGX_ERROR t False None)"

lemma lock_unheld: "\<not> held s \<Longrightarrow> mps_slab_lock s = Some (s\<lparr>held := True\<rparr>)"
  by (simp add: mps_slab_lock_def)

lemma unlock_sel [simp]: "held (mps_slab_unlock s) = False" "user_flags (mps_slab_unlock s) = user_flags s"
  "slab (mps_slab_unlock s) = slab s" "clock (mps_slab_unlock s) = clock s" "ticks (mps_slab_unlock s) = ticks s"
  by (simp_all add: mps_slab_unlock_def)

lemma time_of_held [simp]: "time_of (s\<lparr>held := b\<rparr>) = time_of s"
  by (simp add: time_of_def mps_clock_time_ms_def)

lemma holds_unlock [simp]: "holds z (mps_slab_unlock s) D = holds z s D"
  by (rule holds_same) simp_all

lemma holds_lock [simp]: "holds z (s\<lparr>held := b\<rparr>) D = holds z s D"
  by (rule holds_same) simp_all

lemma length_sd_value: "length (sd_value s sd) = unat (value_len s sd)"
  by (simp add: sd_value_def)

lemma get_refines:
  assumes hold: "holds z s D" and unheld: "\<not> held s"
  shows "\<exists>s'. mps_shdict_get key buf_len get_stale malloc_ok s
      = Some (get_spec buf_len get_stale malloc_ok (time_of s) (map_of D key), s')
    \<and> holds z s' (dict_touch key D) \<and> \<not> held s'"
proof -
  let ?s = "s\<lparr>held := True\<rparr>" and ?h = "ucast (ngx_murmur_hash2 key)"
  from hold obtain xs L V where pinv: "pool_inv z ?s xs L V" and D: "D = dict_abs ?s V L"
    using holds_lock [of z True s D] by (auto simp: holds_def)
  note inv = pool_invD(1) [OF pinv]
  show ?thesis
  proof (cases "map_of D key")
    case None
    with lookup_ok [OF pinv, of key] D have "mps_shdict_lookup ?h key ?s = Some (NGX_DECLINED, None, ?s)" by simp
    then have "mps_shdict_get key buf_len get_stale malloc_ok s
        = Some (get_fail NGX_OK MPS_SHDICT_TNIL False None, mps_slab_unlock ?s)"
      by (simp add: mps_shdict_get_def lock_unheld [OF unheld])
    with None hold show ?thesis by (simp add: get_spec_def dict_touch_def)
  next
    case (Some e)
    with lookup_ok [OF pinv, of key] D obtain a s' where
      lk: "mps_shdict_lookup ?h key ?s = Some (if expired (time_of s) e then NGX_DONE else NGX_OK, Some (sd_of_node a), s')"
        "looked_up z ?s key xs L V a s'" "e = entry_at ?s V a" by auto
    then have h': "holds z s' (dict_touch key D)" using D by (auto simp: looked_up_def holds_def intro!: exI)
    have d: "same_data s' ?s" "entry_at s' = entry_at ?s" "user_flags s' = user_flags ?s"
      using lk(2) by (auto simp: looked_up_def)
    let ?sd = "sd_of_node a"
    have e: "e_type e = value_type s' ?sd" "e_flags e = user_flags s' ?sd"
      "uint (value_type s' ?sd) \<noteq> MPS_SHDICT_TLIST \<Longrightarrow> e_bytes e = sd_value s' ?sd"
      using lk(3) d same_data_funs [OF d(1)] by (auto simp: entry_at_def same_data_def is_list_def)
    have "mps_shdict_get key buf_len get_stale malloc_ok s
        = Some (get_spec buf_len get_stale malloc_ok (time_of s) (Some e), mps_slab_unlock s')"
      using lk(1) e unfolding mps_shdict_get_def get_spec_def
      by (auto simp: lock_unheld [OF unheld] Let_def get_done_def length_sd_value tags)
    with Some h' show ?thesis by simp
  qed
qed

subsection \<open>Time to live\<close>

lemma get_ttl_refines:
  assumes hold: "holds z s D" and unheld: "\<not> held s"
  shows "\<exists>s'. mps_shdict_get_ttl key s
      = Some (case map_of D key of None \<Rightarrow> NGX_DECLINED
              | Some e \<Rightarrow> if e_expires e = 0 then 0 else sint (e_expires e - time_of s), s')
    \<and> holds z s' D \<and> \<not> held s'"
proof -
  let ?s = "s\<lparr>held := True\<rparr>"
  from hold obtain xs L V where pinv: "pool_inv z ?s xs L V" and D: "D = dict_abs ?s V L"
    using holds_lock [of z True s D] by (auto simp: holds_def)
  note inv = pool_invD(1) [OF pinv]
  have tick: "holds z (s\<lparr>held := False, ticks := n\<rparr>) D" for n
    using hold holds_same [of "s\<lparr>held := False, ticks := n\<rparr>" s z D] by (simp add: same_dict_def same_data_def)
  from peek_ok [OF inv, of key] show ?thesis
  proof (cases "map_of D key")
    case None
    with peek_ok [OF inv, of key] D hold show ?thesis
      by (simp add: mps_shdict_get_ttl_def lock_unheld [OF unheld])
  next
    case (Some e)
    with peek_ok [OF inv, of key] D obtain a where
      "mps_shdict_peek (ucast (ngx_murmur_hash2 key)) key ?s = Some (NGX_OK, Some (sd_of_node a))"
      "e = entry_at ?s V a" by auto
    with Some hold tick show ?thesis
      by (auto simp: mps_shdict_get_ttl_def lock_unheld [OF unheld] mps_clock_time_ms_def time_of_def
          mps_slab_unlock_def split_def)
  qed
qed

text \<open>Changing the expiry time of one entry.\<close>

definition dict_set_expires :: "byte list \<Rightarrow> u64 \<Rightarrow> dict \<Rightarrow> dict" where
  "dict_set_expires k t D = map (\<lambda>(k', e). (k', if k' = k then e\<lparr>e_expires := t\<rparr> else e)) D"

lemma set_expires_sel [simp]:
  "tree (set_expires sd v s) = tree s" "links (set_expires sd v s) = links s" "slab (set_expires sd v s) = slab s"
  "expires (set_expires sd v s) = (expires s)(sd := v)" "user_flags (set_expires sd v s) = user_flags s"
  "held (set_expires sd v s) = held s" "same_data (set_expires sd v s) s"
  "clock (set_expires sd v s) = clock s" "ticks (set_expires sd v s) = ticks s"
  "value_type (set_expires sd v s) = value_type s" "value_len (set_expires sd v s) = value_len s"
  "key_len (set_expires sd v s) = key_len s" "bytes (set_expires sd v s) = bytes s"
  by (simp_all add: set_expires_def same_data_def)

lemma dict_inv_expires: "dict_inv (set_expires sd v s) xs L V = dict_inv s xs L V"
  using same_data_funs [of "set_expires sd v s" s] by (simp add: dict_inv_def list_ok_def)

lemma pool_inv_expires: "pool_inv z (set_expires sd v s) xs L V = pool_inv z s xs L V"
  using mem_inv_same [of "set_expires sd v s" s z "set xs" V] by (simp add: pool_inv_def dict_inv_expires)

lemma entry_at_expires:
  "entry_at (set_expires (sd_of_node a) v s) V b = (if b = a then (entry_at s V b)\<lparr>e_expires := v\<rparr> else entry_at s V b)"
  using same_data_funs [of "set_expires (sd_of_node a) v s" s] by (simp add: entry_at_def)

lemma dict_abs_expires:
  assumes "dict_inv s xs L V" "a \<in> set xs"
  shows "dict_abs (set_expires (sd_of_node a) v s) V L = dict_set_expires (node_key s a) v (dict_abs s V L)"
proof -
  have "\<forall>b \<in> set L. node_key s b = node_key s a \<longleftrightarrow> b = a"
    using assms dict_inv_key_inj [OF assms(1)] by (auto simp: dict_inv_def)
  then show ?thesis
    using same_data_funs [of "set_expires (sd_of_node a) v s" s]
    by (simp add: dict_abs_def dict_set_expires_def entry_at_expires)
qed

lemma set_expire_refines:
  assumes hold: "holds z s D" and unheld: "\<not> held s"
  shows "\<exists>s'. mps_shdict_set_expire key exptime s = Some (if map_of D key = None then NGX_DECLINED else NGX_OK, s')
    \<and> holds z s' (dict_set_expires key (if exptime > 0 then time_of s + of_int exptime else 0) D) \<and> \<not> held s'
    \<and> clock s' = clock s \<and> ticks s' = ticks s + (if exptime > 0 then 1 else 0)"
proof -
  let ?t = "if exptime > 0 then time_of s + of_int exptime else 0"
  define r where "r = snd (if exptime > 0 then mps_clock_time_ms s else (0, s))"
  have r: "same_dict r s" "\<not> held r" "clock r = clock s" "ticks r = ticks s + (if exptime > 0 then 1 else 0)"
    "slab r = slab s"
    using unheld by (auto simp: r_def) (simp_all add: mps_clock_time_ms_def)
  have p: "(if exptime > 0 then mps_clock_time_ms s else (0, s)) = (if exptime > 0 then time_of s else 0, r)"
    by (auto simp: r_def time_of_def)
  let ?s = "r\<lparr>held := True\<rparr>"
  from hold obtain xs L V where pinv: "pool_inv z ?s xs L V" and D: "D = dict_abs ?s V L"
    using holds_lock [of z True r D] holds_same [OF r(1,5), of z D] by (auto simp: holds_def)
  note inv = pool_invD(1) [OF pinv]
  show ?thesis
  proof (cases "map_of D key")
    case None
    then have "dict_set_expires key ?t D = D"
      by (induction D) (auto simp: dict_set_expires_def split: if_splits)
    with None peek_ok [OF inv, of key] D hold holds_same [OF r(1,5), of z D] show ?thesis
      by (auto simp: mps_shdict_set_expire_def lock_unheld [OF r(2)] p r(3,4))
  next
    case (Some e)
    with peek_ok [OF inv, of key] D obtain a where
      a: "mps_shdict_peek (ucast (ngx_murmur_hash2 key)) key ?s = Some (NGX_OK, Some (sd_of_node a))"
      "a \<in> set xs" "node_key ?s a = key" by auto
    have "holds z (set_expires (sd_of_node a) ?t ?s) (dict_set_expires key ?t D)"
      using pinv dict_abs_expires [OF inv a(2), of ?t] D a(3) by (intro holdsI [of z _ xs L V]) (simp_all add: pool_inv_expires)
    with Some a(1) show ?thesis
      by (auto simp: mps_shdict_set_expire_def lock_unheld [OF r(2)] p r(3,4) split: if_splits)
  qed
qed

end
