(* ===== verification/ShdictRemove.thy ===== *)
theory ShdictRemove
  imports ShdictLookup SlabFrame
begin

text \<open>
  Removing entries: the three steps that take a node out (LRU queue, tree, memory) and the loop that
  frees the nodes of a list value return, and remove exactly that key from the abstract dictionary.
  Then \<^verbatim>\<open>mps_shdict_expire\<close>, which drops a suffix of the LRU order, \<^verbatim>\<open>mps_shdict_delete\<close> and
  \<^verbatim>\<open>mps_shdict_flush_all\<close>.
\<close>

subsection \<open>Releasing memory leaves the dictionary alone\<close>

lemma free_locked_pool_data [simp]: "pool_data (snd (mps_slab_free_locked z s p)) = pool_data s"
  using geom_sel(1) [OF geom_free_locked] .

lemma shm_free_same [simp]: "same_dict (shm_free_locked z p s) s" "held (shm_free_locked z p s) = held s"
  "clock (shm_free_locked z p s) = clock s" "ticks (shm_free_locked z p s) = ticks s"
  "links (shm_free_locked z p s) = links s" "value_type (shm_free_locked z p s) = value_type s"
  by (simp_all add: shm_free_locked_def same_dict_def same_data_def)

text \<open>The loop over a list's nodes ends at its head.\<close>

lemma free_list_nodes_ok:
  "dll (links s) h (as @ bs) \<Longrightarrow> \<exists>s'. free_list_nodes z h (hd (bs @ [h])) s = Some s' \<and> same_dict s' s
     \<and> held s' = held s \<and> clock s' = clock s \<and> ticks s' = ticks s"
proof (induction bs arbitrary: s as)
  case Nil
  show ?case by (subst free_list_nodes.simps) (simp add: mps_queue_sentinel_def)
next
  case (Cons b bs)
  let ?s = "shm_free_locked z (lnode_of_queue b) s"
  have "b \<noteq> h" using Cons.prems lq.rep_distinct by fastforce
  moreover have "mps_queue_next b (links s) = hd (bs @ [h])" using Cons.prems by (rule lq.nxt_rep)
  ultimately have "free_list_nodes z h b s = free_list_nodes z h (hd (bs @ [h])) ?s"
    by (subst free_list_nodes.simps) (simp add: mps_queue_sentinel_def)
  moreover have "dll (links ?s) h ((as @ [b]) @ bs)" using Cons.prems by simp
  then obtain s' where "free_list_nodes z h (hd (bs @ [h])) ?s = Some s'" "same_dict s' ?s"
    "held s' = held s" "clock s' = clock s" "ticks s' = ticks s"
    using Cons.IH [of ?s "as @ [b]"] by auto
  ultimately show ?case using same_dict_trans [OF _ shm_free_same(1)] by simp
qed

subsection \<open>The blocks that are given back\<close>

lemma slab_release:
  assumes "slab_holds z (slab s) ((\<lambda>p. (p, f p)) ` U)" "a \<in> U"
  shows "slab_holds z (slab (shm_free_locked z a s)) ((\<lambda>p. (p, f p)) ` (U - {a}))"
proof -
  have "(a, f a) \<in> (\<lambda>p. (p, f p)) ` U" using assms(2) by blast
  from slab.release_block [OF assms(1) this] obtain s' where
    "mps_slab_free_locked z (slab s) a = (None, s')" "slab_holds z s' ((\<lambda>p. (p, f p)) ` U - {(a, f a)})" by blast
  moreover have "(\<lambda>p. (p, f p)) ` U - {(a, f a)} = (\<lambda>p. (p, f p)) ` (U - {a})" by auto
  ultimately show ?thesis by (simp add: shm_free_locked_def)
qed

lemma free_list_nodes_slab:
  "dll (links s) h (as @ bs) \<Longrightarrow> free_list_nodes z h (hd (bs @ [h])) s = Some s' \<Longrightarrow>
     slab_holds z (slab s) ((\<lambda>p. (p, f p)) ` U) \<Longrightarrow> set bs \<subseteq> U \<Longrightarrow>
     slab_holds z (slab s') ((\<lambda>p. (p, f p)) ` (U - set bs))"
proof (induction bs arbitrary: s as U)
  case Nil
  then show ?case by (subst (asm) free_list_nodes.simps) (simp add: mps_queue_sentinel_def)
next
  case (Cons b bs)
  let ?s = "shm_free_locked z (lnode_of_queue b) s"
  have "b \<noteq> h" using Cons.prems(1) lq.rep_distinct by fastforce
  moreover have "mps_queue_next b (links s) = hd (bs @ [h])" using Cons.prems(1) by (rule lq.nxt_rep)
  ultimately have run: "free_list_nodes z h (hd (bs @ [h])) ?s = Some s'"
    using Cons.prems(2) by (subst (asm) free_list_nodes.simps) (simp add: mps_queue_sentinel_def)
  have d: "dll (links ?s) h ((as @ [b]) @ bs)" using Cons.prems(1) by simp
  have "distinct (b # bs)" using lq.rep_distinct [OF Cons.prems(1)] by simp
  then have sub: "set bs \<subseteq> U - {b}" using Cons.prems(4) by auto
  have "slab_holds z (slab ?s) ((\<lambda>p. (p, f p)) ` (U - {b}))"
    using slab_release [OF Cons.prems(3), of b] Cons.prems(4) by (simp add: lnode_of_queue_def)
  from Cons.IH [OF d run this sub] have "slab_holds z (slab s') ((\<lambda>p. (p, f p)) ` (U - {b} - set bs))" .
  moreover have "U - {b} - set bs = U - set (b # bs)" by auto
  ultimately show ?case by simp
qed

text \<open>The blocks of an entry, and what is left of the others.\<close>

lemma used_blocks_remove:
  assumes "apart s V A" "a \<in> A"
  shows "used_blocks s V (A - {a}) = used_blocks s V A - own_items s V a - {a}"
    "own_items s V a \<subseteq> used_blocks s V A" "a \<in> used_blocks s V A - own_items s V a"
proof -
  from assms have f: "pool_data (slab s) \<noteq> a" "pool_data (slab s) \<notin> own_items s V a" "own_items s V a \<inter> A = {}"
    "\<And>b. b \<in> A \<Longrightarrow> b \<noteq> a \<Longrightarrow> own_items s V b \<inter> own_items s V a = {}" "\<And>b. b \<in> A \<Longrightarrow> a \<notin> own_items s V b"
    by (auto simp: apart_def)
  have "(\<Union>b \<in> A. own_items s V b) = own_items s V a \<union> (\<Union>b \<in> A - {a}. own_items s V b)" using assms(2) by auto
  moreover have "(\<Union>b \<in> A - {a}. own_items s V b) \<inter> own_items s V a = {}" using f(4) by auto
  moreover have "a \<notin> (\<Union>b \<in> A - {a}. own_items s V b)" using f(5) by auto
  ultimately show "used_blocks s V (A - {a}) = used_blocks s V A - own_items s V a - {a}"
    using f(1-3) by (auto simp: used_blocks_def)
  show "own_items s V a \<subseteq> used_blocks s V A" using assms(2) by (auto simp: used_blocks_def)
  show "a \<in> used_blocks s V A - own_items s V a" using assms(2) f(3) by (auto simp: used_blocks_def)
qed

lemma apart_mono: "apart s V A \<Longrightarrow> B \<subseteq> A \<Longrightarrow> apart s V B"
  unfolding apart_def disjoint_iff subset_eq by (simp, blast)

lemma room_ok_mono: "room_ok s V A f \<Longrightarrow> B \<subseteq> A \<Longrightarrow> room_ok s V B f"
  by (auto simp: room_ok_def)

subsection \<open>Taking out a node\<close>

lemma separate_mono:
  assumes s: "separate s V A" and B: "B \<subseteq> A"
  shows "separate s V B"
  unfolding separate_def
proof (intro conjI ballI impI)
  fix a assume "a \<in> B"
  with B have a: "a \<in> A" by auto
  with s show "lru_queue s \<noteq> node_link a" "lru_queue s \<notin> own_links s V a" by (simp_all add: separate_def)
  from s a have "own_links s V a \<inter> node_link ` A = {}" by (simp add: separate_def)
  with B show "own_links s V a \<inter> node_link ` B = {}" by auto
  fix b assume "b \<in> B" "a \<noteq> b"
  with s a B show "own_links s V a \<inter> own_links s V b = {}" "own_span s V a \<inter> own_span s V b = {}"
    unfolding separate_def by (metis subsetD)+
qed

lemma remove_node_ok:
  assumes inv: "dict_inv s xs L V" and a: "a \<in> set xs"
  shows "\<exists>s'. remove_node z (sd_of_node a) s = Some s' \<and> dict_inv s' (remove1 a xs) (remove1 a L) V
    \<and> dict_abs s' V (remove1 a L) = dict_del (node_key s a) (dict_abs s V L)
    \<and> same_data s' s \<and> held s' = held s \<and> clock s' = clock s \<and> ticks s' = ticks s
    \<and> slab s' = slab (shm_free_locked z a s) \<and> rb_sentinel (tree s') = rb_sentinel (tree s)"
proof -
  let ?u = "upd_links (mps_queue_remove (node_link a)) s"
  from inv have rep: "index_rep (node_key s) (tree s) xs" and L: "distinct L" "set L = set xs"
    and h: "\<forall>a \<in> set xs. rb_key (tree s) a = ucast (ngx_murmur_hash2 (node_key s a))"
    and lru: "dll (links s) (lru_queue s) (map node_link L)"
    and ok: "\<forall>a \<in> set xs. list_ok s V a" and sep: "separate s V (set xs)" by (auto simp: dict_inv_def)
  have d: "distinct xs" by (rule index.rep_distinct [OF rep])
  then have xs': "set (remove1 a xs) = set xs - {a}" by simp
  from index.delete_rep [OF rep a] obtain t' where
    t': "mps_rbtree_delete (tree s) a = Some t'" "\<forall>b. b \<noteq> a \<longrightarrow> nkey (node_key s) t' b = nkey (node_key s) (tree s) b"
      "index_rep (node_key s) t' (remove1 a xs)" "fresh_in t' = fresh_in (tree s)" by blast
  have sent: "rb_sentinel t' = rb_sentinel (tree s)" using t'(4) by (auto simp: fresh_in_def fun_eq_iff)
  define s' where "s' = shm_free_locked z a (?u\<lparr>tree := t'\<rparr>)"
  have run: "remove_node z (sd_of_node a) s = Some s'"
    by (simp add: remove_node_def upd_tree_def t'(1) s'_def)
  have f: "same_data s' s" "tree s' = t'" "links s' = mps_queue_remove (node_link a) (links s)"
    "held s' = held s" "clock s' = clock s" "ticks s' = ticks s" "expires s' = expires s" "user_flags s' = user_flags s"
    "slab s' = slab (shm_free_locked z a s)"
    by (simp_all add: s'_def shm_free_locked_def same_data_def upd_links_def)
  note fs = same_data_funs [OF f(1)]
  have al: "node_link a \<in> set (map node_link L)" using a L by simp
  have lru': "dll (links s') (lru_queue s) (map node_link (remove1 a L))"
  proof -
    have "remove1 (node_link a) (map node_link L) = map node_link (remove1 a L)" by (induction L) auto
    then show ?thesis using lq.rep_rem1 [OF lru al] f(3) by simp
  qed
  have "dll (links s') (list_head s b) (V b) = dll (links s) (list_head s b) (V b)"
    if "b \<in> set xs" "is_list s b" for b
    unfolding f(3) using list_links_disjoint [OF inv that] by (intro lq.other_rem [OF lru al])
  then have "\<forall>b \<in> set xs. list_ok s' V b" using links_change [OF f(1), of xs V] ok by simp
  moreover have "rb_key t' b = rb_key (tree s) b" if "b \<in> set (remove1 a xs)" for b
    using t'(2) that xs' by (auto simp: nkey_def)
  ultimately have "dict_inv s' (remove1 a xs) (remove1 a L) V"
    using t'(3) h L lru' xs' separate_mono [OF sep] fs f(2) by (auto simp: dict_inv_def)
  moreover have "dict_abs s' V (remove1 a L) = dict_abs s V (remove1 a L)"
    using fs f by (simp add: dict_abs_def entry_at_def same_data_def)
  ultimately show ?thesis using run f sent dict_del_abs [OF inv a] by auto
qed

lemma remove_node_pool:
  assumes dinv: "dict_inv s xs L V" and a: "a \<in> set xs" and ap: "apart s V (set xs)"
    and sent: "rb_sentinel (tree s) = sentinel_off (pool_data (slab s))"
    and sl: "slab_holds z (slab s) ((\<lambda>p. (p, f p)) ` (used_blocks s V (set xs) - own_items s V a))"
    and room: "room_ok s V (set xs) f"
  shows "\<exists>s'. remove_node z (sd_of_node a) s = Some s' \<and> pool_inv z s' (remove1 a xs) (remove1 a L) V
    \<and> dict_abs s' V (remove1 a L) = dict_del (node_key s a) (dict_abs s V L)
    \<and> same_data s' s \<and> held s' = held s \<and> clock s' = clock s \<and> ticks s' = ticks s"
proof -
  from remove_node_ok [OF dinv a, of z] obtain s' where s': "remove_node z (sd_of_node a) s = Some s'"
    "dict_inv s' (remove1 a xs) (remove1 a L) V"
    "dict_abs s' V (remove1 a L) = dict_del (node_key s a) (dict_abs s V L)"
    "same_data s' s" "held s' = held s" "clock s' = clock s" "ticks s' = ticks s"
    "slab s' = slab (shm_free_locked z a s)" "rb_sentinel (tree s') = rb_sentinel (tree s)" by blast
  have d: "distinct xs" using dinv index.rep_distinct by (auto simp: dict_inv_def)
  then have xs': "set (remove1 a xs) = set xs - {a}" by simp
  note u = used_blocks_remove [OF ap a]
  have pd: "pool_data (slab s') = pool_data (slab s)" using s'(4) by (simp add: same_data_def)
  note fs = same_data_funs [OF s'(4)]
  have same: "own_items s' V = own_items s V" "used_blocks s' V = used_blocks s V" "room_ok s' V = room_ok s V"
    "apart s' V = apart s V"
    using s'(4) by (simp_all add: fun_eq_iff own_items_def used_blocks_def room_ok_def apart_def fs pd node_room_def
        item_room_def same_data_def)
  have "slab_holds z (slab s') ((\<lambda>p. (p, f p)) ` used_blocks s V (set xs - {a}))"
    using slab_release [OF sl u(3)] by (simp add: s'(8) u(1))
  then have "mem_inv z s' (set xs - {a}) V"
    unfolding mem_inv_def using s'(9) sent pd same apart_mono [OF ap, of "set xs - {a}"]
      room_ok_mono [OF room, of "set xs - {a}"] by auto
  then show ?thesis using s' xs' by (auto simp: pool_inv_def)
qed

lemma remove_entry_ok:
  assumes pinv: "pool_inv z s xs L V" and a: "a \<in> set xs" and len: "len = length (node_key s a)"
  shows "\<exists>s'. remove_entry z (sd_of_node a) len s = Some s' \<and> pool_inv z s' (remove1 a xs) (remove1 a L) V
    \<and> dict_abs s' V (remove1 a L) = dict_del (node_key s a) (dict_abs s V L)
    \<and> same_data s' s \<and> held s' = held s \<and> clock s' = clock s \<and> ticks s' = ticks s"
proof -
  note inv = pool_invD(1) [OF pinv]
  from pool_invD(2) [OF pinv] obtain f where m: "apart s V (set xs)" "room_ok s V (set xs) f"
    "rb_sentinel (tree s) = sentinel_off (pool_data (slab s))"
    "slab_holds z (slab s) ((\<lambda>p. (p, f p)) ` used_blocks s V (set xs))" by (auto simp: mem_inv_def)
  show ?thesis
  proof (cases "is_list s a")
    case False
    with m(4) have "slab_holds z (slab s) ((\<lambda>p. (p, f p)) ` (used_blocks s V (set xs) - own_items s V a))"
      by (simp add: own_items_def)
    from remove_node_pool [OF inv a m(1,3) this m(2)] False show ?thesis by (simp add: remove_entry_def is_list_def)
  next
    case True
    let ?h = "mps_shdict_get_list_head (sd_of_node a) len"
    have h: "?h = list_head s a" by (simp add: list_head_def len)
    with inv a True have dl: "dll (links s) ?h (V a)" by (auto simp: dict_inv_def list_ok_def)
    from free_list_nodes_ok [of s ?h "[]" "V a" z] dl obtain s1 where
      s1: "free_list_nodes z ?h (mps_queue_head ?h (links s)) s = Some s1" "same_dict s1 s" "held s1 = held s"
        "clock s1 = clock s" "ticks s1 = ticks s" by (auto simp: lq.first_rep [OF dl])
    from inv have inv1: "dict_inv s1 xs L V" by (simp add: dict_inv_same [OF s1(2)])
    have e: "node_key s1 = node_key s" "dict_abs s1 = dict_abs s" "same_data s1 s" "tree s1 = tree s"
      using same_data_funs [of s1 s] same_dict_funs [OF s1(2)] s1(2) by (simp_all add: same_dict_def)
    have items: "own_items s V a = set (V a)" using True by (simp add: own_items_def)
    have "slab_holds z (slab s1) ((\<lambda>p. (p, f p)) ` (used_blocks s V (set xs) - set (V a)))"
      using free_list_nodes_slab [of s ?h "[]" "V a" z s1 f] dl s1(1) m(4) used_blocks_remove(2) [OF m(1) a]
      by (simp add: items lq.first_rep [OF dl])
    moreover have "pool_data (slab s1) = pool_data (slab s)" using e(3) by (simp add: same_data_def)
    moreover note same_data_funs(3) [OF e(3)]
    moreover have "own_items s1 V = own_items s V" "used_blocks s1 V = used_blocks s V" "room_ok s1 V = room_ok s V"
      "apart s1 V = apart s V"
      using e(3) same_data_funs [OF e(3)]
      by (simp_all add: fun_eq_iff own_items_def used_blocks_def room_ok_def apart_def node_room_def item_room_def same_data_def)
    ultimately obtain s2 where
      "remove_node z (sd_of_node a) s1 = Some s2" "pool_inv z s2 (remove1 a xs) (remove1 a L) V"
      "dict_abs s2 V (remove1 a L) = dict_del (node_key s a) (dict_abs s V L)"
      "same_data s2 s1" "held s2 = held s" "clock s2 = clock s" "ticks s2 = ticks s"
      using remove_node_pool [OF inv1 a, of z f] s1 m by (auto simp: e items)
    with s1(1) True e(3) show ?thesis by (auto simp: remove_entry_def is_list_def Let_def same_data_def)
  qed
qed

subsection \<open>Expiry and eviction\<close>

text \<open>The entries that \<^verbatim>\<open>mps_shdict_expire\<close> drops without force: those that expire now or did before.\<close>

definition due :: "u64 \<Rightarrow> entry \<Rightarrow> bool" where
  "due now e \<longleftrightarrow> e_expires e \<noteq> 0 \<and> sint (e_expires e - now) \<le> 0"

text \<open>The rounds on the abstract dictionary: how many of the least recently used entries go.\<close>

fun drop_count :: "nat \<Rightarrow> u64 \<Rightarrow> bool \<Rightarrow> dict \<Rightarrow> nat" where
  "drop_count 0 now force D = 0"
| "drop_count (Suc k) now force D =
     (if D = [] \<or> \<not> force \<and> \<not> due now (snd (last D)) then 0
      else Suc (drop_count k now False (butlast D)))"

lemma drop_count_bounds: "drop_count k now force D \<le> k" "drop_count k now force D \<le> length D"
proof -
  have "drop_count k now force D \<le> k \<and> drop_count k now force D \<le> length D"
  proof (induction k now force D rule: drop_count.induct)
    case (2 k now force D)
    then show ?case by (cases D rule: rev_cases) auto
  qed simp
  then show "drop_count k now force D \<le> k" "drop_count k now force D \<le> length D" by auto
qed

lemma drop_count_forced: "D \<noteq> [] \<Longrightarrow> 0 < drop_count (Suc k) now True D"
  by simp

text \<open>Without force only entries that are due are dropped.\<close>

lemma drop_count_due:
  "\<forall>e \<in> set (drop (length D - drop_count k now False D) D). due now (snd e)"
proof (induction k arbitrary: D)
  case (Suc k)
  show ?case
  proof (cases "D = [] \<or> \<not> due now (snd (last D))")
    case False
    then obtain D' x where D: "D = D' @ [x]" "due now (snd x)" by (cases D rule: rev_cases) auto
    have "drop_count k now False D' \<le> length D'" by (rule drop_count_bounds)
    then have "drop (length D - drop_count (Suc k) now False D) D
        = drop (length D' - drop_count k now False D') D' @ [x]" using D by simp
    with Suc.IH [of D'] D show ?thesis by auto
  qed auto
qed simp

text \<open>What the dictionary keeps: \<open>keep_first D j\<close> drops the \<open>j\<close> least recently used entries.\<close>

definition keep_first :: "dict \<Rightarrow> nat \<Rightarrow> dict" where
  "keep_first D j = take (length D - j) D"

lemma keep_first_0 [simp]: "keep_first D 0 = D"
  by (simp add: keep_first_def)

lemma keep_first_Suc: "keep_first (D @ [x]) (Suc j) = keep_first D j"
  by (simp add: keep_first_def)

lemma dict_del_last: "distinct (map fst (D @ [x])) \<Longrightarrow> dict_del (fst x) (D @ [x]) = D"
proof -
  assume "distinct (map fst (D @ [x]))"
  then have "\<forall>y \<in> set D. fst y \<noteq> fst x" by (auto simp: image_iff)
  then show ?thesis by (simp add: dict_del_def split_def filter_id_conv)
qed

lemma expire_rounds_ok:
  "holds z s D \<Longrightarrow> 0 < n \<or> k \<noteq> 0 \<Longrightarrow>
     \<exists>s'. expire_rounds k z now n n_freed s = Some (n_freed + int (drop_count k now (n = 0) D), s')
       \<and> holds z s' (keep_first D (drop_count k now (n = 0) D)) \<and> held s' = held s \<and> clock s' = clock s
       \<and> ticks s' = ticks s \<and> pool_data (slab s') = pool_data (slab s)"
proof (induction k arbitrary: n n_freed s D)
  case (Suc k)
  from Suc.prems(1) obtain xs L V where pinv: "pool_inv z s xs L V" and D: "D = dict_abs s V L"
    by (auto simp: holds_def)
  note inv = pool_invD(1) [OF pinv]
  from inv have lru: "dll (links s) (lru_queue s) (map node_link L)" and L: "set L = set xs" by (auto simp: dict_inv_def)
  show ?case
  proof (cases "L = []")
    case True
    with lru D Suc.prems(1) show ?thesis by (simp add: lq.is_empty_rep dict_abs_def)
  next
    case False
    then obtain L' a where La: "L = L' @ [a]" by (cases L rule: rev_cases) auto
    have Da: "D = dict_abs s V L' @ [(node_key s a, entry_at s V a)]" by (simp add: D La dict_abs_def)
    have q: "mps_queue_last (lru_queue s) (links s) = node_link a" using lru La by (simp add: lq.lst_rep)
    have ne: "\<not> mps_queue_empty (lru_queue s) (links s)" using lru La by (simp add: lq.is_empty_rep)
    have a: "a \<in> set xs" using L La by auto
    show ?thesis
    proof (cases "n \<noteq> 0 \<and> \<not> due now (entry_at s V a)")
      case True
      then have "expire_rounds (Suc k) z now n n_freed s = Some (n_freed, s)"
        using ne by (auto simp: q due_def Let_def)
      moreover have "drop_count (Suc k) now (n = 0) D = 0" using True by (simp add: Da)
      ultimately show ?thesis using Suc.prems(1) by simp
    next
      case False
      from remove_entry_ok [OF pinv a, of "unat (key_len s (sd_of_node a))"] obtain s1 where
        s1: "remove_entry z (sd_of_node a) (unat (key_len s (sd_of_node a))) s = Some s1"
          "pool_inv z s1 (remove1 a xs) (remove1 a L) V"
          "dict_abs s1 V (remove1 a L) = dict_del (node_key s a) D"
          "same_data s1 s" "held s1 = held s" "clock s1 = clock s" "ticks s1 = ticks s"
        by (auto simp: D)
      have "dict_del (node_key s a) D = dict_abs s V L'"
        using dict_del_last [of "dict_abs s V L'" "(node_key s a, entry_at s V a)"]
          holds_keys_distinct [OF Suc.prems(1)] Da by simp
      then have "holds z s1 (dict_abs s V L')" using s1(2,3) unfolding holds_def by metis
      from Suc.IH [OF this, of "n + 1" "n_freed + 1"] obtain s' where
        s': "expire_rounds k z now (n + 1) (n_freed + 1) s1
            = Some (n_freed + 1 + int (drop_count k now False (dict_abs s V L')), s')"
          "holds z s' (keep_first (dict_abs s V L') (drop_count k now False (dict_abs s V L')))"
          "held s' = held s1" "clock s' = clock s1" "ticks s' = ticks s1" "pool_data (slab s') = pool_data (slab s1)" by auto
      have "expire_rounds (Suc k) z now n n_freed s = expire_rounds k z now (n + 1) (n_freed + 1) s1"
        using False ne s1(1) by (auto simp: q due_def Let_def)
      moreover have "drop_count (Suc k) now (n = 0) D = Suc (drop_count k now False (dict_abs s V L'))"
        using False by (auto simp: Da)
      ultimately show ?thesis using s' s1 by (simp add: Da keep_first_Suc same_data_def)
    qed
  qed
qed simp

lemma tick_same: "mps_clock_time_ms s = (time_of s, s\<lparr>ticks := Suc (ticks s)\<rparr>)"
  by (simp add: time_of_def mps_clock_time_ms_def)

lemma expire_ok:
  assumes hold: "holds z s D" and n: "n < 3"
  defines "j \<equiv> drop_count (3 - n) (time_of s) (n = 0) D"
  shows "\<exists>s'. mps_shdict_expire z n s = Some (int j, s') \<and> holds z s' (keep_first D j) \<and> held s' = held s
    \<and> clock s' = clock s \<and> ticks s' = Suc (ticks s) \<and> pool_data (slab s') = pool_data (slab s)"
proof -
  have "holds z (s\<lparr>ticks := Suc (ticks s)\<rparr>) D"
    using hold holds_same [OF same_dict_steps(2)] by simp
  from expire_rounds_ok [OF this, of n "3 - n" "time_of s" 0] n show ?thesis
    by (auto simp: mps_shdict_expire_def tick_same j_def)
qed

text \<open>The prefix of store, incr, push, pop and llen: lock, drop one or two entries that are due.\<close>

lemma lock_expire_ok:
  assumes hold: "holds z s D" and unheld: "\<not> held s"
  defines "D' \<equiv> keep_first D (drop_count 2 (time_of s) False D)"
  shows "\<exists>s'. do { s \<leftarrow> mps_slab_lock s; mps_shdict_expire z 1 s }
      = Some (int (drop_count 2 (time_of s) False D), s') \<and> holds z s' D' \<and> held s'
      \<and> clock s' = clock s \<and> ticks s' = Suc (ticks s)"
  using expire_ok [of z "s\<lparr>held := True\<rparr>" D 1] hold
  by (auto simp: lock_unheld [OF unheld] D'_def numeral_2_eq_2)

end
