(* ===== verification/ShdictStore.thy ===== *)
theory ShdictStore
  imports ShdictRemove
begin

text \<open>
  \<^verbatim>\<open>mps_shdict_store\<close> and \<^verbatim>\<open>mps_shdict_incr\<close> against the abstract dictionary, on the branches that do
  not allocate: the refusals, the overwriting of a value by one of the same size, deletion, and the
  increment of a number. \<^verbatim>\<open>mps_shdict_flush_all\<close> is here too.
\<close>

definition dict_set :: "byte list \<Rightarrow> entry \<Rightarrow> dict \<Rightarrow> dict" where
  "dict_set k e D = (k, e) # dict_del k D"

lemma map_of_dict_set [simp]: "map_of (dict_set k e D) = (map_of D)(k \<mapsto> e)"
  by (auto simp: dict_set_def map_of_dict_del)

lemma read_bytes_cong: "(\<And>q. p \<le> q \<Longrightarrow> q < p + n \<Longrightarrow> m q = m' q) \<Longrightarrow> read_bytes m p n = read_bytes m' p n"
  by (simp add: read_bytes_def)

subsection \<open>Overwriting the value of one node\<close>

text \<open>\<open>s'\<close> is \<open>s\<close> but for the scalar value \<open>v\<close> at node \<open>a\<close>, which has the size of the old one.\<close>

definition overwrites :: "off \<Rightarrow> byte list \<Rightarrow> shm \<Rightarrow> shm \<Rightarrow> bool" where
  "overwrites a v s' s \<longleftrightarrow>
     tree s' = tree s \<and> links s' = links s \<and> key_len s' = key_len s \<and> value_len s' = value_len s
     \<and> lnode_value_len s' = lnode_value_len s \<and> lnode_value_type s' = lnode_value_type s
     \<and> slab s' = slab s
     \<and> \<not> is_list s a \<and> \<not> is_list s' a \<and> length v = unat (value_len s (sd_of_node a))
     \<and> (\<forall>b. b \<noteq> a \<longrightarrow> value_type s' (sd_of_node b) = value_type s (sd_of_node b)
          \<and> expires s' (sd_of_node b) = expires s (sd_of_node b)
          \<and> user_flags s' (sd_of_node b) = user_flags s (sd_of_node b))
     \<and> bytes s' = write_bytes (bytes s) (sd_data (sd_of_node a) + unat (key_len s (sd_of_node a))) v"

lemma overwrites_funs:
  assumes o: "overwrites a v s' s" and inv: "dict_inv s xs L V" and a: "a \<in> set xs"
  shows "b \<in> set xs \<Longrightarrow> node_key s' b = node_key s b" "is_list s' b = is_list s b"
    "b \<in> set xs \<Longrightarrow> list_head s' b = list_head s b"
    "b \<in> set xs \<Longrightarrow> b \<noteq> a \<Longrightarrow> entry_at s' V b = entry_at s V b"
    "e_bytes (entry_at s' V a) = v" "e_items (entry_at s' V a) = []"
    "lru_queue s' = lru_queue s" "node_span s' b = node_span s b" "item_span s' = item_span s"
proof -
  let ?klen = "\<lambda>b. unat (key_len s (sd_of_node b))" and ?d = "\<lambda>b. sd_data (sd_of_node b)"
  note d = o [unfolded overwrites_def]
  have out: "q \<notin> {?d a + ?klen a ..< ?d a + ?klen a + length v} \<Longrightarrow> bytes s' q = bytes s q" for q
    using d by (auto simp: write_bytes_outside)
  have sub: "{?d a + ?klen a ..< ?d a + ?klen a + length v} \<subseteq> own_span s V a"
    using d by (auto simp: own_span_def node_span_def)
  have sep: "own_span s V a \<inter> own_span s V b = {}" if "b \<in> set xs" "b \<noteq> a" for b
    using inv a that by (auto simp: dict_inv_def separate_def)
  have other: "bytes s' q = bytes s q" if "b \<in> set xs" "b \<noteq> a" "q \<in> own_span s V b" for b q
    using sep [OF that(1,2)] that(3) sub out by blast
  show il: "is_list s' b = is_list s b" for b
    by (cases "b = a") (use d in \<open>auto simp: is_list_def\<close>)
  show nk: "node_key s' b = node_key s b" if b: "b \<in> set xs" for b
  proof (cases "b = a")
    case True
    then show ?thesis using d unfolding node_key_def sd_key_def
      by (auto intro!: read_bytes_cong simp: write_bytes_outside)
  next
    case False
    then show ?thesis using d other [OF b False] unfolding node_key_def sd_key_def
      by (auto intro!: read_bytes_cong simp: own_span_def node_span_def)
  qed
  then show "list_head s' b = list_head s b" if "b \<in> set xs" for b
    using that d by (simp add: list_head_def)
  show "lru_queue s' = lru_queue s" using d by (simp add: lru_queue_def)
  show "node_span s' b = node_span s b" for b using d il by (simp add: node_span_def)
  show "item_span s' = item_span s" using d by (simp add: item_span_def fun_eq_iff)
  show "entry_at s' V b = entry_at s V b" if b: "b \<in> set xs" "b \<noteq> a" for b
  proof -
    have "sd_value s' (sd_of_node b) = sd_value s (sd_of_node b)" if "\<not> is_list s b"
      using d other [OF b] that unfolding sd_value_def
      by (auto intro!: read_bytes_cong simp: own_span_def node_span_def)
    moreover have "item_at s' l = item_at s l" if "is_list s b" "l \<in> set (V b)" for l
      using d other [OF b] that unfolding item_at_def
      by (auto intro!: read_bytes_cong simp: own_span_def item_span_def)
    ultimately show ?thesis using b d il by (simp add: entry_at_def)
  qed
  have "sd_value s' (sd_of_node a) = v"
  proof -
    have l: "unat (value_len s (sd_of_node a)) = length v" using d by simp
    show ?thesis using d read_write_same [of "bytes s" "?d a + ?klen a" v] by (simp add: sd_value_def l)
  qed
  then show "e_bytes (entry_at s' V a) = v" "e_items (entry_at s' V a) = []" using d by (simp_all add: entry_at_def)
qed

lemma overwrites_ok:
  assumes o: "overwrites a v s' s" and pinv: "pool_inv z s xs (a # L) V"
  shows "pool_inv z s' xs (a # L) V"
    "dict_abs s' V (a # L) = dict_set (node_key s a) (entry_at s' V a) (dict_abs s V (a # L))"
proof -
  note inv = pool_invD(1) [OF pinv]
  have L: "set (a # L) = set xs" "distinct (a # L)" using inv by (auto simp: dict_inv_def)
  then have a: "a \<in> set xs" by auto
  note f = overwrites_funs [OF o inv a]
  note d = o [unfolded overwrites_def]
  have rep: "index_rep (node_key s') (tree s') xs"
    using index.rep_kd [of xs "node_key s'" "node_key s" "tree s"] f(1) d inv by (simp add: dict_inv_def)
  have ol: "own_links s' V b = own_links s V b" if "b \<in> set xs" for b using that f by (simp add: own_links_def)
  have os: "own_span s' V b = own_span s V b" for b using f by (simp add: own_span_def)
  have "separate s' V (set xs)"
    using inv ol os f(7) by (simp add: dict_inv_def separate_def)
  moreover have "list_ok s' V b" if "b \<in> set xs" for b
    using inv that f d by (simp add: dict_inv_def list_ok_def)
  ultimately have "dict_inv s' xs (a # L) V"
    using inv rep f(1,7) d by (simp add: dict_inv_def)
  moreover have "mem_inv z s' (set xs) V = mem_inv z s (set xs) V"
  proof (rule mem_inv_change)
    show "is_list s' b = is_list s b" "b \<in> set xs \<Longrightarrow> node_room s' b = node_room s b" for b
      using f(2,3) d by (simp_all add: node_room_def)
  qed (use d in \<open>simp_all add: item_room_def fun_eq_iff\<close>)
  ultimately show "pool_inv z s' xs (a # L) V" using pool_invD(2) [OF pinv] by (simp add: pool_inv_def)
  have "dict_abs s' V L = dict_abs s V L"
    using L f(1,4) by (auto simp: dict_abs_def)
  moreover have "dict_del (node_key s a) (dict_abs s V (a # L)) = dict_abs s V L"
    using dict_del_abs [OF inv a] by simp
  ultimately show "dict_abs s' V (a # L) = dict_set (node_key s a) (entry_at s' V a) (dict_abs s V (a # L))"
    using f(1) [OF a] by (simp add: dict_set_def dict_abs_def)
qed

subsection \<open>The branches of store\<close>

lemma shm_set_sel [simp]:
  "value_type (set_value_type sd w s) = (value_type s)(sd := w)" "value_type (set_user_flags sd x s) = value_type s"
  "tree (set_value_type sd w s) = tree s" "tree (set_user_flags sd x s) = tree s"
  "links (set_value_type sd w s) = links s" "links (set_user_flags sd x s) = links s"
  "key_len (set_value_type sd w s) = key_len s" "key_len (set_user_flags sd x s) = key_len s"
  "value_len (set_value_type sd w s) = value_len s" "value_len (set_user_flags sd x s) = value_len s"
  "expires (set_value_type sd w s) = expires s" "expires (set_user_flags sd x s) = expires s"
  "user_flags (set_value_type sd w s) = user_flags s" "user_flags (set_user_flags sd x s) = (user_flags s)(sd := x)"
  "bytes (set_value_type sd w s) = bytes s" "bytes (set_user_flags sd x s) = bytes s"
  "lnode_value_len (set_value_type sd w s) = lnode_value_len s"
  "lnode_value_len (set_user_flags sd x s) = lnode_value_len s"
  "lnode_value_type (set_value_type sd w s) = lnode_value_type s"
  "lnode_value_type (set_user_flags sd x s) = lnode_value_type s"
  "slab (set_value_type sd w s) = slab s" "slab (set_user_flags sd x s) = slab s"
  "lnode_value_len (set_expires sd e s) = lnode_value_len s" "lnode_value_type (set_expires sd e s) = lnode_value_type s"
  by (simp_all add: set_value_type_def set_user_flags_def set_expires_def)

lemma memcpy_sel [simp]:
  "value_type (ngx_memcpy p bs s) = value_type s" "tree (ngx_memcpy p bs s) = tree s"
  "links (ngx_memcpy p bs s) = links s" "key_len (ngx_memcpy p bs s) = key_len s"
  "value_len (ngx_memcpy p bs s) = value_len s" "expires (ngx_memcpy p bs s) = expires s"
  "user_flags (ngx_memcpy p bs s) = user_flags s" "bytes (ngx_memcpy p bs s) = write_bytes (bytes s) p bs"
  "lnode_value_len (ngx_memcpy p bs s) = lnode_value_len s" "lnode_value_type (ngx_memcpy p bs s) = lnode_value_type s"
  "slab (ngx_memcpy p bs s) = slab s"
  by (simp_all add: ngx_memcpy_def)

lemma unlock_more [simp]:
  "value_type (mps_slab_unlock s) = value_type s" "tree (mps_slab_unlock s) = tree s"
  "links (mps_slab_unlock s) = links s" "key_len (mps_slab_unlock s) = key_len s"
  "value_len (mps_slab_unlock s) = value_len s" "expires (mps_slab_unlock s) = expires s"
  "bytes (mps_slab_unlock s) = bytes s"
  "lnode_value_len (mps_slab_unlock s) = lnode_value_len s" "lnode_value_type (mps_slab_unlock s) = lnode_value_type s"
  by (simp_all add: mps_slab_unlock_def)

text \<open>The entry a store leaves, and the time it reads.\<close>

definition new_entry :: "int \<Rightarrow> byte list \<Rightarrow> int \<Rightarrow> u32 \<Rightarrow> u64 \<Rightarrow> entry" where
  "new_entry vtype v exptime flags now =
     \<lparr>e_type = of_int vtype, e_bytes = v, e_items = [],
      e_expires = (if exptime > 0 then now + of_int exptime else 0), e_flags = flags\<rparr>"

lemma store_expires_eq:
  "store_expires exptime s = (if exptime > 0 then (time_of s + of_int exptime, s\<lparr>ticks := Suc (ticks s)\<rparr>) else (0, s))"
  by (simp add: store_expires_def tick_same)

lemma move_head_again:
  assumes pinv: "pool_inv z s xs (a # L) V"
  shows "pool_inv z (lru_touch (sd_of_node a) s) xs (a # L) V"
    "dict_abs (lru_touch (sd_of_node a) s) V (a # L) = dict_abs s V (a # L)"
    "same_data (lru_touch (sd_of_node a) s) s" "clock (lru_touch (sd_of_node a) s) = clock s"
    "ticks (lru_touch (sd_of_node a) s) = ticks s" "slab (lru_touch (sd_of_node a) s) = slab s"
proof -
  note inv = pool_invD(1) [OF pinv]
  have L: "distinct (a # L)" "set (a # L) = set xs" and a: "a \<in> set xs" using inv by (auto simp: dict_inv_def)
  note t = lru_touch_ok [OF inv a]
  show "pool_inv z (lru_touch (sd_of_node a) s) xs (a # L) V"
    using lru_touch_pool [OF pinv a] by simp
  show "same_data (lru_touch (sd_of_node a) s) s" "clock (lru_touch (sd_of_node a) s) = clock s"
    "ticks (lru_touch (sd_of_node a) s) = ticks s" "slab (lru_touch (sd_of_node a) s) = slab s" using t by simp_all
  have "dict_touch (node_key s a) (dict_abs s V (a # L)) = dict_abs s V (a # L)"
    using map_of_dict_abs [OF inv a] dict_del_abs [OF inv a] by (simp add: dict_touch_def) (simp add: dict_abs_def)
  with t(2) show "dict_abs (lru_touch (sd_of_node a) s) V (a # L) = dict_abs s V (a # L)" by simp
qed

lemma scalar_type: "vtype \<in> {MPS_SHDICT_TBOOLEAN, MPS_SHDICT_TNUMBER, MPS_SHDICT_TSTRING}
    \<Longrightarrow> uint (of_int vtype :: byte) = vtype \<and> vtype \<noteq> MPS_SHDICT_TLIST"
  by (auto simp: tags)

lemma store_reuse_ok:
  assumes pinv: "pool_inv z s xs (a # L) V" and nl: "\<not> is_list s a" and v: "length v = unat (value_len s (sd_of_node a))"
    and t: "vtype \<in> {MPS_SHDICT_TBOOLEAN, MPS_SHDICT_TNUMBER, MPS_SHDICT_TSTRING}" and key: "key = node_key s a"
  shows "holds z (store_reuse (sd_of_node a) key vtype v exptime flags s)
      (dict_set key (new_entry vtype v exptime flags (time_of s)) (dict_abs s V (a # L)))
    \<and> \<not> held (store_reuse (sd_of_node a) key vtype v exptime flags s)"
proof -
  let ?sd = "sd_of_node a"
  let ?t = "lru_touch ?sd s" and ?r = "store_reuse ?sd key vtype v exptime flags s"
  note inv = pool_invD(1) [OF pinv]
  note m = move_head_again [OF pinv]
  note f = same_data_funs [OF m(3)] m(3) [unfolded same_data_def]
  have e: "store_expires exptime ?t = (if exptime > 0 then time_of s + of_int exptime else 0, snd (store_expires exptime ?t))"
    using m(4,5) by (simp add: store_expires_eq time_of_def mps_clock_time_ms_def)
  have sm: "same_dict (snd (store_expires exptime ?t)) ?t" by (simp add: store_expires_eq)
  define u where "u = snd (store_expires exptime ?t)"
  have u: "tree u = tree ?t" "links u = links ?t" "expires u = expires ?t" "user_flags u = user_flags ?t"
    "value_type u = value_type s" "key_len u = key_len s" "value_len u = value_len s" "bytes u = bytes s"
    "lnode_value_len u = lnode_value_len s" "lnode_value_type u = lnode_value_type s"
    "slab u = slab s"
    using sm f m(6) by (auto simp: same_dict_def same_data_def u_def store_expires_eq)
  have r: "?r = mps_slab_unlock (ngx_memcpy (sd_data ?sd + length key) v (set_value_type ?sd (of_int vtype)
      (set_user_flags ?sd flags (set_expires ?sd (if exptime > 0 then time_of s + of_int exptime else 0) u))))"
    unfolding store_reuse_def Let_def by (subst e) (simp add: u_def)
  have kl: "length key = unat (key_len s ?sd)" by (simp add: key)
  have o: "overwrites a v ?r ?t"
    unfolding overwrites_def r using u f m(6) nl v scalar_type [OF t] kl by (auto simp: is_list_def)
  have "a \<in> set xs" using inv by (auto simp: dict_inv_def)
  note w = overwrites_ok [OF o m(1)] overwrites_funs [OF o pool_invD(1) [OF m(1)] this]
  have "entry_at ?r V a = new_entry vtype v exptime flags (time_of s)"
  proof (rule entry.equality)
    show "e_bytes (entry_at ?r V a) = e_bytes (new_entry vtype v exptime flags (time_of s))"
      "e_items (entry_at ?r V a) = e_items (new_entry vtype v exptime flags (time_of s))"
      using w by (simp_all add: new_entry_def)
  qed (simp_all add: entry_at_def new_entry_def r)
  then have "dict_abs ?r V (a # L) = dict_set key (new_entry vtype v exptime flags (time_of s)) (dict_abs s V (a # L))"
    using w(2) m(2) f key by simp
  then have "holds z ?r (dict_set key (new_entry vtype v exptime flags (time_of s)) (dict_abs s V (a # L)))"
    using w(1) unfolding holds_def by metis
  then show ?thesis by (simp add: r)
qed

subsection \<open>From the lock to the lookup\<close>

text \<open>The dictionary once the entries that are due at the end of the LRU order are gone.\<close>

definition swept :: "shm \<Rightarrow> dict \<Rightarrow> dict" where
  "swept s D = keep_first D (drop_count 2 (time_of s) False D)"

lemma prefix_ok:
  assumes hold: "holds z s D" and unheld: "\<not> held s"
  shows "\<exists>s1 xs L V fr. pool_inv z s1 xs L V \<and> swept s D = dict_abs s1 V L \<and> held s1
    \<and> time_nth s1 0 = time_nth s (Suc 0) \<and> time_nth s1 (Suc 0) = time_nth s 2
    \<and> mps_slab_lock s = Some (s\<lparr>held := True\<rparr>)
    \<and> mps_shdict_expire z (Suc 0) (s\<lparr>held := True\<rparr>) = Some (fr, s1)"
proof -
  from lock_expire_ok [OF hold unheld] obtain s1 where
    s1: "do { s \<leftarrow> mps_slab_lock s; mps_shdict_expire z 1 s } = Some (int (drop_count 2 (time_of s) False D), s1)"
      "holds z s1 (swept s D)" "held s1" "clock s1 = clock s" "ticks s1 = Suc (ticks s)" by (auto simp: swept_def)
  then obtain xs L V where "pool_inv z s1 xs L V" "swept s D = dict_abs s1 V L" by (auto simp: holds_def)
  moreover from s1(1) have
    "mps_shdict_expire z (Suc 0) (s\<lparr>held := True\<rparr>) = Some (int (drop_count 2 (time_of s) False D), s1)"
    by (simp add: lock_unheld [OF unheld])
  moreover have "time_nth s1 0 = time_nth s (Suc 0)" "time_nth s1 (Suc 0) = time_nth s 2"
    using s1 by (simp_all add: time_nth_def numeral_2_eq_2 del: time_nth_0)
  ultimately show ?thesis using s1(3) lock_unheld [OF unheld] by blast
qed

lemma looked_up_holds:
  "looked_up z s key xs L V a s' \<Longrightarrow> holds z s' (dict_touch key (dict_abs s V L))"
  unfolding looked_up_def holds_def by metis

lemma looked_up_touch:
  assumes "looked_up z s key xs L V a s'"
  shows "pool_inv z s' xs (a # remove1 a L) V" "node_key s' a = key"
    "dict_abs s' V (a # remove1 a L) = dict_touch key (dict_abs s V L)"
    "is_list s' a = is_list s a" "value_len s' = value_len s" "value_type s' = value_type s" "a \<in> set xs"
    "entry_at s' = entry_at s" "held s' = held s"
  using assms same_data_funs [of s' s] by (auto simp: looked_up_def same_data_def)

lemma dict_set_touch: "dict_set k e (dict_touch k D) = dict_set k e D"
  by (auto simp: dict_set_def dict_touch_def dict_del_def split: option.split)

lemma dict_del_touch: "dict_del k (dict_touch k D) = dict_del k D"
  by (auto simp: dict_touch_def dict_del_def split: option.split)

text \<open>The value type as the switch reads it, from an entry.\<close>

lemma entry_type_list: "uint (e_type (entry_at s V a)) = MPS_SHDICT_TLIST \<longleftrightarrow> is_list s a"
  by (simp add: entry_at_def is_list_def)

lemma entry_bytes_length: "\<not> is_list s a \<Longrightarrow> length (e_bytes (entry_at s V a)) = unat (value_len s (sd_of_node a))"
  by (simp add: entry_at_def length_sd_value)

lemma store_value_type:
  "store_value op vtype str num = Inr (Some v) \<Longrightarrow> vtype \<in> {MPS_SHDICT_TBOOLEAN, MPS_SHDICT_TNUMBER, MPS_SHDICT_TSTRING}"
  by (auto simp: store_value_def split: if_splits)

subsection \<open>Store\<close>

lemma store_refused:
  assumes hold: "holds z s D" and unheld: "\<not> held s"
    and val: "store_value op vtype str num = Inr v"
    and found: "found = map_of (swept s D) key"
    and rc: "rc = (case found of None \<Rightarrow> NGX_DECLINED
                   | Some e \<Rightarrow> if expired (time_nth s 1) e then NGX_DONE else NGX_OK)"
    and disp: "store_dispatch op vtype rc = Refuse msg"
  shows "\<exists>s'. mps_shdict_store z op key vtype str num exptime flags s
      = Some (\<lparr>st_rc = NGX_DECLINED, st_err = Some msg, st_forcible = False\<rparr>, s')
    \<and> holds z s' (dict_touch key (swept s D)) \<and> \<not> held s'"
proof -
  obtain s1 xs L V fr where p: "pool_inv z s1 xs L V" "swept s D = dict_abs s1 V L" "time_nth s1 0 = time_nth s (Suc 0)"
    "mps_slab_lock s = Some (s\<lparr>held := True\<rparr>)"
    "mps_shdict_expire z (Suc 0) (s\<lparr>held := True\<rparr>) = Some (fr, s1)"
    using prefix_ok [OF hold unheld] by blast
  have "\<exists>sdp s2. mps_shdict_lookup (ucast (ngx_murmur_hash2 key)) key s1 = Some (rc, sdp, s2)
      \<and> holds z s2 (dict_touch key (swept s D))"
  proof (cases found)
    case None
    have "holds z s1 (swept s D)" using p(1,2) unfolding holds_def by metis
    moreover have abs: "map_of (dict_abs s1 V L) key = None" using None found p(2) by simp
    ultimately show ?thesis using lookup_ok [OF p(1), of key] None rc p(2) by (simp add: dict_touch_def)
  next
    case (Some e)
    have abs: "map_of (dict_abs s1 V L) key = Some e" using Some found p(2) by simp
    show ?thesis using lookup_ok [OF p(1), of key] Some rc p(2,3) unfolding abs by (auto dest: looked_up_holds)
  qed
  then obtain sdp s2 where
    lk: "mps_shdict_lookup (ucast (ngx_murmur_hash2 key)) key s1 = Some (rc, sdp, s2)"
      "holds z s2 (dict_touch key (swept s D))" by blast
  have "mps_shdict_store z op key vtype str num exptime flags s
      = Some (\<lparr>st_rc = NGX_DECLINED, st_err = Some msg, st_forcible = False\<rparr>, mps_slab_unlock s2)"
    unfolding mps_shdict_store_def Let_def using val disp lk(1) by (simp add: p(4,5))
  with lk(2) show ?thesis by simp
qed

lemma store_overwrites:
  assumes hold: "holds z s D" and unheld: "\<not> held s"
    and val: "store_value op vtype str num = Inr (Some v)"
    and found: "map_of (swept s D) key = Some e"
    and disp: "store_dispatch op vtype (if expired (time_nth s 1) e then NGX_DONE else NGX_OK) = Replace"
    and same: "uint (e_type e) \<noteq> MPS_SHDICT_TLIST" "length v = length (e_bytes e)"
  shows "\<exists>s'. mps_shdict_store z op key vtype str num exptime flags s
      = Some (\<lparr>st_rc = NGX_OK, st_err = None, st_forcible = False\<rparr>, s')
    \<and> holds z s' (dict_set key (new_entry vtype v exptime flags (time_nth s (if e_expires e = 0 then 1 else 2)))
          (swept s D)) \<and> \<not> held s'"
proof -
  obtain s1 xs L V fr where p: "pool_inv z s1 xs L V" "swept s D = dict_abs s1 V L" "time_nth s1 0 = time_nth s (Suc 0)"
    "time_nth s1 (Suc 0) = time_nth s 2"
    "mps_slab_lock s = Some (s\<lparr>held := True\<rparr>)"
    "mps_shdict_expire z (Suc 0) (s\<lparr>held := True\<rparr>) = Some (fr, s1)"
    using prefix_ok [OF hold unheld] by blast
  from lookup_ok [OF p(1), of key] p(2,3) found obtain a s2 where
    lk: "mps_shdict_lookup (ucast (ngx_murmur_hash2 key)) key s1
        = Some (if expired (time_nth s 1) e then NGX_DONE else NGX_OK, Some (sd_of_node a), s2)"
      "looked_up z s1 key xs L V a s2" "e = entry_at s1 V a" by auto
  note t = looked_up_touch [OF lk(2)]
  have nl: "\<not> is_list s2 a" "\<not> is_list s1 a" using same(1) lk(3) t by (auto simp: entry_type_list)
  have len: "length v = unat (value_len s2 (sd_of_node a))"
    using same(2) lk(3) nl t by (simp add: entry_bytes_length)
  have now: "time_of s2 = time_nth s (if e_expires e = 0 then 1 else 2)"
    using lk(2,3) p(3,4) unfolding time_nth_0 [symmetric]
    by (simp add: time_nth_def looked_up_def)
  have "mps_shdict_store z op key vtype str num exptime flags s
      = Some (\<lparr>st_rc = NGX_OK, st_err = None, st_forcible = False\<rparr>,
              store_reuse (sd_of_node a) key vtype v exptime flags s2)"
    unfolding mps_shdict_store_def Let_def
    using val disp lk(1) len nl by (simp add: p(5,6) is_list_def)
  then show ?thesis
    using store_reuse_ok [OF t(1) nl(1) len store_value_type [OF val] t(2) [symmetric], of exptime flags] t(3) p(2) now
    by (simp add: dict_set_touch)
qed

text \<open>Deletion: the key is gone, and the call does not fail.\<close>

lemma delete_refines:
  assumes hold: "holds z s D" and unheld: "\<not> held s"
  shows "\<exists>s'. mps_shdict_delete z key s = Some (\<lparr>st_rc = NGX_OK, st_err = None, st_forcible = False\<rparr>, s')
    \<and> holds z s' (dict_del key (swept s D)) \<and> \<not> held s'"
proof -
  obtain s1 xs L V fr where p: "pool_inv z s1 xs L V" "swept s D = dict_abs s1 V L" "time_nth s1 0 = time_nth s (Suc 0)"
    "mps_slab_lock s = Some (s\<lparr>held := True\<rparr>)"
    "mps_shdict_expire z (Suc 0) (s\<lparr>held := True\<rparr>) = Some (fr, s1)"
    using prefix_ok [OF hold unheld] by blast
  have nil: "store_value 0 MPS_SHDICT_TNIL None 0 = Inr None" by (simp add: store_value_def tags)
  show ?thesis
  proof (cases "map_of (swept s D) key")
    case None
    with lookup_ok [OF p(1), of key] p(2)
    have lk: "mps_shdict_lookup (ucast (ngx_murmur_hash2 key)) key s1 = Some (NGX_DECLINED, None, s1)" by simp
    have "mps_shdict_delete z key s
        = Some (\<lparr>st_rc = NGX_OK, st_err = None, st_forcible = False\<rparr>, mps_slab_unlock s1)"
      unfolding mps_shdict_delete_def mps_shdict_store_def Let_def
      using nil lk by (simp add: p(4,5) store_dispatch_def store_insert_def ops tags)
    moreover have "holds z s1 (swept s D)" using p(1,2) unfolding holds_def by metis
    ultimately show ?thesis using None by (simp add: dict_del_absent)
  next
    case (Some e)
    with lookup_ok [OF p(1), of key] p(2,3) obtain a s2 where
      lk: "mps_shdict_lookup (ucast (ngx_murmur_hash2 key)) key s1
          = Some (if expired (time_nth s 1) e then NGX_DONE else NGX_OK, Some (sd_of_node a), s2)"
        "looked_up z s1 key xs L V a s2" by auto
    note t = looked_up_touch [OF lk(2)]
    from remove_entry_ok [OF t(1) t(7), of "length key"] t(2) obtain s3 where
      s3: "remove_entry z (sd_of_node a) (length key) s2 = Some s3"
        "pool_inv z s3 (remove1 a xs) (remove1 a (a # remove1 a L)) V"
        "dict_abs s3 V (remove1 a (a # remove1 a L)) = dict_del key (dict_touch key (swept s D))"
      using t(3) p(2) by auto
    have "mps_shdict_delete z key s
        = Some (\<lparr>st_rc = NGX_OK, st_err = None, st_forcible = False\<rparr>, mps_slab_unlock s3)"
      unfolding mps_shdict_delete_def mps_shdict_store_def Let_def
      using nil lk(1) s3(1) by (simp add: p(4,5) store_dispatch_def store_insert_def ops)
    moreover have "holds z s3 (dict_del key (swept s D))"
      using s3(2,3) unfolding holds_def dict_del_touch by metis
    ultimately show ?thesis by simp
  qed
qed

end
