(* ===== verification/ShdictIncr.thy ===== *)
theory ShdictIncr
  imports ShdictStore
begin

text \<open>
  \<^verbatim>\<open>mps_shdict_incr\<close> on the branches that do not allocate, and \<^verbatim>\<open>mps_shdict_flush_all\<close>, against the
  abstract dictionary. The bytes of a double read back as that double.
\<close>

subsection \<open>Doubles in memory\<close>

lemma length_double_bytes [simp]: "length (double_bytes d) = 8"
  by (simp add: double_bytes_def)

lemma double_bytes_nth: "i < 8 \<Longrightarrow> double_bytes d ! i = ucast (drop_bit (8 * i) d)"
  by (simp add: double_bytes_def)

lemma bit_bytes_double_fold:
  "n \<le> 8 \<Longrightarrow> bit (fold (\<lambda>i d. d OR push_bit (8 * i) (ucast (bs ! i :: byte))) [0..<n] (0 :: u64)) j
     \<longleftrightarrow> j < 8 * n \<and> bit (bs ! (j div 8)) (j mod 8)"
proof (induction n)
  case (Suc n)
  have "bit (push_bit (8 * n) (ucast (bs ! n) :: u64)) j \<longleftrightarrow> 8 * n \<le> j \<and> j < 8 * n + 8 \<and> bit (bs ! n) (j - 8 * n)"
    using Suc.prems bit_imp_le_length [of "bs ! n" "j - 8 * n"]
    by (auto simp: bit_push_bit_iff bit_ucast_iff)
  moreover have "j div 8 = n \<and> j mod 8 = j - 8 * n" if "8 * n \<le> j" "j < 8 * n + 8"
    using that by (auto simp: div_nat_eqI modulo_nat_def)
  ultimately show ?case using Suc by (auto simp: bit_or_iff)
qed simp

lemma bytes_double_double_bytes: "bytes_double (double_bytes d) = d"
proof (rule bit_word_eqI)
  fix j assume "j < LENGTH(64)"
  then have j: "j < 64" by simp
  have m: "8 * (j div 8) + j mod 8 = j" by simp
  have "bit (bytes_double (double_bytes d)) j = bit (double_bytes d ! (j div 8)) (j mod 8)"
    using bit_bytes_double_fold [of 8 "double_bytes d" j] j by (simp add: bytes_double_def)
  also have "\<dots> = bit d (8 * (j div 8) + j mod 8)"
    using j by (simp add: double_bytes_nth bit_ucast_iff bit_drop_bit_eq)
  finally show "bit (bytes_double (double_bytes d)) j = bit d j" by (simp only: m)
qed

lemma double_bytes_bytes_double:
  assumes "length bs = 8" shows "double_bytes (bytes_double bs) = bs"
proof (rule nth_equalityI)
  fix i assume "i < length (double_bytes (bytes_double bs))"
  then have i: "i < 8" by simp
  show "double_bytes (bytes_double bs) ! i = bs ! i"
  proof (rule bit_word_eqI)
    fix j assume "j < LENGTH(8)"
    then have j: "j < 8" by simp
    have "8 * i + j < 64" "(8 * i + j) div 8 = i" "(8 * i + j) mod 8 = j" using i j by auto
    then show "bit (double_bytes (bytes_double bs) ! i) j = bit (bs ! i) j"
      using i j bit_bytes_double_fold [of 8 bs "8 * i + j"]
      by (simp add: double_bytes_nth bit_ucast_iff bit_drop_bit_eq bytes_double_def)
  qed
qed (use assms in simp)

subsection \<open>Increment\<close>

text \<open>The clock reading that a positive \<^verbatim>\<open>init_ttl\<close> makes before the lock.\<close>

definition incr_start :: "int \<Rightarrow> shm \<Rightarrow> shm" where
  "incr_start init_ttl s = (if init_ttl > 0 then s\<lparr>ticks := Suc (ticks s)\<rparr> else s)"

lemma incr_start_ok:
  "holds z (incr_start init_ttl s) D = holds z s D" "held (incr_start init_ttl s) = held s"
  "(if init_ttl > 0 then mps_clock_time_ms s else (0, s)) = (if init_ttl > 0 then time_of s else 0, incr_start init_ttl s)"
  by (auto simp: incr_start_def tick_same intro!: holds_same)

text \<open>What increment does to the dictionary where it does not allocate.\<close>

definition incremented :: "(u64 \<Rightarrow> u64 \<Rightarrow> u64) \<Rightarrow> u64 \<Rightarrow> entry \<Rightarrow> entry" where
  "incremented fadd val e = e\<lparr>e_bytes := double_bytes (fadd (bytes_double (e_bytes e)) val)\<rparr>"

lemma write_read_bytes: "write_bytes m p (read_bytes m p n) = m"
  by (auto simp: write_bytes_def read_bytes_def fun_eq_iff)

lemma incr_number_ok:
  assumes pinv: "pool_inv z s xs (a # L) V" and t: "uint (value_type s (sd_of_node a)) = MPS_SHDICT_TNUMBER"
    and len: "value_len s (sd_of_node a) = 8" and key: "key = node_key s a"
    and num: "num = fadd (bytes_double (e_bytes (entry_at s V a))) val"
  shows "bytes_double (read_bytes (bytes s) (sd_data (sd_of_node a) + length key) 8) = bytes_double (e_bytes (entry_at s V a))"
    "holds z (mps_slab_unlock (ngx_memcpy (sd_data (sd_of_node a) + length key) (double_bytes num) s))
       (dict_set key (incremented fadd val (entry_at s V a)) (dict_abs s V (a # L)))"
proof -
  let ?sd = "sd_of_node a"
  let ?r = "mps_slab_unlock (ngx_memcpy (sd_data ?sd + length key) (double_bytes num) s)"
  note inv = pool_invD(1) [OF pinv]
  have nl: "\<not> is_list s a" using t by (simp add: is_list_def tags)
  then have eb: "e_bytes (entry_at s V a) = read_bytes (bytes s) (sd_data ?sd + length key) 8"
    by (simp add: entry_at_def sd_value_def key len)
  then show "bytes_double (read_bytes (bytes s) (sd_data ?sd + length key) 8) = bytes_double (e_bytes (entry_at s V a))"
    by simp
  have a: "a \<in> set xs" using inv by (auto simp: dict_inv_def)
  have o: "overwrites a (double_bytes num) ?r s"
    using nl len by (auto simp: overwrites_def is_list_def key)
  note w = overwrites_ok [OF o pinv] overwrites_funs [OF o inv a]
  have "entry_at ?r V a = incremented fadd val (entry_at s V a)"
  proof (rule entry.equality)
    show "e_bytes (entry_at ?r V a) = e_bytes (incremented fadd val (entry_at s V a))"
      using w by (simp add: incremented_def num)
    show "e_items (entry_at ?r V a) = e_items (incremented fadd val (entry_at s V a))"
      using w nl by (simp add: incremented_def entry_at_def)
  qed (simp_all add: entry_at_def incremented_def)
  with w(1,2) key show "holds z ?r (dict_set key (incremented fadd val (entry_at s V a)) (dict_abs s V (a # L)))"
    unfolding holds_def by metis
qed

text \<open>The entry is a number of the right size.\<close>

definition is_number :: "entry \<Rightarrow> bool" where
  "is_number e \<longleftrightarrow> uint (e_type e) = MPS_SHDICT_TNUMBER \<and> length (e_bytes e) = 8"

lemma entry_number:
  "is_number (entry_at s V a) \<longleftrightarrow>
     uint (value_type s (sd_of_node a)) = MPS_SHDICT_TNUMBER \<and> value_len s (sd_of_node a) = 8"
proof -
  have "unat (value_len s (sd_of_node a)) = 8 \<longleftrightarrow> value_len s (sd_of_node a) = 8"
    by (simp add: word_unat_eq_iff)
  then show ?thesis by (auto simp: is_number_def entry_at_def is_list_def tags length_sd_value)
qed

text \<open>A number that has not expired is incremented in place.\<close>

lemma incr_adds:
  assumes hold: "holds z s D" and unheld: "\<not> held s"
    and s0: "s0 = incr_start init_ttl s"
    and found: "map_of (swept s0 D) key = Some e" and live: "\<not> expired (time_nth s0 1) e" and n: "is_number e"
  shows "\<exists>s'. mps_shdict_incr fadd z key val has_init init init_ttl s
      = Some (\<lparr>ir_rc = NGX_OK, ir_value = Some (fadd (bytes_double (e_bytes e)) val), ir_err = None,
               ir_forcible = False\<rparr>, s')
    \<and> holds z s' (dict_set key (incremented fadd val e) (swept s0 D)) \<and> \<not> held s'"
proof -
  have hold0: "holds z s0 D" and unheld0: "\<not> held s0" using hold unheld s0 incr_start_ok by auto
  obtain s1 xs L V fr where p: "pool_inv z s1 xs L V" "swept s0 D = dict_abs s1 V L" "time_nth s1 0 = time_nth s0 (Suc 0)"
    "mps_slab_lock s0 = Some (s0\<lparr>held := True\<rparr>)"
    "mps_shdict_expire z (Suc 0) (s0\<lparr>held := True\<rparr>) = Some (fr, s1)"
    using prefix_ok [OF hold0 unheld0] by blast
  from lookup_ok [OF p(1), of key] p(2,3) found live obtain a s2 where
    lk: "mps_shdict_lookup (ucast (ngx_murmur_hash2 key)) key s1 = Some (NGX_OK, Some (sd_of_node a), s2)"
      "looked_up z s1 key xs L V a s2" "e = entry_at s1 V a" by auto
  note t = looked_up_touch [OF lk(2)]
  note m = move_head_again [OF t(1)]
  let ?t = "lru_touch (sd_of_node a) s2"
  have ae: "entry_at ?t V a = e" using t(8) lk(3) lru_touch_ok(6) [OF pool_invD(1) [OF t(1)] t(7)] by simp
  have num: "uint (value_type s2 (sd_of_node a)) = MPS_SHDICT_TNUMBER" "value_len s2 (sd_of_node a) = 8"
    using n entry_number [of s2 V a] t(8) lk(3) by auto
  have f: "value_type ?t = value_type s2" "value_len ?t = value_len s2" "node_key ?t = node_key s2"
    using m(3) same_data_funs [OF m(3)] by (auto simp: same_data_def)
  note r = incr_number_ok [OF m(1), where key = key and fadd = fadd and val = val, unfolded f, OF num t(2) [symmetric] refl]
  have run: "mps_shdict_incr fadd z key val has_init init init_ttl s
      = Some (\<lparr>ir_rc = NGX_OK, ir_value = Some (fadd (bytes_double (e_bytes e)) val), ir_err = None,
               ir_forcible = False\<rparr>,
          mps_slab_unlock (ngx_memcpy (sd_data (sd_of_node a) + length key)
            (double_bytes (fadd (bytes_double (e_bytes e)) val)) ?t))"
    unfolding mps_shdict_incr_def incr_start_ok(3) s0 [symmetric] Let_def prod.case
    using p(4,5) lk(1) num r(1) ae by simp
  have "holds z (mps_slab_unlock (ngx_memcpy (sd_data (sd_of_node a) + length key)
            (double_bytes (fadd (bytes_double (e_bytes e)) val)) ?t))
      (dict_set key (incremented fadd val e) (swept s0 D))"
    using r(2) unfolding ae m(2) t(3) dict_set_touch p(2) .
  with run show ?thesis by simp
qed

text \<open>Without \<^verbatim>\<open>init\<close> a missing or expired key is refused, and so is a value that is not a number.\<close>

lemma incr_refuses:
  assumes hold: "holds z s D" and unheld: "\<not> held s"
    and s0: "s0 = incr_start init_ttl s" and found: "found = map_of (swept s0 D) key"
    and msg: "case found of
        None \<Rightarrow> \<not> has_init \<and> msg = ''not found''
      | Some e \<Rightarrow> if expired (time_nth s0 1) e then \<not> has_init \<and> msg = ''not found''
                  else \<not> is_number e \<and> msg = ''not a number''"
  shows "\<exists>s'. mps_shdict_incr fadd z key val has_init init init_ttl s
      = Some (\<lparr>ir_rc = NGX_ERROR, ir_value = None, ir_err = Some msg, ir_forcible = False\<rparr>, s')
    \<and> holds z s' (dict_touch key (swept s0 D)) \<and> \<not> held s'"
proof -
  have hold0: "holds z s0 D" and unheld0: "\<not> held s0" using hold unheld s0 incr_start_ok by auto
  obtain s1 xs L V fr where p: "pool_inv z s1 xs L V" "swept s0 D = dict_abs s1 V L" "time_nth s1 0 = time_nth s0 (Suc 0)"
    "mps_slab_lock s0 = Some (s0\<lparr>held := True\<rparr>)"
    "mps_shdict_expire z (Suc 0) (s0\<lparr>held := True\<rparr>) = Some (fr, s1)"
    using prefix_ok [OF hold0 unheld0] by blast
  show ?thesis
  proof (cases found)
    case None
    with lookup_ok [OF p(1), of key] p(2) found
    have "mps_shdict_lookup (ucast (ngx_murmur_hash2 key)) key s1 = Some (NGX_DECLINED, None, s1)" by simp
    then have "mps_shdict_incr fadd z key val has_init init init_ttl s
      = Some (\<lparr>ir_rc = NGX_ERROR, ir_value = None, ir_err = Some msg, ir_forcible = False\<rparr>, mps_slab_unlock s1)"
      unfolding mps_shdict_incr_def incr_start_ok(3) s0 [symmetric] Let_def prod.case
      using p(4,5) None msg by simp
    moreover have "holds z s1 (swept s0 D)" using p(1,2) unfolding holds_def by metis
    ultimately show ?thesis using None found by (simp add: dict_touch_def)
  next
    case (Some e)
    then have "map_of (dict_abs s1 V L) key = Some e" using found p(2) by simp
    with lookup_ok [OF p(1), of key] p(3) obtain a s2 where
      lk: "mps_shdict_lookup (ucast (ngx_murmur_hash2 key)) key s1
          = Some (if expired (time_nth s0 1) e then NGX_DONE else NGX_OK, Some (sd_of_node a), s2)"
        "looked_up z s1 key xs L V a s2" "e = entry_at s1 V a" by auto
    have num: "\<not> expired (time_nth s0 1) e \<Longrightarrow>
        uint (value_type s2 (sd_of_node a)) \<noteq> MPS_SHDICT_TNUMBER \<or> value_len s2 (sd_of_node a) \<noteq> 8"
      using msg Some entry_number [of s2 V a] looked_up_touch(8) [OF lk(2)] lk(3) by auto
    have "mps_shdict_incr fadd z key val has_init init init_ttl s
      = Some (\<lparr>ir_rc = NGX_ERROR, ir_value = None, ir_err = Some msg, ir_forcible = False\<rparr>, mps_slab_unlock s2)"
      unfolding mps_shdict_incr_def incr_start_ok(3) s0 [symmetric] Let_def prod.case
      using p(4,5) lk(1) Some msg num by (cases "expired (time_nth s0 1) e") simp_all
    with looked_up_holds [OF lk(2)] p(2) show ?thesis by simp
  qed
qed

subsection \<open>Flushing\<close>

definition stale :: "byte list \<times> entry \<Rightarrow> byte list \<times> entry" where
  "stale = (\<lambda>(k, e). (k, e\<lparr>e_expires := 1\<rparr>))"

lemma expire_all_ok:
  "pool_inv z s xs (M @ N) V \<Longrightarrow>
     \<exists>s'. expire_all (lru_queue s) (case N of [] \<Rightarrow> lru_queue s | a # _ \<Rightarrow> node_link a) s = Some s'
       \<and> pool_inv z s' xs (M @ N) V \<and> dict_abs s' V (M @ N) = dict_abs s V M @ map stale (dict_abs s V N)
       \<and> held s' = held s \<and> clock s' = clock s \<and> ticks s' = ticks s"
proof (induction N arbitrary: M s)
  case Nil
  then show ?case by (subst expire_all.simps) (simp add: mps_queue_sentinel_def dict_abs_def)
next
  case (Cons a N)
  let ?s = "set_expires (sd_of_node a) 1 s"
  note d = same_data_funs [of ?s s, simplified]
  from Cons.prems have L: "dll (links s) (lru_queue s) (map node_link M @ node_link a # map node_link N)"
    "distinct (M @ a # N)" by (auto simp: pool_inv_def dict_inv_def)
  have nx: "mps_queue_next (node_link a) (links s) = (case N of [] \<Rightarrow> lru_queue s | b # _ \<Rightarrow> node_link b)"
    using lq.nxt_rep [OF L(1)] by (cases N) auto
  have inv: "pool_inv z ?s xs ((M @ [a]) @ N) V" using Cons.prems by (simp add: pool_inv_expires)
  have e: "b \<noteq> a \<Longrightarrow> entry_at ?s V b = entry_at s V b" for b by (simp add: entry_at_expires)
  have ab: "dict_abs ?s V M = dict_abs s V M" "dict_abs ?s V N = dict_abs s V N"
    "dict_abs ?s V [a] = map stale (dict_abs s V [a])"
    using L(2) d(1) e by (auto simp: dict_abs_def stale_def entry_at_expires)
  from Cons.IH [OF inv, unfolded d(11)] obtain s' where
    s': "expire_all (lru_queue s) (case N of [] \<Rightarrow> lru_queue s | b # _ \<Rightarrow> node_link b) ?s = Some s'"
      "pool_inv z s' xs (M @ a # N) V"
      "dict_abs s' V (M @ a # N) = dict_abs ?s V (M @ [a]) @ map stale (dict_abs ?s V N)"
      "held s' = held s" "clock s' = clock s" "ticks s' = ticks s" by auto
  have "lru_queue s \<noteq> node_link a" using L(1) by (auto simp: dll_def)
  then have "expire_all (lru_queue s) (node_link a) s
      = expire_all (lru_queue s) (case N of [] \<Rightarrow> lru_queue s | b # _ \<Rightarrow> node_link b) ?s"
    by (subst expire_all.simps) (simp add: mps_queue_sentinel_def Let_def nx)
  moreover have "dict_abs ?s V (M @ [a]) = dict_abs s V M @ map stale (dict_abs s V [a])"
    using ab by (simp add: dict_abs_def)
  ultimately show ?case using s' ab by (simp add: dict_abs_def)
qed

text \<open>
  A flush makes every entry expired, and removes up to three of them at once. The rest are unreachable
  for \<^verbatim>\<open>get\<close> from then on, as soon as the clock is past the first millisecond of the epoch.
\<close>

lemma flush_all_refines:
  assumes hold: "holds z s D" and unheld: "\<not> held s"
  shows "\<exists>s'. mps_shdict_flush_all z s = Some (NGX_OK, s')
    \<and> holds z s' (keep_first (map stale D) (drop_count 3 (time_of s) True (map stale D))) \<and> \<not> held s'
    \<and> clock s' = clock s \<and> ticks s' = Suc (ticks s)"
proof -
  let ?s = "s\<lparr>held := True\<rparr>"
  from hold obtain xs L V where pinv: "pool_inv z ?s xs L V" and D: "D = dict_abs ?s V L"
    using holds_lock [of z True s D] by (auto simp: holds_def)
  note inv = pool_invD(1) [OF pinv]
  from expire_all_ok [of z ?s xs "[]" L V] pinv obtain s1 where
    s1: "expire_all (lru_queue ?s) (case L of [] \<Rightarrow> lru_queue ?s | a # _ \<Rightarrow> node_link a) ?s = Some s1"
      "pool_inv z s1 xs L V" "dict_abs s1 V L = map stale D" "held s1" "clock s1 = clock s" "ticks s1 = ticks s"
    by (auto simp: D dict_abs_def)
  have "dll (links ?s) (lru_queue ?s) (map node_link L)" using inv by (simp add: dict_inv_def)
  then have "mps_queue_head (lru_queue ?s) (links ?s) = (case L of [] \<Rightarrow> lru_queue ?s | a # _ \<Rightarrow> node_link a)"
    by (cases L) (auto simp: lq.first_rep)
  moreover have "holds z s1 (map stale D)" using s1(2,3) unfolding holds_def by metis
  moreover have "time_of s1 = time_of s" using s1 by (simp add: time_of_def mps_clock_time_ms_def)
  ultimately show ?thesis
    using expire_ok [of z s1 "map stale D" 0] s1(1,4-6)
    by (auto simp: mps_shdict_flush_all_def lock_unheld [OF unheld])
qed

lemma map_of_stale: "map_of (map stale D) k = map_option (\<lambda>e. e\<lparr>e_expires := 1\<rparr>) (map_of D k)"
  by (induction D) (auto simp: stale_def)

lemma sint_uminus_neg:
  fixes w :: u64
  assumes "0 < sint w" shows "sint (- w) < 0"
proof -
  have "sint w < 2 ^ 63" using sint_lt [of w] by simp
  moreover have "sint (word_of_int (- sint w) :: u64) = (- sint w + 2 ^ 63) mod 2 ^ 64 - 2 ^ 63"
    by (simp only: int_word_sint) simp
  ultimately show ?thesis using assms by simp
qed

lemma stale_expired: "0 < sint (now - 1) \<Longrightarrow> expired now (e\<lparr>e_expires := 1\<rparr>)"
  using sint_uminus_neg [of "now - 1"] by (simp add: expired_def)

end
