(* ===== verification/ShdictBlocks.thy ===== *)
theory ShdictBlocks
  imports ShdictRemove
begin

text \<open>
  What the ownership of blocks gives: each byte and link of an entry lies in a block of its own, so that
  nothing that is written to a newly allocated block is seen by the entries that are there. Allocation,
  with and without the eviction of old entries, hands out such a block.
\<close>

subsection \<open>Addresses and the blocks they are in\<close>

definition in_block :: "(off \<Rightarrow> nat) \<Rightarrow> off \<Rightarrow> off \<Rightarrow> bool" where
  "in_block f p x \<longleftrightarrow> p \<le> x \<and> x < p + f p"

lemma block_eq:
  assumes "slab_holds z sl ((\<lambda>p. (p, f p)) ` U)" "p \<in> U" "q \<in> U" "in_block f p x" "in_block f q x"
  shows "p = q"
proof -
  have "(p, f p) \<in> (\<lambda>p. (p, f p)) ` U" "(q, f q) \<in> (\<lambda>p. (p, f p)) ` U" using assms(2,3) by auto
  from slab.disjoint [OF assms(1) this] assms(4,5) show ?thesis by (auto simp: in_block_def)
qed

lemma list_head_range:
  "is_list s a \<Longrightarrow> a + node_header + unat (key_len s (sd_of_node a)) \<le> list_head s a"
  "is_list s a \<Longrightarrow> list_head s a + queue_size \<le> a + node_room s a"
proof -
  have "sd_data (sd_of_node a) + unat (key_len s (sd_of_node a)) \<le> list_head s a"
    unfolding list_head_def mps_shdict_get_list_head_def length_node_key
    by (rule ngx_align_ptr_ge) (simp add: NGX_ALIGNMENT_def)
  then show h: "a + node_header + unat (key_len s (sd_of_node a)) \<le> list_head s a" by (simp add: offsets)
  then show "is_list s a \<Longrightarrow> list_head s a + queue_size \<le> a + node_room s a" by (simp add: node_room_def)
qed

text \<open>Where the parts of an entry are.\<close>

lemma in_own_block:
  assumes "node_room s a \<le> f a"
  shows "in_block f a a" "in_block f a (node_link a)" "x \<in> node_span s a \<Longrightarrow> in_block f a x"
    "is_list s a \<Longrightarrow> in_block f a (list_head s a)" "is_list s a \<Longrightarrow> list_head s a \<noteq> node_link a"
proof -
  have k: "node_header + unat (key_len s (sd_of_node a)) \<le> node_room s a"
    using list_head_range [of s a] by (auto simp: node_room_def offsets)
  then show "in_block f a a" "in_block f a (node_link a)" using assms by (simp_all add: in_block_def node_link_def offsets)
  show "in_block f a x" if "x \<in> node_span s a"
  proof (cases "is_list s a")
    case True
    then show ?thesis using that k assms by (auto simp: node_span_def in_block_def offsets)
  next
    case False
    then show ?thesis using that assms by (auto simp: node_span_def node_room_def in_block_def offsets)
  qed
  { assume "is_list s a"
    with list_head_range [OF this] assms show "in_block f a (list_head s a)" "list_head s a \<noteq> node_link a"
      by (auto simp: in_block_def node_link_def offsets) }
qed

lemma in_item_block:
  assumes "item_room s l \<le> f l"
  shows "in_block f l l" "x \<in> item_span s l \<Longrightarrow> in_block f l x"
  using assms by (auto simp: in_block_def item_room_def item_span_def offsets)

lemma in_tree_block:
  assumes "tree_size \<le> f (pool_data (slab s))"
  shows "in_block f (pool_data (slab s)) (lru_queue s)" "in_block f (pool_data (slab s)) (sentinel_off (pool_data (slab s)))"
  using assms by (auto simp: in_block_def lru_queue_def offsets)

lemma used_blocks_member:
  "pool_data (slab s) \<in> used_blocks s V A" "a \<in> A \<Longrightarrow> a \<in> used_blocks s V A"
  "a \<in> A \<Longrightarrow> l \<in> own_items s V a \<Longrightarrow> l \<in> used_blocks s V A"
  by (auto simp: used_blocks_def)

definition owners :: "shm \<Rightarrow> (off \<Rightarrow> off list) \<Rightarrow> off \<Rightarrow> off set" where
  "owners s V a = insert a (own_items s V a)"

lemma owners_apart:
  assumes "apart s V A" "a \<in> A"
  shows "pool_data (slab s) \<notin> owners s V a" "owners s V a \<inter> A = {a}" "b \<in> A \<Longrightarrow> a \<noteq> b \<Longrightarrow> owners s V a \<inter> owners s V b = {}"
proof -
  from assms have f: "pool_data (slab s) \<noteq> a" "pool_data (slab s) \<notin> own_items s V a" "own_items s V a \<inter> A = {}"
    by (auto simp: apart_def)
  then show "pool_data (slab s) \<notin> owners s V a" "owners s V a \<inter> A = {a}" using assms(2) by (auto simp: owners_def)
  assume b: "b \<in> A" "a \<noteq> b"
  with assms have g: "own_items s V b \<inter> A = {}" "own_items s V a \<inter> own_items s V b = {}" by (auto simp: apart_def)
  have "a \<notin> own_items s V b" "b \<notin> own_items s V a" using f(3) g(1) assms(2) b(1) by blast+
  with g(2) b(2) show "owners s V a \<inter> owners s V b = {}" by (auto simp: owners_def)
qed

lemma owners_used: "a \<in> A \<Longrightarrow> owners s V a \<subseteq> used_blocks s V A"
  by (auto simp: owners_def used_blocks_def)

lemma span_owner:
  assumes "x \<in> own_span s V a" "room_ok s V A f" "a \<in> A"
  shows "\<exists>p \<in> owners s V a. in_block f p x"
proof -
  have r: "node_room s a \<le> f a" "\<And>l. l \<in> own_items s V a \<Longrightarrow> item_room s l \<le> f l" using assms(2,3) by (auto simp: room_ok_def)
  show ?thesis
  proof (cases "x \<in> node_span s a")
    case True
    then show ?thesis using in_own_block(3) [of s a f x] r(1) by (auto simp: owners_def)
  next
    case False
    then obtain l where "l \<in> own_items s V a" "x \<in> item_span s l" using assms(1) by (auto simp: own_span_def own_items_def split: if_splits)
    then show ?thesis using in_item_block(2) [of s l f x] r(2) by (auto simp: owners_def)
  qed
qed

lemma link_owner:
  assumes "x \<in> own_links s V a" "room_ok s V A f" "a \<in> A"
  shows "\<exists>p \<in> owners s V a. in_block f p x \<and> (p = a \<longrightarrow> x \<in> own_items s V a \<or> x \<noteq> node_link a)"
proof -
  have r: "node_room s a \<le> f a" "\<And>l. l \<in> own_items s V a \<Longrightarrow> item_room s l \<le> f l" using assms(2,3) by (auto simp: room_ok_def)
  have il: "is_list s a" and x: "x = list_head s a \<or> x \<in> own_items s V a"
    using assms(1) by (auto simp: own_links_def own_items_def split: if_splits)
  from x show ?thesis
  proof
    assume "x = list_head s a"
    then show ?thesis using in_own_block(4,5) [of s a f] r(1) il by (auto simp: owners_def)
  next
    assume "x \<in> own_items s V a"
    then show ?thesis using in_item_block(1) [of s x f] r(2) by (auto simp: owners_def)
  qed
qed

text \<open>Ownership of blocks gives that no link and no byte is shared.\<close>

lemma mem_separate:
  assumes ap: "apart s V A" and sl: "slab_holds z (slab s) ((\<lambda>p. (p, f p)) ` U)"
    and U: "used_blocks s V A \<subseteq> U" and room: "room_ok s V A f"
  shows "separate s V A"
  unfolding separate_def
proof (intro conjI ballI impI)
  let ?P = "pool_data (slab s)"
  have lru: "in_block f ?P (lru_queue s)" using room in_tree_block(1) by (simp add: room_ok_def)
  have nl: "a \<in> A \<Longrightarrow> in_block f a (node_link a)" for a using room in_own_block(2) [of s a f] by (simp add: room_ok_def)
  have P: "?P \<in> U" using U used_blocks_member(1) by blast
  have eq: "p \<in> U \<Longrightarrow> q \<in> U \<Longrightarrow> in_block f p x \<Longrightarrow> in_block f q x \<Longrightarrow> p = q" for p q x by (rule block_eq [OF sl])
  have ow: "a \<in> A \<Longrightarrow> p \<in> owners s V a \<Longrightarrow> p \<in> U" for a p using U owners_used by blast
  fix a assume a: "a \<in> A"
  note oa = owners_apart [OF ap a]
  have aU: "a \<in> U" using ow [OF a] by (simp add: owners_def)
  show "lru_queue s \<noteq> node_link a"
  proof
    assume "lru_queue s = node_link a"
    then have "?P = a" using eq [OF P aU lru] nl [OF a] by simp
    then show False using oa(1) by (simp add: owners_def)
  qed
  show "lru_queue s \<notin> own_links s V a"
  proof
    assume "lru_queue s \<in> own_links s V a"
    from link_owner [OF this room a] obtain p where "p \<in> owners s V a" "in_block f p (lru_queue s)" by blast
    then show False using eq [OF P _ lru] ow [OF a] oa(1) by blast
  qed
  show "own_links s V a \<inter> node_link ` A = {}"
  proof (rule ccontr)
    assume "own_links s V a \<inter> node_link ` A \<noteq> {}"
    then obtain b where b: "node_link b \<in> own_links s V a" "b \<in> A" by blast
    from link_owner [OF b(1) room a] obtain p where p: "p \<in> owners s V a" "in_block f p (node_link b)"
      "p = a \<longrightarrow> node_link b \<in> own_items s V a \<or> node_link b \<noteq> node_link a" by blast
    have bU: "b \<in> U" using ow [OF b(2)] by (simp add: owners_def)
    have "p = b" by (rule eq [OF ow [OF a p(1)] bU p(2) nl [OF b(2)]])
    then have "b = a" using p(1) b(2) oa(2) by blast
    with p(3) \<open>p = b\<close> have i: "node_link a \<in> own_items s V a" by simp
    then have "in_block f (node_link a) (node_link a)" using room a in_item_block(1) [of s "node_link a" f] by (auto simp: room_ok_def)
    then have "node_link a = a" using eq [of "node_link a" a] ow [OF a] i nl [OF a] aU by (auto simp: owners_def)
    then show False by (simp add: node_link_def offsets)
  qed
  fix b assume b: "b \<in> A" "a \<noteq> b"
  show "own_links s V a \<inter> own_links s V b = {}"
    using link_owner [OF _ room a] link_owner [OF _ room b(1)] eq ow [OF a] ow [OF b(1)] oa(3) [OF b] by fastforce
  show "own_span s V a \<inter> own_span s V b = {}"
    using span_owner [OF _ room a] span_owner [OF _ room b(1)] eq ow [OF a] ow [OF b(1)] oa(3) [OF b] by fastforce
qed

subsection \<open>Allocation\<close>

text \<open>A pool in which one more block \<open>p\<close>, of at least \<open>n\<close> bytes, is handed out.\<close>

definition mem_plus :: "slab_sizes \<Rightarrow> shm \<Rightarrow> off set \<Rightarrow> (off \<Rightarrow> off list) \<Rightarrow> off \<Rightarrow> nat \<Rightarrow> bool" where
  "mem_plus z s A V p n \<longleftrightarrow> rb_sentinel (tree s) = sentinel_off (pool_data (slab s)) \<and> apart s V A
     \<and> p \<notin> used_blocks s V A \<and> 0 < p \<and> 8 dvd p
     \<and> (\<exists>f. slab_holds z (slab s) ((\<lambda>p. (p, f p)) ` insert p (used_blocks s V A)) \<and> room_ok s V A f \<and> n \<le> f p)"

lemma shm_alloc_slab:
  assumes "shm_alloc_locked z n s = Some (p, s')"
  shows "s' = s\<lparr>slab := slab s'\<rparr>" "same_dict s' s" "mps_slab_alloc_locked z (slab s) n = Some (p, slab s')"
proof -
  from assms obtain sl where sl: "mps_slab_alloc_locked z (slab s) n = Some (p, sl)" "s' = s\<lparr>slab := sl\<rparr>"
    by (auto simp: shm_alloc_locked_def)
  have "pool_data sl = pool_data (slab s)" using geom_sel(1) [OF geom_alloc_locked [OF sl(1)]] .
  with sl show "s' = s\<lparr>slab := slab s'\<rparr>" "same_dict s' s" "mps_slab_alloc_locked z (slab s) n = Some (p, slab s')"
    by (simp_all add: same_dict_def same_data_def)
qed

lemma mem_funs_same_data:
  assumes "same_data s' s"
  shows "own_items s' = own_items s" "used_blocks s' = used_blocks s" "room_ok s' = room_ok s" "apart s' = apart s"
    "pool_data (slab s') = pool_data (slab s)"
proof -
  note fs = same_data_funs [OF assms] assms [unfolded same_data_def]
  show o: "own_items s' = own_items s" by (simp add: fun_eq_iff own_items_def fs)
  show p: "pool_data (slab s') = pool_data (slab s)" by (simp add: fs)
  show "used_blocks s' = used_blocks s" "apart s' = apart s" by (simp_all add: fun_eq_iff used_blocks_def apart_def o p)
  show "room_ok s' = room_ok s" by (simp add: fun_eq_iff room_ok_def o p node_room_def item_room_def fs)
qed

lemma shm_alloc_ok:
  assumes pinv: "pool_inv z s xs L V"
  shows "(\<exists>s'. shm_alloc_locked z n s = Some (mps_nulloff, s') \<and> pool_inv z s' xs L V \<and> same_dict s' s
        \<and> s' = s\<lparr>slab := slab s'\<rparr>)
    \<or> (\<exists>p s'. shm_alloc_locked z n s = Some (p, s') \<and> p \<noteq> mps_nulloff \<and> dict_inv s' xs L V
        \<and> mem_plus z s' (set xs) V p n \<and> same_dict s' s \<and> s' = s\<lparr>slab := slab s'\<rparr>)"
proof -
  let ?U = "used_blocks s V (set xs)"
  from pool_invD(2) [OF pinv] obtain f where m: "rb_sentinel (tree s) = sentinel_off (pool_data (slab s))"
    "apart s V (set xs)" "slab_holds z (slab s) ((\<lambda>p. (p, f p)) ` ?U)" "room_ok s V (set xs) f" by (auto simp: mem_inv_def)
  from slab.alloc_returns [OF m(3), of n] obtain p sl where a: "mps_slab_alloc_locked z (slab s) n = Some (p, sl)" by blast
  define s' where "s' = s\<lparr>slab := sl\<rparr>"
  have run: "shm_alloc_locked z n s = Some (p, s')" using a by (simp add: shm_alloc_locked_def s'_def)
  note sm = shm_alloc_slab [OF run]
  have sd: "same_data s' s" using sm(2) by (simp add: same_dict_def)
  have dinv: "dict_inv s' xs L V" using pool_invD(1) [OF pinv] dict_inv_same [OF sm(2)] by simp
  have tr: "tree s' = tree s" using sm(2) by (simp add: same_dict_def)
  note e = mem_funs_same_data [OF sd]
  show ?thesis
  proof (cases "p = 0")
    case True
    then have "slab_holds z (slab s') ((\<lambda>p. (p, f p)) ` ?U)" using slab.alloc_null [OF m(3)] a by (simp add: s'_def)
    then have "mem_inv z s' (set xs) V" using m by (auto simp: mem_inv_def e tr)
    then show ?thesis using run True dinv sm(1,2) by (auto simp: pool_inv_def mps_nulloff_def)
  next
    case False
    from slab.alloc_block [OF m(3) a False] obtain k where k: "n \<le> k" "(p, k) \<notin> (\<lambda>p. (p, f p)) ` ?U"
      "slab_holds z sl (insert (p, k) ((\<lambda>p. (p, f p)) ` ?U))" by blast
    have fresh: "p \<notin> ?U"
    proof
      assume "p \<in> ?U"
      then have "(p, f p) \<in> insert (p, k) ((\<lambda>p. (p, f p)) ` ?U)" by blast
      from slab.block_unique [OF k(3) this, of k] k(2) \<open>p \<in> ?U\<close> show False by auto
    qed
    let ?f = "f(p := k)"
    have "insert (p, k) ((\<lambda>p. (p, f p)) ` ?U) = (\<lambda>p. (p, ?f p)) ` insert p ?U" using fresh by (auto simp: image_iff)
    then have "slab_holds z (slab s') ((\<lambda>p. (p, ?f p)) ` insert p ?U)" using k(3) by (simp add: s'_def)
    moreover have "room_ok s V (set xs) ?f"
      using m(4) fresh by (auto simp: room_ok_def used_blocks_def)
    moreover have "0 < p" "8 dvd p" using slab.positive [OF k(3), of p k] slab.aligned [OF k(3), of p k] by simp_all
    ultimately have "mem_plus z s' (set xs) V p n"
      unfolding mem_plus_def e tr using m fresh k(1) by (intro conjI exI [of _ ?f]) simp_all
    then show ?thesis using run False dinv sm(1,2) by (auto simp: mps_nulloff_def)
  qed
qed

subsection \<open>Allocation with eviction\<close>

definition holds_plus :: "slab_sizes \<Rightarrow> shm \<Rightarrow> dict \<Rightarrow> off \<Rightarrow> nat \<Rightarrow> bool" where
  "holds_plus z s D p n \<longleftrightarrow>
     (\<exists>xs L V. dict_inv s xs L V \<and> mem_plus z s (set xs) V p n \<and> D = dict_abs s V L)"

lemma holds_alloc:
  assumes "holds z s D"
  shows "\<exists>p s'. shm_alloc_locked z n s = Some (p, s') \<and> same_dict s' s \<and> s' = s\<lparr>slab := slab s'\<rparr>
    \<and> (if p = mps_nulloff then holds z s' D else holds_plus z s' D p n)"
proof -
  from assms obtain xs L V where i: "pool_inv z s xs L V" "D = dict_abs s V L" by (auto simp: holds_def)
  from shm_alloc_ok [OF i(1), of n] show ?thesis
  proof (elim disjE exE conjE)
    fix s' assume a: "shm_alloc_locked z n s = Some (mps_nulloff, s')" "pool_inv z s' xs L V" "same_dict s' s"
      "s' = s\<lparr>slab := slab s'\<rparr>"
    have "D = dict_abs s' V L" using i(2) same_dict_funs [OF a(3)] by simp
    with a show ?thesis by (auto intro: holdsI)
  next
    fix p s' assume a: "shm_alloc_locked z n s = Some (p, s')" "p \<noteq> mps_nulloff" "dict_inv s' xs L V"
      "mem_plus z s' (set xs) V p n" "same_dict s' s" "s' = s\<lparr>slab := slab s'\<rparr>"
    have "D = dict_abs s' V L" using i(2) same_dict_funs [OF a(5)] by simp
    with a show ?thesis by (auto simp: holds_plus_def)
  qed
qed

lemma keep_first_keep: "j \<le> length D \<Longrightarrow> keep_first (keep_first D j) k = keep_first D (j + k)"
  by (simp add: keep_first_def take_all_iff min_absorb1 min_absorb2 flip: diff_diff_left)

lemma length_keep_first: "length (keep_first D j) = length D - j"
  by (simp add: keep_first_def)

text \<open>
  The loop returns after at most \<open>i\<close> rounds; it gives up only once the dictionary is empty or \<open>i\<close>
  entries are gone, and says by \<open>forcible\<close> whether it evicted any.
\<close>

lemma alloc_evicting_ok:
  "holds z s D \<Longrightarrow> \<exists>p fc s' j. alloc_evicting i z n fc0 s = Some (p, fc, s') \<and> j \<le> length D \<and> j \<le> 3 * i
    \<and> fc = (fc0 \<or> 0 < j) \<and> held s' = held s \<and> clock s' = clock s \<and> ticks s \<le> ticks s'
    \<and> (if p = mps_nulloff then holds z s' (keep_first D j) \<and> (j = length D \<or> i \<le> j)
       else 0 < j \<and> holds_plus z s' (keep_first D j) p n)"
proof (induction i arbitrary: s D fc0)
  case 0
  then show ?case by auto
next
  case (Suc i)
  let ?j = "drop_count 3 (time_of s) True D"
  from expire_ok [OF Suc.prems, of 0] obtain s1 where
    s1: "mps_shdict_expire z 0 s = Some (int ?j, s1)" "holds z s1 (keep_first D ?j)" "held s1 = held s" "clock s1 = clock s"
      "ticks s1 = Suc (ticks s)" by auto
  note b = drop_count_bounds [of 3 "time_of s" True D]
  show ?case
  proof (cases "?j = 0")
    case True
    then have "D = []" using drop_count_forced [of D 2 "time_of s"] by (auto simp: numeral_3_eq_3 split: if_splits)
    with s1 True show ?thesis by auto
  next
    case False
    from holds_alloc [OF s1(2), of n] obtain p s2 where
      s2: "shm_alloc_locked z n s1 = Some (p, s2)" "s2 = s1\<lparr>slab := slab s2\<rparr>"
        "if p = mps_nulloff then holds z s2 (keep_first D ?j) else holds_plus z s2 (keep_first D ?j) p n" by blast
    have f: "held s2 = held s" "clock s2 = clock s" "ticks s \<le> ticks s2" using s1(3-5) by (subst s2(2), simp)+
    show ?thesis
    proof (cases "p = mps_nulloff")
      case False
      then have "alloc_evicting (Suc i) z n fc0 s = Some (p, True, s2)" using \<open>?j \<noteq> 0\<close> s1(1) s2(1) by simp
      then show ?thesis using \<open>?j \<noteq> 0\<close> b s2(3) f False by (intro exI [of _ p] exI [of _ True] exI [of _ s2] exI [of _ ?j]) auto
    next
      case True
      then have h: "holds z s2 (keep_first D ?j)" using s2(3) by simp
      from Suc.IH [OF h, of True] obtain q fc s3 k where
        s3: "alloc_evicting i z n True s2 = Some (q, fc, s3)" "k \<le> length D - ?j" "k \<le> 3 * i" "fc" "held s3 = held s2"
          "clock s3 = clock s2" "ticks s2 \<le> ticks s3"
          "if q = mps_nulloff then holds z s3 (keep_first (keep_first D ?j) k) \<and> (k = length D - ?j \<or> i \<le> k)
           else 0 < k \<and> holds_plus z s3 (keep_first (keep_first D ?j) k) q n"
        unfolding length_keep_first by auto
      have "alloc_evicting (Suc i) z n fc0 s = Some (q, fc, s3)" using True \<open>?j \<noteq> 0\<close> s1(1) s2(1) s3(1) by simp
      then show ?thesis
        using \<open>?j \<noteq> 0\<close> b s3(2-8) f
        by (intro exI [of _ q] exI [of _ fc] exI [of _ s3] exI [of _ "?j + k"]) (auto simp: keep_first_keep)
    qed
  qed
qed

end
