(* ===== verification/ShdictInsert.thy ===== *)
theory ShdictInsert
  imports ShdictIncr ShdictBlocks
begin

text \<open>
  Inserting an entry: what is written to a new block leaves the entries that are there alone, and once
  the node is in the tree and at the head of the LRU queue the pool stands for the dictionary with the
  new entry. With it the allocating branches of \<^verbatim>\<open>mps_shdict_store\<close> and \<^verbatim>\<open>mps_shdict_incr\<close> are simulated,
  the eviction of old entries included.
\<close>

lemma unat_of_nat_less: "n < 2 ^ LENGTH('a) \<Longrightarrow> unat (of_nat n :: 'a::len word) = n"
  by (simp add: unat_of_nat take_bit_nat_eq_self)

lemma upd_links_lnode [simp]:
  "lnode_value_len (upd_links f s) = lnode_value_len s" "lnode_value_type (upd_links f s) = lnode_value_type s"
  by (simp_all add: upd_links_def)

subsection \<open>Writing to a new block\<close>

definition writes_node :: "off \<Rightarrow> nat \<Rightarrow> shm \<Rightarrow> shm \<Rightarrow> bool" where
  "writes_node p n s' s \<longleftrightarrow> slab s' = slab s
     \<and> (\<forall>b. b \<noteq> p \<longrightarrow> value_type s' (sd_of_node b) = value_type s (sd_of_node b)
          \<and> key_len s' (sd_of_node b) = key_len s (sd_of_node b) \<and> value_len s' (sd_of_node b) = value_len s (sd_of_node b)
          \<and> expires s' (sd_of_node b) = expires s (sd_of_node b)
          \<and> user_flags s' (sd_of_node b) = user_flags s (sd_of_node b))
     \<and> (\<forall>l. l \<noteq> p \<longrightarrow> lnode_value_len s' l = lnode_value_len s l \<and> lnode_value_type s' l = lnode_value_type s l)
     \<and> (\<forall>q. q < p \<or> p + n \<le> q \<longrightarrow> bytes s' q = bytes s q)"

lemma writes_node_funs:
  assumes w: "writes_node p n s' s" and m: "mem_plus z s A V p n" and a: "a \<in> A"
  shows "node_key s' a = node_key s a" "is_list s' a = is_list s a" "list_head s' a = list_head s a"
    "entry_at s' V a = entry_at s V a" "node_room s' a = node_room s a" "own_items s' V a = own_items s V a"
    "node_span s' a = node_span s a" "l \<in> own_items s V a \<Longrightarrow> item_room s' l = item_room s l"
    "l \<in> own_items s V a \<Longrightarrow> item_span s' l = item_span s l"
proof -
  note d = w [unfolded writes_node_def]
  from m obtain f where f: "slab_holds z (slab s) ((\<lambda>p. (p, f p)) ` insert p (used_blocks s V A))" "room_ok s V A f" "n \<le> f p"
    "p \<notin> used_blocks s V A" by (auto simp: mem_plus_def)
  have ap: "a \<noteq> p" using a f(4) by (auto simp: used_blocks_def)
  have b: "bytes s' q = bytes s q" if "q \<in> own_span s V a" for q
  proof (rule ccontr)
    assume "bytes s' q \<noteq> bytes s q"
    then have "\<not> (q < p \<or> p + n \<le> q)" using d by blast
    then have q: "in_block f p q" using f(3) by (simp add: in_block_def)
    from span_owner [OF that f(2) a] obtain c where c: "c \<in> owners s V a" "in_block f c q" by blast
    then have cU: "c \<in> used_blocks s V A" using owners_used [OF a] by blast
    then have "p = c" using block_eq [OF f(1), of p c q] q c(2) by auto
    then show False using cU f(4) by simp
  qed
  have lp: "l \<noteq> p" if "l \<in> own_items s V a" for l using that f(4) a by (auto simp: used_blocks_def)
  have e: "value_type s' (sd_of_node a) = value_type s (sd_of_node a)" "key_len s' (sd_of_node a) = key_len s (sd_of_node a)"
    "value_len s' (sd_of_node a) = value_len s (sd_of_node a)" "expires s' (sd_of_node a) = expires s (sd_of_node a)"
    "user_flags s' (sd_of_node a) = user_flags s (sd_of_node a)" using d ap by auto
  show k: "node_key s' a = node_key s a"
    unfolding node_key_def sd_key_def e by (rule read_bytes_cong) (use b in \<open>auto simp: own_span_def node_span_def\<close>)
  show il: "is_list s' a = is_list s a" by (simp add: is_list_def e)
  show h: "list_head s' a = list_head s a" by (simp add: list_head_def e)
  show "node_room s' a = node_room s a" by (simp add: node_room_def il h e)
  show "own_items s' V a = own_items s V a" by (simp add: own_items_def il)
  show "node_span s' a = node_span s a" by (simp add: node_span_def il e)
  show "item_room s' l = item_room s l" "item_span s' l = item_span s l" if "l \<in> own_items s V a"
    using d lp [OF that] by (simp_all add: item_room_def item_span_def)
  have "sd_value s' (sd_of_node a) = sd_value s (sd_of_node a)" if "\<not> is_list s a"
    unfolding sd_value_def e by (rule read_bytes_cong) (use b that in \<open>auto simp: own_span_def node_span_def\<close>)
  moreover have "item_at s' l = item_at s l" if "is_list s a" "l \<in> set (V a)" for l
  proof -
    have l: "l \<in> own_items s V a" using that by (simp add: own_items_def)
    have "lnode_value_len s' l = lnode_value_len s l" "lnode_value_type s' l = lnode_value_type s l" using d lp [OF l] by auto
    then show ?thesis unfolding item_at_def
      using b that by (auto intro!: read_bytes_cong simp: own_span_def item_span_def)
  qed
  ultimately show "entry_at s' V a = entry_at s V a" by (simp add: entry_at_def il e)
qed

text \<open>A new block holds no link of the queues.\<close>

lemma mem_plus_links:
  assumes m: "mem_plus z s A V p n" and x: "p \<le> x" "x < p + n"
  shows "x \<noteq> lru_queue s" "x \<notin> node_link ` A" "a \<in> A \<Longrightarrow> x \<notin> own_links s V a"
proof -
  from m obtain f where f: "slab_holds z (slab s) ((\<lambda>p. (p, f p)) ` insert p (used_blocks s V A))"
    "room_ok s V A f" "n \<le> f p" "p \<notin> used_blocks s V A" by (auto simp: mem_plus_def)
  have "in_block f p x" using x f(3) by (simp add: in_block_def)
  then have out: "\<not> in_block f c x" if "c \<in> used_blocks s V A" for c
    using block_eq [OF f(1), of p c x] that f(4) by auto
  show "x \<noteq> lru_queue s" using out [OF used_blocks_member(1)] in_tree_block(1) f(2) by (auto simp: room_ok_def)
  show "x \<notin> node_link ` A"
  proof
    assume "x \<in> node_link ` A"
    then obtain b where b: "b \<in> A" "x = node_link b" by blast
    then show False using out [OF used_blocks_member(2)] in_own_block(2) [of s b f] f(2) by (simp add: room_ok_def)
  qed
  show "x \<notin> own_links s V a" if "a \<in> A" using link_owner [OF _ f(2) that] out owners_used [OF that, of s V] by blast
qed

text \<open>The links: the new node goes to the head of the LRU queue, the list values keep theirs.\<close>

lemma insert_links_ok:
  assumes inv: "dict_inv s xs L V" and m: "mem_plus z s (set xs) V p n" and n: "node_header \<le> n"
    and m0: "same_links (- {p ..< p + n}) (links s) m0"
  defines "m1 \<equiv> mps_queue_insert_head (lru_queue s) (node_link p) m0"
  shows "dll m1 (lru_queue s) (node_link p # map node_link L)"
    "a \<in> set xs \<Longrightarrow> is_list s a \<Longrightarrow> dll m1 (list_head s a) (V a)"
    "p + node_header \<le> h \<Longrightarrow> h < p + n \<Longrightarrow> dll m0 h [] \<Longrightarrow> dll m1 h []"
proof -
  have P: "lru_queue s \<notin> {p ..< p + n}" and N: "\<And>a. a \<in> set xs \<Longrightarrow> node_link a \<notin> {p ..< p + n}"
    and O: "\<And>a. a \<in> set xs \<Longrightarrow> own_links s V a \<inter> {p ..< p + n} = {}"
    using mem_plus_links [OF m] by auto
  have L: "dll (links s) (lru_queue s) (map node_link L)" "set L = set xs" using inv by (auto simp: dict_inv_def)
  have np: "node_link p \<in> {p ..< p + n}" using n by (auto simp: node_link_def offsets)
  have "set (lru_queue s # map node_link L) \<subseteq> - {p ..< p + n}" using P N L(2) by auto
  then have d0: "dll m0 (lru_queue s) (map node_link L)" using lq.same_rep [OF m0] L(1) by blast
  have nin: "node_link p \<notin> set (lru_queue s # map node_link L)" using np P N L(2) by auto
  show "dll m1 (lru_queue s) (node_link p # map node_link L)"
    unfolding m1_def by (rule lq.rep_ins_head [OF d0 nin])
  { assume a: "a \<in> set xs" "is_list s a"
    have ol: "own_links s V a = set (list_head s a # V a)" using a(2) by (simp add: own_links_def)
    have "dll m0 (list_head s a) (V a)"
      using lq.same_rep [OF m0, of "list_head s a" "V a"] O [OF a(1)] inv a by (auto simp: ol dict_inv_def list_ok_def)
    moreover have "set (node_link p # lru_queue s # map node_link L) \<inter> set (list_head s a # V a) = {}"
      using list_links_disjoint [OF inv a] O [OF a(1)] np by (auto simp: ol)
    ultimately show "dll m1 (list_head s a) (V a)" unfolding m1_def using lq.other_ins_head [OF d0] by simp }
  { assume h: "p + node_header \<le> h" "h < p + n" "dll m0 h []"
    then have "h \<in> {p ..< p + n}" "h \<noteq> node_link p" by (auto simp: node_link_def offsets)
    then have "set (node_link p # lru_queue s # map node_link L) \<inter> set [h] = {}" using P N L(2) by auto
    then show "dll m1 h []" unfolding m1_def using lq.other_ins_head [OF d0, of "node_link p" h "[]"] h(3) by simp }
qed

text \<open>The new node in the tree, in the LRU queue and in memory.\<close>

lemma node_added:
  assumes inv: "dict_inv s xs L V" and m: "mem_plus z s (set xs) V p n" and w: "writes_node p n s' s"
    and rep: "index_rep (node_key s') (tree s') ys" and ys: "set ys = insert p (set xs)"
    and keys: "\<And>b. b \<in> set xs \<Longrightarrow> rb_key (tree s') b = rb_key (tree s) b"
      "rb_key (tree s') p = ucast (ngx_murmur_hash2 (node_key s' p))"
    and sent: "rb_sentinel (tree s') = rb_sentinel (tree s)"
    and lru: "dll (links s') (lru_queue s) (node_link p # map node_link L)"
    and others: "\<And>b. b \<in> set xs \<Longrightarrow> is_list s b \<Longrightarrow> dll (links s') (list_head s b) (V b)"
    and room: "node_room s' p \<le> n"
    and new: "is_list s' p \<Longrightarrow> V p = [] \<and> value_len s' (sd_of_node p) = 0 \<and> dll (links s') (list_head s' p) []"
  shows "pool_inv z s' ys (p # L) V"
    "dict_abs s' V (p # L) = (node_key s' p, entry_at s' V p) # dict_abs s V L"
proof -
  from m obtain f where f: "slab_holds z (slab s) ((\<lambda>p. (p, f p)) ` insert p (used_blocks s V (set xs)))"
    "room_ok s V (set xs) f" "n \<le> f p" "p \<notin> used_blocks s V (set xs)" "apart s V (set xs)"
    "rb_sentinel (tree s) = sentinel_off (pool_data (slab s))" by (auto simp: mem_plus_def)
  note wf = writes_node_funs [OF w m]
  have sl: "slab s' = slab s" using w by (simp add: writes_node_def)
  have lq: "lru_queue s' = lru_queue s" by (simp add: lru_queue_def sl)
  have op: "own_items s' V p = {}" using new by (auto simp: own_items_def)
  have L: "set L = set xs" "distinct L" using inv by (auto simp: dict_inv_def)
  have pxs: "p \<notin> set xs" using f(4) by (auto simp: used_blocks_def)
  have used: "used_blocks s' V (insert p (set xs)) = insert p (used_blocks s V (set xs))"
    using wf(6) by (auto simp: used_blocks_def op sl)
  have ap': "apart s' V (insert p (set xs))"
    using f(4,5) wf(6) pxs by (auto simp: apart_def op sl used_blocks_def)
  have room': "room_ok s' V (insert p (set xs)) f"
    using f(2,3) room wf(5,6,8) by (auto simp: room_ok_def op sl intro: le_trans)
  have mem: "mem_inv z s' (insert p (set xs)) V"
    unfolding mem_inv_def used sl sent using f(1,6) ap' room' by blast
  have sep: "separate s' V (insert p (set xs))"
    by (rule mem_separate [OF ap' _ subset_refl room', of z]) (simp only: used sl f(1))
  have "list_ok s' V b" if "b \<in> insert p (set xs)" for b
  proof (cases "b = p")
    case True
    then show ?thesis using new by (auto simp: list_ok_def)
  next
    case False
    then have b: "b \<in> set xs" using that by simp
    have v: "value_len s' (sd_of_node b) = value_len s (sd_of_node b)" using w False by (simp add: writes_node_def)
    have "item_span s' l = item_span s l" if "is_list s b" "l \<in> set (V b)" for l
      using wf(9) [OF b, of l] that by (simp add: own_items_def)
    then show ?thesis
      using inv b others [OF b] by (auto simp: list_ok_def dict_inv_def wf(2,3,7) [OF b] v)
  qed
  then have "dict_inv s' ys (p # L) V"
    unfolding dict_inv_def ys
    using inv rep keys lru sep L pxs wf(1) by (auto simp: dict_inv_def lq)
  then show "pool_inv z s' ys (p # L) V" using mem by (simp add: pool_inv_def ys)
  have "dict_abs s' V L = dict_abs s V L" using wf(1,4) L(1) by (simp add: dict_abs_def)
  then show "dict_abs s' V (p # L) = (node_key s' p, entry_at s' V p) # dict_abs s V L" by (simp add: dict_abs_def)
qed

subsection \<open>The tree\<close>

lemma represents_set_key: "represents (set_key a k t) T = represents t T"
  by (simp add: represents_def tree_at_def)

lemma index_rep_set_key:
  assumes "a \<notin> set xs"
  shows "index_rep kd (set_key a k t) xs = index_rep kd t xs"
proof -
  have "sorted_wrt (\<lambda>b c. nkey kd (set_key a k t) b < nkey kd (set_key a k t) c) xs
      = sorted_wrt (\<lambda>b c. nkey kd t b < nkey kd t c) xs"
    by (rule ascending_cong) (use assms in \<open>auto simp: nkey_def\<close>)
  then show ?thesis by (simp add: index_rep_def represents_set_key)
qed

lemma tree_insert_ok:
  assumes inv: "dict_inv s xs L V" and p: "p \<notin> set xs" "p \<noteq> rb_sentinel (tree s)" and t: "t = set_key p k (tree s)"
    and kd: "\<And>b. b \<in> set xs \<Longrightarrow> kd b = node_key s b" and new: "\<And>b. b \<in> set xs \<Longrightarrow> nkey kd t b \<noteq> nkey kd t p"
  shows "\<exists>t' ys. mps_rbtree_insert kd t p = Some t' \<and> index_rep kd t' ys \<and> set ys = insert p (set xs)
    \<and> rb_key t' = rb_key t \<and> rb_sentinel t' = rb_sentinel (tree s)"
proof -
  have "index_rep (node_key s) (tree s) xs" using inv by (simp add: dict_inv_def)
  then have "index_rep kd (tree s) xs" using index.rep_kd [of xs kd "node_key s" "tree s"] kd by simp
  then have r: "index_rep kd t xs" unfolding t index_rep_set_key [OF p(1)] .
  have fr: "fresh_in t p" using p(2) by (simp add: fresh_in_def t)
  from index.insert_rep [OF r fr p(1)] new obtain t' where t': "mps_rbtree_insert kd t p = Some t'" "nkey kd t' = nkey kd t"
    "fresh_in t' = fresh_in t"
    "index_rep kd t' (filter (\<lambda>b. nkey kd t b < nkey kd t p) xs @ p # filter (\<lambda>b. nkey kd t p < nkey kd t b) xs)" by blast
  have "rb_key t' b = rb_key t b" for b using fun_cong [OF t'(2), of b] by (simp add: nkey_def)
  moreover have "rb_sentinel t' = rb_sentinel (tree s)" using t'(3) by (auto simp: fresh_in_def fun_eq_iff t)
  moreover have "set (filter (\<lambda>b. nkey kd t b < nkey kd t p) xs @ p # filter (\<lambda>b. nkey kd t p < nkey kd t b) xs)
      = insert p (set xs)"
  proof -
    have "nkey kd t b < nkey kd t p \<or> nkey kd t p < nkey kd t b" if "b \<in> set xs" for b using new [OF that] by (rule linorder_neqE) blast+
    then show ?thesis by auto
  qed
  ultimately show ?thesis using t'(1,4) by (metis ext)
qed

text \<open>
  A key can be completed after the insertion if no other node has its hash, since the hash alone has
  then decided its place.
\<close>

lemma sorted_wrt_distinct_mono:
  "sorted_wrt P ys \<Longrightarrow> distinct ys \<Longrightarrow> (\<And>a b. a \<in> set ys \<Longrightarrow> b \<in> set ys \<Longrightarrow> a \<noteq> b \<Longrightarrow> P a b \<Longrightarrow> Q a b)
     \<Longrightarrow> sorted_wrt Q ys"
  by (induction ys) auto

lemma index_rep_late_key:
  assumes r: "index_rep kd t ys" and p: "p \<in> set ys" and other: "\<And>b. b \<in> set ys \<Longrightarrow> b \<noteq> p \<Longrightarrow> rb_key t b \<noteq> rb_key t p"
    and kd: "\<And>b. b \<in> set ys \<Longrightarrow> b \<noteq> p \<Longrightarrow> kd' b = kd b"
  shows "index_rep kd' t ys"
proof -
  have "sorted_wrt (\<lambda>a b. nkey kd t a < nkey kd t b) ys" "distinct ys"
    using index.rep_sorted [OF r] index.rep_distinct [OF r] .
  then have "sorted_wrt (\<lambda>a b. nkey kd' t a < nkey kd' t b) ys"
  proof (rule sorted_wrt_distinct_mono)
    fix a b assume "a \<in> set ys" "b \<in> set ys" "a \<noteq> b" "nkey kd t a < nkey kd t b"
    then show "nkey kd' t a < nkey kd' t b"
      using other [of a] other [of b] kd [of a] kd [of b] by (cases "a = p"; cases "b = p") (auto simp: nkey_def less_prod_def)
  qed
  then show ?thesis using r by (simp add: index_rep_def)
qed

subsection \<open>Inserting a node\<close>

lemma mem_plus_node:
  assumes "mem_plus z s A V p n"
  shows "p \<notin> A" "p \<noteq> rb_sentinel (tree s)" "p \<noteq> mps_nulloff"
proof -
  from assms obtain f where f: "slab_holds z (slab s) ((\<lambda>p. (p, f p)) ` insert p (used_blocks s V A))" "room_ok s V A f"
    "p \<notin> used_blocks s V A" "0 < p" "rb_sentinel (tree s) = sentinel_off (pool_data (slab s))" by (auto simp: mem_plus_def)
  show "p \<notin> A" "p \<noteq> mps_nulloff" using f(3,4) by (auto simp: used_blocks_def mps_nulloff_def)
  show "p \<noteq> rb_sentinel (tree s)"
  proof
    assume e: "p = rb_sentinel (tree s)"
    have "0 < f p" using slab.positive [OF f(1), of p "f p"] by simp
    then have "in_block f p p" by (simp add: in_block_def)
    moreover have "in_block f (pool_data (slab s)) p" using f(2,5) e in_tree_block(2) by (simp add: room_ok_def)
    ultimately have "p = pool_data (slab s)" using block_eq [OF f(1), of p "pool_data (slab s)" p] used_blocks_member(1) by auto
    then show False using f(3) used_blocks_member(1) by simp
  qed
qed

text \<open>A node that is written to a new block and inserted in the tree and at the head of the LRU queue.\<close>

lemma insert_node_ok:
  assumes inv: "dict_inv s xs L V" and m: "mem_plus z s (set xs) V p n" and w: "writes_node p n s1 s"
    and tr: "tree s1 = set_key p (ucast (ngx_murmur_hash2 key)) (tree s)" and nk: "node_key s1 p = key"
    and ln: "same_links (- {p ..< p + n}) (links s) (links s1)" and n: "node_header \<le> n" "node_room s1 p \<le> n"
    and lst: "is_list s1 p \<Longrightarrow> V p = [] \<and> value_len s1 (sd_of_node p) = 0 \<and> dll (links s1) (list_head s1 p) []"
    and new: "map_of (dict_abs s V L) key = None"
  shows "\<exists>t' ys. mps_rbtree_insert (node_key s1) (tree s1) p = Some t' \<and> set ys = insert p (set xs)
    \<and> pool_inv z (upd_links (mps_queue_insert_head (lru_queue s1) (node_link p)) (s1\<lparr>tree := t'\<rparr>)) ys (p # L) V
    \<and> dict_abs (upd_links (mps_queue_insert_head (lru_queue s1) (node_link p)) (s1\<lparr>tree := t'\<rparr>)) V (p # L)
        = (key, entry_at s1 V p) # dict_abs s V L"
proof -
  note wf = writes_node_funs [OF w m] and pn = mem_plus_node [OF m]
  have nkey: "nkey (node_key s1) (tree s1) b \<noteq> nkey (node_key s1) (tree s1) p" if "b \<in> set xs" for b
    using new map_of_dict_abs_None [OF inv] that by (auto simp: nkey_def nk wf(1))
  from tree_insert_ok [OF inv pn(1,2) tr wf(1) nkey] obtain t' ys where t': "mps_rbtree_insert (node_key s1) (tree s1) p = Some t'"
    "index_rep (node_key s1) t' ys" "set ys = insert p (set xs)" "rb_key t' = rb_key (tree s1)"
    "rb_sentinel t' = rb_sentinel (tree s)" by blast
  have sl: "slab s1 = slab s" using w by (simp add: writes_node_def)
  have lq: "lru_queue s1 = lru_queue s" by (simp add: lru_queue_def sl)
  define s2 where "s2 = upd_links (mps_queue_insert_head (lru_queue s1) (node_link p)) (s1\<lparr>tree := t'\<rparr>)"
  have s2: "tree s2 = t'" "links s2 = mps_queue_insert_head (lru_queue s) (node_link p) (links s1)" "same_data s2 s1"
    "expires s2 = expires s1" "user_flags s2 = user_flags s1" "slab s2 = slab s1"
    by (simp_all add: s2_def lq same_data_def)
  note d = same_data_funs [OF s2(3)] s2(3) [unfolded same_data_def]
  have w2: "writes_node p n s2 s" using w d s2 by (simp add: writes_node_def)
  note il = insert_links_ok [OF inv m n(1) ln]
  have rb: "rb_key t' b = rb_key (tree s) b" if "b \<noteq> p" for b using that by (simp add: t'(4) tr)
  have e2: "entry_at s2 V p = entry_at s1 V p" using d s2(4,5) by (simp add: entry_at_def)
  have "node_room s2 = node_room s1" using d by (simp add: node_room_def fun_eq_iff)
  have "index_rep (node_key s2) (tree s2) ys" using t'(2) by (simp add: d s2)
  note na = node_added [OF inv m w2 this t'(3)]
  have "rb_key (tree s2) b = rb_key (tree s) b" if "b \<in> set xs" for b using that pn(1) rb [of b] by (auto simp: s2)
  note na = na [OF this]
  have "rb_key (tree s2) p = ucast (ngx_murmur_hash2 (node_key s2 p))" by (simp add: s2 t'(4) tr d nk)
  note na = na [OF _ this]
  have "rb_sentinel (tree s2) = rb_sentinel (tree s)" "dll (links s2) (lru_queue s) (node_link p # map node_link L)"
    using t'(5) il(1) by (simp_all add: s2)
  note na = na [OF _ this]
  have "dll (links s2) (list_head s b) (V b)" if "b \<in> set xs" "is_list s b" for b using il(2) [OF that] by (simp add: s2)
  note na = na [OF _ this]
  have "node_room s2 p \<le> n" using n(2) \<open>node_room s2 = node_room s1\<close> by simp
  note na = na [OF _ _ _ this]
  have "V p = [] \<and> value_len s2 (sd_of_node p) = 0 \<and> dll (links s2) (list_head s2 p) []" if "is_list s2 p"
  proof -
    have i: "is_list s1 p" using that by (simp add: d)
    have "p + node_header \<le> list_head s1 p" "list_head s1 p < p + n"
      using list_head_range [OF i] n(2) by (auto simp: offsets)
    then show ?thesis using lst [OF i] il(3) by (simp add: d s2)
  qed
  note na = na [OF _ _ _ this]
  have "pool_inv z s2 ys (p # L) V \<and> dict_abs s2 V (p # L) = (node_key s2 p, entry_at s2 V p) # dict_abs s V L"
    using na by blast
  then have "pool_inv z s2 ys (p # L) V \<and> dict_abs s2 V (p # L) = (key, entry_at s1 V p) # dict_abs s V L"
    by (simp only: d nk e2)
  then show ?thesis using t'(1,3) unfolding s2_def by blast
qed

subsection \<open>Store\<close>

text \<open>The label \<^verbatim>\<open>allocated\<close> of store, on a new block with room for the entry.\<close>

lemma store_fill_ok:
  assumes inv: "dict_inv s xs L V" and m: "mem_plus z s (set xs) V p n"
    and new: "map_of (dict_abs s V L) key = None" and hash: "hash = ngx_murmur_hash2 key"
    and len: "length key < 2 ^ 16" "length v < 2 ^ 32" and n: "node_header + length key + length v \<le> n"
    and t: "vtype \<in> {MPS_SHDICT_TBOOLEAN, MPS_SHDICT_TNUMBER, MPS_SHDICT_TSTRING}"
  shows "\<exists>s'. store_fill p key hash vtype v exptime flags s = Some s' \<and> \<not> held s' \<and> clock s' = clock s
    \<and> holds z s' ((key, new_entry vtype v exptime flags (time_of s)) # dict_abs s V L)"
proof -
  let ?sd = "sd_of_node p"
  define e where "e = (if exptime > 0 then time_of s + of_int exptime else 0)"
  define k where "k = (if exptime > 0 then Suc (ticks s) else ticks s)"
  define s1 where "s1 = s\<lparr>tree := set_key p (ucast hash) (tree s), key_len := (key_len s)(?sd := of_nat (length key)),
      ticks := k, expires := (expires s)(?sd := e),
      user_flags := (user_flags s)(?sd := flags), value_len := (value_len s)(?sd := of_nat (length v)),
      value_type := (value_type s)(?sd := of_int vtype),
      bytes := write_bytes (bytes s) (sd_data ?sd) (key @ v)\<rparr>"
  have x: "store_expires exptime (set_key_len ?sd (of_nat (length key)) (set_node_key p (ucast hash) s))
      = (e, s\<lparr>tree := set_key p (ucast hash) (tree s), key_len := (key_len s)(?sd := of_nat (length key)), ticks := k\<rparr>)"
    by (simp add: store_expires_eq set_key_len_def set_node_key_def e_def k_def time_of_def mps_clock_time_ms_def)
  have fill: "store_fill p key hash vtype v exptime flags s
      = do { s \<leftarrow> upd_tree (\<lambda>t. mps_rbtree_insert (node_key s1) t p) s1;
             let s = upd_links (mps_queue_insert_head (lru_queue s) (sd_queue ?sd)) s in
             Some (mps_slab_unlock s) }"
    unfolding store_fill_def Let_def x prod.case
    by (simp add: s1_def set_value_type_def set_value_len_def set_user_flags_def set_expires_def ngx_memcpy_def write_bytes_append)
  have kl: "unat (of_nat (length key) :: u16) = length key" "unat (of_nat (length v) :: u32) = length v"
    using len by (simp_all add: unat_of_nat_less)
  note st = scalar_type [OF t]
  have nl: "\<not> is_list s1 p" using st by (simp add: is_list_def s1_def)
  have b: "read_bytes (bytes s1) (sd_data ?sd) (length key) = key"
    "read_bytes (bytes s1) (sd_data ?sd + length key) (length v) = v"
    using read_write_same [of "bytes s" "sd_data ?sd" "key @ v"] by (simp_all add: s1_def read_bytes_append)
  have nk: "node_key s1 p = key" using b(1) by (simp add: node_key_def sd_key_def s1_def kl)
  have w: "writes_node p n s1 s"
    using n by (auto simp: writes_node_def s1_def write_bytes_outside offsets)
  have room: "node_room s1 p \<le> n" using n nl by (simp add: node_room_def s1_def kl)
  have e: "entry_at s1 V p = new_entry vtype v exptime flags (time_of s)"
    using nl b(2) by (simp add: entry_at_def new_entry_def sd_value_def kl s1_def e_def)
  from insert_node_ok [OF inv m w _ nk _ _ room _ new] obtain t' ys where
    t': "mps_rbtree_insert (node_key s1) (tree s1) p = Some t'"
      "pool_inv z (upd_links (mps_queue_insert_head (lru_queue s1) (node_link p)) (s1\<lparr>tree := t'\<rparr>)) ys (p # L) V"
      "dict_abs (upd_links (mps_queue_insert_head (lru_queue s1) (node_link p)) (s1\<lparr>tree := t'\<rparr>)) V (p # L)
        = (key, entry_at s1 V p) # dict_abs s V L"
    using nl n by (auto simp: s1_def hash)
  define s2 where "s2 = upd_links (mps_queue_insert_head (lru_queue s1) (node_link p)) (s1\<lparr>tree := t'\<rparr>)"
  have "store_fill p key hash vtype v exptime flags s = Some (mps_slab_unlock s2)"
    using t'(1) by (simp add: fill upd_tree_def s2_def lru_queue_def)
  moreover have "holds z s2 ((key, new_entry vtype v exptime flags (time_of s)) # dict_abs s V L)"
    using t'(2,3) unfolding e s2_def [symmetric] by (metis holdsI)
  moreover have "clock s2 = clock s" by (simp add: s2_def s1_def)
  ultimately show ?thesis by simp
qed

lemma int_size_small: "n < 2 ^ 31 \<Longrightarrow> int_size n = n"
proof -
  assume n: "n < 2 ^ 31"
  then have "sint (of_nat n :: u32) = int n"
    by (simp add: sint_uint uint_nat unat_of_nat_less signed_take_bit_int_eq_self)
  then show ?thesis using n by (simp add: int_size_def)
qed

lemma map_of_take_None: "map_of D k = None \<Longrightarrow> map_of (take j D) k = None"
  by (auto simp: map_of_eq_None_iff dest: in_set_takeD)

text \<open>
  The label \<^verbatim>\<open>insert\<close>: the entry is added, after \<open>j\<close> of the least recently used ones were evicted to make
  room; or there is no memory even without the entries that were evicted. A safe store evicts none.
\<close>

definition made_room :: "dict \<Rightarrow> nat \<Rightarrow> nat \<Rightarrow> bool" where
  "made_room D op j \<longleftrightarrow> j \<le> length D \<and> (op AND MPS_SHDICT_SAFE_STORE \<noteq> 0 \<longrightarrow> j = 0)"

definition gave_up :: "dict \<Rightarrow> nat \<Rightarrow> nat \<Rightarrow> bool" where
  "gave_up D op j \<longleftrightarrow> made_room D op j \<and> (op AND MPS_SHDICT_SAFE_STORE = 0 \<longrightarrow> j = length D \<or> 30 \<le> j)"

lemma store_insert_ok:
  assumes hold: "holds z s D" and new: "map_of D key = None" and hash: "hash = ngx_murmur_hash2 key"
    and len: "length key < 2 ^ 16" "node_header + length key + length v < 2 ^ 31"
    and t: "vtype \<in> {MPS_SHDICT_TBOOLEAN, MPS_SHDICT_TNUMBER, MPS_SHDICT_TSTRING}"
  shows "\<exists>s' j i. clock s' = clock s \<and> \<not> held s' \<and>
    ((store_insert z op key hash vtype (Some v) exptime flags s
        = Some (\<lparr>st_rc = NGX_OK, st_err = None, st_forcible = 0 < j\<rparr>, s')
      \<and> made_room D op j \<and> (j = 0 \<longrightarrow> i = 0)
      \<and> holds z s' ((key, new_entry vtype v exptime flags (time_nth s i)) # keep_first D j))
    \<or> (store_insert z op key hash vtype (Some v) exptime flags s
        = Some (\<lparr>st_rc = NGX_ERROR, st_err = Some ''no memory'', st_forcible = 0 < j\<rparr>, s')
      \<and> gave_up D op j \<and> holds z s' (keep_first D j)))"
proof -
  define n where "n = node_header + length key + length v"
  have n: "int_size (node_header + length key + length v) = n" using int_size_small len(2) by (simp add: n_def)
  have lv: "length v < 2 ^ 32" using len(2) by simp
  have fill: "\<exists>s'. store_fill p key hash vtype v exptime flags s1 = Some s' \<and> \<not> held s' \<and> clock s' = clock s
      \<and> holds z s' ((key, new_entry vtype v exptime flags (time_nth s (ticks s1 - ticks s))) # keep_first D j)"
    if "holds_plus z s1 (keep_first D j) p n" "clock s1 = clock s" "ticks s \<le> ticks s1" for p s1 j
  proof -
    from that(1) obtain xs L V where h: "dict_inv s1 xs L V" "mem_plus z s1 (set xs) V p n" "keep_first D j = dict_abs s1 V L"
      by (auto simp: holds_plus_def)
    have "map_of (dict_abs s1 V L) key = None" using new map_of_take_None [of D key "length D - j"] h(3) by (simp add: keep_first_def)
    moreover have "time_of s1 = time_nth s (ticks s1 - ticks s)"
      using that(2,3) by (simp add: time_nth_def time_of_def mps_clock_time_ms_def)
    ultimately show ?thesis using store_fill_ok [OF h(1,2) _ hash len(1) lv _ t] that(2) h(3) by (simp add: n_def)
  qed
  from holds_alloc [OF hold, of n] obtain p s1 where a: "shm_alloc_locked z n s = Some (p, s1)" "s1 = s\<lparr>slab := slab s1\<rparr>"
    "if p = mps_nulloff then holds z s1 D else holds_plus z s1 D p n" by blast
  have f1: "clock s1 = clock s" "ticks s1 = ticks s" by (subst a(2), simp)+
  note d = store_insert_def [of z op key hash vtype "Some v" exptime flags s, simplified, unfolded Let_def n]
  show ?thesis
  proof (cases "p = mps_nulloff")
    case False
    then have "holds_plus z s1 (keep_first D 0) p n" using a(3) by simp
    from fill [OF this] f1 obtain s' where s': "store_fill p key hash vtype v exptime flags s1 = Some s'" "\<not> held s'"
      "clock s' = clock s" "holds z s' ((key, new_entry vtype v exptime flags (time_nth s 0)) # keep_first D 0)" by auto
    then have "store_insert z op key hash vtype (Some v) exptime flags s
        = Some (\<lparr>st_rc = NGX_OK, st_err = None, st_forcible = 0 < (0 :: nat)\<rparr>, s')"
      using a(1) False by (simp add: d)
    moreover have "made_room D op 0" by (simp add: made_room_def)
    ultimately show ?thesis using s'(2-4) by blast
  next
    case True
    then have h1: "holds z s1 D" using a(3) by simp
    show ?thesis
    proof (cases "op AND MPS_SHDICT_SAFE_STORE \<noteq> 0")
      case safe: True
      then have "store_insert z op key hash vtype (Some v) exptime flags s
          = Some (\<lparr>st_rc = NGX_ERROR, st_err = Some ''no memory'', st_forcible = 0 < (0 :: nat)\<rparr>, mps_slab_unlock s1)"
        using a(1) True by (simp add: d)
      moreover have "gave_up D op 0" using safe by (simp add: gave_up_def made_room_def)
      moreover have "holds z (mps_slab_unlock s1) (keep_first D 0)" using h1 by simp
      ultimately show ?thesis
        using f1(1) by (intro exI [of _ "mps_slab_unlock s1"] exI [of _ "0 :: nat"] conjI disjI2) simp_all
    next
      case False
      from alloc_evicting_ok [OF h1, of 30 n False] obtain q fc s2 j where
        e: "alloc_evicting 30 z n False s1 = Some (q, fc, s2)" "j \<le> length D" "fc = (0 < j)"
          "clock s2 = clock s1" "ticks s1 \<le> ticks s2"
          "if q = mps_nulloff then holds z s2 (keep_first D j) \<and> (j = length D \<or> 30 \<le> j)
           else 0 < j \<and> holds_plus z s2 (keep_first D j) q n" by auto
      have mr: "made_room D op j" using e(2) False by (simp add: made_room_def)
      show ?thesis
      proof (cases "q = mps_nulloff")
        case q: True
        then have "store_insert z op key hash vtype (Some v) exptime flags s
            = Some (\<lparr>st_rc = NGX_ERROR, st_err = Some ''no memory'', st_forcible = 0 < j\<rparr>, mps_slab_unlock s2)"
          using a(1) True False e(1,3) by (simp add: d)
        moreover have "gave_up D op j" "holds z (mps_slab_unlock s2) (keep_first D j)"
          using mr e(6) q by (simp_all add: gave_up_def)
        ultimately show ?thesis
          using f1(1) e(4) by (intro exI [of _ "mps_slab_unlock s2"] exI [of _ j] exI [of _ "0 :: nat"] conjI disjI2) simp_all
      next
        case q: False
        with e(6) have hp: "holds_plus z s2 (keep_first D j) q n" "0 < j" by simp_all
        from fill [OF hp(1)] f1 e(4,5) obtain s' where s': "store_fill q key hash vtype v exptime flags s2 = Some s'"
          "\<not> held s'" "clock s' = clock s"
          "holds z s' ((key, new_entry vtype v exptime flags (time_nth s (ticks s2 - ticks s))) # keep_first D j)" by auto
        have "store_insert z op key hash vtype (Some v) exptime flags s
            = Some (\<lparr>st_rc = NGX_OK, st_err = None, st_forcible = 0 < j\<rparr>, s')"
          using a(1) True False e(1,3) q s'(1) by (simp add: d)
        moreover have "j = 0 \<longrightarrow> ticks s2 - ticks s = 0" using hp(2) by simp
        ultimately show ?thesis using s'(2-4) mr by blast
      qed
    qed
  qed
qed

lemma time_nth_later:
  "clock s' = clock s \<Longrightarrow> ticks s \<le> ticks s' \<Longrightarrow> time_nth s' i = time_nth s (ticks s' - ticks s + i)"
  by (simp add: time_nth_def)

text \<open>What a call that stores an entry has done, from the dictionary without the key.\<close>

definition stored :: "slab_sizes \<Rightarrow> nat \<Rightarrow> byte list \<Rightarrow> int \<Rightarrow> byte list \<Rightarrow> int \<Rightarrow> u32 \<Rightarrow> shm \<Rightarrow> dict \<Rightarrow> store_result \<Rightarrow> shm \<Rightarrow> bool" where
  "stored z op key vtype v exptime flags s D r s' \<longleftrightarrow> \<not> held s' \<and> clock s' = clock s \<and> (\<exists>j i.
     r = \<lparr>st_rc = NGX_OK, st_err = None, st_forcible = 0 < j\<rparr> \<and> made_room D op j
       \<and> holds z s' ((key, new_entry vtype v exptime flags (time_nth s i)) # keep_first D j)
     \<or> r = \<lparr>st_rc = NGX_ERROR, st_err = Some ''no memory'', st_forcible = 0 < j\<rparr> \<and> gave_up D op j
       \<and> holds z s' (keep_first D j))"

lemma stored_later:
  "stored z op key vtype v exptime flags s1 D r s' \<Longrightarrow> clock s1 = clock s \<Longrightarrow> ticks s \<le> ticks s1
     \<Longrightarrow> stored z op key vtype v exptime flags s D r s'"
  unfolding stored_def using time_nth_later [of s1 s] by (elim conjE exE disjE) auto

lemma store_insert_stored:
  assumes "holds z s D" "map_of D key = None" "hash = ngx_murmur_hash2 key"
    and "length key < 2 ^ 16" "node_header + length key + length v < 2 ^ 31"
    and "vtype \<in> {MPS_SHDICT_TBOOLEAN, MPS_SHDICT_TNUMBER, MPS_SHDICT_TSTRING}"
  shows "\<exists>r s'. store_insert z op key hash vtype (Some v) exptime flags s = Some (r, s')
    \<and> stored z op key vtype v exptime flags s D r s'"
  using store_insert_ok [OF assms, of op exptime flags] unfolding stored_def by (elim exE conjE disjE) blast+

lemma prefix_more:
  assumes hold: "holds z s D" and unheld: "\<not> held s"
  shows "\<exists>s1 xs L V fr. pool_inv z s1 xs L V \<and> swept s D = dict_abs s1 V L \<and> clock s1 = clock s \<and> ticks s \<le> ticks s1
    \<and> time_of s1 = time_nth s 1
    \<and> mps_slab_lock s = Some (s\<lparr>held := True\<rparr>)
    \<and> mps_shdict_expire z 1 (s\<lparr>held := True\<rparr>) = Some (fr, s1)"
proof -
  from lock_expire_ok [OF hold unheld] obtain s1 where
    s1: "do { s \<leftarrow> mps_slab_lock s; mps_shdict_expire z 1 s } = Some (int (drop_count 2 (time_of s) False D), s1)"
      "holds z s1 (swept s D)" "clock s1 = clock s" "ticks s1 = Suc (ticks s)" by (auto simp: swept_def)
  then obtain xs L V where i: "pool_inv z s1 xs L V" "swept s D = dict_abs s1 V L" by (auto simp: holds_def)
  have "mps_shdict_expire z 1 (s\<lparr>held := True\<rparr>) = Some (int (drop_count 2 (time_of s) False D), s1)"
    using s1(1) by (simp add: lock_unheld [OF unheld])
  moreover have "time_of s1 = time_nth s 1"
    using s1(3,4) by (simp add: time_nth_def time_of_def mps_clock_time_ms_def)
  ultimately show ?thesis using i s1(3,4) lock_unheld [OF unheld] by (metis le_SucI order_refl)
qed

lemma store_dispatch_cases:
  "store_dispatch op vtype NGX_DECLINED = Insert \<or> (\<exists>msg. store_dispatch op vtype NGX_DECLINED = Refuse msg)"
  "rc = NGX_OK \<or> rc = NGX_DONE \<Longrightarrow> vtype \<noteq> MPS_SHDICT_TNIL \<Longrightarrow>
     store_dispatch op vtype rc = Replace \<or> (\<exists>msg. store_dispatch op vtype rc = Refuse msg)"
  by (auto simp: store_dispatch_def)

lemma store_reuse_clock [simp]: "clock (store_reuse sd key vtype v exptime flags s) = clock s"
  by (simp add: store_reuse_def Let_def store_expires_eq ngx_memcpy_def set_value_type_def set_user_flags_def lru_touch_def)

lemma store_stores:
  assumes hold: "holds z s D" and unheld: "\<not> held s"
    and val: "store_value op vtype str num = Inr (Some v)"
    and found: "found = map_of (swept s D) key"
    and rc: "rc = (case found of None \<Rightarrow> NGX_DECLINED | Some e \<Rightarrow> if expired (time_nth s 1) e then NGX_DONE else NGX_OK)"
    and disp: "\<And>msg. store_dispatch op vtype rc \<noteq> Refuse msg"
    and len: "length key < 2 ^ 16" "node_header + length key + length v < 2 ^ 31"
  shows "\<exists>r s'. mps_shdict_store z op key vtype str num exptime flags s = Some (r, s')
    \<and> stored z op key vtype v exptime flags s (dict_del key (swept s D)) r s'"
proof -
  let ?D = "dict_del key (swept s D)" and ?h = "ucast (ngx_murmur_hash2 key)"
  note vt = store_value_type [OF val]
  then have nn: "vtype \<noteq> MPS_SHDICT_TNIL" by (auto simp: tags)
  obtain s1 xs L V fr where p: "pool_inv z s1 xs L V" "swept s D = dict_abs s1 V L" "clock s1 = clock s" "ticks s \<le> ticks s1"
    "time_of s1 = time_nth s 1" "mps_slab_lock s = Some (s\<lparr>held := True\<rparr>)"
    "mps_shdict_expire z 1 (s\<lparr>held := True\<rparr>) = Some (fr, s1)"
    using prefix_more [OF hold unheld] by blast
  have nodel: "map_of ?D key = None" by (simp add: map_of_dict_del)
  have ins: "\<exists>r s'. store_insert z op key (ngx_murmur_hash2 key) vtype (Some v) exptime flags s2 = Some (r, s')
      \<and> stored z op key vtype v exptime flags s ?D r s'" if "holds z s2 ?D" "clock s2 = clock s" "ticks s \<le> ticks s2" for s2
    using store_insert_stored [OF that(1) nodel refl len vt, of op exptime flags] stored_later [OF _ that(2,3)] by blast
  show ?thesis
  proof (cases found)
    case None
    then have "mps_shdict_lookup ?h key s1 = Some (NGX_DECLINED, None, s1)" using lookup_ok [OF p(1), of key] found p(2) by simp
    moreover have "store_dispatch op vtype NGX_DECLINED = Insert"
      using disp None rc store_dispatch_cases(1) [of op vtype] by auto
    moreover have "holds z s1 ?D" using p(1,2) None found by (metis dict_del_absent holdsI)
    ultimately show ?thesis using ins [of s1] p(3,4) val p(6,7) unfolding mps_shdict_store_def Let_def by simp
  next
    case (Some e)
    then have rc': "rc = (if expired (time_of s1) e then NGX_DONE else NGX_OK)" and m: "map_of (dict_abs s1 V L) key = Some e"
      using rc found p(2,5) by simp_all
    from lookup_ok [OF p(1), of key] obtain a s2 where
      lk: "mps_shdict_lookup ?h key s1 = Some (rc, Some (sd_of_node a), s2)" "looked_up z s1 key xs L V a s2" "e = entry_at s1 V a"
      unfolding m rc' by auto
    note t = looked_up_touch [OF lk(2)]
    have c2: "clock s2 = clock s" "ticks s \<le> ticks s2" using lk(2) p(3,4) by (auto simp: looked_up_def)
    have dr: "store_dispatch op vtype rc = Replace"
      using disp rc' store_dispatch_cases(2) [OF _ nn, of rc op] by auto
    show ?thesis
    proof (cases "length v = unat (value_len s2 (sd_of_node a)) \<and> uint (value_type s2 (sd_of_node a)) \<noteq> MPS_SHDICT_TLIST")
      case True
      then have nl: "\<not> is_list s2 a" by (simp add: is_list_def)
      from store_reuse_ok [OF t(1) nl _ vt t(2) [symmetric], of v exptime flags] True
      have r: "holds z (store_reuse (sd_of_node a) key vtype v exptime flags s2)
            ((key, new_entry vtype v exptime flags (time_of s2)) # keep_first ?D 0)"
          "\<not> held (store_reuse (sd_of_node a) key vtype v exptime flags s2)"
        using t(3) p(2) by (simp_all add: dict_set_def dict_del_touch)
      have tm: "time_of s2 = time_nth s (ticks s2 - ticks s)" using time_nth_later [OF c2, of 0] by simp
      have ck: "clock (store_reuse (sd_of_node a) key vtype v exptime flags s2) = clock s" by (simp add: c2)
      have "made_room ?D op 0" by (simp add: made_room_def)
      then have "stored z op key vtype v exptime flags s ?D \<lparr>st_rc = NGX_OK, st_err = None, st_forcible = 0 < (0 :: nat)\<rparr>
          (store_reuse (sd_of_node a) key vtype v exptime flags s2)"
        using r tm ck unfolding stored_def by metis
      then show ?thesis
        using True dr lk(1) val p(6,7) unfolding mps_shdict_store_def Let_def by simp
    next
      case False
      from remove_entry_ok [OF t(1) t(7), of "length key"] t(2) obtain s3 where
        s3: "remove_entry z (sd_of_node a) (length key) s2 = Some s3"
          "pool_inv z s3 (remove1 a xs) (remove1 a (a # remove1 a L)) V"
          "dict_abs s3 V (remove1 a (a # remove1 a L)) = ?D" "clock s3 = clock s2" "ticks s3 = ticks s2"
        using t(3) p(2) dict_del_touch by auto
      then have "holds z s3 ?D" by (metis holdsI)
      with ins [of s3] s3 c2 False dr lk(1) val p(6,7) show ?thesis unfolding mps_shdict_store_def Let_def by auto
    qed
  qed
qed

end
