(* ===== verification/ShdictList.thy ===== *)
theory ShdictList
  imports Shdict
begin

text \<open>
  The operations of src/src/mps_shdict.c on list values: lpush, rpush, lpop, rpop and llen. A list is
  a dictionary node of type \<^verbatim>\<open>MPS_SHDICT_TLIST\<close> whose data are the key and, aligned, the head of a queue
  of list nodes; its \<^verbatim>\<open>value_len\<close> is the number of those.
\<close>

definition MPS_SHDICT_LEFT :: nat where "MPS_SHDICT_LEFT = 0x0001"
definition MPS_SHDICT_RIGHT :: nat where "MPS_SHDICT_RIGHT = 0x0002"

declare MPS_SHDICT_LEFT_def [ops] MPS_SHDICT_RIGHT_def [ops]

subsection \<open>Push\<close>

record push_result =
  ps_rc :: int
  ps_err :: "string option"

text \<open>The conversion of the 32-bit length to the \<^verbatim>\<open>int\<close> result.\<close>

definition int_of_u32 :: "u32 \<Rightarrow> int" where
  "int_of_u32 w = sint w"

definition push_value :: "int \<Rightarrow> byte list \<Rightarrow> u64 \<Rightarrow> byte list option" where
  "push_value vtype str num =
     (if vtype = MPS_SHDICT_TSTRING then Some str
      else if vtype = MPS_SHDICT_TNUMBER then Some (double_bytes num)
      else None)"

text \<open>The label \<^verbatim>\<open>push_node\<close>.\<close>

definition push_node ::
    "slab_sizes \<Rightarrow> nat \<Rightarrow> off \<Rightarrow> off \<Rightarrow> int \<Rightarrow> byte list \<Rightarrow> shm \<Rightarrow> (push_result \<times> shm) option" where
  "push_node z direction sd queue vtype value s =
     (let n = int_size (lnode_header + length value)
      in do {
        (lnode, s) \<leftarrow> shm_alloc_locked z n s;
        if lnode = mps_nulloff then do {
          s \<leftarrow> (if value_len s sd = 0 then remove_node z sd s else Some s);
          Some (\<lparr>ps_rc = NGX_ERROR, ps_err = Some ''no memory''\<rparr>, mps_slab_unlock s) }
        else
          let s = set_value_len sd (value_len s sd + 1) s;
              s = set_lnode_value_len lnode (of_nat (length value)) s;
              s = set_lnode_value_type lnode (of_int vtype) s;
              s = ngx_memcpy (lnode_data lnode) value s;
              s = upd_links (if direction = MPS_SHDICT_LEFT
                             then mps_queue_insert_head queue (lnode_queue lnode)
                             else mps_queue_insert_tail queue (lnode_queue lnode)) s;
              s = mps_slab_unlock s
          in Some (\<lparr>ps_rc = int_of_u32 (value_len s sd), ps_err = None\<rparr>, s) })"

text \<open>The label \<^verbatim>\<open>init_list\<close>.\<close>

definition push_init_list ::
    "slab_sizes \<Rightarrow> nat \<Rightarrow> byte list \<Rightarrow> u32 \<Rightarrow> int \<Rightarrow> byte list \<Rightarrow> shm \<Rightarrow> (push_result \<times> shm) option" where
  "push_init_list z direction key hash vtype value s =
     (let n = int_size (ngx_align_ptr (int_size (node_header + length key + queue_size)) NGX_ALIGNMENT)
      in do {
        (node, s) \<leftarrow> shm_alloc_locked z n s;
        if node = mps_nulloff then
          Some (\<lparr>ps_rc = NGX_ERROR, ps_err = Some ''no memory''\<rparr>, mps_slab_unlock s)
        else
          let sd = sd_of_node node;
              queue = mps_shdict_get_list_head sd (length key);
              s = set_node_key node (ucast hash) s;
              s = set_key_len sd (of_nat (length key)) s;
              s = set_expires sd 0 s;
              s = set_value_len sd 0 s;
              s = set_value_type sd (of_int MPS_SHDICT_TLIST) s;
              s = ngx_memcpy (sd_data sd) key s;
              s = upd_links (mps_queue_init queue) s
          in do {
            s \<leftarrow> upd_tree (\<lambda>t. mps_rbtree_insert (node_key s) t node) s;
            let s = upd_links (mps_queue_insert_head (lru_queue s) (sd_queue sd)) s in
            push_node z direction sd queue vtype value s } })"

definition mps_shdict_push_helper ::
    "slab_sizes \<Rightarrow> nat \<Rightarrow> byte list \<Rightarrow> int \<Rightarrow> byte list \<Rightarrow> u64 \<Rightarrow> shm \<Rightarrow> (push_result \<times> shm) option" where
  "mps_shdict_push_helper z direction key vtype str num s =
     (let hash = ngx_murmur_hash2 key
      in case push_value vtype str num of
        None \<Rightarrow> Some (\<lparr>ps_rc = NGX_ERROR, ps_err = Some ''unsupported value type''\<rparr>, s)
      | Some value \<Rightarrow> do {
          s \<leftarrow> mps_slab_lock s;
          (freed, s) \<leftarrow> mps_shdict_expire z 1 s;
          (rc, sdp, s) \<leftarrow> mps_shdict_lookup (ucast hash) key s;
          if rc = NGX_DONE then do {
            sd \<leftarrow> sdp;
            if uint (value_type s sd) \<noteq> MPS_SHDICT_TLIST then do {
              s \<leftarrow> remove_node z sd s;
              push_init_list z direction key hash vtype value s }
            else
              let s = set_expires sd 0 s;
                  s = set_value_len sd 0 s;
                  queue = mps_shdict_get_list_head sd (length key)
              in do {
                s \<leftarrow> free_list_nodes z queue (mps_queue_head queue (links s)) s;
                let s = upd_links (mps_queue_init queue) s;
                    s = lru_touch sd s in
                push_node z direction sd queue vtype value s } }
          else if rc = NGX_OK then do {
            sd \<leftarrow> sdp;
            if uint (value_type s sd) \<noteq> MPS_SHDICT_TLIST then
              Some (\<lparr>ps_rc = NGX_ERROR, ps_err = Some ''value not a list''\<rparr>, mps_slab_unlock s)
            else
              let queue = mps_shdict_get_list_head sd (length key);
                  s = lru_touch sd s
              in push_node z direction sd queue vtype value s }
          else push_init_list z direction key hash vtype value s })"

definition mps_shdict_lpush where
  "mps_shdict_lpush z = mps_shdict_push_helper z MPS_SHDICT_LEFT"

definition mps_shdict_rpush where
  "mps_shdict_rpush z = mps_shdict_push_helper z MPS_SHDICT_RIGHT"

subsection \<open>Pop\<close>

record pop_result =
  pp_rc :: int
  pp_type :: "int option"
  pp_str :: "byte list option"
  pp_str_len :: "nat option"
  pp_malloced :: bool
  pp_num :: "u64 option"
  pp_err :: "string option"

definition pop_fail :: "int \<Rightarrow> int option \<Rightarrow> bool \<Rightarrow> string option \<Rightarrow> pop_result" where
  "pop_fail rc t m err =
     \<lparr>pp_rc = rc, pp_type = t, pp_str = None, pp_str_len = None, pp_malloced = m, pp_num = None,
      pp_err = err\<rparr>"

text \<open>The value of a list node, as the switch on its type hands it out, or the error.\<close>

definition pop_value :: "off \<Rightarrow> nat \<Rightarrow> bool \<Rightarrow> shm \<Rightarrow> pop_result" where
  "pop_value lnode buf_len malloc_ok s =
     (let t = uint (lnode_value_type s lnode);
          len = unat (lnode_value_len s lnode);
          value = read_bytes (bytes s) (lnode_data lnode) len;
          short = buf_len < len
      in if t = MPS_SHDICT_TSTRING then
           if short \<and> \<not> malloc_ok then pop_fail NGX_ERROR (Some t) True (Some ''no memory'')
           else (pop_fail NGX_OK (Some t) short None)\<lparr>pp_str := Some value, pp_str_len := Some len\<rparr>
         else if t = MPS_SHDICT_TNUMBER then
           if len \<noteq> 8 then pop_fail NGX_ERROR (Some t) False (Some ''bad list number value size'')
           else (pop_fail NGX_OK (Some t) False None)
                  \<lparr>pp_str_len := Some len, pp_num := Some (bytes_double value)\<rparr>
         else pop_fail NGX_ERROR (Some t) False (Some ''bad list node value type''))"

definition mps_shdict_pop_helper ::
    "slab_sizes \<Rightarrow> nat \<Rightarrow> byte list \<Rightarrow> nat \<Rightarrow> bool \<Rightarrow> shm \<Rightarrow> (pop_result \<times> shm) option" where
  "mps_shdict_pop_helper z direction key buf_len malloc_ok s =
     (let hash = ngx_murmur_hash2 key
      in do {
        s \<leftarrow> mps_slab_lock s;
        (freed, s) \<leftarrow> mps_shdict_expire z 1 s;
        (rc, sdp, s) \<leftarrow> mps_shdict_lookup (ucast hash) key s;
        if rc = NGX_DECLINED \<or> rc = NGX_DONE then
          Some (pop_fail NGX_OK (Some MPS_SHDICT_TNIL) False None, mps_slab_unlock s)
        else do {
          sd \<leftarrow> sdp;
          if uint (value_type s sd) \<noteq> MPS_SHDICT_TLIST then
            Some (pop_fail NGX_ERROR None False (Some ''value not a list''), mps_slab_unlock s)
          else if value_len s sd = 0 then
            Some (pop_fail NGX_ERROR None False (Some ''bad empty value''), mps_slab_unlock s)
          else
            let queue = mps_shdict_get_list_head sd (length key);
                q = (if direction = MPS_SHDICT_LEFT then mps_queue_head queue (links s)
                     else mps_queue_last queue (links s));
                lnode = lnode_of_queue q;
                r = pop_value lnode buf_len malloc_ok s
            in if pp_rc r \<noteq> NGX_OK then Some (r, mps_slab_unlock s)
               else
                 let s = upd_links (mps_queue_remove q) s;
                     s = shm_free_locked z lnode s
                 in do {
                   s \<leftarrow> (if value_len s sd = 1 then remove_node z sd s
                        else Some (lru_touch sd (set_value_len sd (value_len s sd - 1) s)));
                   Some (r, mps_slab_unlock s) } } })"

definition mps_shdict_lpop where
  "mps_shdict_lpop z = mps_shdict_pop_helper z MPS_SHDICT_LEFT"

definition mps_shdict_rpop where
  "mps_shdict_rpop z = mps_shdict_pop_helper z MPS_SHDICT_RIGHT"

subsection \<open>Length\<close>

definition mps_shdict_llen :: "slab_sizes \<Rightarrow> byte list \<Rightarrow> shm \<Rightarrow> (push_result \<times> shm) option" where
  "mps_shdict_llen z key s =
     (let hash = ngx_murmur_hash2 key
      in do {
        s \<leftarrow> mps_slab_lock s;
        (freed, s) \<leftarrow> mps_shdict_expire z 1 s;
        (rc, sdp, s) \<leftarrow> mps_shdict_lookup (ucast hash) key s;
        if rc = NGX_OK then do {
          sd \<leftarrow> sdp;
          if uint (value_type s sd) \<noteq> MPS_SHDICT_TLIST then
            Some (\<lparr>ps_rc = NGX_ERROR, ps_err = Some ''value not a list''\<rparr>, mps_slab_unlock s)
          else
            let s = lru_touch sd s;
                s = mps_slab_unlock s
            in Some (\<lparr>ps_rc = int_of_u32 (value_len s sd), ps_err = None\<rparr>, s) }
        else Some (\<lparr>ps_rc = 0, ps_err = None\<rparr>, mps_slab_unlock s) })"

end
