(* ===== verification/ShdictItems.thy ===== *)
theory ShdictItems
  imports ShdictInsert ShdictList
begin

text \<open>
  Lists: what the three ways to change a list value (a new item, an item less, none left) do to the
  pool. An item of a list is a block of its own; the list's node keeps their number in \<^verbatim>\<open>value_len\<close>.
\<close>

subsection \<open>The invariant from its parts\<close>

lemma mem_items_disjoint:
  assumes m: "mem_inv z s A V" and a: "a \<in> A" "is_list s a" and l: "l \<in> set (V a)"
  shows "item_span s l \<inter> node_span s a = {}" "k \<in> set (V a) \<Longrightarrow> l \<noteq> k \<Longrightarrow> item_span s l \<inter> item_span s k = {}"
proof -
  from m obtain f where f: "apart s V A" "slab_holds z (slab s) ((\<lambda>p. (p, f p)) ` used_blocks s V A)" "room_ok s V A f"
    by (auto simp: mem_inv_def)
  have own: "own_items s V a = set (V a)" using a(2) by (simp add: own_items_def)
  have U: "a \<in> used_blocks s V A" "k \<in> set (V a) \<Longrightarrow> k \<in> used_blocks s V A" for k
    using a used_blocks_member own by auto
  have r: "node_room s a \<le> f a" "k \<in> set (V a) \<Longrightarrow> item_room s k \<le> f k" for k
    using f(3) a own by (auto simp: room_ok_def)
  have na: "a \<notin> set (V a)" using f(1) a own by (auto simp: apart_def)
  show "item_span s l \<inter> node_span s a = {}"
  proof (rule ccontr)
    assume "item_span s l \<inter> node_span s a \<noteq> {}"
    then obtain x where "x \<in> item_span s l" "x \<in> node_span s a" by blast
    then have "l = a" using block_eq [OF f(2) U(2) [OF l] U(1)] in_item_block(2) [of s l f] in_own_block(3) [of s a f] r l by auto
    then show False using na l by simp
  qed
  assume k: "k \<in> set (V a)" "l \<noteq> k"
  show "item_span s l \<inter> item_span s k = {}"
  proof (rule ccontr)
    assume "item_span s l \<inter> item_span s k \<noteq> {}"
    then obtain x where "x \<in> item_span s l" "x \<in> item_span s k" by blast
    then have "l = k" using block_eq [OF f(2) U(2) [OF l] U(2) [OF k(1)]] in_item_block(2) [of s l f] in_item_block(2) [of s k f] r l k(1)
      by auto
    then show False using k(2) by simp
  qed
qed

lemma pool_invI:
  assumes rep: "index_rep (node_key s) (tree s) xs"
    and hash: "\<And>a. a \<in> set xs \<Longrightarrow> rb_key (tree s) a = ucast (ngx_murmur_hash2 (node_key s a))"
    and L: "distinct L" "set L = set xs" "dll (links s) (lru_queue s) (map node_link L)"
    and items: "\<And>a. a \<in> set xs \<Longrightarrow> is_list s a \<Longrightarrow>
        dll (links s) (list_head s a) (V a) \<and> length (V a) = unat (value_len s (sd_of_node a))"
    and m: "mem_inv z s (set xs) V"
  shows "pool_inv z s xs L V"
proof -
  from m obtain f where f: "apart s V (set xs)" "slab_holds z (slab s) ((\<lambda>p. (p, f p)) ` used_blocks s V (set xs))"
    "room_ok s V (set xs) f" by (auto simp: mem_inv_def)
  have "separate s V (set xs)" by (rule mem_separate [OF f(1,2) subset_refl f(3)])
  moreover have "list_ok s V a" if "a \<in> set xs" for a
    using items [OF that] mem_items_disjoint [OF m that] by (auto simp: list_ok_def)
  ultimately show ?thesis using assms by (simp add: pool_inv_def dict_inv_def)
qed

lemma entry_at_same_data:
  assumes "same_data s' s" "expires s' = expires s" "user_flags s' = user_flags s"
  shows "entry_at s' = entry_at s"
proof (intro ext)
  fix V a show "entry_at s' V a = entry_at s V a"
    using same_data_funs [OF assms(1)] assms by (simp add: entry_at_def same_data_def)
qed

lemma entry_at_other: "b \<noteq> a \<Longrightarrow> entry_at s (V(a := ys)) b = entry_at s V b"
  by (simp add: entry_at_def)

subsection \<open>The number of items\<close>

lemma relen:
  assumes "is_list s a" "s' = s\<lparr>value_len := (value_len s)(sd_of_node a := k)\<rparr>"
  shows "node_key s' = node_key s" "is_list s' = is_list s" "list_head s' = list_head s" "node_room s' = node_room s"
    "item_room s' = item_room s" "item_at s' = item_at s" "lru_queue s' = lru_queue s" "entry_at s' = entry_at s"
    "own_items s' = own_items s" "apart s' = apart s" "used_blocks s' = used_blocks s" "room_ok s' = room_ok s"
proof -
  show k: "node_key s' = node_key s" by (simp add: fun_eq_iff node_key_def sd_key_def assms(2))
  show l: "is_list s' = is_list s" by (simp add: fun_eq_iff is_list_def assms(2))
  show h: "list_head s' = list_head s" by (simp add: fun_eq_iff list_head_def assms(2))
  show r: "node_room s' = node_room s" 
  proof
    fix b show "node_room s' b = node_room s b"
      using assms(1) by (cases "b = a") (simp_all add: node_room_def l h, simp add: assms(2))
  qed
  show i: "item_room s' = item_room s" by (simp add: fun_eq_iff item_room_def assms(2))
  show t: "item_at s' = item_at s" by (simp add: fun_eq_iff item_at_def assms(2))
  show "lru_queue s' = lru_queue s" by (simp add: lru_queue_def assms(2))
  show "entry_at s' = entry_at s"
  proof (intro ext)
    fix W b show "entry_at s' W b = entry_at s W b"
      using assms(1) by (cases "b = a") (simp_all add: entry_at_def l t, simp_all add: assms(2) sd_value_def)
  qed
  show o: "own_items s' = own_items s" by (simp add: fun_eq_iff own_items_def l)
  show a: "apart s' = apart s" by (simp add: fun_eq_iff apart_def o) (simp add: assms(2))
  show u: "used_blocks s' = used_blocks s" by (simp add: fun_eq_iff used_blocks_def o) (simp add: assms(2))
  show "room_ok s' = room_ok s" by (simp add: fun_eq_iff room_ok_def o r i) (simp add: assms(2))
qed

subsection \<open>A new item\<close>

text \<open>Where an item goes.\<close>

definition insert_at :: "nat \<Rightarrow> 'a \<Rightarrow> 'a list \<Rightarrow> 'a list" where
  "insert_at direction x xs = (if direction = MPS_SHDICT_LEFT then x # xs else xs @ [x])"

lemma insert_at_simps [simp]:
  "set (insert_at d x xs) = insert x (set xs)" "length (insert_at d x xs) = Suc (length xs)"
  "map f (insert_at d x xs) = insert_at d (f x) (map f xs)" "insert_at d x xs \<noteq> []"
  by (auto simp: insert_at_def)

lemma mem_plus_insert_item:
  assumes inv: "dict_inv s xs L V" and m: "mem_plus z s (set xs) V l n" and a: "a \<in> set xs" "is_list s a"
    and ys: "set ys = insert l (set (V a))"
    and f: "slab s' = slab s" "rb_sentinel (tree s') = rb_sentinel (tree s)"
      "\<And>b. b \<in> set xs \<Longrightarrow> is_list s' b = is_list s b" "\<And>b. b \<in> set xs \<Longrightarrow> node_room s' b = node_room s b"
      "\<And>k. k \<in> used_blocks s V (set xs) \<Longrightarrow> item_room s' k = item_room s k" "item_room s' l \<le> n"
  shows "mem_inv z s' (set xs) (V(a := ys))"
proof -
  let ?V = "V(a := ys)" and ?A = "set xs"
  from m obtain f where m: "slab_holds z (slab s) ((\<lambda>p. (p, f p)) ` insert l (used_blocks s V ?A))" "room_ok s V ?A f" "n \<le> f l"
    "l \<notin> used_blocks s V ?A" "apart s V ?A" "rb_sentinel (tree s) = sentinel_off (pool_data (slab s))" by (auto simp: mem_plus_def)
  have own: "own_items s' ?V b = (if b = a then insert l (own_items s V a) else own_items s V b)" if "b \<in> ?A" for b
    using a(2) ys that f(3) by (auto simp: own_items_def)
  have used: "used_blocks s' ?V ?A = insert l (used_blocks s V ?A)"
    using own a(1) by (auto simp: used_blocks_def f(1) split: if_splits)
  have la: "l \<notin> ?A" "l \<noteq> pool_data (slab s)" "\<And>b. b \<in> ?A \<Longrightarrow> l \<notin> own_items s V b"
    using m(4) by (auto simp: used_blocks_def)
  have "apart s' ?V ?A"
    unfolding apart_def
  proof (intro conjI ballI impI)
    show "pool_data (slab s') \<notin> ?A" using m(5) by (simp add: apart_def f(1))
    fix b assume b: "b \<in> ?A"
    show "pool_data (slab s') \<notin> own_items s' ?V b" "own_items s' ?V b \<inter> ?A = {}"
      using m(5) b la by (auto simp: apart_def f(1) own [OF b])
    fix c assume c: "c \<in> ?A" "b \<noteq> c"
    have "own_items s V b \<inter> own_items s V c = {}" using m(5) b c by (simp add: apart_def)
    then show "own_items s' ?V b \<inter> own_items s' ?V c = {}" using la(3) b c own [OF b] own [OF c(1)] by auto
  qed
  moreover have "room_ok s' ?V ?A f"
    unfolding room_ok_def
  proof (intro conjI ballI)
    show "tree_size \<le> f (pool_data (slab s'))" using m(2) by (simp add: room_ok_def f(1))
    fix b assume b: "b \<in> ?A"
    show "node_room s' b \<le> f b" using m(2) b f(4) by (simp add: room_ok_def)
    fix k assume k: "k \<in> own_items s' ?V b"
    show "item_room s' k \<le> f k"
    proof (cases "k = l")
      case True
      then show ?thesis using f(6) m(3) by simp
    next
      case False
      then have k': "k \<in> own_items s V b" using k own [OF b] by (auto split: if_splits)
      then show ?thesis using f(5) [OF used_blocks_member(3) [OF b k']] m(2) b by (auto simp: room_ok_def)
    qed
  qed
  ultimately show ?thesis unfolding mem_inv_def used f(1,2) using m(1,6) by blast
qed

text \<open>The links: the item is in the list, the LRU queue and the other lists are as before.\<close>

definition mps_queue_insert :: "nat \<Rightarrow> off \<Rightarrow> off \<Rightarrow> queue_mem \<Rightarrow> queue_mem" where
  "mps_queue_insert direction h x =
     (if direction = MPS_SHDICT_LEFT then mps_queue_insert_head h x else mps_queue_insert_tail h x)"

lemma item_links_ok:
  fixes d
  assumes inv: "dict_inv s xs L V" and m: "mem_plus z s (set xs) V l n" and n: "0 < n" and a: "a \<in> set xs" "is_list s a"
  defines "m1 \<equiv> mps_queue_insert d (list_head s a) l (links s)"
  shows "dll m1 (list_head s a) (insert_at d l (V a))" "dll m1 (lru_queue s) (map node_link L)"
    "b \<in> set xs \<Longrightarrow> is_list s b \<Longrightarrow> b \<noteq> a \<Longrightarrow> dll m1 (list_head s b) (V b)"
proof -
  let ?g = "list_head s a"
  note x = mem_plus_links [OF m order_refl, simplified, OF n]
  have dl: "dll (links s) ?g (V a)" using inv a by (auto simp: dict_inv_def list_ok_def)
  have ol: "own_links s V b = set (list_head s b # V b)" if "is_list s b" for b using that by (simp add: own_links_def)
  have L: "dll (links s) (lru_queue s) (map node_link L)" "set L = set xs" using inv by (auto simp: dict_inv_def)
  have l: "l \<notin> set (?g # V a)" using x(3) [OF a(1)] ol [OF a(2)] by simp
  show "dll m1 ?g (insert_at d l (V a))"
    using lq.rep_ins_head [OF dl l] lq.rep_ins_tail [OF dl l] by (simp add: m1_def insert_at_def mps_queue_insert_def)
  have frame: "dll m1 g ys = dll (links s) g ys" if "set (l # ?g # V a) \<inter> set (g # ys) = {}" for g ys
    unfolding m1_def mps_queue_insert_def using lq.other_ins_head [OF dl that] lq.other_ins_tail [OF dl that] by simp
  have "set (l # ?g # V a) \<inter> set (lru_queue s # map node_link L) = {}"
    using list_links_disjoint [OF inv a] x(1,2) L(2) by auto
  then show "dll m1 (lru_queue s) (map node_link L)" using frame L(1) by simp
  assume b: "b \<in> set xs" "is_list s b" "b \<noteq> a"
  have "own_links s V a \<inter> own_links s V b = {}" using inv a(1) b by (auto simp: dict_inv_def separate_def)
  then have "set (l # ?g # V a) \<inter> set (list_head s b # V b) = {}" using x(3) [OF b(1)] ol [OF a(2)] ol [OF b(2)] by auto
  then show "dll m1 (list_head s b) (V b)" using frame inv b by (auto simp: dict_inv_def list_ok_def)
qed

text \<open>The label \<^verbatim>\<open>push_node\<close> once there is a block.\<close>

definition dict_push :: "nat \<Rightarrow> byte list \<Rightarrow> byte \<times> byte list \<Rightarrow> dict \<Rightarrow> dict" where
  "dict_push d k x D = map (\<lambda>(k', e). (k', if k' = k then e\<lparr>e_items := insert_at d x (e_items e)\<rparr> else e)) D"

definition item_of :: "int \<Rightarrow> byte list \<Rightarrow> byte \<times> byte list" where
  "item_of vtype value = (of_int vtype, value)"

lemma push_item_ok:
  assumes inv: "dict_inv s xs L V" and m: "mem_plus z s (set xs) V l n" and a: "a \<in> set xs" "is_list s a"
    and v: "length v < 2 ^ 32" "lnode_header + length v \<le> n" and cnt: "length (V a) < 2 ^ 32 - 1"
    and s': "s' = s\<lparr>value_len := (value_len s)(sd_of_node a := value_len s (sd_of_node a) + 1),
        lnode_value_len := (lnode_value_len s)(l := of_nat (length v)),
        lnode_value_type := (lnode_value_type s)(l := of_int vtype),
        bytes := write_bytes (bytes s) (lnode_data l) v,
        links := mps_queue_insert d (list_head s a) l (links s), held := False\<rparr>"
  shows "pool_inv z s' xs L (V(a := insert_at d l (V a)))"
    "dict_abs s' (V(a := insert_at d l (V a))) L = dict_push d (node_key s a) (item_of vtype v) (dict_abs s V L)"
    "unat (value_len s' (sd_of_node a)) = Suc (length (V a))"
proof -
  let ?V = "V(a := insert_at d l (V a))"
  define s2 where "s2 = s\<lparr>lnode_value_len := (lnode_value_len s)(l := of_nat (length v)),
        lnode_value_type := (lnode_value_type s)(l := of_int vtype), bytes := write_bytes (bytes s) (lnode_data l) v\<rparr>"
  define s3 where "s3 = s2\<lparr>value_len := (value_len s2)(sd_of_node a := value_len s (sd_of_node a) + 1)\<rparr>"
  have w: "writes_node l n s2 s" using v(2) by (auto simp: writes_node_def s2_def write_bytes_outside offsets)
  note wf = writes_node_funs [OF w m]
  have a2: "is_list s2 a" using a wf(2) by simp
  note rl = relen [OF a2 s3_def]
  have e3: "s' = s3\<lparr>links := mps_queue_insert d (list_head s a) l (links s), held := False\<rparr>" by (simp add: s' s3_def s2_def)
  have sd: "same_data s' s3" by (simp add: e3 same_data_def)
  note df = same_data_funs [OF sd] mem_funs_same_data [OF sd]
  have nr: "node_room s' = node_room s3" "item_room s' = item_room s3"
    using sd df by (simp_all add: fun_eq_iff node_room_def item_room_def same_data_def)
  have lu: "l \<notin> used_blocks s V (set xs)" using m by (simp add: mem_plus_def)
  note il = item_links_ok [OF inv m _ a, where d = d]
  have n0: "0 < n" using v(2) by (simp add: offsets)
  have vl: "unat (of_nat (length v) :: u32) = length v" using v(1) by (simp add: unat_of_nat_less)
  have len: "length (V a) = unat (value_len s (sd_of_node a))" using inv a by (auto simp: dict_inv_def list_ok_def)
  then have "unat (value_len s (sd_of_node a) + 1) = Suc (length (V a))"
    using cnt by (simp add: unat_word_ariths)
  then show cnt': "unat (value_len s' (sd_of_node a)) = Suc (length (V a))" by (simp add: s')
  have lq: "lru_queue s' = lru_queue s" by (simp add: lru_queue_def s')
  have tr: "tree s' = tree s" by (simp add: s')
  have nk: "node_key s' b = node_key s b" if "b \<in> set xs" for b using that by (simp add: df rl wf)
  show "pool_inv z s' xs L ?V"
  proof (rule pool_invI)
    have "index_rep (node_key s) (tree s) xs" using inv by (simp add: dict_inv_def)
    then show "index_rep (node_key s') (tree s') xs" using index.rep_kd [of xs "node_key s'" "node_key s" "tree s"] nk tr by simp
    show "rb_key (tree s') b = ucast (ngx_murmur_hash2 (node_key s' b))" if "b \<in> set xs" for b
      using inv that by (simp add: tr nk dict_inv_def)
    show "distinct L" "set L = set xs" using inv by (simp_all add: dict_inv_def)
    show "dll (links s') (lru_queue s') (map node_link L)" using il(2) n0 by (simp add: lq) (simp add: s')
    show "mem_inv z s' (set xs) ?V"
    proof (rule mem_plus_insert_item [OF inv m a])
      show "item_room s' l \<le> n" using v(2) by (simp add: item_room_def s' vl)
      show "item_room s' k = item_room s k" if "k \<in> used_blocks s V (set xs)" for k
        using that lu by (auto simp: item_room_def s')
      show "is_list s' b = is_list s b" "node_room s' b = node_room s b" if "b \<in> set xs" for b
        using that by (simp_all add: df rl wf nr)
    qed (simp_all add: s')
    fix b assume b: "b \<in> set xs" "is_list s' b"
    show "dll (links s') (list_head s' b) (?V b) \<and> length (?V b) = unat (value_len s' (sd_of_node b))"
    proof (cases "b = a")
      case True
      then show ?thesis using il(1) n0 cnt' b by (simp add: df rl wf) (simp add: s')
    next
      case False
      then show ?thesis using il(3) [OF n0 b(1)] b inv by (simp add: df rl wf) (simp add: s' dict_inv_def list_ok_def)
    qed
  qed
  have en: "entry_at s' W b = entry_at s2 W b" for W b
    using entry_at_same_data [OF sd] by (simp add: e3 s3_def flip: rl(8))
  show "dict_abs s' ?V L = dict_push d (node_key s a) (item_of vtype v) (dict_abs s V L)"
  proof -
    have L: "set L = set xs" using inv by (simp add: dict_inv_def)
    have ent: "entry_at s' ?V b = (if b = a then (entry_at s V b)\<lparr>e_items := insert_at d (item_of vtype v) (e_items (entry_at s V b))\<rparr>
        else entry_at s V b)" if b: "b \<in> set xs" for b
    proof (cases "b = a")
      case False
      then show ?thesis using wf(4) [OF b] by (simp add: en entry_at_other)
    next
      case True
      have il: "is_list s2 a" "is_list s a" using a wf(2) by simp_all
      have "item_at s2 l = item_of vtype v"
        using read_write_same [of "bytes s" "lnode_data l" v] by (simp add: item_at_def item_of_def s2_def vl)
      moreover have "map (item_at s2) (V a) = map (item_at s) (V a)"
        using wf(4) [OF a(1)] il by (simp add: entry_at_def)
      ultimately show ?thesis
        using True wf(4) [OF a(1)] il unfolding en by (simp add: entry_at_def cong: map_cong)
    qed
    have key: "node_key s b = node_key s a \<longleftrightarrow> b = a" if "b \<in> set xs" for b
      using dict_inv_key_inj [OF inv that a(1)] by auto
    show ?thesis unfolding dict_abs_def dict_push_def using L ent nk key by (auto simp: o_def)
  qed
qed

text \<open>What a push has done to the dictionary \<open>D\<close> in which the key has a list of \<open>n\<close> items.\<close>

definition no_memory :: push_result where
  "no_memory = \<lparr>ps_rc = NGX_ERROR, ps_err = Some ''no memory''\<rparr>"

definition pushed :: "slab_sizes \<Rightarrow> nat \<Rightarrow> byte list \<Rightarrow> byte \<times> byte list \<Rightarrow> shm \<Rightarrow> nat \<Rightarrow> dict \<Rightarrow> push_result \<Rightarrow> shm \<Rightarrow> bool" where
  "pushed z d key x s n D r s' \<longleftrightarrow> \<not> held s' \<and> clock s' = clock s \<and>
     (r = \<lparr>ps_rc = int n + 1, ps_err = None\<rparr> \<and> holds z s' (dict_push d key x D)
    \<or> r = no_memory \<and> holds z s' (if n = 0 then dict_del key D else D))"

lemma sint_of_unat: "unat (w :: u32) < 2 ^ 31 \<Longrightarrow> sint w = int (unat w)"
proof -
  have "sint (of_nat n :: u32) = int n" if "n < 2 ^ 31" for n
    using that by (simp add: sint_uint uint_nat unat_of_nat_less signed_take_bit_int_eq_self)
  from this [of "unat w"] show "unat w < 2 ^ 31 \<Longrightarrow> sint w = int (unat w)" by simp
qed

lemma push_node_ok:
  assumes pinv: "pool_inv z s xs L V" and a: "a \<in> set xs" "is_list s a" and key: "node_key s a = key"
    and v: "lnode_header + length v < 2 ^ 31" and cnt: "length (V a) < 2 ^ 31 - 1"
  shows "\<exists>r s'. push_node z d (sd_of_node a) (list_head s a) vtype v s = Some (r, s')
    \<and> pushed z d key (item_of vtype v) s (length (V a)) (dict_abs s V L) r s'"
proof -
  let ?n = "lnode_header + length v"
  have n: "int_size ?n = ?n" using v by (rule int_size_small)
  have len: "length (V a) = unat (value_len s (sd_of_node a))" using pool_invD(1) [OF pinv] a by (auto simp: dict_inv_def list_ok_def)
  from shm_alloc_ok [OF pinv, of ?n] show ?thesis
  proof (elim disjE exE conjE)
    fix s1 assume al: "shm_alloc_locked z ?n s = Some (mps_nulloff, s1)" "pool_inv z s1 xs L V" "same_dict s1 s"
      "s1 = s\<lparr>slab := slab s1\<rparr>"
    have e: "dict_abs s1 = dict_abs s" "node_key s1 = key_of" if "node_key s = key_of" for key_of
      using same_dict_funs [OF al(3)] same_data_funs [of s1 s] al(3) that by (simp_all add: same_dict_def)
    have vl: "value_len s1 (sd_of_node a) = value_len s (sd_of_node a)" using al(3) by (simp add: same_dict_def same_data_def)
    have c: "clock s1 = clock s" by (subst al(4), simp)
    show ?thesis
    proof (cases "V a = []")
      case False
      then have "value_len s (sd_of_node a) \<noteq> 0" using len by (auto simp: unat_eq_0)
      then have "push_node z d (sd_of_node a) (list_head s a) vtype v s = Some (no_memory, mps_slab_unlock s1)"
        using al(1) by (simp add: push_node_def n vl no_memory_def)
      moreover have "holds z s1 (dict_abs s V L)" using al(2) e(1) by (metis holdsI)
      ultimately show ?thesis using c False by (simp add: pushed_def)
    next
      case True
      then have v0: "value_len s (sd_of_node a) = 0" using len by (simp add: unat_eq_0)
      from pool_invD(2) [OF al(2)] obtain f where f: "apart s1 V (set xs)" "room_ok s1 V (set xs) f"
        "rb_sentinel (tree s1) = sentinel_off (pool_data (slab s1))"
        "slab_holds z (slab s1) ((\<lambda>p. (p, f p)) ` used_blocks s1 V (set xs))" by (auto simp: mem_inv_def)
      have "own_items s1 V a = {}" using True by (simp add: own_items_def)
      with f(4) have "slab_holds z (slab s1) ((\<lambda>p. (p, f p)) ` (used_blocks s1 V (set xs) - own_items s1 V a))" by simp
      from remove_node_pool [OF pool_invD(1) [OF al(2)] a(1) f(1,3) this f(2)] obtain s2 where
        s2: "remove_node z (sd_of_node a) s1 = Some s2" "pool_inv z s2 (remove1 a xs) (remove1 a L) V"
          "dict_abs s2 V (remove1 a L) = dict_del (node_key s1 a) (dict_abs s1 V L)" "clock s2 = clock s1" by blast
      have "holds z s2 (dict_del key (dict_abs s V L))" using s2(2,3) e key by (metis holdsI)
      moreover have "push_node z d (sd_of_node a) (list_head s a) vtype v s = Some (no_memory, mps_slab_unlock s2)"
        using al(1) s2(1) v0 by (simp add: push_node_def n vl no_memory_def)
      ultimately show ?thesis using c s2(4) True by (simp add: pushed_def)
    qed
  next
    fix l s1 assume al: "shm_alloc_locked z ?n s = Some (l, s1)" "l \<noteq> mps_nulloff" "dict_inv s1 xs L V"
      "mem_plus z s1 (set xs) V l ?n" "same_dict s1 s" "s1 = s\<lparr>slab := slab s1\<rparr>"
    have sd: "same_data s1 s" using al(5) by (simp add: same_dict_def)
    note e = same_data_funs [OF sd] same_dict_funs [OF al(5)]
    define s' where "s' = s1\<lparr>value_len := (value_len s1)(sd_of_node a := value_len s1 (sd_of_node a) + 1),
        lnode_value_len := (lnode_value_len s1)(l := of_nat (length v)),
        lnode_value_type := (lnode_value_type s1)(l := of_int vtype),
        bytes := write_bytes (bytes s1) (lnode_data l) v,
        links := mps_queue_insert d (list_head s1 a) l (links s1), held := False\<rparr>"
    have run: "push_node z d (sd_of_node a) (list_head s a) vtype v s
        = Some (\<lparr>ps_rc = int_of_u32 (value_len s' (sd_of_node a)), ps_err = None\<rparr>, s')"
      using al(1,2) by (simp add: push_node_def n s'_def e mps_queue_insert_def set_value_len_def set_lnode_value_len_def
          set_lnode_value_type_def ngx_memcpy_def upd_links_def mps_slab_unlock_def lnode_queue_def Let_def)
    have "is_list s1 a" "length v < 2 ^ 32" "length (V a) < 2 ^ 32 - 1" using a(2) e v cnt by simp_all
    note p = push_item_ok [OF al(3,4) a(1) this(1,2) order_refl this(3) s'_def]
    have "int_of_u32 (value_len s' (sd_of_node a)) = int (length (V a)) + 1"
      using p(3) cnt by (simp add: int_of_u32_def sint_of_unat)
    moreover have "holds z s' (dict_push d key (item_of vtype v) (dict_abs s V L))"
      using p(1,2) e key by (metis holdsI)
    moreover have "clock s' = clock s" "\<not> held s'" by (simp add: s'_def, subst al(6), simp) (simp add: s'_def)
    ultimately show ?thesis using run by (simp add: pushed_def)
  qed
qed

subsection \<open>A new list\<close>

lemma align_add_dvd: "8 dvd p \<Longrightarrow> ngx_align_ptr (p + x) 8 = p + ngx_align_ptr x 8"
  unfolding ngx_align_ptr_def by presburger

lemma other_list:
  assumes "p \<notin> set xs" "set L = set xs"
  shows "dict_inv s xs L (V(p := ys)) = dict_inv s xs L V" "dict_abs s (V(p := ys)) L = dict_abs s V L"
    "mem_plus z s (set xs) (V(p := ys)) q n = mem_plus z s (set xs) V q n"
proof -
  let ?V = "V(p := ys)"
  have o: "own_items s ?V a = own_items s V a" "own_links s ?V a = own_links s V a" "own_span s ?V a = own_span s V a"
    "list_ok s ?V a = list_ok s V a" "entry_at s ?V a = entry_at s V a" if "a \<in> set xs" for a
  proof -
    have "a \<noteq> p" using that assms(1) by blast
    then show "own_items s ?V a = own_items s V a" "own_links s ?V a = own_links s V a" "own_span s ?V a = own_span s V a"
      "list_ok s ?V a = list_ok s V a" "entry_at s ?V a = entry_at s V a"
      by (simp_all add: own_items_def own_links_def own_span_def list_ok_def entry_at_def)
  qed
  show "dict_inv s xs L ?V = dict_inv s xs L V" by (simp add: dict_inv_def separate_def o cong: ball_cong)
  show "dict_abs s ?V L = dict_abs s V L" using o(5) assms(2) by (simp add: dict_abs_def)
  have "used_blocks s ?V (set xs) = used_blocks s V (set xs)" by (simp add: used_blocks_def o cong: SUP_cong)
  then show "mem_plus z s (set xs) ?V q n = mem_plus z s (set xs) V q n"
    by (simp add: mem_plus_def apart_def room_ok_def o cong: ball_cong)
qed

definition list_entry :: "(byte \<times> byte list) list \<Rightarrow> u32 \<Rightarrow> entry" where
  "list_entry items flags =
     \<lparr>e_type = of_int MPS_SHDICT_TLIST, e_bytes = [], e_items = items, e_expires = 0, e_flags = flags\<rparr>"

text \<open>The number of bytes of a node with the head of a list.\<close>

definition list_node_size :: "nat \<Rightarrow> nat" where
  "list_node_size len = int_size (ngx_align_ptr (int_size (node_header + len + queue_size)) NGX_ALIGNMENT)"

lemma list_node_size:
  assumes "len < 2 ^ 16"
  shows "list_node_size len = ngx_align_ptr (node_header + len + queue_size) 8"
    "node_header \<le> list_node_size len"
    "8 dvd p \<Longrightarrow> mps_shdict_get_list_head (sd_of_node p) len + queue_size = p + list_node_size len"
proof -
  let ?k = "node_header + len + queue_size"
  have k: "?k < 2 ^ 31 - 8" using assms by (simp add: offsets)
  then have "ngx_align_ptr ?k 8 < 2 ^ 31" using ngx_align_ptr_less [of 8 ?k] by simp
  then show s: "list_node_size len = ngx_align_ptr ?k 8" using k by (simp add: list_node_size_def int_size_small NGX_ALIGNMENT_def)
  show "node_header \<le> list_node_size len" using ngx_align_ptr_ge [of 8 ?k] by (simp add: s)
  assume p: "8 dvd p"
  have "mps_shdict_get_list_head (sd_of_node p) len = ngx_align_ptr (p + (node_header + len)) 8"
    by (simp add: mps_shdict_get_list_head_def offsets add_ac)
  moreover have "ngx_align_ptr ?k 8 = queue_size + ngx_align_ptr (node_header + len) 8"
    using align_add_dvd [of queue_size "node_header + len"] by (simp add: queue_size_def add_ac)
  ultimately show "mps_shdict_get_list_head (sd_of_node p) len + queue_size = p + list_node_size len"
    using align_add_dvd [OF p] by (simp add: s)
qed

text \<open>The label \<^verbatim>\<open>init_list\<close> once there is a block: the node of an empty list.\<close>

lemma init_list_ok:
  assumes inv: "dict_inv s xs L V" and m: "mem_plus z s (set xs) V p (list_node_size (length key))"
    and new: "map_of (dict_abs s V L) key = None" and len: "length key < 2 ^ 16"
    and s1: "s1 = s\<lparr>tree := set_key p (ucast (ngx_murmur_hash2 key)) (tree s),
        key_len := (key_len s)(sd_of_node p := of_nat (length key)), expires := (expires s)(sd_of_node p := 0),
        value_len := (value_len s)(sd_of_node p := 0),
        value_type := (value_type s)(sd_of_node p := of_int MPS_SHDICT_TLIST),
        bytes := write_bytes (bytes s) (sd_data (sd_of_node p)) key,
        links := mps_queue_init (mps_shdict_get_list_head (sd_of_node p) (length key)) (links s)\<rparr>"
  shows "\<exists>t' ys s2. mps_rbtree_insert (node_key s1) (tree s1) p = Some t'
    \<and> s2 = upd_links (mps_queue_insert_head (lru_queue s1) (node_link p)) (s1\<lparr>tree := t'\<rparr>)
    \<and> p \<in> set ys \<and> is_list s2 p \<and> node_key s2 p = key
    \<and> list_head s2 p = mps_shdict_get_list_head (sd_of_node p) (length key)
    \<and> pool_inv z s2 ys (p # L) (V(p := []))
    \<and> dict_abs s2 (V(p := [])) (p # L) = (key, list_entry [] (user_flags s (sd_of_node p))) # dict_abs s V L"
proof -
  let ?n = "list_node_size (length key)" and ?sd = "sd_of_node p" and ?V = "V(p := [])"
  let ?q = "mps_shdict_get_list_head ?sd (length key)"
  note pn = mem_plus_node [OF m]
  have L: "set L = set xs" using inv by (simp add: dict_inv_def)
  note ol = other_list [OF pn(1) L, where V = V and ys = "[]"]
  have p8: "8 dvd p" using m by (simp add: mem_plus_def)
  note sz = list_node_size(2) [OF len] list_node_size(3) [OF len p8]
  have kl: "unat (of_nat (length key) :: u16) = length key" using len by (simp add: unat_of_nat_less)
  have il: "is_list s1 p" by (simp add: is_list_def s1 tags)
  have nk: "node_key s1 p = key"
    using read_write_same [of "bytes s" "sd_data ?sd" key] by (simp add: node_key_def sd_key_def s1 kl)
  have lh: "list_head s1 p = ?q" by (simp add: list_head_def s1 kl)
  have bound: "p + node_header + length key \<le> ?q" using list_head_range(1) [OF il] unfolding lh by (simp add: s1 kl)
  have w: "writes_node p ?n s1 s" using bound sz(2) by (auto simp: writes_node_def s1 write_bytes_outside offsets)
  have room: "node_room s1 p \<le> ?n" using il sz(2) by (simp add: node_room_def lh)
  have ln: "same_links (- {p ..< p + ?n}) (links s) (links s1)"
    using same_links_mono [OF same_links_init [of ?q "links s"], of "- {p ..< p + ?n}"] bound sz(2)
    by (auto simp: s1 queue_size_def)
  have v0: "?V p = [] \<and> value_len s1 ?sd = 0 \<and> dll (links s1) (list_head s1 p) []"
    using dll_init [of ?q "links s"] by (simp add: lh) (simp add: s1)
  have tr: "tree s1 = set_key p (ucast (ngx_murmur_hash2 key)) (tree s)" by (simp add: s1)
  have new': "map_of (dict_abs s ?V L) key = None" using new ol(2) by simp
  from insert_node_ok [OF _ _ w tr nk ln sz(1) room _ new'] inv m ol(1,3) v0 obtain t' ys where
    t': "mps_rbtree_insert (node_key s1) (tree s1) p = Some t'" "set ys = insert p (set xs)"
      "pool_inv z (upd_links (mps_queue_insert_head (lru_queue s1) (node_link p)) (s1\<lparr>tree := t'\<rparr>)) ys (p # L) ?V"
      "dict_abs (upd_links (mps_queue_insert_head (lru_queue s1) (node_link p)) (s1\<lparr>tree := t'\<rparr>)) ?V (p # L)
        = (key, entry_at s1 ?V p) # dict_abs s ?V L" by blast
  define s2 where "s2 = upd_links (mps_queue_insert_head (lru_queue s1) (node_link p)) (s1\<lparr>tree := t'\<rparr>)"
  have "same_data s2 s1" by (simp add: s2_def same_data_def)
  note d = same_data_funs [OF this]
  have "entry_at s1 ?V p = list_entry [] (user_flags s ?sd)"
    using il by (simp add: entry_at_def list_entry_def) (simp add: s1)
  then have "dict_abs s2 ?V (p # L) = (key, list_entry [] (user_flags s ?sd)) # dict_abs s V L"
    using t'(4) ol(2) by (simp add: s2_def)
  moreover have "is_list s2 p" "node_key s2 p = key" "list_head s2 p = ?q" "p \<in> set ys" using il nk lh t'(2) by (simp_all add: d)
  ultimately show ?thesis using t'(1) t'(3) [folded s2_def] s2_def by blast
qed

text \<open>What a push to a key without a list has done, from the dictionary without the key.\<close>

definition listed :: "slab_sizes \<Rightarrow> byte list \<Rightarrow> byte \<times> byte list \<Rightarrow> shm \<Rightarrow> dict \<Rightarrow> push_result \<Rightarrow> shm \<Rightarrow> bool" where
  "listed z key x s D r s' \<longleftrightarrow> \<not> held s' \<and> clock s' = clock s \<and>
     ((\<exists>flags. r = \<lparr>ps_rc = 1, ps_err = None\<rparr> \<and> holds z s' ((key, list_entry [x] flags) # D))
      \<or> r = no_memory \<and> holds z s' D)"

lemma dict_push_absent: "map_of D key = None \<Longrightarrow> dict_push d key x D = D"
  by (induction D) (auto simp: dict_push_def split: if_splits)

lemma dict_push_hd:
  "map_of D key = None \<Longrightarrow> dict_push d key x ((key, list_entry [] flags) # D) = (key, list_entry [x] flags) # D"
  using dict_push_absent [of D key d x] by (simp add: dict_push_def list_entry_def insert_at_def)

lemma push_init_list_ok:
  assumes hold: "holds z s D" and new: "map_of D key = None" and len: "length key < 2 ^ 16"
    and v: "lnode_header + length v < 2 ^ 31"
  shows "\<exists>r s'. push_init_list z d key (ngx_murmur_hash2 key) vtype v s = Some (r, s')
    \<and> listed z key (item_of vtype v) s D r s'"
proof -
  let ?n = "list_node_size (length key)"
  note df = push_init_list_def [of z d key "ngx_murmur_hash2 key" vtype v s, folded list_node_size_def, unfolded Let_def]
  from holds_alloc [OF hold, of ?n] obtain p s0 where a: "shm_alloc_locked z ?n s = Some (p, s0)" "s0 = s\<lparr>slab := slab s0\<rparr>"
    "if p = mps_nulloff then holds z s0 D else holds_plus z s0 D p ?n" by blast
  have c0: "clock s0 = clock s" by (subst a(2), simp)
  show ?thesis
  proof (cases "p = mps_nulloff")
    case True
    then have "push_init_list z d key (ngx_murmur_hash2 key) vtype v s = Some (no_memory, mps_slab_unlock s0)"
      using a(1) by (simp add: df no_memory_def)
    then show ?thesis using a(3) True c0 by (simp add: listed_def)
  next
    case False
    with a(3) obtain xs L V where h: "dict_inv s0 xs L V" "mem_plus z s0 (set xs) V p ?n" "D = dict_abs s0 V L"
      by (auto simp: holds_plus_def)
    let ?sd = "sd_of_node p" and ?q = "mps_shdict_get_list_head (sd_of_node p) (length key)"
    define s1 where "s1 = s0\<lparr>tree := set_key p (ucast (ngx_murmur_hash2 key)) (tree s0),
        key_len := (key_len s0)(?sd := of_nat (length key)), expires := (expires s0)(?sd := 0),
        value_len := (value_len s0)(?sd := 0), value_type := (value_type s0)(?sd := of_int MPS_SHDICT_TLIST),
        bytes := write_bytes (bytes s0) (sd_data ?sd) key, links := mps_queue_init ?q (links s0)\<rparr>"
    have new0: "map_of (dict_abs s0 V L) key = None" using new h(3) by simp
    from init_list_ok [OF h(1,2) new0 len s1_def] obtain t' ys s2 where
      t': "mps_rbtree_insert (node_key s1) (tree s1) p = Some t'"
        "s2 = upd_links (mps_queue_insert_head (lru_queue s1) (node_link p)) (s1\<lparr>tree := t'\<rparr>)"
        "p \<in> set ys" "is_list s2 p" "node_key s2 p = key" "list_head s2 p = ?q" "pool_inv z s2 ys (p # L) (V(p := []))"
        "dict_abs s2 (V(p := [])) (p # L) = (key, list_entry [] (user_flags s0 ?sd)) # D" unfolding h(3) by blast
    have run: "push_init_list z d key (ngx_murmur_hash2 key) vtype v s = push_node z d ?sd (list_head s2 p) vtype v s2"
      using a(1) False t'(1) unfolding t'(6)
      by (simp add: df upd_tree_def s1_def t'(2) set_node_key_def set_key_len_def set_expires_def set_value_len_def
          set_value_type_def ngx_memcpy_def upd_links_def lru_queue_def)
    have c2: "clock s2 = clock s" by (simp add: t'(2) s1_def c0)
    from push_node_ok [OF t'(7,3,4,5) v, of d vtype] obtain r s' where
      r: "push_node z d ?sd (list_head s2 p) vtype v s2 = Some (r, s')"
        "pushed z d key (item_of vtype v) s2 0 ((key, list_entry [] (user_flags s0 ?sd)) # D) r s'"
      by (auto simp: t'(8))
    have "dict_del key ((key, list_entry [] (user_flags s0 ?sd)) # D) = D"
      using dict_del_absent [OF new] by (simp add: dict_del_def)
    then have "listed z key (item_of vtype v) s D r s'"
      using r(2) c2 dict_push_hd [OF new] unfolding pushed_def listed_def by auto
    then show ?thesis using r(1) run by simp
  qed
qed

end
