(* ===== verification/ShdictPush.thy ===== *)
theory ShdictPush
  imports ShdictItems
begin

text \<open>
  lpush and rpush: the list of an expired entry is emptied and used again, an entry of another type that
  has expired is replaced, a key without entry gets a new list, and a live list gets one more item.
\<close>

subsection \<open>Fewer items\<close>

lemma mem_fewer_items:
  assumes ap: "apart s V A" and a: "a \<in> A" "is_list s a" and ys: "set ys \<subseteq> set (V a)" and room: "room_ok s V A f"
    and sl: "slab_holds z (slab s') ((\<lambda>p. (p, f p)) ` (used_blocks s V A - (set (V a) - set ys)))"
    and sent: "rb_sentinel (tree s') = sentinel_off (pool_data (slab s))"
    and fr: "pool_data (slab s') = pool_data (slab s)" "is_list s' = is_list s" "node_room s' = node_room s" "item_room s' = item_room s"
  shows "mem_inv z s' A (V(a := ys))"
proof -
  let ?V = "V(a := ys)"
  have own: "own_items s' ?V b = (if b = a then set ys else own_items s V b)" for b
    using a(2) by (simp add: own_items_def fr)
  have oa: "own_items s V a = set (V a)" using a(2) by (simp add: own_items_def)
  have sub: "own_items s' ?V b \<subseteq> own_items s V b" for b using ys oa by (simp add: own)
  have "own_items s V b \<inter> own_items s V a = {}" if "b \<in> A" "b \<noteq> a" for b
    using ap a(1) that by (simp add: apart_def)
  moreover have "pool_data (slab s) \<notin> own_items s V a" "own_items s V a \<inter> A = {}" using ap a(1) by (simp_all add: apart_def)
  ultimately have d: "pool_data (slab s) \<notin> set (V a)" "set (V a) \<inter> A = {}"
    "\<And>b. b \<in> A \<Longrightarrow> b \<noteq> a \<Longrightarrow> own_items s V b \<inter> set (V a) = {}" unfolding oa by blast+
  have "(\<Union>b \<in> A. own_items s' ?V b) = (\<Union>b \<in> A. own_items s V b) - (set (V a) - set ys)"
    using d(3) a(1) oa ys by (auto simp: own split: if_splits)
  then have "used_blocks s' ?V A = used_blocks s V A - (set (V a) - set ys)"
    using d(1,2) by (auto simp: used_blocks_def fr)
  moreover have "apart s' ?V A"
    unfolding apart_def fr
  proof (intro conjI ballI impI)
    show "pool_data (slab s) \<notin> A" using ap by (simp add: apart_def)
    fix b assume b: "b \<in> A"
    then have "pool_data (slab s) \<notin> own_items s V b" "own_items s V b \<inter> A = {}" using ap by (simp_all add: apart_def)
    then show "pool_data (slab s) \<notin> own_items s' ?V b" "own_items s' ?V b \<inter> A = {}" using sub [of b] by blast+
    fix c assume c: "c \<in> A" "b \<noteq> c"
    then have "own_items s V b \<inter> own_items s V c = {}" using ap b by (simp add: apart_def)
    then show "own_items s' ?V b \<inter> own_items s' ?V c = {}" using sub [of b] sub [of c] by blast
  qed
  moreover have "room_ok s' ?V A f" using room sub by (auto simp: room_ok_def fr)
  ultimately show ?thesis unfolding mem_inv_def using sl sent fr(1) by auto
qed

lemma relen_spans:
  assumes "is_list s a" "s' = s\<lparr>value_len := (value_len s)(sd_of_node a := k)\<rparr>"
  shows "node_span s' = node_span s" "item_span s' = item_span s" "own_span s' = own_span s" "own_links s' = own_links s"
    "separate s' = separate s"
proof -
  note r = relen [OF assms]
  show n: "node_span s' = node_span s"
  proof
    fix b show "node_span s' b = node_span s b"
      using assms(1) by (cases "b = a") (simp_all add: node_span_def r, simp_all add: assms(2))
  qed
  show i: "item_span s' = item_span s" by (simp add: fun_eq_iff item_span_def assms(2))
  show o: "own_span s' = own_span s" by (simp add: fun_eq_iff own_span_def n i r)
  show l: "own_links s' = own_links s" by (simp add: fun_eq_iff own_links_def r)
  show "separate s' = separate s" by (simp add: fun_eq_iff separate_def o l r)
qed

text \<open>The number of items of a list that is not in the pool any more does not matter.\<close>

lemma relen_absent:
  assumes "is_list s a" "s' = s\<lparr>value_len := (value_len s)(sd_of_node a := k)\<rparr>" "a \<notin> set xs" "pool_inv z s xs L V"
  shows "pool_inv z s' xs L V" "dict_abs s' V L = dict_abs s V L"
proof -
  note r = relen [OF assms(1,2)] relen_spans [OF assms(1,2)]
  have t: "tree s' = tree s" "links s' = links s" "slab s' = slab s" by (simp_all add: assms(2))
  have "list_ok s' V b = list_ok s V b" if "b \<in> set xs" for b
  proof -
    have "b \<noteq> a" using that assms(3) by blast
    then have "value_len s' (sd_of_node b) = value_len s (sd_of_node b)" by (simp add: assms(2))
    then show ?thesis by (simp add: list_ok_def r t)
  qed
  then show "pool_inv z s' xs L V" using assms(4) by (simp add: pool_inv_def dict_inv_def mem_inv_def r t)
  show "dict_abs s' V L = dict_abs s V L" by (simp add: dict_abs_def r)
qed

text \<open>The list at \<open>a\<close> has the items \<open>ys\<close> and the others have gone back to the allocator.\<close>

definition dict_items :: "byte list \<Rightarrow> (byte \<times> byte list) list \<Rightarrow> dict \<Rightarrow> dict" where
  "dict_items k is D = map (\<lambda>(k', e). (k', if k' = k then e\<lparr>e_items := is\<rparr> else e)) D"

lemma fewer_items_ok:
  assumes inv: "dict_inv s xs L V" and a: "a \<in> set xs" "is_list s a" and ys: "set ys \<subseteq> set (V a)"
    and ap: "apart s V (set xs)" and room: "room_ok s V (set xs) f"
    and sl: "slab_holds z (slab s') ((\<lambda>p. (p, f p)) ` (used_blocks s V (set xs) - (set (V a) - set ys)))"
    and sent: "rb_sentinel (tree s) = sentinel_off (pool_data (slab s))"
    and same: "same_data s' (s\<lparr>value_len := (value_len s)(sd_of_node a := k)\<rparr>)" "tree s' = tree s"
      "expires s' = expires s" "user_flags s' = user_flags s"
    and k: "unat k = length ys" and li: "dll (links s') (list_head s a) ys" "dll (links s') (lru_queue s) (map node_link L)"
      "\<And>b. b \<in> set xs \<Longrightarrow> is_list s b \<Longrightarrow> b \<noteq> a \<Longrightarrow> dll (links s') (list_head s b) (V b)"
  shows "pool_inv z s' xs L (V(a := ys))"
    "dict_abs s' (V(a := ys)) L = dict_items (node_key s a) (map (item_at s) ys) (dict_abs s V L)"
proof -
  let ?s = "s\<lparr>value_len := (value_len s)(sd_of_node a := k)\<rparr>" and ?V = "V(a := ys)"
  note r = relen [OF a(2) refl, of k]
  note d = same_data_funs [OF same(1)]
  have rooms: "node_room s' = node_room s" "item_room s' = item_room s"
    using same(1) by (simp_all add: fun_eq_iff node_room_def item_room_def same_data_def d r flip: r(4,5))
  have vl: "value_len s' = (value_len s)(sd_of_node a := k)" and pd: "pool_data (slab s') = pool_data (slab s)"
    using same(1) by (simp_all add: same_data_def)
  show "pool_inv z s' xs L ?V"
  proof (rule pool_invI)
    show "index_rep (node_key s') (tree s') xs" "\<And>b. b \<in> set xs \<Longrightarrow> rb_key (tree s') b = ucast (ngx_murmur_hash2 (node_key s' b))"
      "distinct L" "set L = set xs" using inv by (simp_all add: dict_inv_def d r same(2))
    show "dll (links s') (lru_queue s') (map node_link L)" using li(2) by (simp add: d r)
    show "mem_inv z s' (set xs) ?V"
      by (rule mem_fewer_items [OF ap a ys room sl]) (simp_all add: sent same(2) pd d r rooms)
    fix b assume b: "b \<in> set xs" "is_list s' b"
    show "dll (links s') (list_head s' b) (?V b) \<and> length (?V b) = unat (value_len s' (sd_of_node b))"
      using li(1) li(3) [OF b(1)] b inv k by (cases "b = a") (auto simp: d r vl dict_inv_def list_ok_def)
  qed
  have e: "entry_at s' = entry_at s"
    using entry_at_same_data [OF same(1)] same(3,4) r(8) by simp
  have key: "node_key s b = node_key s a \<longleftrightarrow> b = a" if "b \<in> set L" for b
    using dict_inv_key_inj [OF inv _ a(1)] inv that by (auto simp: dict_inv_def)
  have "entry_at s ?V a = (entry_at s V a)\<lparr>e_items := map (item_at s) ys\<rparr>" using a(2) by (simp add: entry_at_def)
  then show "dict_abs s' ?V L = dict_items (node_key s a) (map (item_at s) ys) (dict_abs s V L)"
    using key by (auto simp: dict_abs_def dict_items_def d r e entry_at_other)
qed

subsection \<open>The list of an expired entry is emptied\<close>

lemma reset_list_ok:
  assumes pinv: "pool_inv z s xs L V" and a: "a \<in> set xs" "is_list s a"
    and t: "t = set_value_len (sd_of_node a) 0 (set_expires (sd_of_node a) 0 s)"
  defines "h \<equiv> list_head s a"
  shows "\<exists>s1 s2. free_list_nodes z h (mps_queue_head h (links t)) t = Some s1 \<and> s2 = upd_links (mps_queue_init h) s1
    \<and> pool_inv z s2 xs L (V(a := [])) \<and> same_data s2 t \<and> clock s2 = clock s
    \<and> dict_abs s2 (V(a := [])) L = dict_items (node_key s a) [] (dict_set_expires (node_key s a) 0 (dict_abs s V L))"
proof -
  let ?sd = "sd_of_node a"
  define u where "u = set_expires ?sd 0 s"
  have tu: "t = u\<lparr>value_len := (value_len u)(?sd := 0)\<rparr>" by (simp add: t u_def set_value_len_def)
  have sd: "same_data u s" by (simp add: u_def)
  note d = same_data_funs [OF sd]
  have pu: "pool_inv z u xs L V" using pinv by (simp add: u_def pool_inv_expires)
  note inv = pool_invD(1) [OF pu]
  from pool_invD(2) [OF pu] obtain f where m: "apart u V (set xs)" "room_ok u V (set xs) f"
    "rb_sentinel (tree u) = sentinel_off (pool_data (slab u))"
    "slab_holds z (slab u) ((\<lambda>p. (p, f p)) ` used_blocks u V (set xs))" by (auto simp: mem_inv_def)
  have il: "is_list u a" and h: "list_head u a = h" using a(2) by (simp_all add: d h_def)
  have dl: "dll (links t) h (V a)" using inv a(1) il h by (auto simp: dict_inv_def list_ok_def tu)
  from free_list_nodes_ok [of t h "[]" "V a" z] dl obtain s1 where
    s1: "free_list_nodes z h (mps_queue_head h (links t)) t = Some s1" "same_dict s1 t" "clock s1 = clock t"
    by (auto simp: lq.first_rep [OF dl])
  define s2 where "s2 = upd_links (mps_queue_init h) s1"
  have own: "own_items u V a = set (V a)" using il by (simp add: own_items_def)
  have sub: "set (V a) \<subseteq> used_blocks u V (set xs)" using used_blocks_remove(2) [OF m(1) a(1)] own by simp
  have "slab_holds z (slab t) ((\<lambda>p. (p, f p)) ` used_blocks u V (set xs))" using m(4) by (simp add: tu)
  from free_list_nodes_slab [of t h "[]" "V a" z s1 f, OF _ _ this sub] dl s1(1)
  have sl: "slab_holds z (slab s2) ((\<lambda>p. (p, f p)) ` (used_blocks u V (set xs) - (set (V a) - set [])))"
    by (simp add: s2_def lq.first_rep [OF dl])
  have l2: "links s2 = mps_queue_init h (links u)" using s1(2) by (simp add: s2_def same_dict_def tu)
  have same: "same_data s2 t" "tree s2 = tree u" "expires s2 = expires u" "user_flags s2 = user_flags u"
    using s1(2) by (simp_all add: s2_def same_dict_def tu same_data_def)
  have hl: "h \<in> own_links u V a" using il h by (simp add: own_links_def)
  have other: "dll (links s2) (list_head u b) (V b)" if "b \<in> set xs" "is_list u b" "b \<noteq> a" for b
  proof -
    have "own_links u V a \<inter> own_links u V b = {}" using inv a(1) that by (auto simp: dict_inv_def separate_def)
    moreover have "own_links u V b = set (list_head u b # V b)" using that(2) by (simp add: own_links_def)
    ultimately have "h \<notin> set (list_head u b # V b)" using hl by blast
    from lq.other_init [OF this] show ?thesis using inv that by (auto simp: l2 dict_inv_def list_ok_def)
  qed
  have "h \<notin> set (lru_queue u # map node_link L)" using list_links_disjoint [OF inv a(1) il] h by auto
  from lq.other_init [OF this] have lru: "dll (links s2) (lru_queue u) (map node_link L)" using inv by (simp add: l2 dict_inv_def)
  have "unat (0 :: u32) = length ([] :: off list)" by simp
  note fi = fewer_items_ok [OF inv a(1) il _ m(1,2) sl m(3) same(1) [unfolded tu] same(2-4) this _ lru other]
  have "dll (links s2) (list_head u a) []" using lq.rep_init by (simp add: l2 h)
  with fi have p: "pool_inv z s2 xs L (V(a := []))" "dict_abs s2 (V(a := [])) L = dict_items (node_key u a) [] (dict_abs u V L)"
    by simp_all
  moreover have "dict_abs u V L = dict_set_expires (node_key s a) 0 (dict_abs s V L)"
    unfolding u_def by (rule dict_abs_expires [OF pool_invD(1) [OF pinv] a(1)])
  moreover have "clock s2 = clock s" using s1(3) by (simp add: s2_def tu u_def)
  ultimately show ?thesis using s1(1) same(1) d s2_def by simp
qed

subsection \<open>Push\<close>

lemma dict_touch_found: "map_of D k = Some e \<Longrightarrow> dict_touch k D = (k, e) # dict_del k D"
  by (simp add: dict_touch_def)

lemma dict_items_absent: "map_of D k = None \<Longrightarrow> dict_items k is D = D" "map_of D k = None \<Longrightarrow> dict_set_expires k t D = D"
  by (induction D) (auto simp: dict_items_def dict_set_expires_def split: if_splits)

lemma del_del [simp]: "dict_del k (dict_del k D) = dict_del k D" "map_of (dict_del k D) k = None"
  by (simp_all add: dict_del_absent map_of_dict_del)

lemma entry_of_list: "is_list s a \<Longrightarrow> e_type (entry_at s V a) = of_int MPS_SHDICT_TLIST \<and> e_bytes (entry_at s V a) = []
    \<and> e_items (entry_at s V a) = map (item_at s) (V a)"
proof -
  assume l: "is_list s a"
  have "value_type s (sd_of_node a) = of_int (uint (value_type s (sd_of_node a)))" by simp
  then have "value_type s (sd_of_node a) = of_int MPS_SHDICT_TLIST" using l unfolding is_list_def by metis
  then show ?thesis using l by (simp add: entry_at_def)
qed

definition list_type :: "entry \<Rightarrow> bool" where
  "list_type e \<longleftrightarrow> uint (e_type e) = MPS_SHDICT_TLIST"

lemma list_type_entry [simp]: "list_type (entry_at s V a) = is_list s a"
  by (simp add: list_type_def entry_at_def is_list_def)

text \<open>The value of each accepted type, and what the call does when it refuses one.\<close>

lemma push_bad_type:
  "push_value vtype str num = None \<Longrightarrow>
     mps_shdict_push_helper z d key vtype str num s = Some (\<lparr>ps_rc = NGX_ERROR, ps_err = Some ''unsupported value type''\<rparr>, s)"
  by (simp add: mps_shdict_push_helper_def)

lemma push_creates:
  assumes hold: "holds z s D" and unheld: "\<not> held s" and val: "push_value vtype str num = Some v"
    and found: "\<And>e. map_of (swept s D) key = Some e \<Longrightarrow> expired (time_nth s 1) e"
    and len: "length key < 2 ^ 16" "lnode_header + length v < 2 ^ 31"
  shows "\<exists>r s'. mps_shdict_push_helper z d key vtype str num s = Some (r, s')
    \<and> listed z key (item_of vtype v) s (dict_del key (swept s D)) r s'"
proof -
  let ?D = "dict_del key (swept s D)" and ?h = "ucast (ngx_murmur_hash2 key)"
  obtain s1 xs L V fr where p: "pool_inv z s1 xs L V" "swept s D = dict_abs s1 V L" "clock s1 = clock s"
    "time_of s1 = time_nth s 1" "mps_slab_lock s = Some (s\<lparr>held := True\<rparr>)"
    "mps_shdict_expire z 1 (s\<lparr>held := True\<rparr>) = Some (fr, s1)"
    using prefix_more [OF hold unheld] by blast
  note run = mps_shdict_push_helper_def [of z d key vtype str num s, unfolded Let_def val option.case]
  have ins: "\<exists>r s'. push_init_list z d key (ngx_murmur_hash2 key) vtype v s2 = Some (r, s') \<and> listed z key (item_of vtype v) s ?D r s'"
    if "holds z s2 ?D" "clock s2 = clock s" for s2
    using push_init_list_ok [OF that(1) _ len, of d vtype] that(2) by (simp add: listed_def)
  show ?thesis
  proof (cases "map_of (swept s D) key")
    case None
    then have "mps_shdict_lookup ?h key s1 = Some (NGX_DECLINED, None, s1)" using lookup_ok [OF p(1), of key] p(2) by simp
    moreover have "holds z s1 ?D" using p(1,2) None by (metis dict_del_absent holdsI)
    ultimately show ?thesis using ins [of s1] p(3,5,6) unfolding run by simp
  next
    case (Some e)
    then have m: "map_of (dict_abs s1 V L) key = Some e" and ex: "expired (time_of s1) e" using p(2,4) found by simp_all
    from lookup_ok [OF p(1), of key] obtain a s2 where
      lk: "mps_shdict_lookup ?h key s1 = Some (NGX_DONE, Some (sd_of_node a), s2)" "looked_up z s1 key xs L V a s2"
      unfolding m using ex by auto
    note t = looked_up_touch [OF lk(2)]
    have c2: "clock s2 = clock s" using lk(2) p(3) by (auto simp: looked_up_def)
    show ?thesis
    proof (cases "is_list s2 a")
      case False
      from remove_entry_ok [OF t(1) t(7), of "length key"] t(2) False obtain s3 where
        s3: "remove_node z (sd_of_node a) s2 = Some s3" "pool_inv z s3 (remove1 a xs) (remove1 a (a # remove1 a L)) V"
          "dict_abs s3 V (remove1 a (a # remove1 a L)) = ?D" "clock s3 = clock s2"
        using t(3) p(2) dict_del_touch by (auto simp: remove_entry_def is_list_def)
      then have "holds z s3 ?D" by (metis holdsI)
      with ins [of s3] s3 c2 False lk(1) p(5,6) show ?thesis unfolding run by (auto simp: is_list_def)
    next
      case True
      let ?L = "a # remove1 a L" and ?V = "V(a := [])"
      define u where "u = set_value_len (sd_of_node a) 0 (set_expires (sd_of_node a) 0 s2)"
      have qh: "mps_shdict_get_list_head (sd_of_node a) (length key) = list_head s2 a" using t(2) by (simp add: list_head_def)
      from reset_list_ok [OF t(1) t(7) True u_def] obtain s3 s4 where
        s4: "free_list_nodes z (list_head s2 a) (mps_queue_head (list_head s2 a) (links u)) u = Some s3"
          "s4 = upd_links (mps_queue_init (list_head s2 a)) s3" "pool_inv z s4 xs ?L ?V" "same_data s4 u" "clock s4 = clock s2"
          "dict_abs s4 ?V ?L = dict_items key [] (dict_set_expires key 0 (dict_abs s2 V ?L))" using t(2) by auto
      have rl: "is_list u = is_list s2" "node_key u = node_key s2" "list_head u = list_head s2"
        using relen [of "set_expires (sd_of_node a) 0 s2" a u 0] True same_data_funs [of "set_expires (sd_of_node a) 0 s2" s2]
        by (simp_all add: u_def set_value_len_def)
      note d4 = same_data_funs [OF s4(4)] rl
      note tt = lru_touch_ok [OF pool_invD(1) [OF s4(3)] t(7)] lru_touch_pool [OF s4(3) t(7)]
      define s5 where "s5 = lru_touch (sd_of_node a) s4"
      note d5 = same_data_funs [OF tt(3), folded s5_def] d4
      have e5: "dict_abs s5 ?V (a # remove1 a ?L) = (key, list_entry [] (e_flags e)) # ?D"
      proof -
        have m2: "map_of (dict_abs s2 V ?L) key = Some e" using m t(3) by simp
        have "e_type e = of_int MPS_SHDICT_TLIST" "e_bytes e = []"
          using map_of_dict_abs [OF pool_invD(1) [OF t(1)] t(7)] m2 entry_of_list [OF True, of V] t(2) by auto
        then have ent: "e\<lparr>e_expires := 0, e_items := []\<rparr> = list_entry [] (e_flags e)" by (simp add: list_entry_def)
        have "dict_abs s2 V ?L = (key, e) # ?D" using t(3) p(2) dict_touch_found [OF m] by simp
        then have "dict_abs s4 ?V ?L = (key, e\<lparr>e_expires := 0, e_items := []\<rparr>) # ?D"
          using dict_items_absent [OF del_del(2)] unfolding s4(6)
          by (simp add: dict_items_def dict_set_expires_def)
        then have "dict_abs s4 ?V ?L = (key, list_entry [] (e_flags e)) # ?D" by (simp only: ent)
        moreover have "node_key s4 a = key" using t(2) by (simp add: d4)
        ultimately have "dict_abs s5 ?V (a # remove1 a ?L) = dict_touch key ((key, list_entry [] (e_flags e)) # ?D)"
          using tt(2) by (simp add: s5_def)
        moreover have "dict_touch key ((key, list_entry [] (e_flags e)) # ?D) = (key, list_entry [] (e_flags e)) # ?D"
          using del_del(1) [of key "swept s D"] by (simp add: dict_touch_def) (simp add: dict_del_def)
        ultimately show ?thesis by simp
      qed
      have k5: "node_key s5 a = key" "is_list s5 a" "list_head s5 a = list_head s2 a" using t(2) True by (simp_all add: d5)
      have v0: "length (?V a) < 2 ^ 31 - 1" by simp
      from push_node_ok [OF tt(12) [folded s5_def] t(7) k5(2,1) len(2) v0, of d vtype, unfolded e5 k5(3) fun_upd_same list.size(3)] obtain r s' where
        r: "push_node z d (sd_of_node a) (list_head s2 a) vtype v s5 = Some (r, s')"
          "pushed z d key (item_of vtype v) s5 0 ((key, list_entry [] (e_flags e)) # ?D) r s'" by blast
      have "clock s5 = clock s" using tt(8) s4(5) c2 by (simp add: s5_def)
      moreover have "dict_del key ((key, list_entry [] (e_flags e)) # ?D) = ?D"
        using del_del(1) [of key "swept s D"] by (simp add: dict_del_def)
      ultimately have "listed z key (item_of vtype v) s ?D r s'"
        using r(2) dict_push_hd [OF del_del(2)] unfolding pushed_def listed_def by auto
      moreover have "mps_shdict_push_helper z d key vtype str num s = Some (r, s')"
        using True lk(1) p(5,6) r(1) s4(1,2) unfolding run by (simp add: is_list_def u_def s5_def qh)
      ultimately show ?thesis by blast
    qed
  qed
qed

text \<open>A live entry.\<close>

lemma push_live:
  assumes hold: "holds z s D" and unheld: "\<not> held s" and val: "push_value vtype str num = Some v"
    and found: "map_of (swept s D) key = Some e" "\<not> expired (time_nth s 1) e"
    and len: "lnode_header + length v < 2 ^ 31" "length (e_items e) < 2 ^ 31 - 1"
  shows "\<exists>r s'. mps_shdict_push_helper z d key vtype str num s = Some (r, s')
    \<and> (if list_type e then pushed z d key (item_of vtype v) s (length (e_items e)) (dict_touch key (swept s D)) r s'
       else r = \<lparr>ps_rc = NGX_ERROR, ps_err = Some ''value not a list''\<rparr> \<and> \<not> held s' \<and> clock s' = clock s
         \<and> holds z s' (dict_touch key (swept s D)))"
proof -
  let ?h = "ucast (ngx_murmur_hash2 key)"
  obtain s1 xs L V fr where p: "pool_inv z s1 xs L V" "swept s D = dict_abs s1 V L" "clock s1 = clock s"
    "time_of s1 = time_nth s 1" "mps_slab_lock s = Some (s\<lparr>held := True\<rparr>)"
    "mps_shdict_expire z 1 (s\<lparr>held := True\<rparr>) = Some (fr, s1)"
    using prefix_more [OF hold unheld] by blast
  note run = mps_shdict_push_helper_def [of z d key vtype str num s, unfolded Let_def val option.case]
  have m: "map_of (dict_abs s1 V L) key = Some e" and ex: "\<not> expired (time_of s1) e" using p(2,4) found by simp_all
  from lookup_ok [OF p(1), of key] obtain a s2 where
    lk: "mps_shdict_lookup ?h key s1 = Some (NGX_OK, Some (sd_of_node a), s2)" "looked_up z s1 key xs L V a s2" "e = entry_at s1 V a"
    unfolding m using ex by auto
  note t = looked_up_touch [OF lk(2)]
  have c2: "clock s2 = clock s" and e2: "e = entry_at s2 V a" using lk(2,3) p(3) by (auto simp: looked_up_def)
  let ?L = "a # remove1 a L"
  have h2: "dict_abs s2 V ?L = dict_touch key (swept s D)" using t(3) p(2) by simp
  show ?thesis
  proof (cases "is_list s2 a")
    case False
    then have "mps_shdict_push_helper z d key vtype str num s
        = Some (\<lparr>ps_rc = NGX_ERROR, ps_err = Some ''value not a list''\<rparr>, mps_slab_unlock s2)"
      using lk(1) p(5,6) unfolding run by (simp add: is_list_def)
    moreover have "holds z s2 (dict_touch key (swept s D))" using t(1) h2 by (metis holdsI)
    ultimately show ?thesis using False c2 by (simp add: e2)
  next
    case True
    define s5 where "s5 = lru_touch (sd_of_node a) s2"
    note tt = lru_touch_ok [OF pool_invD(1) [OF t(1)] t(7), folded s5_def] lru_touch_pool [OF t(1) t(7), folded s5_def]
    note d5 = same_data_funs [OF tt(3)]
    have k5: "node_key s5 a = key" "is_list s5 a" "list_head s5 a = mps_shdict_get_list_head (sd_of_node a) (length key)"
      using t(2) True by (simp_all add: d5, simp add: list_head_def)
    have items: "e_items e = map (item_at s2) (V a)" using entry_of_list [OF True, of V] by (simp add: e2)
    have cnt: "length (V a) < 2 ^ 31 - 1" using len(2) by (simp add: items)
    have touch2: "dict_touch key (dict_touch key (swept s D)) = dict_touch key (swept s D)"
      using dict_del_absent [OF del_del(2), of key "swept s D"] dict_touch_found [OF found(1)] by (simp add: dict_touch_def) (simp add: dict_del_def)
    from push_node_ok [OF tt(12) t(7) k5(2,1) len(1) cnt, of d vtype] obtain r s' where
      r: "push_node z d (sd_of_node a) (list_head s5 a) vtype v s5 = Some (r, s')"
        "pushed z d key (item_of vtype v) s5 (length (e_items e)) (dict_touch key (swept s D)) r s'"
      using tt(2) h2 touch2 t(2) by (auto simp: items)
    have "clock s5 = clock s" using tt(8) c2 by simp
    then have "pushed z d key (item_of vtype v) s (length (e_items e)) (dict_touch key (swept s D)) r s'"
      using r(2) by (simp add: pushed_def)
    moreover have "mps_shdict_push_helper z d key vtype str num s = Some (r, s')"
      using True lk(1) p(5,6) r(1) unfolding run by (simp add: is_list_def s5_def [symmetric] k5(3))
    ultimately show ?thesis using True by (auto simp: e2)
  qed
qed

end
