(* ===== verification/ShdictPop.thy ===== *)
theory ShdictPop
  imports ShdictPush
begin

text \<open>
  lpop, rpop and llen. A pop takes an item off one end of a live list, gives its block back, and drops the
  key with its last item; a value that cannot be handed out stays.
\<close>

subsection \<open>The value of an item\<close>

definition item_result :: "byte \<times> byte list \<Rightarrow> nat \<Rightarrow> bool \<Rightarrow> pop_result" where
  "item_result x buf_len malloc_ok =
     (let t = uint (fst x);
          len = length (snd x);
          short = buf_len < len
      in if t = MPS_SHDICT_TSTRING then
           if short \<and> \<not> malloc_ok then pop_fail NGX_ERROR (Some t) True (Some ''no memory'')
           else (pop_fail NGX_OK (Some t) short None)\<lparr>pp_str := Some (snd x), pp_str_len := Some len\<rparr>
         else if t = MPS_SHDICT_TNUMBER then
           if len \<noteq> 8 then pop_fail NGX_ERROR (Some t) False (Some ''bad list number value size'')
           else (pop_fail NGX_OK (Some t) False None)
                  \<lparr>pp_str_len := Some len, pp_num := Some (bytes_double (snd x))\<rparr>
         else pop_fail NGX_ERROR (Some t) False (Some ''bad list node value type''))"

lemma pop_value_item: "pop_value l buf_len malloc_ok s = item_result (item_at s l) buf_len malloc_ok"
  by (simp add: pop_value_def item_result_def item_at_def Let_def)

text \<open>The item at the end that a direction names, and the others.\<close>

definition end_of :: "nat \<Rightarrow> 'a list \<Rightarrow> 'a" where
  "end_of d xs = (if d = MPS_SHDICT_LEFT then hd xs else last xs)"

definition rest_of :: "nat \<Rightarrow> 'a list \<Rightarrow> 'a list" where
  "rest_of d xs = (if d = MPS_SHDICT_LEFT then tl xs else butlast xs)"

lemma end_rest:
  "xs \<noteq> [] \<Longrightarrow> end_of d xs \<in> set xs" "xs \<noteq> [] \<Longrightarrow> end_of d (map f xs) = f (end_of d xs)"
  "map f (rest_of d xs) = rest_of d (map f xs)" "length (rest_of d xs) = length xs - 1"
  by (simp_all add: end_of_def rest_of_def hd_map last_map map_tl map_butlast)

lemma remove1_end: "distinct xs \<Longrightarrow> xs \<noteq> [] \<Longrightarrow> remove1 (end_of d xs) xs = rest_of d xs"
proof (cases "d = MPS_SHDICT_LEFT")
  case False
  assume xs: "distinct xs" "xs \<noteq> []"
  then obtain ys y where "xs = ys @ [y]" by (cases xs rule: rev_cases) auto
  then show ?thesis using xs(1) False by (simp add: end_of_def rest_of_def remove1_append)
qed (cases xs; simp add: end_of_def rest_of_def)

lemma end_insert: "end_of d (insert_at d x xs) = x" "rest_of d (insert_at d x xs) = xs"
  by (simp_all add: end_of_def rest_of_def insert_at_def)

subsection \<open>An item less\<close>

lemma shm_free_sel [simp]:
  "tree (shm_free_locked z p s) = tree s" "links (shm_free_locked z p s) = links s" "clock (shm_free_locked z p s) = clock s"
  "held (shm_free_locked z p s) = held s" "value_len (shm_free_locked z p s) = value_len s"
  "same_dict (shm_free_locked z p s) s"
  by (simp_all add: shm_free_locked_def same_dict_def same_data_def)

text \<open>The common part: the item is out of the list and its block is free.\<close>

lemma item_out_ok:
  fixes d :: nat
  assumes pinv: "pool_inv z s xs L V" and a: "a \<in> set xs" "is_list s a" and ne: "V a \<noteq> []"
  defines "l \<equiv> end_of d (V a)"
  assumes s1: "s1 = shm_free_locked z l (upd_links (mps_queue_remove l) s)"
    and s2: "s2 = set_value_len (sd_of_node a) (value_len s (sd_of_node a) - 1) s1"
  shows "pool_inv z s2 xs L (V(a := rest_of d (V a)))"
    "dict_abs s2 (V(a := rest_of d (V a))) L = dict_items (node_key s a) (rest_of d (map (item_at s) (V a))) (dict_abs s V L)"
proof -
  let ?h = "list_head s a" and ?ys = "rest_of d (V a)"
  note inv = pool_invD(1) [OF pinv]
  from pool_invD(2) [OF pinv] obtain f where m: "apart s V (set xs)" "room_ok s V (set xs) f"
    "rb_sentinel (tree s) = sentinel_off (pool_data (slab s))"
    "slab_holds z (slab s) ((\<lambda>p. (p, f p)) ` used_blocks s V (set xs))" by (auto simp: mem_inv_def)
  have dl: "dll (links s) ?h (V a)" and len: "length (V a) = unat (value_len s (sd_of_node a))"
    using inv a by (auto simp: dict_inv_def list_ok_def)
  have dis: "distinct (V a)" using lq.rep_distinct [OF dl] by simp
  have l: "l \<in> set (V a)" using ne by (simp add: l_def end_rest)
  note r1 = remove1_end [OF dis ne, of d, folded l_def]
  have sy: "set ?ys = set (V a) - {l}" using set_remove1_eq [OF dis, of l] by (simp add: r1)
  have e2: "s2 = shm_free_locked z l (upd_links (mps_queue_remove l) s)\<lparr>value_len := (value_len s)(sd_of_node a := value_len s (sd_of_node a) - 1)\<rparr>"
    by (simp add: s1 s2 set_value_len_def)
  have same: "same_data s2 (s\<lparr>value_len := (value_len s)(sd_of_node a := value_len s (sd_of_node a) - 1)\<rparr>)"
    "tree s2 = tree s" "expires s2 = expires s" "user_flags s2 = user_flags s" "links s2 = mps_queue_remove l (links s)"
    by (simp_all add: e2 same_data_def upd_links_def shm_free_locked_def)
  have "l \<in> used_blocks s V (set xs)" using used_blocks_remove(2) [OF m(1) a(1)] l a(2) by (auto simp: own_items_def)
  moreover have "slab_holds z (slab (upd_links (mps_queue_remove l) s)) ((\<lambda>p. (p, f p)) ` used_blocks s V (set xs))" using m(4) by simp
  ultimately have "slab_holds z (slab s2) ((\<lambda>p. (p, f p)) ` (used_blocks s V (set xs) - {l}))"
    using slab_release [of z "upd_links (mps_queue_remove l) s" f _ l] by (simp add: e2)
  moreover have "set (V a) - set ?ys = {l}" using sy l by auto
  ultimately have sl: "slab_holds z (slab s2) ((\<lambda>p. (p, f p)) ` (used_blocks s V (set xs) - (set (V a) - set ?ys)))" by simp
  have d1: "dll (links s2) ?h ?ys" using lq.rep_rem1 [OF dl l] by (simp add: same(5) r1)
  have "set (?h # V a) \<inter> set (lru_queue s # map node_link L) = {}" using list_links_disjoint [OF inv a] by blast
  from lq.other_rem [OF dl l this] have d2: "dll (links s2) (lru_queue s) (map node_link L)"
    using inv by (simp add: same(5) dict_inv_def)
  have d3: "dll (links s2) (list_head s b) (V b)" if b: "b \<in> set xs" "is_list s b" "b \<noteq> a" for b
  proof -
    have "own_links s V a \<inter> own_links s V b = {}" using inv a(1) b by (auto simp: dict_inv_def separate_def)
    then have "set (?h # V a) \<inter> set (list_head s b # V b) = {}" using a(2) b(2) by (simp add: own_links_def)
    from lq.other_rem [OF dl l this] show ?thesis using inv b by (auto simp: same(5) dict_inv_def list_ok_def)
  qed
  have "0 < length (V a)" using ne by simp
  then have "unat (value_len s (sd_of_node a) - 1) = length ?ys"
    using len by (simp add: end_rest) (metis unat_minus_one unat_0 not_less_zero One_nat_def)
  note fi = fewer_items_ok [OF inv a _ m(1,2) sl m(3) same(1-4) this d1 d2 d3]
  show "pool_inv z s2 xs L (V(a := ?ys))" using fi(1) sy by auto
  show "dict_abs s2 (V(a := ?ys)) L = dict_items (node_key s a) (rest_of d (map (item_at s) (V a))) (dict_abs s V L)"
    using fi(2) sy by (auto simp: end_rest(3))
qed

text \<open>The last item: the key goes with it.\<close>

lemma remove_node_relen:
  "remove_node z sd (s\<lparr>value_len := f\<rparr>) = map_option (\<lambda>s. s\<lparr>value_len := f\<rparr>) (remove_node z sd s)"
  by (cases "mps_rbtree_delete (tree s) (node_of_sd sd)")
    (simp_all add: remove_node_def upd_links_def upd_tree_def shm_free_locked_def Let_def)

lemma remove_empty_ok:
  assumes pinv: "pool_inv z s xs L V" and a: "a \<in> set xs" and none: "V a = []"
  shows "\<exists>s'. remove_node z (sd_of_node a) s = Some s' \<and> pool_inv z s' (remove1 a xs) (remove1 a L) V
    \<and> dict_abs s' V (remove1 a L) = dict_del (node_key s a) (dict_abs s V L)
    \<and> same_data s' s \<and> held s' = held s \<and> clock s' = clock s \<and> ticks s' = ticks s"
proof -
  from pool_invD(2) [OF pinv] obtain f where f: "apart s V (set xs)" "room_ok s V (set xs) f"
    "rb_sentinel (tree s) = sentinel_off (pool_data (slab s))"
    "slab_holds z (slab s) ((\<lambda>p. (p, f p)) ` used_blocks s V (set xs))" by (auto simp: mem_inv_def)
  have "own_items s V a = {}" using none by (simp add: own_items_def)
  with f(4) have "slab_holds z (slab s) ((\<lambda>p. (p, f p)) ` (used_blocks s V (set xs) - own_items s V a))" by simp
  from remove_node_pool [OF pool_invD(1) [OF pinv] a f(1,3) this f(2)] show ?thesis .
qed

lemma dict_del_items: "dict_del k (dict_items k is D) = dict_del k D"
  by (induction D) (auto simp: dict_del_def dict_items_def)

lemma last_item_ok:
  assumes pinv: "pool_inv z s xs L V" and a: "a \<in> set xs" "is_list s a" and one: "V a = [l]"
    and s1: "s1 = shm_free_locked z l (upd_links (mps_queue_remove l) s)"
  shows "\<exists>s'. remove_node z (sd_of_node a) s1 = Some s' \<and> clock s' = clock s
    \<and> holds z s' (dict_del (node_key s a) (dict_abs s V L))"
proof -
  define s2 where "s2 = set_value_len (sd_of_node a) (value_len s (sd_of_node a) - 1) s1"
  have ne: "V a \<noteq> []" and l: "end_of d (V a) = l" "rest_of d (V a) = []" for d using one by (simp_all add: end_of_def rest_of_def)
  have s1': "s1 = shm_free_locked z (end_of MPS_SHDICT_LEFT (V a)) (upd_links (mps_queue_remove (end_of MPS_SHDICT_LEFT (V a))) s)"
    by (simp only: l s1)
  note io = item_out_ok [OF pinv a ne s1' s2_def, unfolded l(2)]
  have sd: "same_data s2 (s\<lparr>value_len := (value_len s)(sd_of_node a := value_len s (sd_of_node a) - 1)\<rparr>)"
    by (simp add: s2_def s1 set_value_len_def same_data_def upd_links_def shm_free_locked_def)
  have il: "is_list s2 a" and nk: "node_key s2 a = node_key s a"
    using a(2) relen [OF a(2) refl] same_data_funs [OF sd] by simp_all
  from remove_empty_ok [OF io(1) a(1)] obtain s3 where
    s3: "remove_node z (sd_of_node a) s2 = Some s3" "pool_inv z s3 (remove1 a xs) (remove1 a L) (V(a := []))"
      "dict_abs s3 (V(a := [])) (remove1 a L) = dict_del (node_key s2 a) (dict_abs s2 (V(a := [])) L)" "same_data s3 s2" "clock s3 = clock s2"
    by auto
  define s4 where "s4 = s3\<lparr>value_len := value_len s1\<rparr>"
  have s12: "s1 = s2\<lparr>value_len := value_len s1\<rparr>" by (simp add: s2_def set_value_len_def)
  have run: "remove_node z (sd_of_node a) s1 = Some s4"
    by (subst s12) (simp add: remove_node_relen s3(1) s4_def)
  have vl: "value_len s1 = (value_len s3)(sd_of_node a := value_len s1 (sd_of_node a))"
    using s3(4) by (simp add: same_data_def s2_def set_value_len_def)
  have s4: "s4 = s3\<lparr>value_len := (value_len s3)(sd_of_node a := value_len s1 (sd_of_node a))\<rparr>"
    using vl by (simp add: s4_def)
  have "is_list s3 a" using il same_data_funs [OF s3(4)] by simp
  moreover have "distinct xs" using pool_invD(1) [OF pinv] index.rep_distinct by (auto simp: dict_inv_def)
  then have "a \<notin> set (remove1 a xs)" by simp
  ultimately have p4: "pool_inv z s4 (remove1 a xs) (remove1 a L) (V(a := []))"
    "dict_abs s4 (V(a := [])) (remove1 a L) = dict_abs s3 (V(a := [])) (remove1 a L)"
    using relen_absent [OF _ s4 _ s3(2)] by blast+
  have "dict_abs s4 (V(a := [])) (remove1 a L) = dict_del (node_key s a) (dict_abs s V L)"
    using p4(2) s3(3) io(2) nk dict_del_items by simp
  then have "holds z s4 (dict_del (node_key s a) (dict_abs s V L))" using p4(1) by (metis holdsI)
  moreover have "clock s4 = clock s" using s3(5) by (simp add: s4_def s2_def set_value_len_def s1)
  ultimately show ?thesis using run by blast
qed

subsection \<open>Pop\<close>

text \<open>The result of a pop and the dictionary it leaves, from the entry of the key.\<close>

definition pop_spec :: "nat \<Rightarrow> byte list \<Rightarrow> nat \<Rightarrow> bool \<Rightarrow> u64 \<Rightarrow> dict \<Rightarrow> pop_result \<times> dict" where
  "pop_spec d key buf_len malloc_ok now D =
     (case map_of D key of
        None \<Rightarrow> (pop_fail NGX_OK (Some MPS_SHDICT_TNIL) False None, D)
      | Some e \<Rightarrow>
          let D' = dict_touch key D; is = e_items e
          in if expired now e then (pop_fail NGX_OK (Some MPS_SHDICT_TNIL) False None, D')
             else if \<not> list_type e then (pop_fail NGX_ERROR None False (Some ''value not a list''), D')
             else if is = [] then (pop_fail NGX_ERROR None False (Some ''bad empty value''), D')
             else let r = item_result (end_of d is) buf_len malloc_ok
                  in (r, if pp_rc r \<noteq> NGX_OK then D'
                         else if length is = 1 then dict_del key D
                         else dict_items key (rest_of d is) D'))"

lemma pop_refines:
  assumes hold: "holds z s D" and unheld: "\<not> held s"
  shows "\<exists>s'. mps_shdict_pop_helper z d key buf_len malloc_ok s
      = Some (fst (pop_spec d key buf_len malloc_ok (time_nth s 1) (swept s D)), s')
    \<and> \<not> held s' \<and> clock s' = clock s \<and> holds z s' (snd (pop_spec d key buf_len malloc_ok (time_nth s 1) (swept s D)))"
proof -
  let ?h = "ucast (ngx_murmur_hash2 key)"
  obtain s1 xs L V fr where p: "pool_inv z s1 xs L V" "swept s D = dict_abs s1 V L" "clock s1 = clock s"
    "time_of s1 = time_nth s 1" "mps_slab_lock s = Some (s\<lparr>held := True\<rparr>)"
    "mps_shdict_expire z 1 (s\<lparr>held := True\<rparr>) = Some (fr, s1)"
    using prefix_more [OF hold unheld] by blast
  note run = mps_shdict_pop_helper_def [of z d key buf_len malloc_ok s, unfolded Let_def]
  show ?thesis
  proof (cases "map_of (swept s D) key")
    case None
    then have "mps_shdict_lookup ?h key s1 = Some (NGX_DECLINED, None, s1)" using lookup_ok [OF p(1), of key] p(2) by simp
    moreover have "holds z s1 (swept s D)" using p(1,2) by (metis holdsI)
    ultimately show ?thesis using p(3,5,6) None unfolding run by (simp add: pop_spec_def)
  next
    case (Some e)
    then have m: "map_of (dict_abs s1 V L) key = Some e" using p(2) by simp
    from lookup_ok [OF p(1), of key] obtain a s2 where
      lk: "mps_shdict_lookup ?h key s1 = Some (if expired (time_nth s 1) e then NGX_DONE else NGX_OK, Some (sd_of_node a), s2)"
        "looked_up z s1 key xs L V a s2" "e = entry_at s1 V a"
      unfolding m p(4) by auto
    note t = looked_up_touch [OF lk(2)]
    have c2: "clock s2 = clock s" and e2: "e = entry_at s2 V a" using lk(2,3) p(3) by (auto simp: looked_up_def)
    let ?L = "a # remove1 a L" and ?D = "dict_touch key (swept s D)"
    have h2: "dict_abs s2 V ?L = ?D" using t(3) p(2) by simp
    then have hold2: "holds z s2 ?D" using t(1) by (metis holdsI)
    show ?thesis
    proof (cases "expired (time_nth s 1) e \<or> \<not> is_list s2 a")
      case True
      then show ?thesis using hold2 c2 lk(1) p(5,6) Some unfolding run by (auto simp: pop_spec_def e2 is_list_def Let_def tags)
    next
      case False
      then have il: "is_list s2 a" and ex: "\<not> expired (time_nth s 1) e" by simp_all
      have items: "e_items e = map (item_at s2) (V a)" using entry_of_list [OF il, of V] by (simp add: e2)
      have dl: "dll (links s2) (list_head s2 a) (V a)" and vl: "length (V a) = unat (value_len s2 (sd_of_node a))"
        using pool_invD(1) [OF t(1)] t(7) il by (auto simp: dict_inv_def list_ok_def)
      have qh: "mps_shdict_get_list_head (sd_of_node a) (length key) = list_head s2 a" using t(2) by (simp add: list_head_def)
      show ?thesis
      proof (cases "V a = []")
        case True
        then have "value_len s2 (sd_of_node a) = 0" using vl by (simp add: unat_eq_0)
        then show ?thesis using hold2 c2 lk(1) p(5,6) Some il ex True items unfolding run
          by (auto simp: pop_spec_def is_list_def Let_def e2 [symmetric] list_type_def) (simp_all add: e2 entry_at_def tags)
      next
        case ne: False
        then have v0: "value_len s2 (sd_of_node a) \<noteq> 0" using vl by (auto simp: unat_eq_0)
        let ?l = "end_of d (V a)" and ?r = "item_result (end_of d (e_items e)) buf_len malloc_ok"
        have q: "(if d = MPS_SHDICT_LEFT then mps_queue_head (mps_shdict_get_list_head (sd_of_node a) (length key)) (links s2)
            else mps_queue_last (mps_shdict_get_list_head (sd_of_node a) (length key)) (links s2)) = ?l"
          using ne by (simp add: qh lq.first_rep [OF dl] lq.lst_rep [OF dl] end_of_def)
        have r: "pop_value ?l buf_len malloc_ok s2 = ?r" using ne by (simp add: pop_value_item items end_rest)
        define s3 where "s3 = shm_free_locked z ?l (upd_links (mps_queue_remove ?l) s2)"
        have v3: "value_len s3 = value_len s2" by (simp add: s3_def)
        have run2: "mps_shdict_pop_helper z d key buf_len malloc_ok s =
            (if pp_rc ?r \<noteq> NGX_OK then Some (?r, mps_slab_unlock s2)
             else do { s \<leftarrow> (if value_len s3 (sd_of_node a) = 1 then remove_node z (sd_of_node a) s3
                  else Some (lru_touch (sd_of_node a) (set_value_len (sd_of_node a) (value_len s3 (sd_of_node a) - 1) s3)));
                 Some (?r, mps_slab_unlock s) })"
          using lk(1) p(5,6) il ex v0 unfolding run
          by (simp add: is_list_def q r lnode_of_queue_def s3_def tags split del: if_split cong: if_cong)
        have spec: "pop_spec d key buf_len malloc_ok (time_nth s 1) (swept s D) =
            (?r, if pp_rc ?r \<noteq> NGX_OK then ?D else if length (V a) = 1 then dict_del key (swept s D)
                 else dict_items key (rest_of d (e_items e)) ?D)"
          using Some ex il ne items e2 by (auto simp: pop_spec_def Let_def)
        consider "pp_rc ?r \<noteq> NGX_OK" | "pp_rc ?r = NGX_OK" "length (V a) = 1" | "pp_rc ?r = NGX_OK" "length (V a) \<noteq> 1" by blast
        then show ?thesis
        proof cases
          case 1
          then show ?thesis using hold2 c2 unfolding run2 spec by simp
        next
          case 2
          then have one: "V a = [?l]" by (cases "V a") (auto simp: end_of_def)
          have "unat (value_len s2 (sd_of_node a)) = 1" using 2(2) vl by simp
          then have "value_len s2 (sd_of_node a) = 1" by (subst word_unat_eq_iff) simp
          then have v1: "value_len s3 (sd_of_node a) = 1" by (simp only: v3)
          from last_item_ok [OF t(1,7) il one s3_def] obtain s4 where
            "remove_node z (sd_of_node a) s3 = Some s4" "clock s4 = clock s" "holds z s4 (dict_del key (swept s D))"
            using t(2) h2 c2 dict_del_touch by auto
          then show ?thesis using 2 v1 unfolding run2 spec by simp
        next
          case 3
          then have v1: "value_len s3 (sd_of_node a) \<noteq> 1" using vl by (auto simp: v3)
          define s4 where "s4 = set_value_len (sd_of_node a) (value_len s2 (sd_of_node a) - 1) s3"
          let ?V = "V(a := rest_of d (V a))"
          note io = item_out_ok [OF t(1,7) il ne s3_def s4_def]
          note tt = lru_touch_ok [OF pool_invD(1) [OF io(1)] t(7)] lru_touch_pool [OF io(1) t(7)]
          have sd: "same_data s4 (s2\<lparr>value_len := (value_len s2)(sd_of_node a := value_len s2 (sd_of_node a) - 1)\<rparr>)"
            by (simp add: s4_def s3_def set_value_len_def same_data_def upd_links_def shm_free_locked_def)
          have k4: "node_key s4 a = key" using t(2) relen [OF il refl] same_data_funs [OF sd] by simp
          have "dict_touch key (dict_items key (rest_of d (e_items e)) ?D) = dict_items key (rest_of d (e_items e)) ?D"
            using dict_items_absent [OF del_del(2)] dict_touch_found [OF Some] del_del(1) [of key "swept s D"]
            by (simp add: dict_touch_def dict_items_def dict_del_def)
          then have "dict_abs (lru_touch (sd_of_node a) s4) ?V (a # remove1 a ?L) = dict_items key (rest_of d (e_items e)) ?D"
            using tt(2) io(2) h2 t(2) k4 by (simp add: items)
          then have "holds z (lru_touch (sd_of_node a) s4) (dict_items key (rest_of d (e_items e)) ?D)" using tt(12) by (metis holdsI)
          moreover have "clock (lru_touch (sd_of_node a) s4) = clock s" using tt(8) c2 by (simp add: s4_def s3_def set_value_len_def)
          moreover have "mps_shdict_pop_helper z d key buf_len malloc_ok s = Some (?r, mps_slab_unlock (lru_touch (sd_of_node a) s4))"
            using 3 v1 by (simp add: run2 s4_def v3)
          ultimately show ?thesis using 3 unfolding spec by simp
        qed
      qed
    qed
  qed
qed

subsection \<open>Length\<close>

definition llen_spec :: "byte list \<Rightarrow> u64 \<Rightarrow> dict \<Rightarrow> push_result" where
  "llen_spec key now D =
     (case map_of D key of
        None \<Rightarrow> \<lparr>ps_rc = 0, ps_err = None\<rparr>
      | Some e \<Rightarrow> if expired now e then \<lparr>ps_rc = 0, ps_err = None\<rparr>
                  else if \<not> list_type e then \<lparr>ps_rc = NGX_ERROR, ps_err = Some ''value not a list''\<rparr>
                  else \<lparr>ps_rc = int (length (e_items e)), ps_err = None\<rparr>)"

lemma llen_refines:
  assumes hold: "holds z s D" and unheld: "\<not> held s"
    and fits: "\<And>e. map_of (swept s D) key = Some e \<Longrightarrow> length (e_items e) < 2 ^ 31"
  shows "\<exists>s'. mps_shdict_llen z key s = Some (llen_spec key (time_nth s 1) (swept s D), s')
    \<and> \<not> held s' \<and> clock s' = clock s \<and> holds z s' (dict_touch key (swept s D))"
proof -
  let ?h = "ucast (ngx_murmur_hash2 key)"
  obtain s1 xs L V fr where p: "pool_inv z s1 xs L V" "swept s D = dict_abs s1 V L" "clock s1 = clock s"
    "time_of s1 = time_nth s 1" "mps_slab_lock s = Some (s\<lparr>held := True\<rparr>)"
    "mps_shdict_expire z 1 (s\<lparr>held := True\<rparr>) = Some (fr, s1)"
    using prefix_more [OF hold unheld] by blast
  note run = mps_shdict_llen_def [of z key s, unfolded Let_def]
  show ?thesis
  proof (cases "map_of (swept s D) key")
    case None
    then have "mps_shdict_lookup ?h key s1 = Some (NGX_DECLINED, None, s1)" using lookup_ok [OF p(1), of key] p(2) by simp
    moreover have "holds z s1 (swept s D)" using p(1,2) by (metis holdsI)
    ultimately show ?thesis using p(3,5,6) None unfolding run by (simp add: llen_spec_def dict_touch_def tags)
  next
    case (Some e)
    then have m: "map_of (dict_abs s1 V L) key = Some e" using p(2) by simp
    from lookup_ok [OF p(1), of key] obtain a s2 where
      lk: "mps_shdict_lookup ?h key s1 = Some (if expired (time_nth s 1) e then NGX_DONE else NGX_OK, Some (sd_of_node a), s2)"
        "looked_up z s1 key xs L V a s2" "e = entry_at s1 V a"
      unfolding m p(4) by auto
    note t = looked_up_touch [OF lk(2)]
    have c2: "clock s2 = clock s" and e2: "e = entry_at s2 V a" using lk(2,3) p(3) by (auto simp: looked_up_def)
    let ?L = "a # remove1 a L" and ?D = "dict_touch key (swept s D)"
    have h2: "dict_abs s2 V ?L = ?D" using t(3) p(2) by simp
    then have hold2: "holds z s2 ?D" using t(1) by (metis holdsI)
    show ?thesis
    proof (cases "expired (time_nth s 1) e \<or> \<not> is_list s2 a")
      case True
      then show ?thesis using hold2 c2 lk(1) p(5,6) Some unfolding run by (auto simp: llen_spec_def e2 is_list_def Let_def tags)
    next
      case False
      then have il: "is_list s2 a" and ex: "\<not> expired (time_nth s 1) e" by simp_all
      have items: "e_items e = map (item_at s2) (V a)" using entry_of_list [OF il, of V] by (simp add: e2)
      have vl: "length (V a) = unat (value_len s2 (sd_of_node a))"
        using pool_invD(1) [OF t(1)] t(7) il by (auto simp: dict_inv_def list_ok_def)
      define s3 where "s3 = lru_touch (sd_of_node a) s2"
      note tt = lru_touch_ok [OF pool_invD(1) [OF t(1)] t(7), folded s3_def] lru_touch_pool [OF t(1,7), folded s3_def]
      have "value_len s3 = value_len s2" using tt(3) by (simp add: same_data_def)
      then have v: "int_of_u32 (value_len (mps_slab_unlock s3) (sd_of_node a)) = int (length (e_items e))"
        using fits [OF Some] vl by (simp add: int_of_u32_def items sint_of_unat mps_slab_unlock_def)
      have touch2: "dict_touch key ?D = ?D"
        using dict_del_absent [OF del_del(2), of key "swept s D"] dict_touch_found [OF Some] by (simp add: dict_touch_def) (simp add: dict_del_def)
      have "dict_abs s3 V (a # remove1 a ?L) = ?D" using tt(2) h2 t(2) touch2 by simp
      then have "holds z s3 ?D" using tt(12) by (metis holdsI)
      moreover have "mps_shdict_llen z key s = Some (\<lparr>ps_rc = int (length (e_items e)), ps_err = None\<rparr>, mps_slab_unlock s3)"
        using lk(1) p(5,6) il ex v unfolding run by (simp add: is_list_def s3_def tags)
      ultimately show ?thesis using Some ex il e2 tt(8) c2 by (simp add: llen_spec_def)
    qed
  qed
qed

subsection \<open>A value that never expires\<close>

lemma swept_keeps:
  assumes "map_of D k = Some e" "e_expires e = 0" "distinct (map fst D)"
  shows "map_of (swept s D) k = Some e"
proof -
  have "map_of (take (length D - drop_count n now False D) D) k = Some e" for n now
    using assms(1,3)
  proof (induction n arbitrary: D)
    case (Suc n)
    show ?case
    proof (cases "D = [] \<or> \<not> due now (snd (last D))")
      case False
      then obtain D' x where D: "D = D' @ [x]" "due now (snd x)" by (cases D rule: rev_cases) auto
      have "fst x \<noteq> k"
      proof
        assume "fst x = k"
        then have "(k, snd x) \<in> set D" using D(1) by (auto simp: prod_eq_iff)
        then have "snd x = e" using Suc.prems by (metis map_of_eq_Some_iff option.inject)
        then show False using D(2) assms(2) by (simp add: due_def)
      qed
      then have "map_of D' k = Some e" using Suc.prems(1) D(1) by (cases x) (auto simp: map_add_Some_iff)
      moreover have "distinct (map fst D')" using Suc.prems(2) D(1) by simp
      ultimately have "map_of (take (length D' - drop_count n now False D') D') k = Some e" by (rule Suc.IH)
      then show ?thesis using D drop_count_bounds(2) [of n now False D'] by simp
    qed (use Suc.prems in auto)
  qed simp
  then show ?thesis by (simp add: swept_def keep_first_def)
qed

lemma map_of_dict_push: "map_of (dict_push d k x D) k = map_option (\<lambda>e. e\<lparr>e_items := insert_at d x (e_items e)\<rparr>) (map_of D k)"
  by (induction D) (auto simp: dict_push_def)

text \<open>What is pushed to a live list that never expires is what the next pop at the same end takes off.\<close>

lemma push_pop_ok:
  assumes hold: "holds z s D" and unheld: "\<not> held s" and val: "push_value vtype str num = Some v"
    and found: "map_of (swept s D) key = Some e" "e_expires e = 0" "list_type e"
    and len: "lnode_header + length v < 2 ^ 31" "length (e_items e) < 2 ^ 31 - 1" and ne: "e_items e \<noteq> []"
    and fits: "length v \<le> buf_len \<or> malloc_ok"
  shows "\<exists>r s'. mps_shdict_push_helper z d key vtype str num s = Some (r, s')
    \<and> (r = no_memory \<or>
        r = \<lparr>ps_rc = int (length (e_items e)) + 1, ps_err = None\<rparr>
        \<and> (\<exists>s'' D''. mps_shdict_pop_helper z d key buf_len malloc_ok s'
              = Some (item_result (item_of vtype v) buf_len malloc_ok, s'')
            \<and> \<not> held s'' \<and> holds z s'' D'' \<and> map_of D'' key = Some e))"
proof -
  let ?T = "dict_touch key (swept s D)" and ?x = "item_of vtype v"
  have live: "\<not> expired t e" for t using found(2) by (simp add: expired_def)
  from push_live [OF hold unheld val found(1) live len, of d] found(3) obtain r s' where
    r: "mps_shdict_push_helper z d key vtype str num s = Some (r, s')"
      "pushed z d key ?x s (length (e_items e)) ?T r s'" by auto
  show ?thesis
  proof (cases "r = no_memory")
    case False
    let ?D = "dict_push d key ?x ?T" and ?e = "e\<lparr>e_items := insert_at d ?x (e_items e)\<rparr>"
    have h: "holds z s' ?D" "\<not> held s'" "r = \<lparr>ps_rc = int (length (e_items e)) + 1, ps_err = None\<rparr>"
      using r(2) False by (auto simp: pushed_def)
    have "map_of ?T key = Some e" using found(1) by simp
    then have "map_of ?D key = Some ?e" by (simp add: map_of_dict_push)
    from swept_keeps [OF this _ holds_keys_distinct [OF h(1)], of s'] found(2)
    have m: "map_of (swept s' ?D) key = Some ?e" by simp
    have ok: "pp_rc (item_result ?x buf_len malloc_ok) = NGX_OK"
      using val fits by (auto simp: item_result_def item_of_def push_value_def pop_fail_def tags Let_def split: if_splits)
    have "pop_spec d key buf_len malloc_ok (time_nth s' 1) (swept s' ?D)
        = (item_result ?x buf_len malloc_ok, dict_items key (e_items e) (dict_touch key (swept s' ?D)))"
      using m ok ne found(2,3) by (simp add: pop_spec_def Let_def expired_def list_type_def end_insert)
    moreover have "map_of (dict_items key (e_items e) (dict_touch key (swept s' ?D))) key = Some e"
      using m by (simp add: dict_items_def dict_touch_def)
    ultimately show ?thesis using pop_refines [OF h(1,2), of d key buf_len malloc_ok] r(1) h(3) by auto
  qed (use r in auto)
qed

end
