(* ===== verification/ShdictIncrNew.thy ===== *)
theory ShdictIncrNew
  imports ShdictInsert
begin

text \<open>
  \<^verbatim>\<open>mps_shdict_incr\<close> with an initial value, for a key that is missing or has expired. The node of a new
  key is put into the tree before its key is copied, so the simulation needs that no other key of the
  dictionary has its hash (\<open>no_collision\<close>); the sources go wrong otherwise.
\<close>

definition no_collision :: "dict \<Rightarrow> byte list \<Rightarrow> bool" where
  "no_collision D key \<longleftrightarrow> (\<forall>k e. (k, e) \<in> set D \<longrightarrow> k \<noteq> key \<longrightarrow> ngx_murmur_hash2 k \<noteq> ngx_murmur_hash2 key)"

lemma no_collision_keep: "no_collision D key \<Longrightarrow> no_collision (keep_first D j) key"
  by (auto simp: no_collision_def keep_first_def dest: in_set_takeD)

lemma no_collision_del: "no_collision D key \<Longrightarrow> no_collision (dict_del k D) key"
  by (auto simp: no_collision_def dict_del_def)

text \<open>The label \<^verbatim>\<open>setvalue\<close>, as one update.\<close>

lemma incr_setvalue_eq:
  "incr_setvalue sd key num now init_ttl fc s =
     Some (\<lparr>ir_rc = NGX_OK, ir_value = Some num, ir_err = None, ir_forcible = fc\<rparr>,
       s\<lparr>user_flags := (user_flags s)(sd := 0),
         expires := (expires s)(sd := if init_ttl > 0 then now + of_int init_ttl else 0),
         value_type := (value_type s)(sd := of_int MPS_SHDICT_TNUMBER),
         bytes := write_bytes (bytes s) (sd_data sd) (key @ double_bytes num), held := False\<rparr>)"
  by (simp add: incr_setvalue_def set_user_flags_def set_expires_def set_value_type_def ngx_memcpy_def write_bytes_append
      mps_slab_unlock_def)

text \<open>The steps of the label \<^verbatim>\<open>insert\<close> once there is a block.\<close>

lemma ucast_u64_inj: "(ucast (a :: u32) :: u64) = ucast b \<longleftrightarrow> a = b"
proof
  assume "(ucast a :: u64) = ucast b"
  then have e: "bit (ucast a :: u64) i = bit (ucast b :: u64) i" for i by simp
  show "a = b"
  proof (rule bit_word_eqI)
    fix i assume "i < LENGTH(32)"
    then show "bit a i = bit b i" using e [of i] by (simp add: bit_ucast_iff)
  qed
qed simp

lemma incr_fill_ok:
  fixes key num now init_ttl fc p s
  assumes inv: "dict_inv s xs L V" and m: "mem_plus z s (set xs) V p n"
    and new: "map_of (dict_abs s V L) key = None" and nc: "no_collision (dict_abs s V L) key"
    and len: "length key < 2 ^ 16" and n: "node_header + length key + 8 \<le> n"
  defines "s1 \<equiv> set_value_len (sd_of_node p) 8 (set_key_len (sd_of_node p) (of_nat (length key))
      (set_node_key p (ucast (ngx_murmur_hash2 key)) s))"
  shows "\<exists>s'. do { s \<leftarrow> upd_tree (\<lambda>t. mps_rbtree_insert (node_key s1) t p) s1;
        let s = upd_links (mps_queue_insert_head (lru_queue s) (sd_queue (sd_of_node p))) s in
        incr_setvalue (sd_of_node p) key num now init_ttl fc s }
      = Some (\<lparr>ir_rc = NGX_OK, ir_value = Some num, ir_err = None, ir_forcible = fc\<rparr>, s')
    \<and> \<not> held s' \<and> clock s' = clock s
    \<and> holds z s' ((key, new_entry MPS_SHDICT_TNUMBER (double_bytes num) init_ttl 0 now) # dict_abs s V L)"
proof -
  let ?sd = "sd_of_node p"
  have s1: "s1 = s\<lparr>tree := set_key p (ucast (ngx_murmur_hash2 key)) (tree s),
      key_len := (key_len s)(?sd := of_nat (length key)), value_len := (value_len s)(?sd := 8)\<rparr>"
    by (simp add: s1_def set_value_len_def set_key_len_def set_node_key_def)
  have w1: "writes_node p n s1 s" by (simp add: writes_node_def s1)
  note wf = writes_node_funs [OF w1 m] and pn = mem_plus_node [OF m]
  have rbk: "rb_key (tree s) b \<noteq> ucast (ngx_murmur_hash2 key)" if "b \<in> set xs" for b
  proof -
    have "b \<in> set L" using inv that by (simp add: dict_inv_def)
    then have "(node_key s b, entry_at s V b) \<in> set (dict_abs s V L)" by (auto simp: dict_abs_def)
    moreover have "node_key s b \<noteq> key" using new map_of_dict_abs_None [OF inv] that by auto
    ultimately have "ngx_murmur_hash2 (node_key s b) \<noteq> ngx_murmur_hash2 key" using nc by (auto simp: no_collision_def)
    then show ?thesis using inv that by (auto simp: dict_inv_def ucast_u64_inj)
  qed
  have tr: "tree s1 = set_key p (ucast (ngx_murmur_hash2 key)) (tree s)" by (simp add: s1)
  have nk: "nkey (node_key s1) (tree s1) b \<noteq> nkey (node_key s1) (tree s1) p" if "b \<in> set xs" for b
    using rbk [OF that] pn(1) that by (auto simp: nkey_def tr)
  from tree_insert_ok [OF inv pn(1,2) tr wf(1) nk] obtain t' ys where t': "mps_rbtree_insert (node_key s1) (tree s1) p = Some t'"
    "index_rep (node_key s1) t' ys" "set ys = insert p (set xs)" "rb_key t' = rb_key (tree s1)"
    "rb_sentinel t' = rb_sentinel (tree s)" by blast
  define m1 where "m1 = mps_queue_insert_head (lru_queue s) (node_link p) (links s)"
  define s' where "s' = s1\<lparr>tree := t', links := m1, user_flags := (user_flags s)(?sd := 0),
         expires := (expires s)(?sd := if init_ttl > 0 then now + of_int init_ttl else 0),
         value_type := (value_type s)(?sd := of_int MPS_SHDICT_TNUMBER),
         bytes := write_bytes (bytes s) (sd_data ?sd) (key @ double_bytes num), held := False\<rparr>"
  have run: "do { s \<leftarrow> upd_tree (\<lambda>t. mps_rbtree_insert (node_key s1) t p) s1;
        let s = upd_links (mps_queue_insert_head (lru_queue s) (sd_queue ?sd)) s in
        incr_setvalue ?sd key num now init_ttl fc s }
      = Some (\<lparr>ir_rc = NGX_OK, ir_value = Some num, ir_err = None, ir_forcible = fc\<rparr>, s')"
    using t'(1) by (simp add: upd_tree_def incr_setvalue_eq s'_def s1 m1_def upd_links_def lru_queue_def)
  have kl: "unat (of_nat (length key) :: u16) = length key" using len by (simp add: unat_of_nat_less)
  have f: "tree s' = t'" "links s' = m1" "key_len s' = (key_len s)(?sd := of_nat (length key))" "value_len s' = (value_len s)(?sd := 8)"
    "value_type s' = (value_type s)(?sd := 3)" "bytes s' = write_bytes (bytes s) (sd_data ?sd) (key @ double_bytes num)"
    by (simp_all add: s'_def s1 tags)
  have b: "read_bytes (bytes s') (sd_data ?sd) (length key) = key"
    "read_bytes (bytes s') (sd_data ?sd + length key) 8 = double_bytes num"
    using read_write_same [of "bytes s" "sd_data ?sd" "key @ double_bytes num"] by (simp_all add: f read_bytes_append)
  have nl: "\<not> is_list s' p" by (simp add: is_list_def f tags)
  have nkp: "node_key s' p = key" using b(1) by (simp add: node_key_def sd_key_def f kl)
  have w: "writes_node p n s' s" using n by (auto simp: writes_node_def s'_def s1 write_bytes_outside offsets)
  note wf' = writes_node_funs [OF w m]
  have "index_rep (node_key s') t' ys"
  proof (rule index_rep_late_key [OF t'(2)])
    show "p \<in> set ys" using t'(3) by simp
    fix b assume "b \<in> set ys" "b \<noteq> p"
    then have b: "b \<in> set xs" using t'(3) by simp
    then show "node_key s' b = node_key s1 b" by (simp add: wf(1) wf'(1))
    show "rb_key t' b \<noteq> rb_key t' p" using rbk [OF b] \<open>b \<noteq> p\<close> by (simp add: t'(4) tr)
  qed
  note na = node_added [OF inv m w this [folded f(1)] t'(3)]
  have "rb_key (tree s') b = rb_key (tree s) b" if "b \<in> set xs" for b using that pn(1) by (auto simp: f t'(4) tr)
  note na = na [OF this]
  have "rb_key (tree s') p = ucast (ngx_murmur_hash2 (node_key s' p))" by (simp add: f t'(4) tr nkp)
  note na = na [OF _ this]
  have nh: "node_header \<le> n" using n by simp
  note il = insert_links_ok [OF inv m nh same_links_refl, folded m1_def]
  have "rb_sentinel (tree s') = rb_sentinel (tree s)" "dll (links s') (lru_queue s) (node_link p # map node_link L)"
    using t'(5) il(1) by (simp_all add: f)
  note na = na [OF _ this]
  have "dll (links s') (list_head s b) (V b)" if "b \<in> set xs" "is_list s b" for b using il(2) [OF that] by (simp add: f)
  note na = na [OF _ this]
  have "node_room s' p \<le> n" using n nl by (simp add: node_room_def f kl)
  note na = na [OF _ _ _ this]
  have pi: "pool_inv z s' ys (p # L) V" "dict_abs s' V (p # L) = (node_key s' p, entry_at s' V p) # dict_abs s V L"
    using na nl by blast+
  have "entry_at s' V p = new_entry MPS_SHDICT_TNUMBER (double_bytes num) init_ttl 0 now"
    using nl b(2) by (simp add: entry_at_def new_entry_def sd_value_def f kl tags) (simp add: s'_def)
  then have "holds z s' ((key, new_entry MPS_SHDICT_TNUMBER (double_bytes num) init_ttl 0 now) # dict_abs s V L)"
    using pi nkp by (metis holdsI)
  moreover have "\<not> held s'" "clock s' = clock s" by (simp_all add: s'_def s1)
  ultimately show ?thesis using run by blast
qed

subsection \<open>Increment of a new key\<close>

text \<open>What the call has done, from the dictionary without the key.\<close>

definition counted :: "slab_sizes \<Rightarrow> byte list \<Rightarrow> u64 \<Rightarrow> u64 \<Rightarrow> int \<Rightarrow> shm \<Rightarrow> dict \<Rightarrow> incr_result \<Rightarrow> shm \<Rightarrow> bool" where
  "counted z key num now init_ttl s D r s' \<longleftrightarrow> \<not> held s' \<and> clock s' = clock s \<and> (\<exists>j.
     r = \<lparr>ir_rc = NGX_OK, ir_value = Some num, ir_err = None, ir_forcible = 0 < j\<rparr> \<and> made_room D 0 j
       \<and> holds z s' ((key, new_entry MPS_SHDICT_TNUMBER (double_bytes num) init_ttl 0 now) # keep_first D j)
     \<or> r = \<lparr>ir_rc = NGX_ERROR, ir_value = None, ir_err = Some ''no memory'', ir_forcible = 0 < j\<rparr> \<and> gave_up D 0 j
       \<and> holds z s' (keep_first D j))"

lemma counted_clock: "counted z key num now init_ttl s1 D r s' \<Longrightarrow> clock s1 = clock s \<Longrightarrow> counted z key num now init_ttl s D r s'"
  by (simp add: counted_def)

lemma incr_insert_ok:
  assumes hold: "holds z s D" and new: "map_of D key = None" and nc: "no_collision D key" and len: "length key < 2 ^ 16"
  shows "\<exists>r s'. incr_insert z key (ngx_murmur_hash2 key) num now init_ttl s = Some (r, s')
    \<and> counted z key num now init_ttl s D r s'"
proof -
  define n where "n = node_header + length key + 8"
  have n: "int_size (node_header + length key + 8) = n" using len by (subst int_size_small) (simp_all add: n_def offsets)
  note d = incr_insert_def [of z key "ngx_murmur_hash2 key" num now init_ttl s, unfolded Let_def n]
  have fill: "\<exists>s'. do { s \<leftarrow> upd_tree (\<lambda>t. mps_rbtree_insert (node_key s2) t p) s2;
        incr_setvalue (sd_of_node p) key num now init_ttl fc
          (upd_links (mps_queue_insert_head (lru_queue s) (sd_queue (sd_of_node p))) s) }
      = Some (\<lparr>ir_rc = NGX_OK, ir_value = Some num, ir_err = None, ir_forcible = fc\<rparr>, s')
      \<and> \<not> held s' \<and> clock s' = clock s
      \<and> holds z s' ((key, new_entry MPS_SHDICT_TNUMBER (double_bytes num) init_ttl 0 now) # keep_first D j)"
    if "holds_plus z s1 (keep_first D j) p n" "clock s1 = clock s"
      "s2 = set_value_len (sd_of_node p) 8 (set_key_len (sd_of_node p) (of_nat (length key))
        (set_node_key p (ucast (ngx_murmur_hash2 key)) s1))" for p s1 s2 j fc
  proof -
    from that(1) obtain xs L V where h: "dict_inv s1 xs L V" "mem_plus z s1 (set xs) V p n" "keep_first D j = dict_abs s1 V L"
      by (auto simp: holds_plus_def)
    have "map_of (dict_abs s1 V L) key = None" using new map_of_take_None [of D key "length D - j"] h(3) by (simp add: keep_first_def)
    moreover have "no_collision (dict_abs s1 V L) key" using no_collision_keep [OF nc, of j] h(3) by simp
    ultimately show ?thesis
      using incr_fill_ok [OF h(1,2) _ _ len, where num = num and init_ttl = init_ttl and fc = fc and now = now] that(2) h(3) unfolding that(3) Let_def n_def by simp
  qed
  from holds_alloc [OF hold, of n] obtain p s1 where a: "shm_alloc_locked z n s = Some (p, s1)" "s1 = s\<lparr>slab := slab s1\<rparr>"
    "if p = mps_nulloff then holds z s1 D else holds_plus z s1 D p n" by blast
  have f1: "clock s1 = clock s" by (subst a(2), simp)
  show ?thesis
  proof (cases "p = mps_nulloff")
    case False
    then have "holds_plus z s1 (keep_first D 0) p n" using a(3) by simp
    from fill [OF this f1 refl, of False] obtain s' where s': "\<not> held s'" "clock s' = clock s"
      "holds z s' ((key, new_entry MPS_SHDICT_TNUMBER (double_bytes num) init_ttl 0 now) # keep_first D 0)"
      "incr_insert z key (ngx_murmur_hash2 key) num now init_ttl s
        = Some (\<lparr>ir_rc = NGX_OK, ir_value = Some num, ir_err = None, ir_forcible = 0 < (0 :: nat)\<rparr>, s')"
      using a(1) False by (auto simp: d)
    moreover have "made_room D 0 0" by (simp add: made_room_def)
    ultimately show ?thesis unfolding counted_def by metis
  next
    case True
    then have h1: "holds z s1 D" using a(3) by simp
    from alloc_evicting_ok [OF h1, of 30 n False] obtain q fc s2 j where
      e: "alloc_evicting 30 z n False s1 = Some (q, fc, s2)" "j \<le> length D" "fc = (0 < j)" "clock s2 = clock s1"
        "if q = mps_nulloff then holds z s2 (keep_first D j) \<and> (j = length D \<or> 30 \<le> j)
         else 0 < j \<and> holds_plus z s2 (keep_first D j) q n" by auto
    have mr: "made_room D 0 j" using e(2) by (simp add: made_room_def)
    show ?thesis
    proof (cases "q = mps_nulloff")
      case q: True
      then have "incr_insert z key (ngx_murmur_hash2 key) num now init_ttl s
          = Some (\<lparr>ir_rc = NGX_ERROR, ir_value = None, ir_err = Some ''no memory'', ir_forcible = 0 < j\<rparr>, mps_slab_unlock s2)"
        using a(1) True e(1,3) by (simp add: d)
      moreover have "gave_up D 0 j" "holds z (mps_slab_unlock s2) (keep_first D j)" "clock (mps_slab_unlock s2) = clock s"
        using mr e(4,5) f1 q by (simp_all add: gave_up_def)
      ultimately show ?thesis unfolding counted_def by (metis unlock_sel(1))
    next
      case q: False
      with e(5) have hp: "holds_plus z s2 (keep_first D j) q n" by simp
      have "clock s2 = clock s" using e(4) f1 by simp
      from fill [OF hp this refl, of fc] obtain s' where s': "\<not> held s'" "clock s' = clock s"
        "holds z s' ((key, new_entry MPS_SHDICT_TNUMBER (double_bytes num) init_ttl 0 now) # keep_first D j)"
        "incr_insert z key (ngx_murmur_hash2 key) num now init_ttl s
          = Some (\<lparr>ir_rc = NGX_OK, ir_value = Some num, ir_err = None, ir_forcible = 0 < j\<rparr>, s')"
        using a(1) True e(1,3) q by (auto simp: d)
      then show ?thesis using mr unfolding counted_def by metis
    qed
  qed
qed

text \<open>The memory of an expired entry is used again if it held an 8-byte value.\<close>

lemma write_bytes_same_prefix:
  "read_bytes m p (length k) = k \<Longrightarrow> write_bytes m p (k @ v) = write_bytes m (p + length k) v"
  using write_read_bytes [of m p "length k"] write_bytes_append [of m p k v] by simp

lemma incr_reuse_ok:
  assumes pinv: "pool_inv z s xs (a # L) V" and nl: "\<not> is_list s a" and len: "value_len s (sd_of_node a) = 8"
    and key: "key = node_key s a"
  shows "\<exists>s'. incr_setvalue (sd_of_node a) key num now init_ttl False (lru_touch (sd_of_node a) s)
      = Some (\<lparr>ir_rc = NGX_OK, ir_value = Some num, ir_err = None, ir_forcible = False\<rparr>, s')
    \<and> \<not> held s' \<and> clock s' = clock s
    \<and> holds z s' (dict_set key (new_entry MPS_SHDICT_TNUMBER (double_bytes num) init_ttl 0 now) (dict_abs s V (a # L)))"
proof -
  let ?sd = "sd_of_node a" and ?t = "lru_touch (sd_of_node a) s" and ?v = "double_bytes num"
  note m = move_head_again [OF pinv]
  note f = same_data_funs [OF m(3)] m(3) [unfolded same_data_def]
  define s' where "s' = ?t\<lparr>user_flags := (user_flags ?t)(?sd := 0),
       expires := (expires ?t)(?sd := if init_ttl > 0 then now + of_int init_ttl else 0),
       value_type := (value_type ?t)(?sd := of_int MPS_SHDICT_TNUMBER),
       bytes := write_bytes (bytes ?t) (sd_data ?sd) (key @ ?v), held := False\<rparr>"
  have kr: "read_bytes (bytes ?t) (sd_data ?sd) (length key) = key" using f by (simp add: key node_key_def sd_key_def)
  have sf: "tree s' = tree ?t" "links s' = links ?t" "key_len s' = key_len ?t" "value_len s' = value_len ?t" "slab s' = slab ?t"
    "lnode_value_len s' = lnode_value_len ?t" "lnode_value_type s' = lnode_value_type ?t"
    "value_type s' = (value_type ?t)(?sd := 3)"
    "expires s' = (expires ?t)(?sd := if init_ttl > 0 then now + of_int init_ttl else 0)" "user_flags s' = (user_flags ?t)(?sd := 0)"
    "bytes s' = write_bytes (bytes ?t) (sd_data ?sd + length key) ?v"
    by (simp_all add: s'_def tags write_bytes_same_prefix [OF kr])
  have kl: "length key = unat (key_len ?t ?sd)" using f by (simp add: key)
  have nt: "\<not> is_list ?t a" "\<not> is_list s' a" using nl f by (simp, simp add: is_list_def sf tags)
  have o: "overwrites a ?v s' ?t"
    unfolding overwrites_def using nt len f kl by (simp add: sf)
  have "a \<in> set xs" using pool_invD(1) [OF pinv] by (auto simp: dict_inv_def)
  note w = overwrites_ok [OF o m(1)] overwrites_funs [OF o pool_invD(1) [OF m(1)] this]
  have "entry_at s' V a = new_entry MPS_SHDICT_TNUMBER ?v init_ttl 0 now"
  proof (rule entry.equality)
    show "e_bytes (entry_at s' V a) = e_bytes (new_entry MPS_SHDICT_TNUMBER ?v init_ttl 0 now)"
      "e_items (entry_at s' V a) = e_items (new_entry MPS_SHDICT_TNUMBER ?v init_ttl 0 now)"
      using w by (simp_all add: new_entry_def)
  qed (simp_all add: entry_at_def new_entry_def sf tags)
  then have "dict_abs s' V (a # L) = dict_set key (new_entry MPS_SHDICT_TNUMBER ?v init_ttl 0 now) (dict_abs s V (a # L))"
    using w(2) m(2) f key by simp
  then have "holds z s' (dict_set key (new_entry MPS_SHDICT_TNUMBER ?v init_ttl 0 now) (dict_abs s V (a # L)))"
    using w(1) by (metis holdsI)
  moreover have "\<not> held s'" "clock s' = clock s" using m(4) by (simp_all add: s'_def)
  ultimately show ?thesis unfolding incr_setvalue_eq s'_def by blast
qed

lemma incr_creates:
  assumes hold: "holds z s D" and unheld: "\<not> held s" and s0: "s0 = incr_start init_ttl s"
    and found: "\<And>e. map_of (swept s0 D) key = Some e \<Longrightarrow> expired (time_nth s0 1) e"
    and nc: "no_collision (swept s0 D) key" and len: "length key < 2 ^ 16"
  shows "\<exists>r s'. mps_shdict_incr fadd z key val True init init_ttl s = Some (r, s')
    \<and> counted z key (fadd val init) (if init_ttl > 0 then time_of s else 0) init_ttl s (dict_del key (swept s0 D)) r s'"
proof -
  let ?D = "dict_del key (swept s0 D)" and ?h = "ucast (ngx_murmur_hash2 key)" and ?num = "fadd val init"
  let ?now = "if init_ttl > 0 then time_of s else 0"
  have hold0: "holds z s0 D" and unheld0: "\<not> held s0" using hold unheld s0 incr_start_ok by auto
  have c0: "clock s0 = clock s" by (simp add: s0 incr_start_def)
  obtain s1 xs L V fr where p: "pool_inv z s1 xs L V" "swept s0 D = dict_abs s1 V L" "clock s1 = clock s0"
    "time_of s1 = time_nth s0 1" "mps_slab_lock s0 = Some (s0\<lparr>held := True\<rparr>)"
    "mps_shdict_expire z 1 (s0\<lparr>held := True\<rparr>) = Some (fr, s1)"
    using prefix_more [OF hold0 unheld0] by blast
  note run = mps_shdict_incr_def [of fadd z key val True init init_ttl s, unfolded incr_start_ok(3) s0 [symmetric] Let_def prod.case]
  have nodel: "map_of ?D key = None" by (simp add: map_of_dict_del)
  have ins: "\<exists>r s'. incr_insert z key (ngx_murmur_hash2 key) ?num ?now init_ttl s2 = Some (r, s')
      \<and> counted z key ?num ?now init_ttl s ?D r s'" if "holds z s2 ?D" "clock s2 = clock s" for s2
    using incr_insert_ok [OF that(1) nodel no_collision_del [OF nc] len, of ?num ?now init_ttl] counted_clock [OF _ that(2)] by blast
  show ?thesis
  proof (cases "map_of (swept s0 D) key")
    case None
    then have "mps_shdict_lookup ?h key s1 = Some (NGX_DECLINED, None, s1)" using lookup_ok [OF p(1), of key] p(2) by simp
    moreover have "holds z s1 ?D" using p(1,2) None by (metis dict_del_absent holdsI)
    ultimately show ?thesis using ins [of s1] p(3,5,6) c0 unfolding run by simp
  next
    case (Some e)
    then have m: "map_of (dict_abs s1 V L) key = Some e" and ex: "expired (time_of s1) e" using p(2,4) found by simp_all
    from lookup_ok [OF p(1), of key] obtain a s2 where
      lk: "mps_shdict_lookup ?h key s1 = Some (NGX_DONE, Some (sd_of_node a), s2)" "looked_up z s1 key xs L V a s2"
      unfolding m using ex by auto
    note t = looked_up_touch [OF lk(2)]
    have c2: "clock s2 = clock s" using lk(2) p(3) c0 by (auto simp: looked_up_def)
    show ?thesis
    proof (cases "value_len s2 (sd_of_node a) = 8 \<and> uint (value_type s2 (sd_of_node a)) \<noteq> MPS_SHDICT_TLIST")
      case True
      then have nl: "\<not> is_list s2 a" by (simp add: is_list_def)
      from incr_reuse_ok [OF t(1) nl _ t(2) [symmetric], of ?num ?now init_ttl] True obtain s' where
        s': "incr_setvalue (sd_of_node a) key ?num ?now init_ttl False (lru_touch (sd_of_node a) s2)
            = Some (\<lparr>ir_rc = NGX_OK, ir_value = Some ?num, ir_err = None, ir_forcible = False\<rparr>, s')"
          "\<not> held s'" "clock s' = clock s2"
          "holds z s' (dict_set key (new_entry MPS_SHDICT_TNUMBER (double_bytes ?num) init_ttl 0 ?now)
             (dict_abs s2 V (a # remove1 a L)))" by blast
      have "made_room ?D 0 0" by (simp add: made_room_def)
      then have "counted z key ?num ?now init_ttl s ?D
          \<lparr>ir_rc = NGX_OK, ir_value = Some ?num, ir_err = None, ir_forcible = 0 < (0 :: nat)\<rparr> s'"
        unfolding counted_def using s'(2-4) c2 t(3) p(2) by (auto simp: dict_set_def dict_del_touch)
      then show ?thesis using lk(1) p(5,6) True s'(1) unfolding run by simp
    next
      case False
      from remove_entry_ok [OF t(1) t(7), of "length key"] t(2) obtain s3 where
        s3: "remove_entry z (sd_of_node a) (length key) s2 = Some s3"
          "pool_inv z s3 (remove1 a xs) (remove1 a (a # remove1 a L)) V"
          "dict_abs s3 V (remove1 a (a # remove1 a L)) = ?D" "clock s3 = clock s2"
        using t(3) p(2) dict_del_touch by auto
      then have "holds z s3 ?D" by (metis holdsI)
      with ins [of s3] s3 c2 False lk(1) p(5,6) show ?thesis unfolding run by auto
    qed
  qed
qed

end
