(* ===== verification/ShdictCalls.thy ===== *)
theory ShdictCalls
  imports ShdictPop ShdictIncrNew
begin

text \<open>
  Sequences of calls. \<open>run_call\<close> is one call of the API on a pool, its results dropped; \<open>dict_ok K n D\<close>
  is the type invariant of the dictionary: every key is in \<open>K\<close>, every value has a type the code knows with
  the length its readers check for, and every list has at least one and at most \<open>n\<close> items, each of a type
  that pop hands out. No sequence of calls gets stuck or leaves the invariants.
\<close>

subsection \<open>Well-typed dictionaries\<close>

definition item_ok :: "byte \<times> byte list \<Rightarrow> bool" where
  "item_ok x \<longleftrightarrow> uint (fst x) = MPS_SHDICT_TSTRING \<or> uint (fst x) = MPS_SHDICT_TNUMBER \<and> length (snd x) = 8"

definition scalar_ok :: "int \<Rightarrow> byte list \<Rightarrow> bool" where
  "scalar_ok t v \<longleftrightarrow> t = MPS_SHDICT_TSTRING \<or> t = MPS_SHDICT_TNUMBER \<and> length v = 8
     \<or> t = MPS_SHDICT_TBOOLEAN \<and> length v = 1"

definition entry_ok :: "nat \<Rightarrow> entry \<Rightarrow> bool" where
  "entry_ok n e \<longleftrightarrow>
     (if list_type e then e_items e \<noteq> [] \<and> length (e_items e) \<le> n \<and> list_all item_ok (e_items e)
      else e_items e = [] \<and> scalar_ok (uint (e_type e)) (e_bytes e))"

definition dict_ok :: "byte list set \<Rightarrow> nat \<Rightarrow> dict \<Rightarrow> bool" where
  "dict_ok K n D \<longleftrightarrow> (\<forall>(k, e) \<in> set D. k \<in> K \<and> entry_ok n e)"

lemma entry_ok_mono: "entry_ok n e \<Longrightarrow> n \<le> m \<Longrightarrow> entry_ok m e"
  by (auto simp: entry_ok_def split: if_splits)

lemma dict_ok_mono: "dict_ok K n D \<Longrightarrow> n \<le> m \<Longrightarrow> dict_ok K m D"
  by (auto simp: dict_ok_def intro: entry_ok_mono)

lemma dict_ok_simps [simp]: "dict_ok K n []" "dict_ok K n ((k, e) # D) \<longleftrightarrow> k \<in> K \<and> entry_ok n e \<and> dict_ok K n D"
  by (auto simp: dict_ok_def)

lemma dict_ok_subset: "dict_ok K n D \<Longrightarrow> set D' \<subseteq> set D \<Longrightarrow> dict_ok K n D'"
  by (auto simp: dict_ok_def)

lemma dict_ok_found: "dict_ok K n D \<Longrightarrow> map_of D k = Some e \<Longrightarrow> k \<in> K \<and> entry_ok n e"
  by (auto simp: dict_ok_def dest: map_of_SomeD)

lemma dict_ok_keep: "dict_ok K n D \<Longrightarrow> dict_ok K n (keep_first D j)"
  by (rule dict_ok_subset) (auto simp: keep_first_def dest: in_set_takeD)

lemma dict_ok_swept: "dict_ok K n D \<Longrightarrow> dict_ok K n (swept s D)"
  by (simp add: swept_def dict_ok_keep)

lemma dict_ok_del: "dict_ok K n D \<Longrightarrow> dict_ok K n (dict_del k D)"
  by (rule dict_ok_subset) (auto simp: dict_del_def)

lemma dict_ok_touch: "dict_ok K n D \<Longrightarrow> dict_ok K n (dict_touch k D)"
  by (rule dict_ok_subset) (auto simp: dict_touch_def dict_del_def dest: map_of_SomeD split: option.split)

lemma dict_ok_set: "dict_ok K n D \<Longrightarrow> k \<in> K \<Longrightarrow> entry_ok n e \<Longrightarrow> dict_ok K n (dict_set k e D)"
  by (simp add: dict_set_def dict_ok_del)

lemma entry_ok_expires [simp]: "entry_ok n (e\<lparr>e_expires := t\<rparr>) = entry_ok n e"
  by (simp add: entry_ok_def list_type_def)

lemma dict_ok_expires: "dict_ok K n D \<Longrightarrow> dict_ok K n (dict_set_expires k t D)" "dict_ok K n D \<Longrightarrow> dict_ok K n (map stale D)"
  by (auto simp: dict_ok_def dict_set_expires_def stale_def)

lemma dict_ok_push:
  assumes "dict_ok K n D" "item_ok x" "\<And>e. (k, e) \<in> set D \<Longrightarrow> list_type e"
  shows "dict_ok K (Suc n) (dict_push d k x D)"
proof -
  have "entry_ok (Suc n) (e\<lparr>e_items := insert_at d x (e_items e)\<rparr>)" if "(k, e) \<in> set D" for e
    using assms that by (fastforce simp: entry_ok_def list_type_def dict_ok_def list_all_iff)
  moreover have "entry_ok (Suc n) e \<and> k' \<in> K" if "(k', e) \<in> set D" for k' e
    using assms(1) that by (auto simp: dict_ok_def intro: entry_ok_mono)
  ultimately show ?thesis by (fastforce simp: dict_ok_def dict_push_def)
qed

lemma set_rest_of: "set (rest_of d xs) \<subseteq> set xs"
  by (cases xs) (auto simp: rest_of_def dest: in_set_butlastD)

lemma dict_ok_items:
  assumes "dict_ok K n D" "\<And>e. (k, e) \<in> set D \<Longrightarrow> list_type e" "is \<noteq> []" "length is \<le> n" "list_all item_ok is"
  shows "dict_ok K n (dict_items k is D)"
proof -
  have "entry_ok n (e\<lparr>e_items := is\<rparr>)" if "(k, e) \<in> set D" for e
    using assms(2) [OF that] assms(3-5) by (simp add: entry_ok_def list_type_def)
  then show ?thesis using assms(1) by (fastforce simp: dict_ok_def dict_items_def)
qed

lemma holds_unique: "holds z s D \<Longrightarrow> map_of D k = Some e \<Longrightarrow> (k, e') \<in> set D \<Longrightarrow> e' = e"
  using holds_keys_distinct [of z s D] by (metis map_of_eq_Some_iff option.inject)

subsection \<open>Calls\<close>

datatype call =
    Get "byte list" nat bool bool
  | Store nat "byte list" int "byte list option" u64 int u32
  | Incr "byte list" u64 bool u64 int
  | Flush_all
  | Get_ttl "byte list"
  | Set_expire "byte list" int
  | Push nat "byte list" int "byte list" u64
  | Pop nat "byte list" nat bool
  | Llen "byte list"
  | Free_space

primrec run_call :: "(u64 \<Rightarrow> u64 \<Rightarrow> u64) \<Rightarrow> slab_sizes \<Rightarrow> call \<Rightarrow> shm \<Rightarrow> shm option" where
  "run_call fadd z (Get key n st ok) s = map_option snd (mps_shdict_get key n st ok s)"
| "run_call fadd z (Store op key vtype str num exptime flags) s =
     map_option snd (mps_shdict_store z op key vtype str num exptime flags s)"
| "run_call fadd z (Incr key val has_init init init_ttl) s =
     map_option snd (mps_shdict_incr fadd z key val has_init init init_ttl s)"
| "run_call fadd z Flush_all s = map_option snd (mps_shdict_flush_all z s)"
| "run_call fadd z (Get_ttl key) s = map_option snd (mps_shdict_get_ttl key s)"
| "run_call fadd z (Set_expire key exptime) s = map_option snd (mps_shdict_set_expire key exptime s)"
| "run_call fadd z (Push d key vtype str num) s = map_option snd (mps_shdict_push_helper z d key vtype str num s)"
| "run_call fadd z (Pop d key n ok) s = map_option snd (mps_shdict_pop_helper z d key n ok s)"
| "run_call fadd z (Llen key) s = map_option snd (mps_shdict_llen z key s)"
| "run_call fadd z Free_space s = map_option snd (mps_shdict_free_space z s)"

fun run_calls :: "(u64 \<Rightarrow> u64 \<Rightarrow> u64) \<Rightarrow> slab_sizes \<Rightarrow> call list \<Rightarrow> shm \<Rightarrow> shm option" where
  "run_calls fadd z [] s = Some s"
| "run_calls fadd z (c # cs) s = do { s \<leftarrow> run_call fadd z c s; run_calls fadd z cs s }"

text \<open>
  The arguments the model is about: the key's length fits its 16-bit member, and the sizes that are
  computed in \<^verbatim>\<open>int\<close> do not overflow.
\<close>

definition small :: "byte list \<Rightarrow> byte list \<Rightarrow> bool" where
  "small key v \<longleftrightarrow> length key + length v < 2 ^ 30"

fun call_ok :: "byte list set \<Rightarrow> call \<Rightarrow> bool" where
  "call_ok K (Store op key vtype str num exptime flags) \<longleftrightarrow> key \<in> K \<and> (case str of None \<Rightarrow> True | Some v \<Rightarrow> small key v)"
| "call_ok K (Incr key val has_init init init_ttl) \<longleftrightarrow> key \<in> K"
| "call_ok K (Push d key vtype str num) \<longleftrightarrow> key \<in> K \<and> small key str"
| "call_ok K c \<longleftrightarrow> True"

text \<open>Keys of a length the pool can record, no two of which have one hash.\<close>

definition keys_ok :: "byte list set \<Rightarrow> bool" where
  "keys_ok K \<longleftrightarrow> (\<forall>k \<in> K. length k < 2 ^ 16) \<and> inj_on ngx_murmur_hash2 K"

definition runs_to :: "slab_sizes \<Rightarrow> byte list set \<Rightarrow> nat \<Rightarrow> shm option \<Rightarrow> bool" where
  "runs_to z K n r \<longleftrightarrow> (\<exists>s D. r = Some s \<and> holds z s D \<and> \<not> held s \<and> dict_ok K n D)"

lemma runs_toI: "f = Some (r, s) \<Longrightarrow> holds z s D \<Longrightarrow> \<not> held s \<Longrightarrow> dict_ok K n D \<Longrightarrow> runs_to z K n (map_option snd f)"
  by (auto simp: runs_to_def)

subsection \<open>Store\<close>

text \<open>A store of no value, which is how a key is deleted.\<close>

lemma store_nothing:
  assumes hold: "holds z s D" and unheld: "\<not> held s"
    and val: "store_value op vtype str num = Inr None"
    and found: "found = map_of (swept s D) key"
    and rc: "rc = (case found of None \<Rightarrow> NGX_DECLINED | Some e \<Rightarrow> if expired (time_nth s 1) e then NGX_DONE else NGX_OK)"
    and disp: "\<And>msg. store_dispatch op vtype rc \<noteq> Refuse msg"
  shows "\<exists>s'. mps_shdict_store z op key vtype str num exptime flags s
      = Some (\<lparr>st_rc = NGX_OK, st_err = None, st_forcible = False\<rparr>, s')
    \<and> holds z s' (dict_del key (swept s D)) \<and> \<not> held s'"
proof -
  obtain s1 xs L V fr where p: "pool_inv z s1 xs L V" "swept s D = dict_abs s1 V L" "time_of s1 = time_nth s 1"
    "mps_slab_lock s = Some (s\<lparr>held := True\<rparr>)" "mps_shdict_expire z 1 (s\<lparr>held := True\<rparr>) = Some (fr, s1)"
    using prefix_more [OF hold unheld] by blast
  let ?h = "ucast (ngx_murmur_hash2 key)"
  note run = mps_shdict_store_def [of z op key vtype str num exptime flags s, unfolded Let_def val sum.case]
  show ?thesis
  proof (cases found)
    case None
    then have lk: "mps_shdict_lookup ?h key s1 = Some (rc, None, s1)" using lookup_ok [OF p(1), of key] found rc p(2) by simp
    have "store_dispatch op vtype rc = Insert"
      using disp None rc store_dispatch_cases(1) [of op vtype] by auto
    then have "mps_shdict_store z op key vtype str num exptime flags s
        = Some (\<lparr>st_rc = NGX_OK, st_err = None, st_forcible = False\<rparr>, mps_slab_unlock s1)"
      using lk p(4,5) unfolding run by (simp add: store_insert_def)
    moreover have "holds z s1 (swept s D)" using p(1,2) by (metis holdsI)
    ultimately show ?thesis using None found by (simp add: dict_del_absent)
  next
    case (Some e)
    then have m: "map_of (dict_abs s1 V L) key = Some e" using found p(2) by simp
    from lookup_ok [OF p(1), of key] obtain a s2 where
      lk: "mps_shdict_lookup ?h key s1 = Some (rc, Some (sd_of_node a), s2)" "looked_up z s1 key xs L V a s2"
      unfolding m rc Some p(3) by auto
    note t = looked_up_touch [OF lk(2)]
    from remove_entry_ok [OF t(1) t(7), of "length key"] t(2) obtain s3 where
      s3: "remove_entry z (sd_of_node a) (length key) s2 = Some s3"
        "pool_inv z s3 (remove1 a xs) (remove1 a (a # remove1 a L)) V"
        "dict_abs s3 V (remove1 a (a # remove1 a L)) = dict_del key (swept s D)"
      using t(3) p(2) dict_del_touch by auto
    have "store_dispatch op vtype rc \<in> {Remove, Replace}"
      using disp [of "''not found''"] disp [of "''exists''"] rc Some by (auto simp: store_dispatch_def split: if_splits)
    then have "mps_shdict_store z op key vtype str num exptime flags s
        = Some (\<lparr>st_rc = NGX_OK, st_err = None, st_forcible = False\<rparr>, mps_slab_unlock s3)"
      using lk(1) s3(1) p(4,5) unfolding run by (auto simp: store_insert_def)
    moreover have "holds z s3 (dict_del key (swept s D))" using s3(2,3) by (metis holdsI)
    ultimately show ?thesis by simp
  qed
qed

lemma new_entry_ok:
  assumes "store_value op vtype str num = Inr (Some v)"
  shows "entry_ok n (new_entry vtype v exptime flags now)"
  using assms by (auto simp: entry_ok_def new_entry_def list_type_def scalar_ok_def store_value_def tags split: if_splits)

lemma store_runs:
  assumes hold: "holds z s D" and unheld: "\<not> held s" and ok: "dict_ok K n D" and K: "keys_ok K"
    and call: "call_ok K (Store op key vtype str num exptime flags)"
  shows "runs_to z K n (run_call fadd z (Store op key vtype str num exptime flags) s)"
proof -
  let ?S = "swept s D"
  define rc where "rc = (case map_of ?S key of None \<Rightarrow> NGX_DECLINED
    | Some e \<Rightarrow> if expired (time_nth s 1) e then NGX_DONE else NGX_OK)"
  have key: "key \<in> K" "length key < 2 ^ 16" using call K by (auto simp: keys_ok_def)
  note oks = dict_ok_swept [OF ok, of s]
  consider msg where "store_value op vtype str num = Inl msg"
    | v msg where "store_value op vtype str num = Inr v" "store_dispatch op vtype rc = Refuse msg"
    | "store_value op vtype str num = Inr None" "\<And>msg. store_dispatch op vtype rc \<noteq> Refuse msg"
    | v where "store_value op vtype str num = Inr (Some v)" "\<And>msg. store_dispatch op vtype rc \<noteq> Refuse msg"
    by (metis old.sum.exhaust option.exhaust)
  then show ?thesis
  proof cases
    case 1
    then show ?thesis using hold unheld ok by (auto simp: mps_shdict_store_def runs_to_def)
  next
    case 2
    from store_refused [OF hold unheld 2(1) refl rc_def 2(2), of exptime flags] show ?thesis
      using dict_ok_touch [OF oks, of key] by (auto simp: runs_to_def)
  next
    case 3
    from store_nothing [OF hold unheld 3(1) refl rc_def 3(2), of exptime flags] show ?thesis
      using dict_ok_del [OF oks, of key] by (auto simp: runs_to_def)
  next
    case 4
    have "length v \<le> 8 \<or> str = Some v" using 4(1) by (auto simp: store_value_def split: if_splits)
    then have "node_header + length key + length v < 2 ^ 31"
      using call key(2) by (auto simp: small_def offsets)
    from store_stores [OF hold unheld 4(1) refl rc_def 4(2) key(2) this] obtain r s' where
      s': "mps_shdict_store z op key vtype str num exptime flags s = Some (r, s')"
        "stored z op key vtype v exptime flags s (dict_del key ?S) r s'" by blast
    have "\<exists>D'. holds z s' D' \<and> dict_ok K n D'"
      using s'(2) dict_ok_keep [OF dict_ok_del [OF oks]] new_entry_ok [OF 4(1)] key(1) by (fastforce simp: stored_def)
    then show ?thesis using s' by (auto simp: runs_to_def stored_def)
  qed
qed

subsection \<open>The other calls\<close>

lemma incr_runs:
  assumes hold: "holds z s D" and unheld: "\<not> held s" and ok: "dict_ok K n D" and K: "keys_ok K" and key: "key \<in> K"
  shows "runs_to z K n (run_call fadd z (Incr key val has_init init init_ttl) s)"
proof -
  define s0 where "s0 = incr_start init_ttl s"
  let ?S = "swept s0 D"
  note oks = dict_ok_swept [OF ok, of s0]
  have len: "length key < 2 ^ 16" using K key by (simp add: keys_ok_def)
  have "no_collision ?S key"
    unfolding no_collision_def
  proof (intro allI impI)
    fix k e assume "(k, e) \<in> set ?S" "k \<noteq> key"
    then have "k \<in> K" "k \<noteq> key" using oks by (auto simp: dict_ok_def)
    then show "ngx_murmur_hash2 k \<noteq> ngx_murmur_hash2 key" using K key by (auto simp: keys_ok_def inj_on_def)
  qed
  note nc = this
  let ?missing = "\<forall>e. map_of ?S key = Some e \<longrightarrow> expired (time_nth s0 1) e"
  consider "?missing" "has_init" | "?missing" "\<not> has_init"
    | e where "map_of ?S key = Some e" "\<not> expired (time_nth s0 1) e" "is_number e"
    | e where "map_of ?S key = Some e" "\<not> expired (time_nth s0 1) e" "\<not> is_number e" by blast
  then show ?thesis
  proof cases
    case 1
    then have "\<And>e. map_of ?S key = Some e \<Longrightarrow> expired (time_nth s0 1) e" by blast
    from incr_creates [OF hold unheld s0_def this nc len, where fadd = fadd and val = val and init = init] 1(2) obtain r s' num now where
      s': "mps_shdict_incr fadd z key val has_init init init_ttl s = Some (r, s')"
        "counted z key num now init_ttl s (dict_del key ?S) r s'" by auto
    have "entry_ok n (new_entry MPS_SHDICT_TNUMBER (double_bytes num) init_ttl 0 now)"
      by (simp add: entry_ok_def new_entry_def list_type_def scalar_ok_def tags)
    then have "\<exists>D'. holds z s' D' \<and> dict_ok K n D'"
      using s'(2) dict_ok_keep [OF dict_ok_del [OF oks]] key by (fastforce simp: counted_def)
    then show ?thesis using s' by (auto simp: runs_to_def counted_def)
  next
    case 2
    then have "case map_of ?S key of None \<Rightarrow> \<not> has_init \<and> ''not found'' = ''not found''
      | Some e \<Rightarrow> if expired (time_nth s0 1) e then \<not> has_init \<and> ''not found'' = ''not found''
                  else \<not> is_number e \<and> ''not found'' = ''not a number''" by (auto split: option.split)
    from incr_refuses [OF hold unheld s0_def refl this, of fadd val init] show ?thesis
      using dict_ok_touch [OF oks, of key] by (auto simp: runs_to_def)
  next
    case 3
    have "is_number e \<and> entry_ok n e" using dict_ok_found [OF oks 3(1)] 3(3) by simp
    then have "entry_ok n (incremented fadd val e)"
      by (auto simp: entry_ok_def incremented_def is_number_def list_type_def scalar_ok_def tags split: if_splits)
    from dict_ok_set [OF oks key this] incr_adds [OF hold unheld s0_def 3, of fadd val has_init init] show ?thesis
      by (auto simp: runs_to_def)
  next
    case 4
    then have "case map_of ?S key of None \<Rightarrow> \<not> has_init \<and> ''not a number'' = ''not found''
      | Some e \<Rightarrow> if expired (time_nth s0 1) e then \<not> has_init \<and> ''not a number'' = ''not found''
                  else \<not> is_number e \<and> ''not a number'' = ''not a number''" by simp
    from incr_refuses [OF hold unheld s0_def refl this, of fadd val init] show ?thesis
      using dict_ok_touch [OF oks, of key] by (auto simp: runs_to_def)
  qed
qed

lemma push_value_ok: "push_value vtype str num = Some v \<Longrightarrow> item_ok (item_of vtype v) \<and> length v \<le> max 8 (length str)"
  by (auto simp: push_value_def item_ok_def item_of_def tags split: if_splits)

lemma list_entry_ok: "item_ok x \<Longrightarrow> entry_ok (Suc n) (list_entry [x] flags)"
  by (simp add: entry_ok_def list_entry_def list_type_def tags)

lemma push_runs:
  assumes hold: "holds z s D" and unheld: "\<not> held s" and ok: "dict_ok K n D" and K: "keys_ok K" and n: "n < 2 ^ 31 - 1"
    and call: "call_ok K (Push d key vtype str num)"
  shows "runs_to z K (Suc n) (run_call fadd z (Push d key vtype str num) s)"
proof (cases "push_value vtype str num")
  case None
  then show ?thesis
    using push_bad_type [OF None, of z d key s] hold unheld dict_ok_mono [OF ok, of "Suc n"] by (auto simp: runs_to_def)
next
  case (Some v)
  let ?S = "swept s D"
  note vo = push_value_ok [OF Some]
  have key: "key \<in> K" "length key < 2 ^ 16" and v: "lnode_header + length v < 2 ^ 31"
    using call K vo by (auto simp: keys_ok_def small_def offsets)
  note oks = dict_ok_swept [OF ok, of s] and oks' = dict_ok_mono [OF dict_ok_swept [OF ok, of s], of "Suc n"]
  show ?thesis
  proof (cases "\<forall>e. map_of ?S key = Some e \<longrightarrow> expired (time_nth s 1) e")
    case True
    then have "\<And>e. map_of ?S key = Some e \<Longrightarrow> expired (time_nth s 1) e" by blast
    from push_creates [OF hold unheld Some this key(2) v, of d] obtain r s' where
      s': "mps_shdict_push_helper z d key vtype str num s = Some (r, s')" "listed z key (item_of vtype v) s (dict_del key ?S) r s'" by auto
    have "\<exists>D'. holds z s' D' \<and> dict_ok K (Suc n) D'"
      using s'(2) dict_ok_del [OF oks'] list_entry_ok [of "item_of vtype v" n] vo key(1) by (fastforce simp: listed_def)
    then show ?thesis using s' by (auto simp: runs_to_def listed_def)
  next
    case False
    then obtain e where e: "map_of ?S key = Some e" "\<not> expired (time_nth s 1) e" by blast
    have eok: "entry_ok n e" using dict_ok_found [OF oks e(1)] by simp
    then have cnt: "length (e_items e) < 2 ^ 31 - 1" using n by (auto simp: entry_ok_def split: if_splits)
    from push_live [OF hold unheld Some e v cnt, of d] obtain r s' where
      s': "mps_shdict_push_helper z d key vtype str num s = Some (r, s')"
        "if list_type e then pushed z d key (item_of vtype v) s (length (e_items e)) (dict_touch key ?S) r s'
         else r = \<lparr>ps_rc = NGX_ERROR, ps_err = Some ''value not a list''\<rparr> \<and> \<not> held s' \<and> clock s' = clock s
           \<and> holds z s' (dict_touch key ?S)" by blast
    show ?thesis
    proof (cases "list_type e")
      case True
      have "list_type e'" if "(key, e') \<in> set (dict_touch key ?S)" for e'
        using that True e(1) by (auto simp: dict_touch_def dict_del_def)
      then have "dict_ok K (Suc n) (dict_push d key (item_of vtype v) (dict_touch key ?S))"
        using dict_ok_push [OF dict_ok_touch [OF oks]] vo by blast
      then have "\<exists>D'. holds z s' D' \<and> dict_ok K (Suc n) D'"
        using s'(2) True dict_ok_touch [OF oks'] dict_ok_del [OF dict_ok_touch [OF oks']] by (fastforce simp: pushed_def split: if_splits)
      then show ?thesis using s' True by (auto simp: runs_to_def pushed_def)
    next
      case False
      then show ?thesis using s' dict_ok_touch [OF oks'] by (auto simp: runs_to_def)
    qed
  qed
qed

lemma pop_runs:
  assumes hold: "holds z s D" and unheld: "\<not> held s" and ok: "dict_ok K n D"
  shows "runs_to z K n (run_call fadd z (Pop d key len malloc_ok) s)"
proof -
  let ?S = "swept s D"
  note oks = dict_ok_swept [OF ok, of s]
  have "dict_ok K n (snd (pop_spec d key len malloc_ok (time_nth s 1) ?S))"
  proof (cases "map_of ?S key")
    case None
    then show ?thesis using oks by (simp add: pop_spec_def)
  next
    case (Some e)
    have eok: "entry_ok n e" using dict_ok_found [OF oks Some] by simp
    have lt: "list_type e'" if "list_type e" "(key, e') \<in> set (dict_touch key ?S)" for e'
      using that Some by (auto simp: dict_touch_def dict_del_def)
    have "dict_ok K n (dict_items key (rest_of d (e_items e)) (dict_touch key ?S))"
      if "list_type e" "e_items e \<noteq> []" "length (e_items e) \<noteq> 1"
    proof (rule dict_ok_items [OF dict_ok_touch [OF oks] lt [OF that(1)]])
      show "rest_of d (e_items e) \<noteq> []" using that by (cases "e_items e") (auto simp: rest_of_def)
      show "length (rest_of d (e_items e)) \<le> n" using eok that(1) by (auto simp: end_rest entry_ok_def)
      show "list_all item_ok (rest_of d (e_items e))"
        using eok that(1) set_rest_of [of d "e_items e"] by (auto simp: entry_ok_def list_all_iff)
    qed
    then show ?thesis using Some dict_ok_touch [OF oks, of key] dict_ok_del [OF oks, of key] by (simp add: pop_spec_def Let_def)
  qed
  with pop_refines [OF hold unheld, of d key len malloc_ok] show ?thesis by (auto simp: runs_to_def)
qed

lemma run_call_ok:
  assumes hold: "holds z s D" and unheld: "\<not> held s" and ok: "dict_ok K n D" and K: "keys_ok K" and n: "n < 2 ^ 31 - 1"
    and call: "call_ok K c"
  shows "runs_to z K (Suc n) (run_call fadd z c s)"
proof -
  have up: "runs_to z K n r \<Longrightarrow> runs_to z K (Suc n) r" for r
    using dict_ok_mono [of K n _ "Suc n"] by (fastforce simp: runs_to_def)
  note oks = dict_ok_swept [OF ok, of s]
  show ?thesis
  proof (cases c)
    case (Get key len gs mo)
    with get_refines [OF hold unheld, of key len gs mo] dict_ok_touch [OF ok, of key] have "runs_to z K n (run_call fadd z c s)"
      by (auto simp: runs_to_def)
    then show ?thesis by (rule up)
  next
    case (Store op key vtype str num exptime flags)
    with store_runs [OF hold unheld ok K] call up show ?thesis by blast
  next
    case (Incr key val has_init init init_ttl)
    with incr_runs [OF hold unheld ok K] call up show ?thesis by auto
  next
    case Flush_all
    with flush_all_refines [OF hold unheld] dict_ok_keep [OF dict_ok_expires(2) [OF ok]] have "runs_to z K n (run_call fadd z c s)"
      by (auto simp: runs_to_def)
    then show ?thesis by (rule up)
  next
    case (Get_ttl key)
    with get_ttl_refines [OF hold unheld, of key] ok have "runs_to z K n (run_call fadd z c s)" by (auto simp: runs_to_def)
    then show ?thesis by (rule up)
  next
    case (Set_expire key exptime)
    with set_expire_refines [OF hold unheld, of key exptime] dict_ok_expires(1) [OF ok] have "runs_to z K n (run_call fadd z c s)"
      by (fastforce simp: runs_to_def)
    then show ?thesis by (rule up)
  next
    case (Push d key vtype str num)
    with push_runs [OF hold unheld ok K n] call show ?thesis by blast
  next
    case (Pop d key len mo)
    with pop_runs [OF hold unheld ok] up show ?thesis by blast
  next
    case (Llen key)
    have "length (e_items e) < 2 ^ 31" if "map_of (swept s D) key = Some e" for e
      using dict_ok_found [OF oks that] n by (auto simp: entry_ok_def split: if_splits)
    with Llen llen_refines [OF hold unheld] dict_ok_touch [OF oks, of key] have "runs_to z K n (run_call fadd z c s)"
      by (fastforce simp: runs_to_def)
    then show ?thesis by (rule up)
  next
    case Free_space
    with hold ok have "runs_to z K n (run_call fadd z c s)" by (auto simp: runs_to_def mps_shdict_free_space_def lock_unheld [OF unheld])
    then show ?thesis by (rule up)
  qed
qed

lemma run_calls_ok:
  "holds z s D \<Longrightarrow> \<not> held s \<Longrightarrow> dict_ok K n D \<Longrightarrow> keys_ok K \<Longrightarrow> list_all (call_ok K) cs \<Longrightarrow> n + length cs < 2 ^ 31
     \<Longrightarrow> runs_to z K (n + length cs) (run_calls fadd z cs s)"
proof (induction cs arbitrary: s D n)
  case Nil
  then show ?case by (auto simp: runs_to_def)
next
  case (Cons c cs)
  have n: "n < 2 ^ 31 - 1" and c: "call_ok K c" using Cons.prems by auto
  from run_call_ok [OF Cons.prems(1-4) n c, of fadd] obtain s1 D1 where
    s1: "run_call fadd z c s = Some s1" "holds z s1 D1" "\<not> held s1" "dict_ok K (Suc n) D1" by (auto simp: runs_to_def)
  from Cons.IH [OF s1(2-4) Cons.prems(4)] Cons.prems(5,6) s1(1) show ?case by simp
qed

end
