(* ===== verification/ShdictClock.thy ===== *)
theory ShdictClock
  imports ShdictList
begin

text \<open>
  Time over a sequence of calls: no operation turns the clock back. Every call reads the clock some
  number of times, and the readings of the next call come after them.
\<close>

definition later :: "shm \<Rightarrow> shm \<Rightarrow> bool" where
  "later s s' \<longleftrightarrow> clock s' = clock s \<and> ticks s \<le> ticks s'"

lemma later_refl [simp]: "later s s"
  by (simp add: later_def)

lemma later_trans [trans]: "later s t \<Longrightarrow> later t u \<Longrightarrow> later s u"
  by (simp add: later_def)

lemma later_cong: "clock s' = clock s \<Longrightarrow> ticks s' = ticks s \<Longrightarrow> later t s' = later t s"
  by (simp add: later_def)

lemma later_set [simp]:
  "later t (upd_links f s) = later t s" "later t (set_node_key node k s) = later t s"
  "later t (set_value_type sd v s) = later t s" "later t (set_key_len sd kl s) = later t s"
  "later t (set_value_len sd vl s) = later t s" "later t (set_expires sd e s) = later t s"
  "later t (set_user_flags sd vl s) = later t s" "later t (set_lnode_value_len l vl s) = later t s"
  "later t (set_lnode_value_type l v s) = later t s" "later t (ngx_memcpy p bs s) = later t s"
  "later t (mps_slab_unlock s) = later t s" "later t (lru_touch sd s) = later t s"
  "later t (shm_free_locked z p s) = later t s" "later t (s\<lparr>held := b\<rparr>) = later t s"
  by (rule later_cong; simp add: upd_links_def set_node_key_def set_value_type_def set_key_len_def set_value_len_def
      set_expires_def set_user_flags_def set_lnode_value_len_def set_lnode_value_type_def ngx_memcpy_def
      mps_slab_unlock_def lru_touch_def shm_free_locked_def Let_def)+

subsection \<open>A rule for each construct\<close>

text \<open>If a computation that started at or after \<open>t\<close> returns, so does it with the pool that \<open>out\<close> finds in its result.\<close>

definition ends :: "shm \<Rightarrow> ('a \<Rightarrow> shm) \<Rightarrow> 'a option \<Rightarrow> bool" where
  "ends t out m \<longleftrightarrow> (\<forall>x. m = Some x \<longrightarrow> later t (out x))"

named_theorems ends_rules

lemma endsD: "ends t out m \<Longrightarrow> m = Some x \<Longrightarrow> later t (out x)"
  by (simp add: ends_def)

lemma ends_Some [ends_rules]: "later t (out x) \<Longrightarrow> ends t out (Some x)"
  by (simp add: ends_def)

lemma ends_bind: "ends t p m \<Longrightarrow> (\<And>x. later t (p x) \<Longrightarrow> ends t out (F x)) \<Longrightarrow> ends t out (m \<bind> F)"
  by (auto simp: ends_def split: Option.bind_splits)

lemma ends_bind_off [ends_rules]: "(\<And>x. ends t out (F x)) \<Longrightarrow> ends t out (m \<bind> F)" for m :: "off option"
  by (auto simp: ends_def split: Option.bind_splits)

lemma ends_bind_peek [ends_rules]: "(\<And>rc sdp. ends t out (F (rc, sdp))) \<Longrightarrow> ends t out (m \<bind> F)" for m :: "(int \<times> off option) option"
  by (auto simp: ends_def split: Option.bind_splits)

lemma ends_bind_find [ends_rules]: "(\<And>x. ends t out (F x)) \<Longrightarrow> ends t out (m \<bind> F)" for m :: "off option option"
  by (auto simp: ends_def split: Option.bind_splits)

lemma ends_let_pool: "later t e \<Longrightarrow> (\<And>s. later t s \<Longrightarrow> ends t out (F s)) \<Longrightarrow> ends t out (Let e F)" for e :: shm
  by (simp add: Let_def)

lemma ends_let [ends_rules]:
  "(\<And>x. ends t out (F x)) \<Longrightarrow> ends t out (Let (e :: nat) F)" "(\<And>x. ends t out (F2 x)) \<Longrightarrow> ends t out (Let (e2 :: int) F2)"
  "(\<And>x. ends t out (F3 x)) \<Longrightarrow> ends t out (Let (e3 :: 'b::len word) F3)" "(\<And>x. ends t out (F4 x)) \<Longrightarrow> ends t out (Let (e4 :: bool) F4)"
  "(\<And>x. ends t out (F5 x)) \<Longrightarrow> ends t out (Let (e5 :: 'c list) F5)" "(\<And>x. ends t out (F6 x)) \<Longrightarrow> ends t out (Let (e6 :: pop_result) F6)"
  by (simp_all add: Let_def)

lemma ends_let_prod [ends_rules]: "(\<And>a b. e = (a, b) \<Longrightarrow> ends t out (F a b)) \<Longrightarrow> ends t out (let (a, b) = e in F a b)"
  by (cases e) simp

lemma later_tick: "mps_clock_time_ms s = (now, s') \<Longrightarrow> later t s \<Longrightarrow> later t s'"
  by (auto simp: mps_clock_time_ms_def later_def)

lemma later_now: "(if b then mps_clock_time_ms s else (0, s)) = (now, s') \<Longrightarrow> later t s \<Longrightarrow> later t s'"
  by (auto simp: later_tick split: if_splits)

lemma later_expires: "store_expires exptime s = (e, s') \<Longrightarrow> later t s \<Longrightarrow> later t s'"
  by (auto simp: store_expires_def mps_clock_time_ms_def later_def split: if_splits)

lemmas later_times = later_tick later_now later_expires later_set [THEN iffD2]

lemma ends_if [ends_rules]: "(b \<Longrightarrow> ends t out m) \<Longrightarrow> (\<not> b \<Longrightarrow> ends t out n) \<Longrightarrow> ends t out (if b then m else n)"
  by simp

lemma ends_prod [ends_rules]: "(\<And>a b. x = (a, b) \<Longrightarrow> ends t out (F a b)) \<Longrightarrow> ends t out (case x of (a, b) \<Rightarrow> F a b)"
  by (cases x) simp

lemma ends_option [ends_rules]: "ends t out m \<Longrightarrow> (\<And>v. ends t out (F v)) \<Longrightarrow> ends t out (case x of None \<Rightarrow> m | Some v \<Rightarrow> F v)"
  by (cases x) simp_all

lemma ends_sum [ends_rules]: "(\<And>e. ends t out (F e)) \<Longrightarrow> (\<And>v. ends t out (H v)) \<Longrightarrow> ends t out (case x of Inl e \<Rightarrow> F e | Inr v \<Rightarrow> H v)"
  by (cases x) simp_all

lemma ends_branch [ends_rules]:
  "(\<And>msg. ends t out (F msg)) \<Longrightarrow> ends t out a \<Longrightarrow> ends t out b \<Longrightarrow> ends t out c
     \<Longrightarrow> ends t out (case x of Refuse msg \<Rightarrow> F msg | Replace \<Rightarrow> a | Remove \<Rightarrow> b | Insert \<Rightarrow> c)"
  by (cases x) simp_all

text \<open>The pool of a result that is a pair or a triple.\<close>

abbreviation pool1 :: "'a \<times> shm \<Rightarrow> shm" where "pool1 \<equiv> snd"
abbreviation pool2 :: "'a \<times> 'b \<times> shm \<Rightarrow> shm" where "pool2 x \<equiv> snd (snd x)"

subsection \<open>What the operations are made of\<close>

lemma ends_lock: "later t s \<Longrightarrow> ends t id (mps_slab_lock s)"
  by (simp add: ends_def mps_slab_lock_def)

lemma ends_tree: "later t s \<Longrightarrow> ends t id (upd_tree f s)"
  by (auto simp: ends_def upd_tree_def later_def)

lemma ends_alloc: "later t s \<Longrightarrow> ends t pool1 (shm_alloc_locked z n s)"
  by (auto simp: ends_def shm_alloc_locked_def later_def)

lemmas ends_binds [ends_rules] = ends_bind [OF ends_lock] ends_bind [OF ends_tree] ends_bind [OF ends_alloc]

lemma ends_lookup: "later t s \<Longrightarrow> ends t pool2 (mps_shdict_lookup h key s)"
  unfolding mps_shdict_lookup_def by (auto intro!: ends_rules ends_let_pool intro: later_times)

lemmas ends_bind_lookup [ends_rules] = ends_bind [OF ends_lookup] ends_lookup

lemma ends_remove_node: "later t s \<Longrightarrow> ends t id (remove_node z sd s)"
  unfolding remove_node_def by (auto intro!: ends_rules ends_let_pool intro: later_times)

lemmas ends_bind_remove_node [ends_rules] = ends_bind [OF ends_remove_node] ends_remove_node

lemma ends_free_list: "later t s \<Longrightarrow> ends t id (free_list_nodes z queue q s)"
  unfolding ends_def
  by (intro allI impI, rule free_list_nodes.raw_induct [where P = "\<lambda>z queue q s s'. later t s \<longrightarrow> later t (id s')", rule_format])
    (auto simp: Let_def split: if_splits)

lemmas ends_bind_free_list [ends_rules] = ends_bind [OF ends_free_list] ends_free_list

lemma ends_free_list_if [ends_rules]:
  "later t s \<Longrightarrow> ends t id (if b then let queue = l in free_list_nodes z queue (h queue) s else Some s)"
  by (simp add: Let_def ends_Some ends_free_list)

lemma ends_remove_entry: "later t s \<Longrightarrow> ends t id (remove_entry z sd len s)"
  unfolding remove_entry_def by (rule ends_bind [OF ends_free_list_if]; auto intro!: ends_rules ends_let_pool intro: later_times)

lemmas ends_bind_remove_entry [ends_rules] = ends_bind [OF ends_remove_entry] ends_remove_entry

lemma ends_rounds: "later t s \<Longrightarrow> ends t pool1 (expire_rounds k z now n freed s)"
  by (induction k arbitrary: n freed s) (auto intro!: ends_rules ends_let_pool intro: later_times)

lemmas ends_bind_rounds [ends_rules] = ends_bind [OF ends_rounds] ends_rounds

lemma ends_expire: "later t s \<Longrightarrow> ends t pool1 (mps_shdict_expire z n s)"
  unfolding mps_shdict_expire_def by (auto intro!: ends_rules ends_let_pool intro: later_times)

lemmas ends_bind_expire [ends_rules] = ends_bind [OF ends_expire] ends_expire

lemma ends_evict: "later t s \<Longrightarrow> ends t pool2 (alloc_evicting i z n fc s)"
  by (induction i arbitrary: fc s) (auto intro!: ends_rules ends_let_pool intro: later_times)

lemma ends_evict_if: "later t s \<Longrightarrow> ends t pool2 (if b then alloc_evicting i z n fc s else Some (p, fc, s))"
  by (simp add: ends_evict ends_Some)

lemmas ends_bind_evict [ends_rules] = ends_bind [OF ends_evict_if]

lemma later_reuse [simp]: "later t s \<Longrightarrow> later t (store_reuse sd key vtype v exptime flags s)"
  by (simp add: store_reuse_def Let_def store_expires_def mps_clock_time_ms_def later_def lru_touch_def upd_links_def
      ngx_memcpy_def set_value_type_def set_user_flags_def set_expires_def mps_slab_unlock_def)

lemma ends_fill: "later t s \<Longrightarrow> ends t id (store_fill node key h vtype v exptime flags s)"
  unfolding store_fill_def by (auto intro!: ends_rules ends_let_pool elim!: later_expires)

lemmas ends_bind_fill [ends_rules] = ends_bind [OF ends_fill] ends_fill

lemma ends_insert: "later t s \<Longrightarrow> ends t pool1 (store_insert z op key h vtype v exptime flags s)"
  unfolding store_insert_def by (auto intro!: ends_rules ends_let_pool intro: later_times)

lemmas ends_bind_insert [ends_rules] = ends_bind [OF ends_insert] ends_insert

lemma ends_setvalue: "later t s \<Longrightarrow> ends t pool1 (incr_setvalue sd key num now init_ttl fc s)"
  unfolding incr_setvalue_def by (auto intro!: ends_rules ends_let_pool intro: later_times)

lemmas ends_bind_setvalue [ends_rules] = ends_bind [OF ends_setvalue] ends_setvalue

lemma ends_incr_insert: "later t s \<Longrightarrow> ends t pool1 (incr_insert z key h num now init_ttl s)"
  unfolding incr_insert_def by (auto intro!: ends_rules ends_let_pool intro: later_times)

lemmas ends_bind_incr_insert [ends_rules] = ends_bind [OF ends_incr_insert] ends_incr_insert

lemma ends_expire_all: "later t s \<Longrightarrow> ends t id (expire_all lru q s)"
  unfolding ends_def
  by (intro allI impI, rule expire_all.raw_induct [where P = "\<lambda>lru q s s'. later t s \<longrightarrow> later t (id s')", rule_format])
    (auto simp: Let_def split: if_splits)

lemmas ends_bind_expire_all [ends_rules] = ends_bind [OF ends_expire_all] ends_expire_all

lemma ends_unless: "later t s \<Longrightarrow> ends t id (if b then remove_node z sd s else Some s)"
  by (simp add: ends_Some ends_remove_node)

lemmas ends_bind_unless [ends_rules] = ends_bind [OF ends_unless]

lemma ends_push_node: "later t s \<Longrightarrow> ends t pool1 (push_node z d sd queue vtype v s)"
  unfolding push_node_def by (auto intro!: ends_rules ends_let_pool intro: later_times)

lemmas ends_bind_push_node [ends_rules] = ends_bind [OF ends_push_node] ends_push_node

lemma ends_init_list: "later t s \<Longrightarrow> ends t pool1 (push_init_list z d key h vtype v s)"
  unfolding push_init_list_def by (auto intro!: ends_rules ends_let_pool intro: later_times)

lemmas ends_bind_init_list [ends_rules] = ends_bind [OF ends_init_list] ends_init_list

subsection \<open>The operations\<close>

lemma ends_calls:
  assumes "later t s"
  shows "ends t pool1 (mps_shdict_get key n st ok s)"
    "ends t pool1 (mps_shdict_store z op key vtype str num exptime flags s)"
    "ends t pool1 (mps_shdict_incr fadd z key val has_init init init_ttl s)"
    "ends t pool1 (mps_shdict_flush_all z s)"
    "ends t pool1 (mps_shdict_get_ttl key s)"
    "ends t pool1 (mps_shdict_set_expire key exptime s)"
    "ends t pool1 (mps_shdict_push_helper z d key vtype str' num s)"
    "ends t pool1 (mps_shdict_pop_helper z d key n ok s)"
    "ends t pool1 (mps_shdict_llen z key s)"
    "ends t pool1 (mps_shdict_free_space z s)"
  unfolding mps_shdict_get_def get_done_def mps_shdict_store_def mps_shdict_incr_def mps_shdict_flush_all_def
    mps_shdict_get_ttl_def mps_shdict_set_expire_def mps_shdict_push_helper_def mps_shdict_pop_helper_def
    mps_shdict_llen_def mps_shdict_free_space_def
  using assms by (auto intro!: ends_rules ends_let_pool intro: later_times)

lemmas later_calls = ends_calls [OF later_refl, THEN endsD]

end
