(* ===== verification/ShdictSpec.thy ===== *)
theory ShdictSpec
  imports ShdictCalls ShdictClock
begin

text \<open>
  The specification of the API: a machine whose state is the dictionary, an association list in LRU
  order, and the readings of the clock that are still to come. \<open>api fadd t c r D D'\<close> says that the call \<open>c\<close>
  may answer \<open>r\<close> and turn \<open>D\<close> into \<open>D'\<close>; it is not determined how many entries are evicted to make room
  and whether there is room in the end, which depends on the memory. Every sequence of calls on a pool
  answers as a run of this machine.
\<close>

type_synonym time = "nat \<Rightarrow> u64"

datatype response =
    Got get_result
  | Stored store_result
  | Counted incr_result
  | Code int
  | Pushed push_result
  | Popped pop_result
  | Space u64

subsection \<open>The specification\<close>

definition sweep :: "time \<Rightarrow> dict \<Rightarrow> dict" where
  "sweep t D = keep_first D (drop_count 2 (t 0) False D)"

text \<open>What a lookup at time \<open>now\<close> reports.\<close>

definition lookup_code :: "u64 \<Rightarrow> entry option \<Rightarrow> int" where
  "lookup_code now found =
     (case found of None \<Rightarrow> NGX_DECLINED | Some e \<Rightarrow> if expired now e then NGX_DONE else NGX_OK)"

definition allowed :: "nat \<Rightarrow> int \<Rightarrow> int \<Rightarrow> bool" where
  "allowed op vtype rc \<longleftrightarrow> (\<forall>msg. store_dispatch op vtype rc \<noteq> Refuse msg)"

definition gone :: "u64 \<Rightarrow> entry option \<Rightarrow> bool" where
  "gone now found \<longleftrightarrow> (case found of None \<Rightarrow> True | Some e \<Rightarrow> expired now e)"

definition incr_time :: "int \<Rightarrow> time \<Rightarrow> time" where
  "incr_time init_ttl t = (if init_ttl > 0 then (\<lambda>i. t (Suc i)) else t)"

inductive api :: "(u64 \<Rightarrow> u64 \<Rightarrow> u64) \<Rightarrow> time \<Rightarrow> call \<Rightarrow> response \<Rightarrow> dict \<Rightarrow> dict \<Rightarrow> bool" for fadd t where
  get: "api fadd t (Get key n st ok) (Got (get_spec n st ok (t 0) (map_of D key))) D (dict_touch key D)"
| store_invalid: "store_value op vtype str num = Inl msg \<Longrightarrow>
    api fadd t (Store op key vtype str num exptime flags) (Stored \<lparr>st_rc = NGX_ERROR, st_err = Some msg, st_forcible = False\<rparr>) D D"
| store_refusal: "store_value op vtype str num = Inr v \<Longrightarrow> S = sweep t D \<Longrightarrow>
    store_dispatch op vtype (lookup_code (t 1) (map_of S key)) = Refuse msg \<Longrightarrow>
    api fadd t (Store op key vtype str num exptime flags)
      (Stored \<lparr>st_rc = NGX_DECLINED, st_err = Some msg, st_forcible = False\<rparr>) D (dict_touch key S)"
| store_nil: "store_value op vtype str num = Inr None \<Longrightarrow> S = sweep t D \<Longrightarrow>
    allowed op vtype (lookup_code (t 1) (map_of S key)) \<Longrightarrow>
    api fadd t (Store op key vtype str num exptime flags)
      (Stored \<lparr>st_rc = NGX_OK, st_err = None, st_forcible = False\<rparr>) D (dict_del key S)"
| store_done: "store_value op vtype str num = Inr (Some v) \<Longrightarrow> S = sweep t D \<Longrightarrow>
    allowed op vtype (lookup_code (t 1) (map_of S key)) \<Longrightarrow> made_room (dict_del key S) op j \<Longrightarrow>
    api fadd t (Store op key vtype str num exptime flags)
      (Stored \<lparr>st_rc = NGX_OK, st_err = None, st_forcible = 0 < j\<rparr>) D
      ((key, new_entry vtype v exptime flags (t i)) # keep_first (dict_del key S) j)"
| store_no_memory: "store_value op vtype str num = Inr (Some v) \<Longrightarrow> S = sweep t D \<Longrightarrow>
    allowed op vtype (lookup_code (t 1) (map_of S key)) \<Longrightarrow> gave_up (dict_del key S) op j \<Longrightarrow>
    api fadd t (Store op key vtype str num exptime flags)
      (Stored \<lparr>st_rc = NGX_ERROR, st_err = Some ''no memory'', st_forcible = 0 < j\<rparr>) D (keep_first (dict_del key S) j)"
| incr_live: "u = incr_time init_ttl t \<Longrightarrow> S = sweep u D \<Longrightarrow>
    map_of S key = Some e \<Longrightarrow> \<not> expired (u 1) e \<Longrightarrow> is_number e \<Longrightarrow>
    api fadd t (Incr key val has_init init init_ttl)
      (Counted \<lparr>ir_rc = NGX_OK, ir_value = Some (fadd (bytes_double (e_bytes e)) val), ir_err = None, ir_forcible = False\<rparr>) D
      (dict_set key (incremented fadd val e) S)"
| incr_not_number: "u = incr_time init_ttl t \<Longrightarrow> S = sweep u D \<Longrightarrow>
    map_of S key = Some e \<Longrightarrow> \<not> expired (u 1) e \<Longrightarrow> \<not> is_number e \<Longrightarrow>
    api fadd t (Incr key val has_init init init_ttl)
      (Counted \<lparr>ir_rc = NGX_ERROR, ir_value = None, ir_err = Some ''not a number'', ir_forcible = False\<rparr>) D (dict_touch key S)"
| incr_missing: "u = incr_time init_ttl t \<Longrightarrow> S = sweep u D \<Longrightarrow> gone (u 1) (map_of S key) \<Longrightarrow>
    api fadd t (Incr key val False init init_ttl)
      (Counted \<lparr>ir_rc = NGX_ERROR, ir_value = None, ir_err = Some ''not found'', ir_forcible = False\<rparr>) D (dict_touch key S)"
| incr_new: "u = incr_time init_ttl t \<Longrightarrow> S = sweep u D \<Longrightarrow> gone (u 1) (map_of S key) \<Longrightarrow>
    made_room (dict_del key S) 0 j \<Longrightarrow> now = (if init_ttl > 0 then t 0 else 0) \<Longrightarrow>
    api fadd t (Incr key val True init init_ttl)
      (Counted \<lparr>ir_rc = NGX_OK, ir_value = Some (fadd val init), ir_err = None, ir_forcible = 0 < j\<rparr>) D
      ((key, new_entry MPS_SHDICT_TNUMBER (double_bytes (fadd val init)) init_ttl 0 now) # keep_first (dict_del key S) j)"
| incr_no_memory: "u = incr_time init_ttl t \<Longrightarrow> S = sweep u D \<Longrightarrow> gone (u 1) (map_of S key) \<Longrightarrow>
    gave_up (dict_del key S) 0 j \<Longrightarrow>
    api fadd t (Incr key val True init init_ttl)
      (Counted \<lparr>ir_rc = NGX_ERROR, ir_value = None, ir_err = Some ''no memory'', ir_forcible = 0 < j\<rparr>) D
      (keep_first (dict_del key S) j)"
| flush_all: "api fadd t Flush_all (Code NGX_OK) D (keep_first (map stale D) (drop_count 3 (t 0) True (map stale D)))"
| get_ttl: "api fadd t (Get_ttl key) (Code (case map_of D key of None \<Rightarrow> NGX_DECLINED
      | Some e \<Rightarrow> if e_expires e = 0 then 0 else sint (e_expires e - t 0))) D D"
| set_expire: "api fadd t (Set_expire key exptime) (Code (if map_of D key = None then NGX_DECLINED else NGX_OK)) D
    (dict_set_expires key (if exptime > 0 then t 0 + of_int exptime else 0) D)"
| push_invalid: "push_value vtype str num = None \<Longrightarrow>
    api fadd t (Push d key vtype str num) (Pushed \<lparr>ps_rc = NGX_ERROR, ps_err = Some ''unsupported value type''\<rparr>) D D"
| push_new: "push_value vtype str num = Some v \<Longrightarrow> S = sweep t D \<Longrightarrow> gone (t 1) (map_of S key) \<Longrightarrow>
    api fadd t (Push d key vtype str num) (Pushed \<lparr>ps_rc = 1, ps_err = None\<rparr>) D
      ((key, list_entry [item_of vtype v] flags) # dict_del key S)"
| push_new_no_memory: "push_value vtype str num = Some v \<Longrightarrow> S = sweep t D \<Longrightarrow> gone (t 1) (map_of S key) \<Longrightarrow>
    api fadd t (Push d key vtype str num) (Pushed no_memory) D (dict_del key S)"
| push_list: "push_value vtype str num = Some v \<Longrightarrow> S = sweep t D \<Longrightarrow>
    map_of S key = Some e \<Longrightarrow> \<not> expired (t 1) e \<Longrightarrow> list_type e \<Longrightarrow>
    api fadd t (Push d key vtype str num) (Pushed \<lparr>ps_rc = int (length (e_items e)) + 1, ps_err = None\<rparr>) D
      (dict_push d key (item_of vtype v) (dict_touch key S))"
| push_list_no_memory: "push_value vtype str num = Some v \<Longrightarrow> S = sweep t D \<Longrightarrow>
    map_of S key = Some e \<Longrightarrow> \<not> expired (t 1) e \<Longrightarrow> list_type e \<Longrightarrow> e_items e \<noteq> [] \<Longrightarrow>
    api fadd t (Push d key vtype str num) (Pushed no_memory) D (dict_touch key S)"
| push_not_list: "push_value vtype str num = Some v \<Longrightarrow> S = sweep t D \<Longrightarrow>
    map_of S key = Some e \<Longrightarrow> \<not> expired (t 1) e \<Longrightarrow> \<not> list_type e \<Longrightarrow>
    api fadd t (Push d key vtype str num) (Pushed \<lparr>ps_rc = NGX_ERROR, ps_err = Some ''value not a list''\<rparr>) D (dict_touch key S)"
| pop: "p = pop_spec d key n ok (t 1) (sweep t D) \<Longrightarrow> api fadd t (Pop d key n ok) (Popped (fst p)) D (snd p)"
| llen: "S = sweep t D \<Longrightarrow> api fadd t (Llen key) (Pushed (llen_spec key (t 1) S)) D (dict_touch key S)"
| free_space: "api fadd t Free_space (Space n) D D"

inductive_cases api_get: "api fadd t (Get key n st ok) r D D'"
inductive_cases api_store: "api fadd t (Store op key vtype str num exptime flags) r D D'"

text \<open>A history of calls and their answers; each call reads the clock at or after the one before.\<close>

inductive api_history :: "(u64 \<Rightarrow> u64 \<Rightarrow> u64) \<Rightarrow> time \<Rightarrow> dict \<Rightarrow> (call \<times> response) list \<Rightarrow> dict \<Rightarrow> bool" for fadd where
  none: "api_history fadd t D [] D"
| some: "api fadd t c r D D' \<Longrightarrow> api_history fadd (\<lambda>i. t (i + k)) D' h D'' \<Longrightarrow> api_history fadd t D ((c, r) # h) D''"

subsection \<open>The answers of the code\<close>

primrec answer_call :: "(u64 \<Rightarrow> u64 \<Rightarrow> u64) \<Rightarrow> slab_sizes \<Rightarrow> call \<Rightarrow> shm \<Rightarrow> (response \<times> shm) option" where
  "answer_call fadd z (Get key n st ok) s = map_option (map_prod Got id) (mps_shdict_get key n st ok s)"
| "answer_call fadd z (Store op key vtype str num exptime flags) s =
     map_option (map_prod Stored id) (mps_shdict_store z op key vtype str num exptime flags s)"
| "answer_call fadd z (Incr key val has_init init init_ttl) s =
     map_option (map_prod Counted id) (mps_shdict_incr fadd z key val has_init init init_ttl s)"
| "answer_call fadd z Flush_all s = map_option (map_prod Code id) (mps_shdict_flush_all z s)"
| "answer_call fadd z (Get_ttl key) s = map_option (map_prod Code id) (mps_shdict_get_ttl key s)"
| "answer_call fadd z (Set_expire key exptime) s = map_option (map_prod Code id) (mps_shdict_set_expire key exptime s)"
| "answer_call fadd z (Push d key vtype str num) s =
     map_option (map_prod Pushed id) (mps_shdict_push_helper z d key vtype str num s)"
| "answer_call fadd z (Pop d key n ok) s = map_option (map_prod Popped id) (mps_shdict_pop_helper z d key n ok s)"
| "answer_call fadd z (Llen key) s = map_option (map_prod Pushed id) (mps_shdict_llen z key s)"
| "answer_call fadd z Free_space s = map_option (map_prod Space id) (mps_shdict_free_space z s)"

fun answer_calls :: "(u64 \<Rightarrow> u64 \<Rightarrow> u64) \<Rightarrow> slab_sizes \<Rightarrow> call list \<Rightarrow> shm \<Rightarrow> (response list \<times> shm) option" where
  "answer_calls fadd z [] s = Some ([], s)"
| "answer_calls fadd z (c # cs) s =
     do { (r, s) \<leftarrow> answer_call fadd z c s; (rs, s) \<leftarrow> answer_calls fadd z cs s; Some (r # rs, s) }"

lemma run_call_answer: "run_call fadd z c s = map_option snd (answer_call fadd z c s)"
  by (cases c) (simp_all add: option.map_comp comp_def)

lemma run_calls_answer: "run_calls fadd z cs s = map_option snd (answer_calls fadd z cs s)"
  by (induction cs arbitrary: s) (auto simp: run_call_answer split: Option.bind_splits)

lemma answer_later: "answer_call fadd z c s = Some (r, s') \<Longrightarrow> later s s'"
  by (cases c) (auto dest: later_calls)

lemma later_time: "later s s' \<Longrightarrow> time_nth s' = (\<lambda>i. time_nth s (i + (ticks s' - ticks s)))"
  by (auto simp: later_def time_nth_def fun_eq_iff add.commute add.left_commute)

subsection \<open>A pool stands for one dictionary\<close>

lemma one_dictionary: "holds z s D \<Longrightarrow> holds z s D' \<Longrightarrow> D = D'"
proof -
  assume "holds z s D" "holds z s D'"
  then obtain xs L V xs' L' V' where i: "dict_inv s xs L V" "dict_inv s xs' L' V'"
    and D: "D = dict_abs s V L" "D' = dict_abs s V' L'" by (auto simp: holds_def pool_inv_def)
  have "dll (links s) (lru_queue s) (map node_link L)" "dll (links s) (lru_queue s) (map node_link L')"
    using i by (simp_all add: dict_inv_def)
  then have "map node_link L = map node_link L'" by (rule dll_unique)
  then have L: "L = L'" by (rule map_injective) (simp add: inj_def)
  have "entry_at s V a = entry_at s V' a" if "a \<in> set L" for a
  proof -
    have "list_ok s V a" "list_ok s V' a" using i that L by (auto simp: dict_inv_def)
    then have "is_list s a \<Longrightarrow> V a = V' a" by (auto simp: list_ok_def intro: dll_unique)
    then show ?thesis by (simp add: entry_at_def)
  qed
  then show ?thesis by (simp add: D L dict_abs_def)
qed

subsection \<open>Each call answers as the specification allows\<close>

definition meets :: "(u64 \<Rightarrow> u64 \<Rightarrow> u64) \<Rightarrow> slab_sizes \<Rightarrow> call \<Rightarrow> shm \<Rightarrow> dict \<Rightarrow> bool" where
  "meets fadd z c s D \<longleftrightarrow>
     (\<exists>r s' D'. answer_call fadd z c s = Some (r, s') \<and> holds z s' D' \<and> api fadd (time_nth s) c r D D')"

lemma meetsI: "answer_call fadd z c s = Some (r, s') \<Longrightarrow> holds z s' D' \<Longrightarrow> api fadd (time_nth s) c r D D' \<Longrightarrow> meets fadd z c s D"
  unfolding meets_def by blast

lemma swept_sweep: "swept s D = sweep (time_nth s) D"
  by (simp add: swept_def sweep_def)

lemma lookup_code_eq:
  "(case found of None \<Rightarrow> NGX_DECLINED | Some e \<Rightarrow> if expired now e then NGX_DONE else NGX_OK) = lookup_code now found"
  by (simp add: lookup_code_def)

lemma incr_start_time: "time_nth (incr_start init_ttl s) = incr_time init_ttl (time_nth s)"
  by (auto simp: incr_start_def incr_time_def time_nth_def fun_eq_iff)

lemma store_meets:
  assumes hold: "holds z s D" and unheld: "\<not> held s" and ok: "dict_ok K n D" and K: "keys_ok K"
    and call: "call_ok K (Store op key vtype str num exptime flags)"
  shows "meets fadd z (Store op key vtype str num exptime flags) s D"
proof -
  let ?S = "swept s D" and ?c = "Store op key vtype str num exptime flags" and ?rc = "lookup_code (time_nth s 1) (map_of (swept s D) key)"
  note S = swept_sweep [of s D]
  consider msg where "store_value op vtype str num = Inl msg"
    | v msg where "store_value op vtype str num = Inr v" "store_dispatch op vtype ?rc = Refuse msg"
    | "store_value op vtype str num = Inr None" "allowed op vtype ?rc"
    | v where "store_value op vtype str num = Inr (Some v)" "allowed op vtype ?rc"
    unfolding allowed_def by (metis old.sum.exhaust option.exhaust)
  then show ?thesis
  proof cases
    case 1
    then show ?thesis using hold api.store_invalid [OF 1] by (auto intro!: meetsI simp: mps_shdict_store_def)
  next
    case 2
    from store_refused [OF hold unheld 2(1) refl lookup_code_eq [symmetric] 2(2), where exptime = exptime and flags = flags] api.store_refusal [OF 2(1) S 2(2)]
    show ?thesis by (auto intro!: meetsI)
  next
    case 3
    from store_nothing [OF hold unheld 3(1) refl lookup_code_eq [symmetric], where key = key and exptime = exptime and flags = flags] 3(2)
    obtain s' where "mps_shdict_store z op key vtype str num exptime flags s
        = Some (\<lparr>st_rc = NGX_OK, st_err = None, st_forcible = False\<rparr>, s')" "holds z s' (dict_del key ?S)"
      unfolding allowed_def by blast
    with api.store_nil [OF 3(1) S 3(2)] show ?thesis by (auto intro!: meetsI)
  next
    case 4
    have key: "length key < 2 ^ 16" using call K by (auto simp: keys_ok_def)
    have "length v \<le> 8 \<or> str = Some v" using 4(1) by (auto simp: store_value_def split: if_splits)
    then have "node_header + length key + length v < 2 ^ 31" using call key by (auto simp: small_def offsets)
    from store_stores [OF hold unheld 4(1) refl lookup_code_eq [symmetric] _ key this, where exptime = exptime and flags = flags] 4(2) obtain r s' where
      s': "mps_shdict_store z op key vtype str num exptime flags s = Some (r, s')"
        "stored z op key vtype v exptime flags s (dict_del key ?S) r s'" by (auto simp: allowed_def)
    show ?thesis
      using s' api.store_done [OF 4(1) S 4(2)] api.store_no_memory [OF 4(1) S 4(2)] unfolding stored_def
      by (elim conjE exE disjE) (auto intro!: meetsI)
  qed
qed

lemma gone_cases: "gone now found \<or> (\<exists>e. found = Some e \<and> \<not> expired now e)"
  by (cases found) (auto simp: gone_def)

lemma keys_no_collision:
  assumes "dict_ok K n D" "keys_ok K" "key \<in> K"
  shows "no_collision D key"
  using assms by (fastforce simp: no_collision_def dict_ok_def keys_ok_def inj_on_def)

lemma incr_meets:
  assumes hold: "holds z s D" and unheld: "\<not> held s" and ok: "dict_ok K n D" and K: "keys_ok K" and key: "key \<in> K"
  shows "meets fadd z (Incr key val has_init init init_ttl) s D"
proof -
  define s0 where "s0 = incr_start init_ttl s"
  let ?S = "swept s0 D" and ?u = "time_nth s0"
  have S: "?u = incr_time init_ttl (time_nth s)" "?S = sweep ?u D" by (simp_all add: s0_def incr_start_time swept_sweep)
  have nc: "no_collision ?S key" using keys_no_collision [OF dict_ok_swept [OF ok] K key] .
  consider "gone (?u 1) (map_of ?S key)" "has_init" | "gone (?u 1) (map_of ?S key)" "\<not> has_init"
    | e where "map_of ?S key = Some e" "\<not> expired (?u 1) e" using gone_cases by blast
  then show ?thesis
  proof cases
    case 1
    then have "\<And>e. map_of ?S key = Some e \<Longrightarrow> expired (time_nth s0 1) e" by (simp add: gone_def)
    from incr_creates [OF hold unheld s0_def this nc, where fadd = fadd and val = val and init = init] K key 1(2) obtain r s' where
      s': "mps_shdict_incr fadd z key val has_init init init_ttl s = Some (r, s')"
        "counted z key (fadd val init) (if init_ttl > 0 then time_of s else 0) init_ttl s (dict_del key ?S) r s'" by (auto simp: keys_ok_def)
    show ?thesis
      using s' 1(2) api.incr_new [OF S 1(1) _ refl] api.incr_no_memory [OF S 1(1)] unfolding counted_def time_nth_0
      by (elim conjE exE disjE) (auto intro!: meetsI)
  next
    case 2
    then have "case map_of ?S key of None \<Rightarrow> \<not> has_init \<and> ''not found'' = ''not found''
      | Some e \<Rightarrow> if expired (time_nth s0 1) e then \<not> has_init \<and> ''not found'' = ''not found''
                  else \<not> is_number e \<and> ''not found'' = ''not a number''" by (auto simp: gone_def split: option.splits)
    from incr_refuses [OF hold unheld s0_def refl this, of fadd val init] api.incr_missing [OF S 2(1)] 2(2) show ?thesis
      by (auto intro!: meetsI)
  next
    case 3
    show ?thesis
    proof (cases "is_number e")
      case True
      from incr_adds [OF hold unheld s0_def 3 True, of fadd val has_init init] api.incr_live [OF S 3 True] show ?thesis
        by (auto intro!: meetsI)
    next
      case False
      have "case map_of ?S key of None \<Rightarrow> \<not> has_init \<and> ''not a number'' = ''not found''
        | Some e \<Rightarrow> if expired (time_nth s0 1) e then \<not> has_init \<and> ''not a number'' = ''not found''
                  else \<not> is_number e \<and> ''not a number'' = ''not a number''" using 3 False by simp
      from incr_refuses [OF hold unheld s0_def refl this, of fadd val init] api.incr_not_number [OF S 3 False] show ?thesis
        by (auto intro!: meetsI)
    qed
  qed
qed

lemma push_meets:
  assumes hold: "holds z s D" and unheld: "\<not> held s" and ok: "dict_ok K n D" and K: "keys_ok K" and n: "n < 2 ^ 31 - 1"
    and call: "call_ok K (Push d key vtype str num)"
  shows "meets fadd z (Push d key vtype str num) s D"
proof (cases "push_value vtype str num")
  case None
  then show ?thesis using hold push_bad_type [OF None, of z d key s] api.push_invalid [OF None] by (auto intro!: meetsI)
next
  case (Some v)
  let ?S = "swept s D"
  note S = swept_sweep [of s D]
  have len: "length key < 2 ^ 16" "lnode_header + length v < 2 ^ 31"
    using call K push_value_ok [OF Some] by (auto simp: keys_ok_def small_def offsets)
  note oks = dict_ok_swept [OF ok, of s]
  show ?thesis
  proof (cases "gone (time_nth s 1) (map_of ?S key)")
    case True
    then have "\<And>e. map_of ?S key = Some e \<Longrightarrow> expired (time_nth s 1) e" by (simp add: gone_def)
    from push_creates [OF hold unheld Some this len, of d] obtain r s' where
      s': "mps_shdict_push_helper z d key vtype str num s = Some (r, s')" "listed z key (item_of vtype v) s (dict_del key ?S) r s'" by auto
    show ?thesis
      using s' api.push_new [OF Some S True] api.push_new_no_memory [OF Some S True] unfolding listed_def
      by (elim conjE exE disjE) (auto intro!: meetsI)
  next
    case False
    then obtain e where e: "map_of ?S key = Some e" "\<not> expired (time_nth s 1) e" using gone_cases by blast
    have items: "length (e_items e) < 2 ^ 31 - 1" "list_type e \<Longrightarrow> e_items e \<noteq> []"
      using dict_ok_found [OF oks e(1)] n by (auto simp: entry_ok_def split: if_splits)
    from push_live [OF hold unheld Some e len(2) items(1), of d] obtain r s' where
      s': "mps_shdict_push_helper z d key vtype str num s = Some (r, s')"
        "if list_type e then pushed z d key (item_of vtype v) s (length (e_items e)) (dict_touch key ?S) r s'
         else r = \<lparr>ps_rc = NGX_ERROR, ps_err = Some ''value not a list''\<rparr> \<and> \<not> held s' \<and> clock s' = clock s
           \<and> holds z s' (dict_touch key ?S)" by blast
    show ?thesis
    proof (cases "list_type e")
      case True
      then show ?thesis
        using s' items(2) [OF True] api.push_list [OF Some S e True] api.push_list_no_memory [OF Some S e True items(2) [OF True]]
        unfolding pushed_def by (auto intro!: meetsI)
    next
      case False
      then show ?thesis using s' api.push_not_list [OF Some S e False] by (auto intro!: meetsI)
    qed
  qed
qed

lemma call_meets:
  assumes hold: "holds z s D" and unheld: "\<not> held s" and ok: "dict_ok K n D" and K: "keys_ok K" and n: "n < 2 ^ 31 - 1"
    and call: "call_ok K c"
  shows "meets fadd z c s D"
proof (cases c)
  case (Get key len gs mo)
  with get_refines [OF hold unheld, of key len gs mo] api.get [of fadd "time_nth s" key len gs mo D] show ?thesis by (auto intro!: meetsI)
next
  case (Store op key vtype str num exptime flags)
  with store_meets [OF hold unheld ok K] call show ?thesis by blast
next
  case (Incr key val has_init init init_ttl)
  with incr_meets [OF hold unheld ok K] call show ?thesis by auto
next
  case Flush_all
  with flush_all_refines [OF hold unheld] api.flush_all [of fadd "time_nth s" D] show ?thesis by (auto intro!: meetsI)
next
  case (Get_ttl key)
  with get_ttl_refines [OF hold unheld, of key] api.get_ttl [of fadd "time_nth s" key D, unfolded time_nth_0] show ?thesis by (auto intro!: meetsI)
next
  case (Set_expire key exptime)
  with set_expire_refines [OF hold unheld, of key exptime] api.set_expire [of fadd "time_nth s" key exptime D] show ?thesis
    by (auto intro!: meetsI)
next
  case (Push d key vtype str num)
  with push_meets [OF hold unheld ok K n] call show ?thesis by blast
next
  case (Pop d key len mo)
  with pop_refines [OF hold unheld, of d key len mo] api.pop [OF refl, of fadd "time_nth s" d key len mo D] show ?thesis
    by (auto intro!: meetsI simp: swept_sweep)
next
  case (Llen key)
  have "length (e_items e) < 2 ^ 31" if "map_of (swept s D) key = Some e" for e
    using dict_ok_found [OF dict_ok_swept [OF ok] that] n by (auto simp: entry_ok_def split: if_splits)
  with Llen llen_refines [OF hold unheld, of key] api.llen [OF refl, of fadd "time_nth s" key D] show ?thesis
    by (auto intro!: meetsI simp: swept_sweep)
next
  case Free_space
  with hold api.free_space [of fadd "time_nth s"] show ?thesis
    by (auto intro!: meetsI simp: mps_shdict_free_space_def lock_unheld [OF unheld])
qed

subsection \<open>Sequences of calls\<close>

lemma answer_calls_ok:
  "holds z s D \<Longrightarrow> \<not> held s \<Longrightarrow> dict_ok K n D \<Longrightarrow> keys_ok K \<Longrightarrow> list_all (call_ok K) cs \<Longrightarrow> n + length cs < 2 ^ 31
     \<Longrightarrow> \<exists>rs s' D'. answer_calls fadd z cs s = Some (rs, s') \<and> length rs = length cs \<and> holds z s' D' \<and> \<not> held s'
       \<and> dict_ok K (n + length cs) D' \<and> api_history fadd (time_nth s) D (zip cs rs) D'"
proof (induction cs arbitrary: s D n)
  case Nil
  then show ?case by (auto intro: api_history.none)
next
  case (Cons c cs)
  have n: "n < 2 ^ 31 - 1" and c: "call_ok K c" using Cons.prems by auto
  from call_meets [OF Cons.prems(1-4) n c, of fadd] obtain r s1 D1 where
    m: "answer_call fadd z c s = Some (r, s1)" "holds z s1 D1" "api fadd (time_nth s) c r D D1" by (auto simp: meets_def)
  from run_call_ok [OF Cons.prems(1-4) n c, of fadd] m(1) obtain D2 where
    "holds z s1 D2" "\<not> held s1" "dict_ok K (Suc n) D2" by (auto simp: runs_to_def run_call_answer)
  then have s1: "\<not> held s1" "dict_ok K (Suc n) D1" using one_dictionary [OF m(2)] by auto
  from Cons.IH [OF m(2) s1 Cons.prems(4)] Cons.prems(5,6) obtain rs s' D' where
    s': "answer_calls fadd z cs s1 = Some (rs, s')" "length rs = length cs" "holds z s' D'" "\<not> held s'"
      "dict_ok K (n + length (c # cs)) D'" "api_history fadd (time_nth s1) D1 (zip cs rs) D'" by auto
  have "api_history fadd (time_nth s) D (zip (c # cs) (r # rs)) D'"
    using api_history.some [OF m(3)] s'(6) later_time [OF answer_later [OF m(1)]] by simp
  with m(1) s' show ?case by auto
qed

text \<open>A dictionary has no more entries than there are keys, and those are finitely many, as their hashes are.\<close>

lemma dict_length:
  assumes "holds z s D" "dict_ok K n D" "keys_ok K"
  shows "length D \<le> card K"
proof -
  have "inj_on ngx_murmur_hash2 K" using assms(3) by (auto simp: keys_ok_def inj_on_def)
  then have "finite K" by (rule inj_on_finite [where B = UNIV]) simp_all
  moreover have "fst ` set D \<subseteq> K" using assms(2) by (auto simp: dict_ok_def)
  ultimately have "card (set (map fst D)) \<le> card K" by (simp add: card_mono)
  moreover have "card (set (map fst D)) = length D" using distinct_card [OF holds_keys_distinct [OF assms(1)]] by simp
  ultimately show ?thesis by simp
qed

subsection \<open>What a get can answer\<close>

text \<open>The value of a new entry without expiry time, by its type.\<close>

lemma get_of_new_entry:
  assumes "exptime \<le> 0" "store_value op vtype str num = Inr (Some v)"
    and "length v \<le> buf_len \<or> malloc_ok \<and> vtype \<noteq> MPS_SHDICT_TBOOLEAN"
    and "g = get_spec buf_len get_stale malloc_ok now (Some (new_entry vtype v exptime flags stored_at))"
  shows "gt_rc g = NGX_OK \<and> gt_type g = vtype \<and> gt_flags g = Some flags
    \<and> gt_stale g = (if get_stale then Some False else None)
    \<and> (if vtype = MPS_SHDICT_TSTRING then gt_str g = str \<and> gt_str_len g = Some (length v)
       else if vtype = MPS_SHDICT_TNUMBER then gt_num g = Some num
       else gt_str g = Some [if double_true num then 1 else 0])"
  using assms
  by (auto simp: get_spec_def new_entry_def expired_def store_value_def get_fail_def bytes_double_double_bytes tags
      split: if_splits)

text \<open>
  A consequence of the specification alone: the string that a get answers is the one that the latest
  successful store of its key has stored, with its flags.
\<close>

fun sets :: "byte list \<Rightarrow> call \<times> response \<Rightarrow> bool" where
  "sets key (Store op key' vtype str num exptime flags, Stored r) \<longleftrightarrow> key' = key \<and> st_rc r = NGX_OK"
| "sets key _ \<longleftrightarrow> False"

definition is_string :: "entry \<Rightarrow> bool" where
  "is_string e \<longleftrightarrow> uint (e_type e) = MPS_SHDICT_TSTRING"

definition strings_from :: "dict \<Rightarrow> dict \<Rightarrow> bool" where
  "strings_from D' D \<longleftrightarrow> (\<forall>k e'. map_of D' k = Some e' \<longrightarrow> is_string e' \<longrightarrow>
     (\<exists>e. map_of D k = Some e \<and> is_string e \<and> e_bytes e' = e_bytes e \<and> e_flags e' = e_flags e))"

text \<open>The history is a list whose latest event comes first.\<close>

definition current :: "(call \<times> response) list \<Rightarrow> dict \<Rightarrow> bool" where
  "current h D \<longleftrightarrow> (\<forall>k e. map_of D k = Some e \<longrightarrow> is_string e \<longrightarrow>
     (\<exists>op num exptime r. find (sets k) h
        = Some (Store op k MPS_SHDICT_TSTRING (Some (e_bytes e)) num exptime (e_flags e), r)))"

lemma strings_from_refl [simp]: "strings_from D D"
  by (auto simp: strings_from_def)

lemma strings_from_trans [trans]: "strings_from A B \<Longrightarrow> strings_from B C \<Longrightarrow> strings_from A C"
  unfolding strings_from_def by metis

lemma map_of_take: "map_of (take n D) k = Some e \<Longrightarrow> map_of D k = Some e"
  by (metis append_take_drop_id map_add_Some_iff map_of_append)

lemma map_of_map_entry: "map_of (map (\<lambda>(k, e). (k, f k e)) D) k = map_option (f k) (map_of D k)"
  by (induction D) auto

lemma strings_from_map:
  assumes "\<And>k e. e_type (f k e) = e_type e \<and> e_bytes (f k e) = e_bytes e \<and> e_flags (f k e) = e_flags e"
  shows "strings_from (map (\<lambda>(k, e). (k, f k e)) D) D"
  using assms by (auto simp: strings_from_def is_string_def map_of_map_entry)

lemma strings_from_ops:
  "strings_from (keep_first D j) D" "strings_from (dict_del k D) D" "strings_from (sweep t D) D"
  "strings_from (map stale D) D" "strings_from (dict_set_expires k v D) D" "strings_from (dict_push d k x D) D"
  "strings_from (dict_items k is D) D" "strings_from (dict_touch k D) D"
  unfolding stale_def dict_set_expires_def dict_push_def dict_items_def
  by (simp_all add: strings_from_map)
    (auto simp: strings_from_def keep_first_def map_of_dict_del sweep_def is_string_def dest!: map_of_take)

text \<open>The same after other changes.\<close>

lemma strings_from_more:
  assumes "strings_from E D"
  shows "strings_from (keep_first E j) D" "strings_from (dict_del k E) D" "strings_from (dict_touch k E) D"
    "strings_from (dict_push d k x E) D" "strings_from (dict_items k is E) D"
  using strings_from_ops(1,2,8,6,7) strings_from_trans [OF _ assms] by blast+

lemma strings_from_add: "\<not> is_string e \<Longrightarrow> strings_from E D \<Longrightarrow> strings_from ((k, e) # E) D"
  by (auto simp: strings_from_def)

lemma pop_strings: "strings_from (snd (pop_spec d key n ok now D)) D"
  by (auto simp: pop_spec_def Let_def strings_from_ops strings_from_more split: option.split)

text \<open>The calls that do not set a key keep the strings as they are.\<close>

lemma api_strings:
  assumes "api fadd t c r D D'" "\<And>k. \<not> sets k (c, r)"
  shows "strings_from D' D"
  using assms
proof (cases rule: api.cases)
  case (store_nil op vtype str num S key exptime flags)
  with assms(2) [of key] show ?thesis by simp
next
  case (store_done op vtype str num v S key j exptime flags i)
  with assms(2) [of key] show ?thesis by simp
qed (auto simp: strings_from_ops strings_from_more strings_from_add dict_set_def is_string_def new_entry_def list_entry_def
    incremented_def is_number_def tags intro: strings_from_trans [OF pop_strings] strings_from_trans [OF strings_from_ops(1)])

lemma current_from: "current h D \<Longrightarrow> strings_from D' D \<Longrightarrow> (\<And>k. \<not> sets k ev) \<Longrightarrow> current (ev # h) D'"
  unfolding current_def strings_from_def find.simps by metis

lemma current_other: "current h D \<Longrightarrow> strings_from E D \<Longrightarrow> map_of E key = None \<Longrightarrow> (\<And>k. k \<noteq> key \<Longrightarrow> \<not> sets k ev) \<Longrightarrow> current (ev # h) E"
  unfolding current_def strings_from_def find.simps by (metis option.distinct(1))

lemma new_string: "store_value op vtype str num = Inr (Some v) \<Longrightarrow> is_string (new_entry vtype v exptime flags now)
    \<Longrightarrow> vtype = MPS_SHDICT_TSTRING \<and> str = Some v"
  by (auto simp: store_value_def is_string_def new_entry_def tags split: if_splits)

lemma current_step:
  assumes "api fadd t c r D D'" "current h D"
  shows "current ((c, r) # h) D'"
proof (cases "\<exists>key. sets key (c, r)")
  case False
  then show ?thesis using current_from [OF assms(2) api_strings [OF assms(1)]] by blast
next
  case True
  from assms(1) show ?thesis
  proof (cases rule: api.cases)
    case (store_nil op vtype str num S key exptime flags)
    have "strings_from (dict_del key S) D" using strings_from_more [OF strings_from_ops(3)] store_nil by simp
    from current_other [OF assms(2) this, of key] store_nil show ?thesis by (auto simp: map_of_dict_del)
  next
    case (store_done op vtype str num v S key j exptime flags i)
    let ?E = "keep_first (dict_del key S) j"
    have from_D: "strings_from ?E D"
      using strings_from_more(1) [OF strings_from_more(2) [OF strings_from_ops(3)]] store_done by simp
    have "map_of ?E key = None"
      by (metis keep_first_def map_of_dict_del map_of_take not_None_eq)
    from current_other [OF assms(2) from_D this] have E: "current ((c, r) # h) ?E" using store_done by auto
    have n: "find (sets key) ((c, r) # h) = Some (c, r)" using store_done by simp
    have "current ((c, r) # h) ((key, e) # ?E)"
      if "is_string e \<Longrightarrow> c = Store op key MPS_SHDICT_TSTRING (Some (e_bytes e)) num exptime (e_flags e)" for e
      using E n that unfolding current_def by (auto split: if_splits)
    moreover have "is_string (new_entry vtype v exptime flags (t i)) \<Longrightarrow> c = Store op key MPS_SHDICT_TSTRING
        (Some (e_bytes (new_entry vtype v exptime flags (t i)))) num exptime (e_flags (new_entry vtype v exptime flags (t i)))"
      using new_string [OF store_done(4)] store_done(1) by (auto simp: new_entry_def)
    ultimately show ?thesis using store_done(3) by auto
  qed (use True in auto)
qed

lemma get_current:
  assumes "api fadd t (Get key n st ok) (Got g) D D'" "current h D" "gt_type g = MPS_SHDICT_TSTRING" "gt_str g = Some v"
  shows "\<exists>op num exptime flags r. gt_flags g = Some flags
    \<and> find (sets key) h = Some (Store op key MPS_SHDICT_TSTRING (Some v) num exptime flags, r)"
proof -
  have g: "g = get_spec n st ok (t 0) (map_of D key)" using assms(1) by (auto elim: api_get)
  then obtain e where e: "map_of D key = Some e" using assms(4) by (cases "map_of D key") (auto simp: get_spec_def get_fail_def)
  with g assms(3,4) have "is_string e" "e_bytes e = v" "gt_flags g = Some (e_flags e)"
    by (auto simp: get_spec_def get_fail_def is_string_def Let_def tags split: if_splits)
  with assms(2) e show ?thesis by (auto simp: current_def)
qed

lemma history_current:
  "api_history fadd t D h D' \<Longrightarrow> current past D \<Longrightarrow> h = xs @ (Get key n st ok, Got g) # ys
     \<Longrightarrow> gt_type g = MPS_SHDICT_TSTRING \<Longrightarrow> gt_str g = Some v
     \<Longrightarrow> \<exists>op num exptime flags r. gt_flags g = Some flags
       \<and> find (sets key) (rev xs @ past) = Some (Store op key MPS_SHDICT_TSTRING (Some v) num exptime flags, r)"
proof (induction arbitrary: past xs rule: api_history.induct)
  case (some t c r D D' k h D'')
  show ?case
  proof (cases xs)
    case Nil
    with some.prems some.hyps(1) get_current show ?thesis by fastforce
  next
    case (Cons x xs')
    then have x: "x = (c, r)" "h = xs' @ (Get key n st ok, Got g) # ys" using some.prems(2) by auto
    from some.IH [OF current_step [OF some.hyps(1) some.prems(1)] x(2) some.prems(3,4)] show ?thesis by (simp add: Cons x(1))
  qed
qed simp

lemma history_get: "api_history fadd t D h D' \<Longrightarrow> h = xs @ (Get key n st ok, r) # ys \<Longrightarrow> \<exists>g. r = Got g"
  by (induction arbitrary: xs rule: api_history.induct) (auto simp: Cons_eq_append_conv elim: api_get)

lemma current_empty: "current [] []"
  by (simp add: current_def)

end
