(* ===== verification/PoolFile.thy ===== *)
theory PoolFile
  imports ShdictMem "HOL-Library.Multiset"
begin

text \<open>
  The file of a pool: \<^verbatim>\<open>mps_slab_init_mutex\<close>, \<^verbatim>\<open>open_shm_or_file\<close>, \<^verbatim>\<open>mps_slab_create\<close>, \<^verbatim>\<open>mps_slab_open\<close>,
  \<^verbatim>\<open>mps_slab_open_or_create\<close> and \<^verbatim>\<open>mps_slab_close\<close> of src/src/mps_slab.c. The operating system is a
  parameter, the record \<open>os\<close>: \<open>reply\<close> answers each system call from the calls made before it, so that
  it may fail at any of them with any error, and \<open>contents\<close> is what a new mapping shows. The \<open>world\<close> is the
  trace of the calls and their replies, the last one first, and the memory of this process by the
  address of the mapping. A reply \<open>Inl e\<close> is a failure with \<^verbatim>\<open>errno\<close> (or the result, for the pthread
  functions) \<open>e\<close>; \<open>Inr v\<close> is success with the file descriptor or address \<open>v\<close>.
\<close>

datatype open_flag = O_RDWR | O_CREAT | O_EXCL

datatype syscall =
    Sys_open "byte list" "open_flag list" nat
  | Sys_shm_open "byte list" "open_flag list" nat
  | Sys_ftruncate nat nat
  | Sys_mmap nat nat
  | Sys_munmap nat nat
  | Sys_fchmod nat nat
  | Sys_close nat
  | Sys_nanosleep nat
  | Pthread_once
  | Pthread_mutexattr_init
  | Pthread_mutexattr_setrobust
  | Pthread_mutexattr_setpshared
  | Pthread_mutex_init
  | Pthread_mutexattr_destroy

type_synonym sys_reply = "int + nat"
type_synonym sys_trace = "(syscall \<times> sys_reply) list"

record os =
  reply :: "sys_trace \<Rightarrow> syscall \<Rightarrow> sys_reply"
  contents :: "sys_trace \<Rightarrow> shm"

record world =
  trace :: sys_trace
  mem :: "off \<Rightarrow> shm"

definition ENOENT :: int where "ENOENT = 2"
definition EACCES :: int where "EACCES = 13"
definition EEXIST :: int where "EEXIST = 17"
definition S_IRUSR :: nat where "S_IRUSR = 0x100"

named_theorems errnos
declare ENOENT_def [errnos] EACCES_def [errnos] EEXIST_def [errnos] ENOMEM_def [errnos]

definition sys :: "os \<Rightarrow> syscall \<Rightarrow> world \<Rightarrow> sys_reply \<times> world" where
  "sys os c w = (let r = reply os (trace w) c in (r, w\<lparr>trace := (c, r) # trace w\<rparr>))"

text \<open>A call whose result is 0 or an error number.\<close>

definition sys_err :: "os \<Rightarrow> syscall \<Rightarrow> world \<Rightarrow> int \<times> world" where
  "sys_err os c w = (case sys os c w of (Inl e, w) \<Rightarrow> (e, w) | (Inr _, w) \<Rightarrow> (0, w))"

subsection \<open>The pool's mutex\<close>

fun first_error :: "os \<Rightarrow> syscall list \<Rightarrow> world \<Rightarrow> int \<times> world" where
  "first_error os [] w = (0, w)"
| "first_error os (c # cs) w =
     (let (rc, w) = sys_err os c w in if rc \<noteq> 0 then (rc, w) else first_error os cs w)"

definition mps_slab_init_mutex :: "os \<Rightarrow> world \<Rightarrow> int \<times> world" where
  "mps_slab_init_mutex os =
     first_error os [Pthread_mutexattr_init, Pthread_mutexattr_setrobust, Pthread_mutexattr_setpshared,
       Pthread_mutex_init, Pthread_mutexattr_destroy]"

text \<open>\<^verbatim>\<open>mps_slab_init\<close>: the mutex, then the allocator in the memory at \<open>addr\<close>.\<close>

definition pool_init :: "os \<Rightarrow> slab_sizes \<Rightarrow> off \<Rightarrow> nat \<Rightarrow> nat \<Rightarrow> world \<Rightarrow> int \<times> world" where
  "pool_init os z addr shm_size shift w =
     (let (err, w) = mps_slab_init_mutex os w
      in if err \<noteq> 0 then (err, w)
         else
           let s = (mem w addr)\<lparr>held := False\<rparr>;
               s = s\<lparr>slab := mps_slab_init z shm_size shift (slab s)\<rparr>
           in (0, w\<lparr>mem := (mem w)(addr := s)\<rparr>))"

subsection \<open>Opening and creating\<close>

definition SHM_PATH_PREFIX :: "byte list" where
  "SHM_PATH_PREFIX = [47, 100, 101, 118, 47, 115, 104, 109, 47]"

definition SHM_PATH_PREFIX_LEN :: nat where "SHM_PATH_PREFIX_LEN = 9"

definition open_shm_or_file :: "os \<Rightarrow> byte list \<Rightarrow> open_flag list \<Rightarrow> nat \<Rightarrow> world \<Rightarrow> sys_reply \<times> world" where
  "open_shm_or_file os pathname flags mode w =
     (let cmp_len = (if length pathname < SHM_PATH_PREFIX_LEN then length pathname else SHM_PATH_PREFIX_LEN)
      in if ngx_memn2cmp (take cmp_len pathname) SHM_PATH_PREFIX = 0
         then sys os (Sys_shm_open (drop (SHM_PATH_PREFIX_LEN - 1) pathname) flags mode) w
         else sys os (Sys_open pathname flags mode) w)"

text \<open>The mapping that \<^verbatim>\<open>mmap\<close> returns shows the contents of the file.\<close>

definition map_file :: "os \<Rightarrow> nat \<Rightarrow> nat \<Rightarrow> world \<Rightarrow> sys_reply \<times> world" where
  "map_file os shm_size fd w =
     (case sys os (Sys_mmap shm_size fd) w of
        (Inl e, w) \<Rightarrow> (Inl e, w)
      | (Inr addr, w) \<Rightarrow> (Inr addr, w\<lparr>mem := (mem w)(addr := contents os (trace w))\<rparr>))"

text \<open>The label \<^verbatim>\<open>close\<close> of \<^verbatim>\<open>mps_slab_create\<close>.\<close>

definition create_close :: "os \<Rightarrow> nat \<Rightarrow> int \<Rightarrow> world \<Rightarrow> int \<times> world" where
  "create_close os fd err w =
     (let (rc, w) = sys_err os (Sys_close fd) w in (if rc \<noteq> 0 \<and> err = 0 then rc else err, w))"

text \<open>The steps of \<^verbatim>\<open>mps_slab_create\<close> once the file is mapped, up to the label.\<close>

definition create_fill ::
    "os \<Rightarrow> slab_sizes \<Rightarrow> off \<Rightarrow> nat \<Rightarrow> nat \<Rightarrow> nat \<Rightarrow> nat \<Rightarrow> (shm \<Rightarrow> (int \<times> shm) option) option \<Rightarrow> world
     \<Rightarrow> (int \<times> world) option" where
  "create_fill os z addr fd shm_size shift mode on_init w =
     (let (err, w) = pool_init os z addr shm_size shift w
      in if err \<noteq> 0 then Some (err, w)
         else do {
           (err, w) \<leftarrow>
             (case on_init of
                None \<Rightarrow> Some (0, w)
              | Some f \<Rightarrow> do { (err, s) \<leftarrow> f (mem w addr); Some (err, w\<lparr>mem := (mem w)(addr := s)\<rparr>) });
           if err \<noteq> 0 then Some (err, w)
           else
             let (err, w) = sys_err os (Sys_fchmod fd mode) w
             in if err \<noteq> 0 then Some (err, snd (sys os (Sys_munmap addr shm_size) w))
                else Some (0, w) })"

text \<open>The error, \<open>*pool\<close> (\<open>None\<close> when it is not written) and the world.\<close>

definition mps_slab_create ::
    "os \<Rightarrow> slab_sizes \<Rightarrow> byte list \<Rightarrow> nat \<Rightarrow> nat \<Rightarrow> nat \<Rightarrow> (shm \<Rightarrow> (int \<times> shm) option) option \<Rightarrow> off option \<Rightarrow> world
     \<Rightarrow> (int \<times> off option \<times> world) option" where
  "mps_slab_create os z pathname shm_size shift mode on_init pool w =
     (case open_shm_or_file os pathname [O_RDWR, O_CREAT, O_EXCL] S_IRUSR w of
        (Inl e, w) \<Rightarrow> Some (e, pool, w)
      | (Inr fd, w) \<Rightarrow>
          (case sys os (Sys_ftruncate fd shm_size) w of
             (Inl e, w) \<Rightarrow> let (err, w) = create_close os fd e w in Some (err, pool, w)
           | (Inr _, w) \<Rightarrow>
               (case map_file os shm_size fd w of
                  (Inl e, w) \<Rightarrow> let (err, w) = create_close os fd e w in Some (err, pool, w)
                | (Inr addr, w) \<Rightarrow> do {
                    (err, w) \<leftarrow> create_fill os z addr fd shm_size shift mode on_init w;
                    let (err, w) = create_close os fd err w in
                    Some (err, Some addr, w) })))"

definition mps_slab_open ::
    "os \<Rightarrow> byte list \<Rightarrow> nat \<Rightarrow> nat \<Rightarrow> off option \<Rightarrow> world \<Rightarrow> int \<times> off option \<times> world" where
  "mps_slab_open os pathname shm_size mode pool w =
     (case open_shm_or_file os pathname [O_RDWR] mode w of
        (Inl e, w) \<Rightarrow> (e, pool, w)
      | (Inr fd, w) \<Rightarrow>
          (case map_file os shm_size fd w of
             (Inl e, w) \<Rightarrow> (e, pool, w)
           | (Inr addr, w) \<Rightarrow>
               (case sys os (Sys_close fd) w of
                  (Inl e, w) \<Rightarrow> (e, Some addr, snd (sys os (Sys_munmap addr shm_size) w))
                | (Inr _, w) \<Rightarrow> (0, Some addr, w))))"

text \<open>The second attempt, when another process has created the file in between.\<close>

definition retry_open :: "os \<Rightarrow> byte list \<Rightarrow> nat \<Rightarrow> nat \<Rightarrow> off option \<Rightarrow> world \<Rightarrow> off option \<times> world" where
  "retry_open os pathname shm_size mode pool w =
     (case sys os (Sys_nanosleep (10 * 1000 * 1000)) w of
        (Inl _, w) \<Rightarrow> (None, w)
      | (Inr _, w) \<Rightarrow>
          let (err, pool, w) = mps_slab_open os pathname shm_size mode pool w
          in if err \<noteq> 0 then (None, w) else (pool, w))"

text \<open>\<open>None\<close> in the result is NULL; the local \<^verbatim>\<open>pool\<close> starts unwritten.\<close>

definition mps_slab_open_or_create ::
    "os \<Rightarrow> slab_sizes \<Rightarrow> byte list \<Rightarrow> nat \<Rightarrow> nat \<Rightarrow> nat \<Rightarrow> (shm \<Rightarrow> (int \<times> shm) option) option \<Rightarrow> world
     \<Rightarrow> (off option \<times> world) option" where
  "mps_slab_open_or_create os z pathname shm_size shift mode on_init w =
     (let (rc, w) = sys_err os Pthread_once w
      in if rc \<noteq> 0 then Some (None, w)
         else
           let (err, pool, w) = mps_slab_open os pathname shm_size mode None w
           in if err = 0 then Some (pool, w)
              else if err \<noteq> ENOENT \<and> err \<noteq> EACCES then Some (None, w)
              else do {
                (err, pool, w) \<leftarrow> mps_slab_create os z pathname shm_size shift mode on_init pool w;
                if err = 0 then Some (pool, w)
                else if err \<noteq> EEXIST then Some (None, w)
                else Some (retry_open os pathname shm_size mode pool w) })"

definition mps_slab_close :: "os \<Rightarrow> off \<Rightarrow> nat \<Rightarrow> world \<Rightarrow> world" where
  "mps_slab_close os pool shm_size w = snd (sys os (Sys_munmap pool shm_size) w)"

subsection \<open>Descriptors and mappings\<close>

text \<open>
  What the calls of a trace leave open: the file descriptors, and the addresses of the mappings. A
  descriptor is gone after \<^verbatim>\<open>close\<close> even if it reports an error, a mapping only after a \<^verbatim>\<open>munmap\<close> that
  succeeds.
\<close>

fun fd_effect :: "syscall \<Rightarrow> sys_reply \<Rightarrow> nat multiset \<Rightarrow> nat multiset" where
  "fd_effect (Sys_open p fl m) (Inr fd) M = add_mset fd M"
| "fd_effect (Sys_shm_open p fl m) (Inr fd) M = add_mset fd M"
| "fd_effect (Sys_close fd) r M = M - {#fd#}"
| "fd_effect c r M = M"

fun map_effect :: "syscall \<Rightarrow> sys_reply \<Rightarrow> nat multiset \<Rightarrow> nat multiset" where
  "map_effect (Sys_mmap n fd) (Inr addr) M = add_mset addr M"
| "map_effect (Sys_munmap addr n) (Inr v) M = M - {#addr#}"
| "map_effect c r M = M"

primrec fds :: "sys_trace \<Rightarrow> nat multiset" where
  "fds [] = {#}"
| "fds (e # t) = fd_effect (fst e) (snd e) (fds t)"

primrec maps :: "sys_trace \<Rightarrow> nat multiset" where
  "maps [] = {#}"
| "maps (e # t) = map_effect (fst e) (snd e) (maps t)"

text \<open>
  Documented behaviour: no call fails with \<^verbatim>\<open>errno\<close> 0. The two others are assumptions on the run:
  that every \<^verbatim>\<open>mmap\<close> succeeds, and that nothing fails once the file is mapped.
\<close>

definition errno_ok :: "os \<Rightarrow> bool" where
  "errno_ok os \<longleftrightarrow> (\<forall>t c. reply os t c \<noteq> Inl 0)"

definition mmap_works :: "os \<Rightarrow> bool" where
  "mmap_works os \<longleftrightarrow> (\<forall>t n fd. \<exists>a. reply os t (Sys_mmap n fd) = Inr a)"

definition late_calls_work :: "os \<Rightarrow> bool" where
  "late_calls_work os \<longleftrightarrow> (\<forall>t c. c = Pthread_mutexattr_init \<or> c = Pthread_mutexattr_setrobust
       \<or> c = Pthread_mutexattr_setpshared \<or> c = Pthread_mutex_init \<or> c = Pthread_mutexattr_destroy
       \<or> (\<exists>fd. c = Sys_close fd) \<or> (\<exists>a n. c = Sys_munmap a n)
     \<longrightarrow> (\<exists>v. reply os t c = Inr v))"

lemmas sys_defs = sys_def sys_err_def map_file_def create_close_def Let_def

lemma sys_run: "sys os c w = (reply os (trace w) c, w\<lparr>trace := (c, reply os (trace w) c) # trace w\<rparr>)"
  by (simp add: sys_def Let_def)

text \<open>The call that \<^verbatim>\<open>open_shm_or_file\<close> makes; the prefix test decides what it is meant to.\<close>

definition open_call :: "byte list \<Rightarrow> open_flag list \<Rightarrow> nat \<Rightarrow> syscall" where
  "open_call pathname flags mode =
     (if take SHM_PATH_PREFIX_LEN pathname = SHM_PATH_PREFIX
      then Sys_shm_open (drop (SHM_PATH_PREFIX_LEN - 1) pathname) flags mode
      else Sys_open pathname flags mode)"

lemma open_shm_or_file_run:
  "open_shm_or_file os pathname flags mode w = sys os (open_call pathname flags mode) w"
  by (simp add: open_shm_or_file_def open_call_def Let_def ngx_memn2cmp_eq)

lemma open_call_effect [simp]:
  "fd_effect (open_call p fl m) r M = (case r of Inl _ \<Rightarrow> M | Inr fd \<Rightarrow> add_mset fd M)"
  "map_effect (open_call p fl m) r M = M"
  by (cases r; simp add: open_call_def)+

lemma take_prefix: "take (length q) p = q \<longleftrightarrow> (\<exists>r. p = q @ r)"
  by (metis append_eq_conv_conj append_take_drop_id)

lemma prefix_len: "SHM_PATH_PREFIX_LEN = length SHM_PATH_PREFIX"
  by (simp add: SHM_PATH_PREFIX_def SHM_PATH_PREFIX_LEN_def)

lemma open_call_shm: "open_call (SHM_PATH_PREFIX @ name) flags mode = Sys_shm_open (47 # name) flags mode"
  by (simp add: open_call_def SHM_PATH_PREFIX_def SHM_PATH_PREFIX_LEN_def)

lemma open_call_file: "\<nexists>name. p = SHM_PATH_PREFIX @ name \<Longrightarrow> open_call p flags mode = Sys_open p flags mode"
  using take_prefix [of SHM_PATH_PREFIX p] by (auto simp: open_call_def prefix_len)

subsection \<open>What opening leaves behind\<close>

lemma late_calls:
  assumes "late_calls_work os"
  shows "reply os t (Sys_close fd) \<noteq> Inl e" "reply os t (Sys_munmap a n) \<noteq> Inl e"
  using assms [unfolded late_calls_work_def, rule_format, of "Sys_close fd" t]
    assms [unfolded late_calls_work_def, rule_format, of "Sys_munmap a n" t] by auto

lemma mps_slab_open_balance:
  assumes "mps_slab_open os pathname n mode pool w = (err, pool', w')" "errno_ok os"
  shows "(err = 0 \<longrightarrow> (\<exists>a t. pool' = Some a \<and> fds (trace w') = fds (trace w)
      \<and> maps (trace w') = add_mset a (maps (trace w)) \<and> mem w' = (mem w)(a := contents os t)))
    \<and> (mmap_works os \<longrightarrow> fds (trace w') = fds (trace w))
    \<and> (err \<noteq> 0 \<longrightarrow> late_calls_work os \<longrightarrow> maps (trace w') = maps (trace w))
    \<and> maps (trace w) \<subseteq># maps (trace w')"
proof -
  define c where "c = open_call pathname [O_RDWR] mode"
  define t1 where "t1 = (c, reply os (trace w) c) # trace w"
  note e = assms(2) [unfolded errno_ok_def, rule_format]
  note run = assms(1) [unfolded mps_slab_open_def open_shm_or_file_run map_file_def sys_run, folded c_def, simplified]
  have c: "fd_effect c r M = (case r of Inl _ \<Rightarrow> M | Inr fd \<Rightarrow> add_mset fd M)" "map_effect c r M = M" for r M
    by (simp_all add: c_def)
  show ?thesis
  proof (cases "reply os (trace w) c")
    case (Inl err')
    then show ?thesis using run e [of "trace w" c] c by auto
  next
    case (Inr fd)
    define t2 where "t2 = (Sys_mmap n fd, reply os t1 (Sys_mmap n fd)) # t1"
    note run1 = run [unfolded Inr, simplified]
    show ?thesis
    proof (cases "reply os t1 (Sys_mmap n fd)")
      case (Inl err')
      then have "\<not> mmap_works os" by (metis mmap_works_def sum.distinct(1))
      then show ?thesis using run1 Inl Inr e [of t1 "Sys_mmap n fd"] c by (auto simp: t1_def)
    next
      case a: (Inr a)
      note run2 = run1 [unfolded a [unfolded t1_def Inr], simplified]
      show ?thesis
      proof (cases "reply os t2 (Sys_close fd)")
        case (Inl err')
        then have "\<not> late_calls_work os" by (metis late_calls_work_def sum.distinct(1))
        moreover have "fds (trace w') = fds (trace w)" "maps (trace w) \<subseteq># maps (trace w')" "err \<noteq> 0"
          using run2 Inl Inr a e [of t2 "Sys_close fd"] c
          by (cases "reply os ((Sys_close fd, Inl err') # t2) (Sys_munmap a n)"; auto simp: t1_def t2_def)+
        ultimately show ?thesis by blast
      next
        case close: (Inr v)
        have "err = 0 \<and> pool' = Some a \<and> fds (trace w') = fds (trace w)
            \<and> maps (trace w') = add_mset a (maps (trace w)) \<and> mem w' = (mem w)(a := contents os t2)"
          using run2 close Inr a c by (auto simp: t1_def t2_def)
        then show ?thesis by auto
      qed
    qed
  qed
qed

subsection \<open>What creating leaves behind\<close>

lemma first_error_balance:
  assumes "first_error os cs w = (err, w')" "\<And>c r M. c \<in> set cs \<Longrightarrow> fd_effect c r M = M \<and> map_effect c r M = M"
  shows "fds (trace w') = fds (trace w) \<and> maps (trace w') = maps (trace w) \<and> mem w' = mem w
    \<and> ((\<forall>c \<in> set cs. \<forall>t. \<exists>v. reply os t c = Inr v) \<longrightarrow> err = 0)"
  using assms
proof (induction cs arbitrary: w)
  case (Cons c cs)
  define w1 where "w1 = w\<lparr>trace := (c, reply os (trace w) c) # trace w\<rparr>"
  have w1: "fds (trace w1) = fds (trace w)" "maps (trace w1) = maps (trace w)" "mem w1 = mem w"
    using Cons.prems(2) by (simp_all add: w1_def)
  show ?case
  proof (cases "\<exists>e. reply os (trace w) c = Inl e \<and> e \<noteq> 0")
    case True
    then obtain e where e: "reply os (trace w) c = Inl e" "e \<noteq> 0" by blast
    then have "err = e" "w' = w1" using Cons.prems(1) by (auto simp: sys_err_def sys_run w1_def)
    moreover have "\<not> (\<forall>t. \<exists>v. reply os t c = Inr v)" using e(1) by (metis sum.distinct(1))
    ultimately show ?thesis using w1 by auto
  next
    case False
    then have "first_error os cs w1 = (err, w')"
      using Cons.prems(1) by (auto simp: sys_err_def sys_run w1_def split: sum.splits)
    from Cons.IH [OF this] Cons.prems(2) w1 show ?thesis by simp
  qed
qed simp

lemma mps_slab_init_mutex_balance:
  assumes "mps_slab_init_mutex os w = (err, w')"
  shows "fds (trace w') = fds (trace w) \<and> maps (trace w') = maps (trace w) \<and> mem w' = mem w
    \<and> (late_calls_work os \<longrightarrow> err = 0)"
proof -
  let ?cs = "[Pthread_mutexattr_init, Pthread_mutexattr_setrobust, Pthread_mutexattr_setpshared,
    Pthread_mutex_init, Pthread_mutexattr_destroy]"
  have "late_calls_work os \<Longrightarrow> \<forall>c \<in> set ?cs. \<forall>t. \<exists>v. reply os t c = Inr v"
    by (simp add: late_calls_work_def)
  moreover have "\<And>c r M. c \<in> set ?cs \<Longrightarrow> fd_effect c r M = M \<and> map_effect c r M = M" by auto
  ultimately show ?thesis using first_error_balance [OF assms [unfolded mps_slab_init_mutex_def]] by blast
qed

definition fresh_pool :: "slab_sizes \<Rightarrow> nat \<Rightarrow> nat \<Rightarrow> shm \<Rightarrow> shm" where
  "fresh_pool z n k s = s\<lparr>held := False, slab := mps_slab_init z n k (slab s)\<rparr>"

definition inits_to :: "(shm \<Rightarrow> (int \<times> shm) option) option \<Rightarrow> shm \<Rightarrow> shm \<Rightarrow> bool" where
  "inits_to on_init s s' \<longleftrightarrow> (case on_init of None \<Rightarrow> s' = s | Some f \<Rightarrow> f s = Some (0, s'))"

definition never_fails :: "slab_sizes \<Rightarrow> nat \<Rightarrow> nat \<Rightarrow> (shm \<Rightarrow> (int \<times> shm) option) option \<Rightarrow> bool" where
  "never_fails z n k on_init \<longleftrightarrow>
     (\<forall>f s r s'. on_init = Some f \<longrightarrow> f (fresh_pool z n k s) = Some (r, s') \<longrightarrow> r = 0)"

lemma create_fill_balance:
  assumes "create_fill os z a fd n k mode on_init w = Some (err, w')" "errno_ok os"
  shows "fds (trace w') = fds (trace w) \<and> (\<forall>q. q \<noteq> a \<longrightarrow> mem w' q = mem w q)
    \<and> (err = 0 \<longrightarrow> maps (trace w') = maps (trace w) \<and> inits_to on_init (fresh_pool z n k (mem w a)) (mem w' a))
    \<and> (err \<noteq> 0 \<longrightarrow> late_calls_work os \<longrightarrow> never_fails z n k on_init \<longrightarrow> maps (trace w') = maps (trace w) - {#a#})
    \<and> maps (trace w) - {#a#} \<subseteq># maps (trace w')"
proof -
  obtain e1 w1 where m: "mps_slab_init_mutex os w = (e1, w1)" by fastforce
  note b = mps_slab_init_mutex_balance [OF m]
  show ?thesis
  proof (cases "e1 = 0")
    case False
    then show ?thesis using assms(1) m b by (auto simp: create_fill_def pool_init_def Let_def)
  next
    case True
    define w2 where "w2 = w1\<lparr>mem := (mem w1)(a := fresh_pool z n k (mem w1 a))\<rparr>"
    have p: "pool_init os z a n k w = (0, w2)"
      using True m by (simp add: pool_init_def w2_def fresh_pool_def Let_def)
    have w2: "fds (trace w2) = fds (trace w)" "maps (trace w2) = maps (trace w)"
      "mem w2 = (mem w)(a := fresh_pool z n k (mem w a))"
      using b by (simp_all add: w2_def)
    note w2a = fun_cong [OF w2(3), of a, simplified]
    obtain e3 s where i: "(case on_init of None \<Rightarrow> Some (0, w2)
        | Some f \<Rightarrow> do { (err, s) \<leftarrow> f (mem w2 a); Some (err, w2\<lparr>mem := (mem w2)(a := s)\<rparr>) })
      = Some (e3, w2\<lparr>mem := (mem w2)(a := s)\<rparr>)"
      "e3 = 0 \<longrightarrow> inits_to on_init (mem w2 a) s" "never_fails z n k on_init \<longrightarrow> e3 = 0"
    proof (cases on_init)
      case None
      then show ?thesis using that [of 0 "mem w2 a"] by (simp add: inits_to_def)
    next
      case (Some f)
      then obtain r s' where "f (mem w2 a) = Some (r, s')"
        using assms(1) p by (auto simp: create_fill_def split: Option.bind_splits)
      then show ?thesis using that [of r s'] Some w2a by (auto simp: inits_to_def never_fails_def)
    qed
    define w3 where "w3 = w2\<lparr>mem := (mem w2)(a := s)\<rparr>"
    have w3: "fds (trace w3) = fds (trace w)" "maps (trace w3) = maps (trace w)" "mem w3 = (mem w)(a := s)"
      using w2 by (simp_all add: w3_def)
    have run: "(if e3 \<noteq> 0 then Some (e3, w3)
        else let (err, w) = sys_err os (Sys_fchmod fd mode) w3
             in if err \<noteq> 0 then Some (err, snd (sys os (Sys_munmap a n) w)) else Some (0, w)) = Some (err, w')"
      using assms(1) by (simp add: create_fill_def p i(1) w3_def [symmetric])
    show ?thesis
    proof (cases "e3 = 0")
      case False
      then show ?thesis using run i(3) w3 by auto
    next
      case e3: True
      define w4 where "w4 = w3\<lparr>trace := (Sys_fchmod fd mode, reply os (trace w3) (Sys_fchmod fd mode)) # trace w3\<rparr>"
      have w4: "fds (trace w4) = fds (trace w)" "maps (trace w4) = maps (trace w)" "mem w4 = (mem w)(a := s)"
        using w3 by (simp_all add: w4_def)
      show ?thesis
      proof (cases "reply os (trace w3) (Sys_fchmod fd mode)")
        case (Inr v)
        then have "err = 0" "w' = w4" using run e3 by (simp_all add: sys_err_def sys_run w4_def)
        then show ?thesis using w4 i(2) e3 w2a by simp
      next
        case (Inl e)
        moreover have "e \<noteq> 0" using assms(2) Inl by (auto simp: errno_ok_def)
        ultimately have r: "err = e" "w' = snd (sys os (Sys_munmap a n) w4)"
          using run e3 by (auto simp: sys_err_def sys_run w4_def)
        show ?thesis
          using r w4 \<open>e \<noteq> 0\<close>
          by (cases "reply os (trace w4) (Sys_munmap a n)") (auto simp: sys_run dest: late_calls)
      qed
    qed
  qed
qed

lemma create_close_balance:
  assumes "create_close os fd err w = (err', w')" "fds (trace w) = add_mset fd M" "errno_ok os"
  shows "fds (trace w') = M \<and> maps (trace w') = maps (trace w) \<and> mem w' = mem w
    \<and> (err' = 0 \<longrightarrow> err = 0) \<and> (err' \<noteq> 0 \<longrightarrow> late_calls_work os \<longrightarrow> err \<noteq> 0)"
proof (cases "reply os (trace w) (Sys_close fd)")
  case (Inl e)
  then have "\<not> late_calls_work os" by (metis late_calls_work_def sum.distinct(1))
  moreover have "e \<noteq> 0" using assms(3) Inl by (auto simp: errno_ok_def)
  ultimately show ?thesis
    using assms(1,2) Inl by (auto simp: create_close_def sys_err_def sys_run split: if_splits)
next
  case (Inr v)
  then show ?thesis using assms(1,2) by (auto simp: create_close_def sys_err_def sys_run)
qed

lemma mps_slab_create_balance:
  assumes "mps_slab_create os z pathname n k mode on_init pool w = Some (err, pool', w')" "errno_ok os"
  shows "fds (trace w') = fds (trace w)
    \<and> (err = 0 \<longrightarrow> (\<exists>a t s. pool' = Some a \<and> maps (trace w') = add_mset a (maps (trace w))
        \<and> mem w' = (mem w)(a := s) \<and> inits_to on_init (fresh_pool z n k (contents os t)) s))
    \<and> (err \<noteq> 0 \<longrightarrow> late_calls_work os \<longrightarrow> never_fails z n k on_init \<longrightarrow> maps (trace w') = maps (trace w))
    \<and> maps (trace w) \<subseteq># maps (trace w')"
proof -
  define c where "c = open_call pathname [O_RDWR, O_CREAT, O_EXCL] S_IRUSR"
  define t1 where "t1 = (c, reply os (trace w) c) # trace w"
  define w1 where "w1 = w\<lparr>trace := t1\<rparr>"
  note e = assms(2) [unfolded errno_ok_def, rule_format]
  have sys1: "sys os c w = (reply os (trace w) c, w1)" by (simp add: sys_run w1_def t1_def)
  note run = assms(1) [unfolded mps_slab_create_def open_shm_or_file_run, folded c_def, unfolded sys1]
  have c: "fd_effect c r M = (case r of Inl _ \<Rightarrow> M | Inr fd \<Rightarrow> add_mset fd M)" "map_effect c r M = M" for r M
    by (simp_all add: c_def)
  show ?thesis
  proof (cases "reply os (trace w) c")
    case (Inl err')
    then show ?thesis using run e [of "trace w" c] c by (auto simp: t1_def w1_def)
  next
    case (Inr fd)
    define w2 where "w2 = w\<lparr>trace := (Sys_ftruncate fd n, reply os t1 (Sys_ftruncate fd n)) # t1\<rparr>"
    have w2: "fds (trace w2) = add_mset fd (fds (trace w))" "maps (trace w2) = maps (trace w)" "mem w2 = mem w"
      using Inr by (simp_all add: w2_def t1_def c)
    have sys2: "sys os (Sys_ftruncate fd n) w1 = (reply os t1 (Sys_ftruncate fd n), w2)"
      by (simp add: sys_run w1_def w2_def)
    note run1 = run [unfolded Inr, simplified, unfolded sys2]
    show ?thesis
    proof (cases "reply os t1 (Sys_ftruncate fd n)")
      case (Inl e')
      from run1 [unfolded Inl] obtain w3 where "create_close os fd e' w2 = (err, w3)" "w' = w3"
        by (auto simp: Let_def split: prod.splits)
      then show ?thesis
        using create_close_balance [of os fd e' w2 err w3 "fds (trace w)"] w2 e [of t1 "Sys_ftruncate fd n"] Inl assms(2)
        by auto
    next
      case trunc: (Inr v)
      define t3 where "t3 = (Sys_mmap n fd, reply os (trace w2) (Sys_mmap n fd)) # trace w2"
      define w3 where "w3 = w2\<lparr>trace := t3\<rparr>"
      have sys3: "sys os (Sys_mmap n fd) w2 = (reply os (trace w2) (Sys_mmap n fd), w3)"
        by (simp add: sys_run w3_def t3_def)
      note run2 = run1 [unfolded trunc, simplified, unfolded map_file_def sys3]
      show ?thesis
      proof (cases "reply os (trace w2) (Sys_mmap n fd)")
        case (Inl e')
        have w3: "fds (trace w3) = add_mset fd (fds (trace w))" "maps (trace w3) = maps (trace w)" "mem w3 = mem w"
          using w2 Inl by (simp_all add: w3_def t3_def)
        from run2 [unfolded Inl] obtain w4 where "create_close os fd e' w3 = (err, w4)" "w' = w4"
          by (auto simp: Let_def split: prod.splits)
        then show ?thesis
          using create_close_balance [of os fd e' w3 err w4 "fds (trace w)"] w3 e [of "trace w2" "Sys_mmap n fd"] Inl
            assms(2) by auto
      next
        case a: (Inr a)
        define w4 where "w4 = w3\<lparr>mem := (mem w3)(a := contents os t3)\<rparr>"
        have w4: "fds (trace w4) = add_mset fd (fds (trace w))" "maps (trace w4) = add_mset a (maps (trace w))"
          "mem w4 = (mem w)(a := contents os t3)"
          using w2 a by (simp_all add: w4_def w3_def t3_def)
        have "trace w3 = t3" by (simp add: w3_def)
        with run2 [unfolded a] obtain err1 w5 where f: "create_fill os z a fd n k mode on_init w4 = Some (err1, w5)"
          and cl: "create_close os fd err1 w5 = (err, w')" and pool': "pool' = Some a"
          by (auto simp: Let_def w4_def split: prod.splits Option.bind_splits)
        note fb = create_fill_balance [OF f assms(2)]
        note cb = create_close_balance [OF cl _ assms(2), of "fds (trace w)"]
        show ?thesis
        proof (cases "err1 = 0")
          case True
          have "mem w5 = (mem w)(a := mem w5 a)" using fb w4(3) by (auto simp: fun_eq_iff)
          with True fb cb w4 pool' show ?thesis by (fastforce simp: fun_upd_same)
        next
          case False
          with fb cb w4 show ?thesis by auto
        qed
      qed
    qed
  qed
qed

subsection \<open>Opening or creating a pool\<close>

lemma subset_add_mset: "M \<subseteq># N \<Longrightarrow> M \<subseteq># add_mset a N"
  using subset_mset.add_increasing2 [of "{#a#}" M N] by simp

lemma sys_err_run:
  "sys_err os c w = (case reply os (trace w) c of Inl e \<Rightarrow> e | Inr v \<Rightarrow> 0,
     w\<lparr>trace := (c, reply os (trace w) c) # trace w\<rparr>)"
  by (simp add: sys_err_def sys_run split: sum.split)

text \<open>
  With a reply of an address, the pool is mapped once more and either shows the contents of a file that
  is there already or a pool that this call has initialised.
\<close>

definition pool_at :: "os \<Rightarrow> slab_sizes \<Rightarrow> nat \<Rightarrow> nat \<Rightarrow> (shm \<Rightarrow> (int \<times> shm) option) option \<Rightarrow> shm \<Rightarrow> bool" where
  "pool_at os z n k on_init s \<longleftrightarrow>
     (\<exists>t. s = contents os t \<or> inits_to on_init (fresh_pool z n k (contents os t)) s)"

lemma retry_open_balance:
  assumes "retry_open os pathname n mode pool w = (r, w')" "errno_ok os" "mmap_works os"
  shows "fds (trace w') = fds (trace w)
    \<and> (\<forall>a. r = Some a \<longrightarrow> maps (trace w') = add_mset a (maps (trace w)) \<and> (\<exists>t. mem w' a = contents os t))
    \<and> (r = None \<longrightarrow> maps (trace w) \<subseteq># maps (trace w') \<and> (late_calls_work os \<longrightarrow> maps (trace w') = maps (trace w)))"
proof -
  define c where "c = Sys_nanosleep (10 * 1000 * 1000)"
  define w1 where "w1 = w\<lparr>trace := (c, reply os (trace w) c) # trace w\<rparr>"
  have w1: "fds (trace w1) = fds (trace w)" "maps (trace w1) = maps (trace w)" by (simp_all add: w1_def c_def)
  have s: "sys os c w = (reply os (trace w) c, w1)" by (simp add: sys_run w1_def)
  obtain e p w2 where o: "mps_slab_open os pathname n mode pool w1 = (e, p, w2)" by (metis prod_cases3)
  note b = mps_slab_open_balance [OF o assms(2)] and run = assms(1) [unfolded retry_open_def, folded c_def, unfolded s]
  show ?thesis
  proof (cases "reply os (trace w) c")
    case (Inl e)
    then show ?thesis using run w1 by auto
  next
    case (Inr v)
    then have r: "r = (if e = 0 then p else None)" "w' = w2" using run o by (simp_all split: if_splits)
    show ?thesis
    proof (cases "e = 0")
      case True
      with b obtain a t where "p = Some a" "maps (trace w2) = add_mset a (maps (trace w1))"
        "mem w2 = (mem w1)(a := contents os t)" by blast
      then show ?thesis using r True b w1 assms(3) by auto
    next
      case False
      then show ?thesis using r b w1 assms(3) by auto
    qed
  qed
qed

lemma open_or_create_balance:
  assumes "mps_slab_open_or_create os z pathname n k mode on_init w = Some (r, w')" "errno_ok os" "mmap_works os"
  shows "fds (trace w') = fds (trace w)
    \<and> (\<forall>a. r = Some a \<longrightarrow> add_mset a (maps (trace w)) \<subseteq># maps (trace w')
        \<and> pool_at os z n k on_init (mem w' a))
    \<and> (late_calls_work os \<longrightarrow> never_fails z n k on_init \<longrightarrow>
        maps (trace w') = (case r of None \<Rightarrow> maps (trace w) | Some a \<Rightarrow> add_mset a (maps (trace w))))
    \<and> maps (trace w) \<subseteq># maps (trace w')"
proof -
  note eo = assms(2) and mo = assms(3)
  define w1 where "w1 = w\<lparr>trace := (Pthread_once, reply os (trace w) Pthread_once) # trace w\<rparr>"
  define rc where "rc = fst (sys_err os Pthread_once w)"
  have once: "sys_err os Pthread_once w = (rc, w1)" by (simp add: rc_def w1_def sys_err_run)
  have w1: "fds (trace w1) = fds (trace w)" "maps (trace w1) = maps (trace w)" by (simp_all add: w1_def)
  obtain e2 p2 w2 where o: "mps_slab_open os pathname n mode None w1 = (e2, p2, w2)" by (metis prod_cases3)
  note b2 = mps_slab_open_balance [OF o eo]
  note run = assms(1) [unfolded mps_slab_open_or_create_def once, simplified, unfolded o, simplified]
  consider "rc \<noteq> 0 \<and> r = None \<and> w' = w1" | "e2 = 0 \<and> r = p2 \<and> w' = w2" | "e2 \<noteq> 0 \<and> r = None \<and> w' = w2"
    | e3 p3 w3 where "e2 \<noteq> 0" "mps_slab_create os z pathname n k mode on_init p2 w2 = Some (e3, p3, w3)"
        "(r, w') = (if e3 = 0 then (p3, w3) else if e3 \<noteq> EEXIST then (None, w3)
          else retry_open os pathname n mode p3 w3)"
    using run by (auto split: if_splits Option.bind_splits)
  then show ?thesis
  proof cases
    case 2
    then obtain a t where "p2 = Some a" "mem w2 = (mem w1)(a := contents os t)" using b2 by blast
    then show ?thesis using 2 b2 w1 mo by (auto simp: pool_at_def)
  next
    case 4
    note b3 = mps_slab_create_balance [OF 4(2) eo]
    have m3: "fds (trace w3) = fds (trace w)" "maps (trace w) \<subseteq># maps (trace w3)"
      "e3 \<noteq> 0 \<Longrightarrow> late_calls_work os \<Longrightarrow> never_fails z n k on_init \<Longrightarrow> maps (trace w3) = maps (trace w)"
      using b2 b3 w1 mo 4(1) by (auto dest: subset_mset.order_trans)
    show ?thesis
    proof (cases "e3 = 0")
      case True
      with b3 obtain a t s where "p3 = Some a" "maps (trace w3) = add_mset a (maps (trace w2))"
        "mem w3 = (mem w2)(a := s)" "inits_to on_init (fresh_pool z n k (contents os t)) s" by blast
      then show ?thesis using True b2 b3 w1 mo 4 m3(2) by (auto simp: pool_at_def)
    next
      case False
      show ?thesis
      proof (cases "e3 = EEXIST")
        case True
        then have "retry_open os pathname n mode p3 w3 = (r, w')" using 4(3) False by simp
        from retry_open_balance [OF this eo mo] m3 False show ?thesis
          by (cases r) (auto simp: pool_at_def dest: subset_mset.order_trans intro: subset_add_mset)
      qed (use 4(3) m3 False in simp)
    qed
  qed (use b2 w1 mo in auto)
qed

subsection \<open>What the error paths leak\<close>

lemma open_leaks:
  assumes "reply os (trace w) (open_call pathname [O_RDWR] mode) = Inr fd"
    and "reply os ((open_call pathname [O_RDWR] mode, Inr fd) # trace w) (Sys_mmap n fd) = Inl e"
  shows "\<exists>w'. mps_slab_open os pathname n mode pool w = (e, pool, w') \<and> fds (trace w') = add_mset fd (fds (trace w))"
  using assms by (simp add: mps_slab_open_def open_shm_or_file_run map_file_def sys_run)

lemma create_fill_leaks:
  assumes "create_fill os z a fd n k mode (Some f) w = Some (err, w')" "\<And>s e s'. f s = Some (e, s') \<Longrightarrow> e \<noteq> 0"
  shows "err \<noteq> 0 \<and> fds (trace w') = fds (trace w) \<and> maps (trace w') = maps (trace w)"
proof -
  obtain e1 w1 where m: "mps_slab_init_mutex os w = (e1, w1)" by fastforce
  from assms(1) m mps_slab_init_mutex_balance [OF m] assms(2) show ?thesis
    by (auto simp: create_fill_def pool_init_def Let_def split: if_splits Option.bind_splits)
qed

lemma create_leaks:
  assumes "mps_slab_create os z pathname n k mode (Some f) None w = Some (err, Some a, w')" "errno_ok os"
    and "\<And>s e s'. f s = Some (e, s') \<Longrightarrow> e \<noteq> 0"
  shows "err \<noteq> 0 \<and> maps (trace w') = add_mset a (maps (trace w))"
proof -
  define c where "c = open_call pathname [O_RDWR, O_CREAT, O_EXCL] S_IRUSR"
  obtain fd w1 where o: "sys os c w = (Inr fd, w1)"
    using assms(1) by (auto simp: mps_slab_create_def open_shm_or_file_run c_def split: prod.splits sum.splits)
  obtain v w2 where f: "sys os (Sys_ftruncate fd n) w1 = (Inr v, w2)"
    using assms(1) o
    by (auto simp: mps_slab_create_def open_shm_or_file_run c_def [symmetric] Let_def split: prod.splits sum.splits)
  obtain b w3 where m: "map_file os n fd w2 = (Inr b, w3)"
    using assms(1) o f
    by (auto simp: mps_slab_create_def open_shm_or_file_run c_def [symmetric] Let_def split: prod.splits sum.splits)
  obtain e4 w4 where cf: "create_fill os z b fd n k mode (Some f) w3 = Some (e4, w4)" "b = a"
    "create_close os fd e4 w4 = (err, w')"
    using assms(1) o f m
    by (auto simp: mps_slab_create_def open_shm_or_file_run c_def [symmetric] Let_def
        split: prod.splits Option.bind_splits)
  have "fds (trace w3) = add_mset fd (fds (trace w))" "maps (trace w3) = add_mset a (maps (trace w))"
    using o f m cf(2) by (auto simp: sys_run map_file_def c_def split: sum.splits)
  with create_fill_leaks [OF cf(1) assms(3)] create_close_balance [OF cf(3) _ assms(2), of "fds (trace w)"]
  show ?thesis by auto
qed

end
