(* ===== verification/ShdictInit.thy ===== *)
theory ShdictInit
  imports ShdictInv PoolFile
begin

text \<open>
  A new pool: \<^verbatim>\<open>mps_shdict_on_init\<close> allocates the tree struct in the fresh slab pool and leaves a pool that
  holds the empty dictionary; it fails only if the pool is too small for a page. Composed with
  \<^verbatim>\<open>mps_slab_open_or_create\<close>, what a caller gets for a file that is not there yet.
\<close>

subsection \<open>Members of the pool struct the allocator does not read\<close>

lemma slab_inv_other:
  assumes e: "s' = s\<lparr>pool_data := d, log_nomem := b\<rparr>"
  shows "slab_inv z s' G F SL = slab_inv z s G F SL" "blocks z s' G = blocks z s G"
proof -
  have p: "pg_slab s' = pg_slab s" "pg_next s' = pg_next s" "pg_prev s' = pg_prev s" "pool_pages s' = pool_pages s"
    "pool_start s' = pool_start s" "min_shift s' = min_shift s" "min_size s' = min_size s" "bitmap s' = bitmap s"
    "pool_last s' = pool_last s" "pool_end s' = pool_end s" "pfree s' = pfree s"
    by (simp_all add: e)
  have a: "page_addr z s' = page_addr z s" by (simp add: fun_eq_iff page_addr_def p)
  have c: "chunk_bits z s' = chunk_bits z s" by (simp add: fun_eq_iff chunk_bits_def p a)
  have ok: "seg_ok z s' N i g = seg_ok z s N i g" for N i g by (cases g) (simp_all add: p c)
  have bl: "seg_blocks z s' i g = seg_blocks z s i g" for i g by (cases g) (simp_all add: a)
  show "slab_inv z s' G F SL = slab_inv z s G F SL"
    by (simp add: slab_inv_def geo_ok_def list_inv_def free_heads_def slot_pages_def p ok)
  show "blocks z s' G = blocks z s G" by (simp add: blocks_def bl)
qed

lemma slab_holds_other: "slab_holds z (s\<lparr>pool_data := d, log_nomem := b\<rparr>) L = slab_holds z s L"
  by (simp add: slab_holds_def slab_inv_other [OF refl])

subsection \<open>The tree of a new pool\<close>

lemma rbtree_init_rep:
  assumes "mps_rbtree_init sentinel MPS_RBTREE_INSERT_TYPE_ID_LUADICT t = (err, t')"
  shows "err = 0" "index_rep kd t' []" "rb_sentinel t' = sentinel"
  using assms
  by (auto simp: mps_rbtree_init_def Let_def index_rep_def represents_def tree_at_def MPS_RBTREE_INSERT_TYPE_ID_LUADICT_def
      MPS_RBTREE_INSERT_TYPE_ID_COUNT_def ngx_rbt_black_def rbt_def intro!: exI [of _ Lf])

subsection \<open>A new pool\<close>

lemma max_size_tree: "sizes_ok z \<Longrightarrow> tree_size \<le> max_size z"
proof -
  assume z: "sizes_ok z"
  have "(2 :: nat) ^ 11 \<le> 2 ^ (pagesize_shift z - 1)" by (rule power_increasing) (use sizes_okD(2) [OF z] in auto)
  then show ?thesis using sizes_okD(4) [OF z] by (simp add: tree_size_def)
qed

lemma fresh_alloc:
  assumes "sizes_ok z" "3 \<le> k" "k < pagesize_shift z" "pages_off z k + 2 * (pagesize z + page_size) \<le> n" "n < 2 ^ 63"
    and "sz \<le> max_size z"
  shows "\<exists>p s'. mps_slab_alloc_locked z (mps_slab_init z n k s) sz = Some (p, s') \<and> p \<noteq> 0"
proof -
  let ?N = "init_pages z n k"
  note i = init_ok(1) [OF assms(1-5), of s] init_ok(2) [OF assms(1-5)]
  have "tidy z [Free ?N]" by (simp add: tidy_def)
  moreover have "\<not> no_room z (mps_slab_init z n k s) [Free ?N] sz"
    using assms(6) by (simp add: no_room_def)
  ultimately show ?thesis using alloc_succeeds [OF i(1)] by blast
qed

lemma on_init_ok:
  assumes z: "sizes_ok z" "3 \<le> k" "k < pagesize_shift z" "pages_off z k + 2 * (pagesize z + page_size) \<le> n" "n < 2 ^ 63"
  shows "\<exists>s'. mps_shdict_on_init z (fresh_pool z n k s) = Some (0, s') \<and> holds z s' [] \<and> \<not> held s' \<and> clock s' = clock s"
proof -
  let ?s = "fresh_pool z n k s"
  from fresh_alloc [OF z max_size_tree [OF z(1)], of "slab s"] obtain p sl where
    al: "mps_slab_alloc_locked z (mps_slab_init z n k (slab s)) tree_size = Some (p, sl)" "p \<noteq> 0" by blast
  from slab.alloc_block [OF init_holds [OF z] al] obtain m where m: "tree_size \<le> m" "slab_holds z sl {(p, m)}" by auto
  obtain err t where t: "mps_rbtree_init (sentinel_off p) MPS_RBTREE_INSERT_TYPE_ID_LUADICT (tree s) = (err, t)" by fastforce
  note r = rbtree_init_rep [OF t]
  define s' where "s' = s\<lparr>held := False, slab := sl\<lparr>pool_data := p, log_nomem := False\<rparr>, tree := t,
    links := mps_queue_init (lru_off p) (links s)\<rparr>"
  have run: "mps_shdict_on_init z ?s = Some (0, s')"
    using al t r(1)
    by (simp add: mps_shdict_on_init_def mps_slab_alloc_def mps_slab_lock_def fresh_pool_def shm_alloc_locked_def
        mps_slab_unlock_def mps_nulloff_def upd_links_def s'_def)
  have d: "pool_data (slab s') = p" "tree s' = t" "links s' = mps_queue_init (lru_off p) (links s)" "lru_queue s' = lru_off p"
    by (simp_all add: s'_def lru_queue_def)
  have "dict_inv s' [] [] (\<lambda>_. [])"
    using r(2) [of "node_key s'"] dll_init [of "lru_off p" "links s"] by (simp add: dict_inv_def separate_def d)
  moreover have "mem_inv z s' (set []) (\<lambda>_. [])"
    unfolding mem_inv_def
    using m r(3) by (auto simp: d apart_def used_blocks_def room_ok_def s'_def slab_holds_other intro!: exI [of _ "\<lambda>_. m"])
  ultimately have "pool_inv z s' [] [] (\<lambda>_. [])" by (simp add: pool_inv_def)
  then have "holds z s' []" by (rule holdsI) (simp add: dict_abs_def)
  moreover have "\<not> held s'" "clock s' = clock s" by (simp_all add: s'_def)
  ultimately show ?thesis using run by blast
qed

lemma on_init_never_fails:
  assumes "sizes_ok z" "3 \<le> k" "k < pagesize_shift z" "pages_off z k + 2 * (pagesize z + page_size) \<le> n" "n < 2 ^ 63"
  shows "never_fails z n k (Some (mps_shdict_on_init z))"
proof -
  have "r = 0" if "mps_shdict_on_init z (fresh_pool z n k s) = Some (r, s')" for s r s'
    using on_init_ok [OF assms, of s] that by auto
  then show ?thesis by (auto simp: never_fails_def)
qed

lemma open_or_create_dict:
  assumes z: "sizes_ok z" "3 \<le> k" "k < pagesize_shift z" "pages_off z k + 2 * (pagesize z + page_size) \<le> n" "n < 2 ^ 63"
    and run: "mps_slab_open_or_create os z pathname n k mode (Some (mps_shdict_on_init z)) w = Some (Some a, w')"
    and os: "errno_ok os" "mmap_works os"
  shows "(\<exists>t. mem w' a = contents os t) \<or> holds z (mem w' a) [] \<and> \<not> held (mem w' a)"
proof -
  from open_or_create_balance [OF run os] have "pool_at os z n k (Some (mps_shdict_on_init z)) (mem w' a)" by simp
  then obtain t where "mem w' a = contents os t
      \<or> mps_shdict_on_init z (fresh_pool z n k (contents os t)) = Some (0, mem w' a)" by (auto simp: pool_at_def inits_to_def)
  then show ?thesis using on_init_ok [OF z, of "contents os t"] by auto
qed

end
