(* ===== verification/Registry.thy ===== *)
theory Registry
  imports ShdictInit
begin

text \<open>
  The table of open dictionaries at the start of src/src/mps_shdict.c: the static variables, the lookup
  by path name and by handle, \<^verbatim>\<open>mps_shdict_open_or_create\<close> and \<^verbatim>\<open>mps_shdict_close\<close>. A handle is the address
  of an element of the array \<^verbatim>\<open>dicts\<close>; the array is its base address, 0 for NULL, and its elements, as
  many as \<^verbatim>\<open>dicts_count\<close>. The results of \<^verbatim>\<open>strdup\<close> and \<^verbatim>\<open>realloc\<close> are parameters: whether there was memory,
  and where the array went. The lock excludes other threads, so each call runs on its own between its
  lock and its unlock; locking a lock that is held already is a call that does not return. The result of
  \<^verbatim>\<open>pthread_mutex_lock\<close> is ignored, as the code does.
\<close>

record mps_shdict =
  sh_pool :: off
  sh_name :: "byte list"
  sh_size :: nat

definition sizeof_shdict :: nat where "sizeof_shdict = 32"

record registry =
  dicts :: off
  elems :: "mps_shdict list"
  dicts_locked :: bool
  lock_initialized :: bool

definition dicts_count :: "registry \<Rightarrow> nat" where
  "dicts_count g = length (elems g)"

definition no_dicts :: registry where
  "no_dicts = \<lparr>dicts = 0, elems = [], dicts_locked = False, lock_initialized = False\<rparr>"

definition elem_at :: "off \<Rightarrow> nat \<Rightarrow> off" where
  "elem_at base i = base + sizeof_shdict * i"

text \<open>The initialisation stops at the first error, which nobody hears of.\<close>

definition mps_shdict_init_dicts_lock :: "os \<Rightarrow> world \<Rightarrow> world" where
  "mps_shdict_init_dicts_lock os w =
     snd (first_error os [Pthread_mutexattr_init, Pthread_mutexattr_setrobust, Pthread_mutexattr_setpshared,
       Pthread_mutex_init, Pthread_mutexattr_destroy] w)"

text \<open>\<^verbatim>\<open>pthread_once\<close>: the routine runs in the first call that succeeds.\<close>

definition dicts_once :: "os \<Rightarrow> registry \<Rightarrow> world \<Rightarrow> int \<times> registry \<times> world" where
  "dicts_once os g w =
     (let (rc, w) = sys_err os Pthread_once w
      in if rc \<noteq> 0 then (rc, g, w)
         else if lock_initialized g then (0, g, w)
         else (0, g\<lparr>lock_initialized := True\<rparr>, mps_shdict_init_dicts_lock os w))"

definition dicts_lock :: "registry \<Rightarrow> registry option" where
  "dicts_lock g = (if dicts_locked g then None else Some (g\<lparr>dicts_locked := True\<rparr>))"

definition dicts_unlock :: "registry \<Rightarrow> registry" where
  "dicts_unlock g = g\<lparr>dicts_locked := False\<rparr>"

fun find_elem :: "byte list \<Rightarrow> off \<Rightarrow> mps_shdict list \<Rightarrow> off option" where
  "find_elem pathname a [] = None"
| "find_elem pathname a (d # ds) =
     (if ngx_memn2cmp (sh_name d) pathname = 0 then Some a else find_elem pathname (a + sizeof_shdict) ds)"

definition find_dict_by_pathname :: "byte list \<Rightarrow> registry \<Rightarrow> off option" where
  "find_dict_by_pathname pathname g = find_elem pathname (dicts g) (elems g)"

fun index_elem :: "off \<Rightarrow> nat \<Rightarrow> off \<Rightarrow> mps_shdict list \<Rightarrow> int" where
  "index_elem dict i a [] = -1"
| "index_elem dict i a (d # ds) =
     (if a = dict then int i else index_elem dict (Suc i) (a + sizeof_shdict) ds)"

definition index_of_dict :: "off \<Rightarrow> registry \<Rightarrow> int" where
  "index_of_dict dict g = index_elem dict 0 (dicts g) (elems g)"

definition mps_shdict_open_or_create ::
    "os \<Rightarrow> slab_sizes \<Rightarrow> bool \<Rightarrow> off option \<Rightarrow> byte list \<Rightarrow> nat \<Rightarrow> nat \<Rightarrow> nat \<Rightarrow> registry \<Rightarrow> world
     \<Rightarrow> (off option \<times> registry \<times> world) option" where
  "mps_shdict_open_or_create os z strdup_ok realloc_to pathname shm_size shift mode g w =
     (let (rc, g, w) = dicts_once os g w
      in if rc \<noteq> 0 then Some (None, g, w)
         else do {
           g \<leftarrow> dicts_lock g;
           case find_dict_by_pathname pathname g of
             Some dict \<Rightarrow> Some (Some dict, dicts_unlock g, w)
           | None \<Rightarrow> do {
               (pool, w) \<leftarrow> mps_slab_open_or_create os z pathname shm_size shift mode (Some (mps_shdict_on_init z)) w;
               case pool of
                 None \<Rightarrow> Some (None, dicts_unlock g, w)
               | Some pool \<Rightarrow>
                   if \<not> strdup_ok then Some (None, dicts_unlock g, w)
                   else case realloc_to of
                     None \<Rightarrow> Some (None, dicts_unlock g, w)
                   | Some new_dicts \<Rightarrow>
                       let dict = elem_at new_dicts (dicts_count g);
                           d = \<lparr>sh_pool = pool, sh_name = pathname, sh_size = shm_size\<rparr>;
                           g = g\<lparr>dicts := new_dicts, elems := elems g @ [d]\<rparr>
                       in Some (Some dict, dicts_unlock g, w) } })"

definition mps_shdict_close :: "os \<Rightarrow> off option \<Rightarrow> off \<Rightarrow> registry \<Rightarrow> world \<Rightarrow> (registry \<times> world) option" where
  "mps_shdict_close os realloc_to dict g w =
     (let (rc, g, w) = dicts_once os g w
      in if rc \<noteq> 0 then Some (g, w)
         else do {
           g \<leftarrow> dicts_lock g;
           let i = index_of_dict dict g in
           if i = -1 then Some (dicts_unlock g, w)
           else
             let d = elems g ! nat i;
                 w = mps_slab_close os (sh_pool d) (sh_size d) w;
                 g = g\<lparr>elems := (elems g)[nat i := elems g ! (dicts_count g - 1)]\<rparr>
             in if dicts_count g = 1 then
                  Some (dicts_unlock (g\<lparr>dicts := 0, elems := take (dicts_count g - 1) (elems g)\<rparr>), w)
                else case realloc_to of
                  None \<Rightarrow> Some (dicts_unlock g, w)
                | Some new_dicts \<Rightarrow>
                    Some (dicts_unlock (g\<lparr>dicts := new_dicts, elems := take (dicts_count g - 1) (elems g)\<rparr>), w) })"

subsection \<open>Finding\<close>

lemma find_elem_ok:
  "find_elem p a ds = map_option (elem_at a) (if \<exists>d \<in> set ds. sh_name d = p then Some (LEAST i. i < length ds \<and> sh_name (ds ! i) = p) else None)"
proof (induction ds arbitrary: a)
  case (Cons d ds)
  show ?case
  proof (cases "sh_name d = p")
    case True
    then have "(LEAST i. i < length (d # ds) \<and> sh_name ((d # ds) ! i) = p) = 0" by (intro Least_equality) auto
    then show ?thesis using True by (simp add: ngx_memn2cmp_eq elem_at_def)
  next
    case False
    have "(LEAST i. i < length (d # ds) \<and> sh_name ((d # ds) ! i) = p) = Suc (LEAST i. i < length ds \<and> sh_name (ds ! i) = p)"
      if "e \<in> set ds" "sh_name e = p" for e
    proof -
      from that(1) obtain j where "j < length ds" "ds ! j = e" by (auto simp: in_set_conv_nth)
      then have "Suc j < length (d # ds) \<and> sh_name ((d # ds) ! Suc j) = p" using that(2) by simp
      from Least_Suc [of "\<lambda>i. i < length (d # ds) \<and> sh_name ((d # ds) ! i) = p", OF this] False show ?thesis by simp
    qed
    then show ?thesis using False Cons.IH [of "a + sizeof_shdict"]
      by (auto simp: ngx_memn2cmp_eq elem_at_def)
  qed
qed simp

text \<open>With distinct names the handle found is that of the one element with the name.\<close>

lemma find_dict_Some:
  assumes "distinct (map sh_name (elems g))" "i < dicts_count g" "sh_name (elems g ! i) = p"
  shows "find_dict_by_pathname p g = Some (elem_at (dicts g) i)"
proof -
  have "(LEAST i. i < length (elems g) \<and> sh_name (elems g ! i) = p) = i"
  proof (rule Least_equality)
    show "i < length (elems g) \<and> sh_name (elems g ! i) = p" using assms(2,3) by (simp add: dicts_count_def)
    fix j assume j: "j < length (elems g) \<and> sh_name (elems g ! j) = p"
    then have "map sh_name (elems g) ! j = map sh_name (elems g) ! i" using assms(2,3) by (simp add: dicts_count_def)
    then have "j = i" using nth_eq_iff_index_eq [OF assms(1), of j i] j assms(2) by (auto simp: dicts_count_def)
    then show "i \<le> j" by simp
  qed
  moreover have "\<exists>d \<in> set (elems g). sh_name d = p" using assms(2,3) by (auto simp: dicts_count_def)
  ultimately show ?thesis by (simp add: find_dict_by_pathname_def find_elem_ok)
qed

lemma find_dict_None: "find_dict_by_pathname p g = None \<longleftrightarrow> p \<notin> sh_name ` set (elems g)"
  by (auto simp: find_dict_by_pathname_def find_elem_ok)

lemma find_dict_index:
  assumes "find_dict_by_pathname p g = Some dict"
  obtains i where "i < dicts_count g" "sh_name (elems g ! i) = p" "dict = elem_at (dicts g) i"
proof -
  let ?P = "\<lambda>i. i < length (elems g) \<and> sh_name (elems g ! i) = p"
  from assms have d: "\<exists>d \<in> set (elems g). sh_name d = p" "dict = elem_at (dicts g) (LEAST i. ?P i)"
    by (auto simp: find_dict_by_pathname_def find_elem_ok split: if_splits)
  from d(1) obtain j where "j < length (elems g)" "sh_name (elems g ! j) = p" by (auto simp: in_set_conv_nth)
  then have "?P j" by simp
  then have "?P (LEAST i. ?P i)" by (rule LeastI)
  with d(2) show thesis by (intro that) (auto simp: dicts_count_def)
qed

lemma elem_at_inj [simp]: "elem_at b i = elem_at b j \<longleftrightarrow> i = j"
  by (simp add: elem_at_def sizeof_shdict_def)

lemma index_elem_ok:
  "index_elem (elem_at b k) j (elem_at b i) ds = (if i \<le> k \<and> k < i + length ds then int (j + (k - i)) else -1)"
proof (induction ds arbitrary: i j)
  case (Cons d ds)
  have "elem_at b i + sizeof_shdict = elem_at b (Suc i)" by (simp add: elem_at_def)
  then show ?case using Cons.IH [of "Suc j" "Suc i"] by auto
qed simp

lemma index_of_handle:
  "index_of_dict (elem_at (dicts g) i) g = (if i < dicts_count g then int i else -1)"
  using index_elem_ok [of "dicts g" i 0 0 "elems g"] by (simp add: index_of_dict_def dicts_count_def elem_at_def)

lemma index_elem_None:
  "(\<And>k. k < length ds \<Longrightarrow> dict \<noteq> elem_at a k) \<Longrightarrow> index_elem dict j a ds = -1"
proof (induction ds arbitrary: a j)
  case (Cons d ds)
  have "dict \<noteq> elem_at (a + sizeof_shdict) k" if "k < length ds" for k
    using Cons.prems [of "Suc k"] that by (simp add: elem_at_def)
  moreover have "dict \<noteq> a" using Cons.prems [of 0] by (simp add: elem_at_def)
  ultimately show ?case using Cons.IH [of "a + sizeof_shdict" "Suc j"] by auto
qed simp

text \<open>A handle is an element's or nobody's.\<close>

lemma index_cases:
  obtains (elem) i where "i < dicts_count g" "dict = elem_at (dicts g) i" "index_of_dict dict g = int i"
  | (none) "\<And>i. i < dicts_count g \<Longrightarrow> dict \<noteq> elem_at (dicts g) i" "index_of_dict dict g = -1"
proof (cases "\<exists>i < dicts_count g. dict = elem_at (dicts g) i")
  case True
  then show thesis using elem index_of_handle [of g] by force
next
  case False
  then show thesis using none index_elem_None [of "elems g" dict "dicts g" 0] by (auto simp: index_of_dict_def dicts_count_def)
qed

subsection \<open>The invariant\<close>

text \<open>One element per name, a base address exactly if there are elements, every pool of the table mapped.\<close>

definition reg_inv :: "registry \<Rightarrow> world \<Rightarrow> bool" where
  "reg_inv g w \<longleftrightarrow> distinct (map sh_name (elems g)) \<and> (dicts g = 0 \<longleftrightarrow> elems g = [])
     \<and> mset (map sh_pool (elems g)) \<subseteq># maps (trace w) \<and> \<not> dicts_locked g"

lemma reg_inv_no_dicts: "reg_inv no_dicts w"
  by (simp add: reg_inv_def no_dicts_def)

lemma dicts_once_ok:
  assumes "dicts_once os g w = (rc, g', w')"
  shows "elems g' = elems g" "dicts g' = dicts g" "dicts_locked g' = dicts_locked g" "fds (trace w') = fds (trace w)"
    "maps (trace w') = maps (trace w)" "mem w' = mem w" "(\<And>t. \<exists>v. reply os t Pthread_once = Inr v) \<Longrightarrow> rc = 0"
    "lock_initialized g \<Longrightarrow> lock_initialized g'"
proof -
  define w1 where "w1 = w\<lparr>trace := (Pthread_once, reply os (trace w) Pthread_once) # trace w\<rparr>"
  obtain e w2 where m: "mps_slab_init_mutex os w1 = (e, w2)" by fastforce
  have i: "mps_shdict_init_dicts_lock os w1 = w2"
    using m by (simp add: mps_shdict_init_dicts_lock_def mps_slab_init_mutex_def)
  have w1: "fds (trace w1) = fds (trace w)" "maps (trace w1) = maps (trace w)" "mem w1 = mem w" by (simp_all add: w1_def)
  have w2: "fds (trace w2) = fds (trace w)" "maps (trace w2) = maps (trace w)" "mem w2 = mem w"
    using mps_slab_init_mutex_balance [OF m] w1 by simp_all
  have c: "w' = w1 \<or> w' = w2" "elems g' = elems g \<and> dicts g' = dicts g \<and> dicts_locked g' = dicts_locked g"
    "lock_initialized g \<Longrightarrow> lock_initialized g'"
    using assms i by (auto simp: dicts_once_def sys_err_run w1_def [symmetric] split: if_splits)
  show "elems g' = elems g" "dicts g' = dicts g" "dicts_locked g' = dicts_locked g" "fds (trace w') = fds (trace w)"
    "maps (trace w') = maps (trace w)" "mem w' = mem w" "lock_initialized g \<Longrightarrow> lock_initialized g'" using c w1 w2 by auto
  show "rc = 0" if "\<And>t. \<exists>v. reply os t Pthread_once = Inr v"
    using that [of "trace w"] assms by (auto simp: dicts_once_def sys_err_run Let_def split: if_splits)
qed

subsection \<open>Opening\<close>

definition opened :: "os \<Rightarrow> slab_sizes \<Rightarrow> byte list \<Rightarrow> nat \<Rightarrow> nat \<Rightarrow> off option \<Rightarrow> registry \<Rightarrow> registry \<Rightarrow> world \<Rightarrow> world \<Rightarrow> bool" where
  "opened os z pathname shm_size shift r g g' w w' \<longleftrightarrow>
     (case r of
        None \<Rightarrow> elems g' = elems g \<and> dicts g' = dicts g
      | Some dict \<Rightarrow>
          if pathname \<in> sh_name ` set (elems g)
          then elems g' = elems g \<and> dicts g' = dicts g \<and> maps (trace w') = maps (trace w)
            \<and> (\<exists>i < dicts_count g. dict = elem_at (dicts g) i \<and> sh_name (elems g ! i) = pathname)
          else (\<exists>a. elems g' = elems g @ [\<lparr>sh_pool = a, sh_name = pathname, sh_size = shm_size\<rparr>]
            \<and> dict = elem_at (dicts g') (dicts_count g) \<and> add_mset a (maps (trace w)) \<subseteq># maps (trace w')
            \<and> pool_at os z shm_size shift (Some (mps_shdict_on_init z)) (mem w' a)
            \<and> (late_calls_work os \<longrightarrow> never_fails z shm_size shift (Some (mps_shdict_on_init z)) \<longrightarrow>
                maps (trace w') = add_mset a (maps (trace w)))))"

lemma open_dict_ok:
  assumes inv: "reg_inv g w" and os: "errno_ok os" "mmap_works os" and re: "realloc_to \<noteq> Some 0"
    and run: "mps_shdict_open_or_create os z strdup_ok realloc_to pathname n k mode g w = Some (r, g', w')"
  shows "reg_inv g' w' \<and> opened os z pathname n k r g g' w w' \<and> fds (trace w') = fds (trace w)
    \<and> maps (trace w) \<subseteq># maps (trace w')"
proof -
  obtain rc g1 w1 where o: "dicts_once os g w = (rc, g1, w1)" by (metis prod_cases3)
  note o1 = dicts_once_ok [OF o]
  have lk: "dicts_lock g1 = Some (g1\<lparr>dicts_locked := True\<rparr>)" using inv o1(3) by (simp add: dicts_lock_def reg_inv_def)
  define g2 where "g2 = g1\<lparr>dicts_locked := True\<rparr>"
  have g2: "elems g2 = elems g" "dicts g2 = dicts g" "dicts_count g2 = dicts_count g" using o1 by (simp_all add: g2_def dicts_count_def)
  note run1 = run [unfolded mps_shdict_open_or_create_def o Let_def prod.case lk, folded g2_def]
  have un: "elems (dicts_unlock h) = elems h" "dicts (dicts_unlock h) = dicts h" "\<not> dicts_locked (dicts_unlock h)" for h
    by (simp_all add: dicts_unlock_def)
  show ?thesis
  proof (cases "rc = 0")
    case False
    then show ?thesis using run1 inv o1 by (auto simp: reg_inv_def opened_def)
  next
    case rc: True
    show ?thesis
    proof (cases "find_dict_by_pathname pathname g2")
      case (Some dict)
      then have "r = Some dict" "g' = dicts_unlock g2" "w' = w1" using run1 rc by simp_all
      moreover have "pathname \<in> sh_name ` set (elems g)" using Some find_dict_None [of pathname g2] g2 by auto
      moreover from Some obtain i where "i < dicts_count g" "sh_name (elems g ! i) = pathname" "dict = elem_at (dicts g) i"
        by (rule find_dict_index) (auto simp: g2)
      ultimately show ?thesis using inv o1 g2 un by (auto simp: reg_inv_def opened_def)
    next
      case None
      then have new: "pathname \<notin> sh_name ` set (elems g)" using find_dict_None [of pathname g2] g2 by simp
      from run1 rc None obtain p w2 where
        oc: "mps_slab_open_or_create os z pathname n k mode (Some (mps_shdict_on_init z)) w1 = Some (p, w2)"
        by (auto split: Option.bind_splits)
      note b = open_or_create_balance [OF oc os]
      have sub: "maps (trace w) \<subseteq># maps (trace w2)"
        using b o1(5) by simp
      have run2: "(case p of None \<Rightarrow> Some (None, dicts_unlock g2, w2)
          | Some a \<Rightarrow> if \<not> strdup_ok then Some (None, dicts_unlock g2, w2)
              else case realloc_to of None \<Rightarrow> Some (None, dicts_unlock g2, w2)
              | Some b \<Rightarrow> Some (Some (elem_at b (dicts_count g2)), dicts_unlock (g2\<lparr>dicts := b,
                  elems := elems g2 @ [\<lparr>sh_pool = a, sh_name = pathname, sh_size = n\<rparr>]\<rparr>), w2)) = Some (r, g', w')"
        using run1 rc None oc by simp
      show ?thesis
      proof (cases "\<exists>a base. p = Some a \<and> strdup_ok \<and> realloc_to = Some base")
        case False
        then have "r = None" "g' = dicts_unlock g2" "w' = w2" using run2 by (auto split: option.splits if_splits)
        then show ?thesis using inv sub b o1 g2 un by (auto simp: reg_inv_def opened_def dest: subset_mset.order_trans)
      next
        case True
        then obtain a base where t: "p = Some a" "strdup_ok" "realloc_to = Some base" by blast
        let ?d = "\<lparr>sh_pool = a, sh_name = pathname, sh_size = n\<rparr>"
        have e: "r = Some (elem_at base (dicts_count g))" "w' = w2" "elems g' = elems g @ [?d]" "dicts g' = base" "\<not> dicts_locked g'"
          using run2 t g2 un by auto
        have am: "add_mset a (maps (trace w)) \<subseteq># maps (trace w2)" "pool_at os z n k (Some (mps_shdict_on_init z)) (mem w2 a)"
          "late_calls_work os \<longrightarrow> never_fails z n k (Some (mps_shdict_on_init z)) \<longrightarrow> maps (trace w2) = add_mset a (maps (trace w))"
          using b t(1) o1(5) by auto
        have "mset (map sh_pool (elems g)) \<subseteq># maps (trace w)" using inv by (simp add: reg_inv_def)
        then have "add_mset a (mset (map sh_pool (elems g))) \<subseteq># maps (trace w2)"
          using am(1) by (meson mset_subset_eq_add_mset_cancel subset_mset.order_trans)
        then show ?thesis using inv e am new re t(3) sub b o1 by (auto simp: reg_inv_def opened_def)
      qed
    qed
  qed
qed

subsection \<open>Closing\<close>

definition once_works :: "os \<Rightarrow> bool" where
  "once_works os \<longleftrightarrow> (\<forall>t. \<exists>v. reply os t Pthread_once = Inr v)"

lemma close_run:
  assumes free: "\<not> dicts_locked g" and once: "once_works os" and i: "i < dicts_count g" and d: "elems g ! i = d"
  shows "\<exists>g1 w1 w2. elems g1 = elems g \<and> dicts g1 = dicts g \<and> \<not> dicts_locked g1 \<and> maps (trace w1) = maps (trace w)
    \<and> fds (trace w1) = fds (trace w) \<and> mem w1 = mem w \<and> w2 = mps_slab_close os (sh_pool d) (sh_size d) w1
    \<and> mps_shdict_close os realloc_to (elem_at (dicts g) i) g w =
       (let es = (elems g)[i := last (elems g)]
        in if dicts_count g = 1 then Some (g1\<lparr>dicts := 0, elems := butlast es\<rparr>, w2)
           else case realloc_to of
             None \<Rightarrow> Some (g1\<lparr>elems := es\<rparr>, w2)
           | Some base \<Rightarrow> Some (g1\<lparr>dicts := base, elems := butlast es\<rparr>, w2))"
proof -
  obtain rc g1 w1 where o: "dicts_once os g w = (rc, g1, w1)" by (metis prod_cases3)
  note o1 = dicts_once_ok [OF o]
  have rc: "rc = 0" using o1(7) once by (simp add: once_works_def)
  have lk: "dicts_lock g1 = Some (g1\<lparr>dicts_locked := True\<rparr>)" using free o1(3) by (simp add: dicts_lock_def)
  define g2 where "g2 = g1\<lparr>dicts_locked := True\<rparr>"
  have g2: "elems g2 = elems g" "dicts g2 = dicts g" "dicts_count g2 = dicts_count g" using o1 by (simp_all add: g2_def dicts_count_def)
  have ix: "index_of_dict (elem_at (dicts g) i) g2 = int i" using index_of_handle [of g2 i] g2 i by simp
  have ne: "elems g \<noteq> []" using i by (auto simp: dicts_count_def)
  have lst: "elems g ! (dicts_count g - 1) = last (elems g)" using ne by (simp add: last_conv_nth dicts_count_def)
  have tk: "take (length (elems g) - Suc 0) es = butlast es" if "length es = length (elems g)" for es :: "mps_shdict list"
    using that by (simp add: butlast_conv_take)
  have un: "dicts_unlock (g2\<lparr>elems := es\<rparr>) = g1\<lparr>elems := es\<rparr>" "dicts_unlock (g2\<lparr>dicts := b, elems := es\<rparr>) = g1\<lparr>dicts := b, elems := es\<rparr>" for es b
    using o1(3) free by (simp_all add: dicts_unlock_def g2_def)
  have one: "length (elems g) = Suc 0 \<Longrightarrow> butlast ((elems g)[i := last (elems g)]) = []" by (simp add: butlast_conv_take)
  have "mps_shdict_close os realloc_to (elem_at (dicts g) i) g w =
       (let es = (elems g)[i := last (elems g)]
        in if dicts_count g = 1 then Some (g1\<lparr>dicts := 0, elems := butlast es\<rparr>, mps_slab_close os (sh_pool d) (sh_size d) w1)
           else case realloc_to of
             None \<Rightarrow> Some (g1\<lparr>elems := es\<rparr>, mps_slab_close os (sh_pool d) (sh_size d) w1)
           | Some base \<Rightarrow> Some (g1\<lparr>dicts := base, elems := butlast es\<rparr>, mps_slab_close os (sh_pool d) (sh_size d) w1))"
    using o rc lk ix lst d tk un one
    by (simp add: mps_shdict_close_def g2_def [symmetric] g2 Let_def dicts_count_def split: option.split)
  then show ?thesis using o1 free by blast
qed

lemma mset_without:
  assumes "i < length xs"
  shows "mset (butlast (xs[i := last xs])) = mset xs - {#xs ! i#}"
proof -
  obtain ys y where xs: "xs = ys @ [y]" using assms by (cases xs rule: rev_cases) auto
  show ?thesis
  proof (cases "i = length ys")
    case True
    then show ?thesis by (simp add: xs)
  next
    case False
    then have i: "i < length ys" using assms by (simp add: xs)
    then have "butlast (xs[i := last xs]) = ys[i := y]" "xs ! i = ys ! i" by (simp_all add: xs list_update_append nth_append)
    moreover have "ys ! i \<in># mset ys" using i by simp
    ultimately show ?thesis using i by (simp add: mset_update xs)
  qed
qed

lemma distinct_without: "distinct (map f xs) \<Longrightarrow> i < length xs \<Longrightarrow> distinct (map f (butlast (xs[i := last xs])))"
proof -
  assume d: "distinct (map f xs)" and i: "i < length xs"
  have "mset (map f (butlast (xs[i := last xs]))) = mset (map f xs) - {#f (xs ! i)#}"
    using mset_without [OF i] i by (simp add: image_mset_Diff)
  then have "\<And>x. count (mset (map f (butlast (xs[i := last xs])))) x \<le> 1"
    using d distinct_count_atmost_1 [of "map f xs"] by (simp add: le_diff_conv)
  then show ?thesis
    by (metis count_mset_0_iff distinct_count_atmost_1 le_antisym not_less_eq_eq le_zero_eq One_nat_def)
qed

lemma munmap_maps:
  "maps (trace (mps_slab_close os a n w)) = maps (trace w) \<or> maps (trace (mps_slab_close os a n w)) = maps (trace w) - {#a#}"
  "reply os (trace w) (Sys_munmap a n) = Inr v \<Longrightarrow> maps (trace (mps_slab_close os a n w)) = maps (trace w) - {#a#}"
  "fds (trace (mps_slab_close os a n w)) = fds (trace w)" "mem (mps_slab_close os a n w) = mem w"
  by (cases "reply os (trace w) (Sys_munmap a n)"; simp add: mps_slab_close_def sys_run)+

lemma close_ok:
  assumes inv: "reg_inv g w" and once: "once_works os" and i: "i < dicts_count g"
    and re: "1 < dicts_count g \<Longrightarrow> \<exists>base > 0. realloc_to = Some base"
  shows "\<exists>g' w'. mps_shdict_close os realloc_to (elem_at (dicts g) i) g w = Some (g', w') \<and> reg_inv g' w'
    \<and> mset (elems g') = mset (elems g) - {#elems g ! i#} \<and> fds (trace w') = fds (trace w)
    \<and> (late_calls_work os \<longrightarrow> maps (trace w') = maps (trace w) - {#sh_pool (elems g ! i)#})"
proof -
  let ?d = "elems g ! i" and ?es = "(elems g)[i := last (elems g)]"
  have free: "\<not> dicts_locked g" using inv by (simp add: reg_inv_def)
  from close_run [OF free once i refl, of w realloc_to] obtain g1 w1 w2 where
    c: "elems g1 = elems g" "dicts g1 = dicts g" "\<not> dicts_locked g1" "maps (trace w1) = maps (trace w)"
      "fds (trace w1) = fds (trace w)" "w2 = mps_slab_close os (sh_pool ?d) (sh_size ?d) w1"
      "mps_shdict_close os realloc_to (elem_at (dicts g) i) g w =
       (let es = ?es in if dicts_count g = 1 then Some (g1\<lparr>dicts := 0, elems := butlast es\<rparr>, w2)
           else case realloc_to of None \<Rightarrow> Some (g1\<lparr>elems := es\<rparr>, w2)
           | Some base \<Rightarrow> Some (g1\<lparr>dicts := base, elems := butlast es\<rparr>, w2))" by blast
  have il: "i < length (elems g)" using i by (simp add: dicts_count_def)
  note ms = mset_without [OF il]
  have mp: "mset (map sh_pool (butlast ?es)) = mset (map sh_pool (elems g)) - {#sh_pool ?d#}"
    using ms il by (simp add: image_mset_Diff)
  have sub: "mset (map sh_pool (elems g)) \<subseteq># maps (trace w)" and dis: "distinct (map sh_name (elems g))"
    using inv by (simp_all add: reg_inv_def)
  have "maps (trace w) - {#sh_pool ?d#} \<subseteq># maps (trace w2)" using munmap_maps(1) [of os "sh_pool ?d" "sh_size ?d" w1] c(4,6) by auto
  moreover have "mset (map sh_pool (elems g)) - {#sh_pool ?d#} \<subseteq># maps (trace w) - {#sh_pool ?d#}"
    using sub by (simp add: subseteq_mset_def diff_le_mono)
  ultimately have sub2: "mset (map sh_pool (butlast ?es)) \<subseteq># maps (trace w2)"
    unfolding mp by (rule subset_mset.order_trans [rotated])
  have late: "late_calls_work os \<longrightarrow> maps (trace w2) = maps (trace w) - {#sh_pool ?d#}"
  proof
    assume "late_calls_work os"
    then obtain v where "reply os (trace w1) (Sys_munmap (sh_pool ?d) (sh_size ?d)) = Inr v"
      using late_calls(2) by (cases "reply os (trace w1) (Sys_munmap (sh_pool ?d) (sh_size ?d))") auto
    from munmap_maps(2) [OF this] show "maps (trace w2) = maps (trace w) - {#sh_pool ?d#}" using c(4,6) by simp
  qed
  have fd: "fds (trace w2) = fds (trace w)" using c(5,6) munmap_maps(3) by simp
  show ?thesis
  proof (cases "dicts_count g = 1")
    case True
    then have "butlast ?es = []" by (simp add: dicts_count_def butlast_conv_take)
    then show ?thesis using True c(3,7) late fd ms by (auto simp: reg_inv_def)
  next
    case False
    then have two: "1 < dicts_count g" using i by linarith
    then obtain base where b: "0 < base" "realloc_to = Some base" using re by blast
    have "butlast ?es \<noteq> []" using two by (auto simp: dicts_count_def butlast_conv_take)
    then show ?thesis using False b c(3,7) late fd ms sub2 distinct_without [OF dis il] by (auto simp: reg_inv_def)
  qed
qed

text \<open>Opening a new dictionary and closing it leaves the table, the descriptors and the mappings as they were.\<close>

lemma open_close:
  assumes inv: "reg_inv g w" and once: "once_works os" and os: "errno_ok os" "mmap_works os" "late_calls_work os"
    and z: "sizes_ok z" "3 \<le> k" "k < pagesize_shift z" "pages_off z k + 2 * (pagesize z + page_size) \<le> n" "n < 2 ^ 63"
    and new: "pathname \<notin> sh_name ` set (elems g)" and re: "realloc_to \<noteq> Some 0"
    and run: "mps_shdict_open_or_create os z strdup_ok realloc_to pathname n k mode g w = Some (Some h, g1, w1)"
    and re2: "elems g \<noteq> [] \<Longrightarrow> \<exists>base > 0. realloc_to' = Some base"
  shows "\<exists>g2 w2. mps_shdict_close os realloc_to' h g1 w1 = Some (g2, w2) \<and> elems g2 = elems g
    \<and> fds (trace w2) = fds (trace w) \<and> maps (trace w2) = maps (trace w)"
proof -
  note o = open_dict_ok [OF inv os(1,2) re run]
  from o new obtain a where a: "elems g1 = elems g @ [\<lparr>sh_pool = a, sh_name = pathname, sh_size = n\<rparr>]"
    "h = elem_at (dicts g1) (dicts_count g)" "maps (trace w1) = add_mset a (maps (trace w))"
    using os(3) on_init_never_fails [OF z] by (auto simp: opened_def)
  have inv1: "reg_inv g1 w1" and fd1: "fds (trace w1) = fds (trace w)" using o by simp_all
  let ?i = "dicts_count g" and ?d = "\<lparr>sh_pool = a, sh_name = pathname, sh_size = n\<rparr>"
  have i: "?i < dicts_count g1" and e: "elems g1 ! ?i = ?d" and free: "\<not> dicts_locked g1"
    using a(1) inv1 by (simp_all add: dicts_count_def reg_inv_def)
  have bl: "butlast ((elems g1)[?i := last (elems g1)]) = elems g" by (simp add: a(1) dicts_count_def)
  have "1 < dicts_count g1 \<Longrightarrow> \<exists>base > 0. realloc_to' = Some base" using re2 a(1) by (auto simp: dicts_count_def)
  note c = close_ok [OF inv1 once i this]
  from close_run [OF free once i e, of w1 realloc_to'] have
    "\<And>g2 w2. mps_shdict_close os realloc_to' h g1 w1 = Some (g2, w2) \<Longrightarrow> (dicts_count g1 = 1 \<or> realloc_to' \<noteq> None) \<Longrightarrow>
       elems g2 = elems g"
    unfolding bl a(2) Let_def by (auto split: option.splits if_splits)
  moreover have "dicts_count g1 = 1 \<or> realloc_to' \<noteq> None" using re2 a(1) by (auto simp: dicts_count_def)
  ultimately show ?thesis using c os(3) a(2,3) e fd1 by auto
qed

subsection \<open>What goes wrong without memory\<close>

text \<open>
  When \<^verbatim>\<open>realloc\<close> fails to shrink the array, a closed last element stays in the table: the next open of
  its name returns its handle, whose pool is not mapped any more.
\<close>

lemma close_stays:
  assumes inv: "reg_inv g w" and once: "once_works os" and many: "1 < dicts_count g" and w: "late_calls_work os"
  defines "d \<equiv> last (elems g)"
  shows "\<exists>g' w'. mps_shdict_close os None (elem_at (dicts g) (dicts_count g - 1)) g w = Some (g', w')
    \<and> find_dict_by_pathname (sh_name d) g' = Some (elem_at (dicts g) (dicts_count g - 1))
    \<and> maps (trace w') = maps (trace w) - {#sh_pool d#}"
proof -
  let ?i = "dicts_count g - 1"
  have ne: "elems g \<noteq> []" using many by (auto simp: dicts_count_def)
  have d: "elems g ! ?i = d" using ne by (simp add: d_def last_conv_nth dicts_count_def)
  have free: "\<not> dicts_locked g" and i: "?i < dicts_count g" using inv many by (simp_all add: reg_inv_def)
  from close_run [OF free once i d, of w None] obtain g1 w1 w2 where
    c: "elems g1 = elems g" "dicts g1 = dicts g" "maps (trace w1) = maps (trace w)"
      "w2 = mps_slab_close os (sh_pool d) (sh_size d) w1"
      "mps_shdict_close os None (elem_at (dicts g) ?i) g w = Some (g1\<lparr>elems := (elems g)[?i := last (elems g)]\<rparr>, w2)"
    using many by auto
  have same: "(elems g)[?i := last (elems g)] = elems g" using d by (simp add: d_def list_update_id flip: d_def) (metis list_update_id d)
  have g': "elems (g1\<lparr>elems := elems g\<rparr>) = elems g" "dicts (g1\<lparr>elems := elems g\<rparr>) = dicts g"
    "dicts_count (g1\<lparr>elems := elems g\<rparr>) = dicts_count g" using c by (simp_all add: dicts_count_def)
  have "distinct (map sh_name (elems g))" using inv by (simp add: reg_inv_def)
  then have "find_dict_by_pathname (sh_name d) (g1\<lparr>elems := elems g\<rparr>) = Some (elem_at (dicts g) ?i)"
    using find_dict_Some [of "g1\<lparr>elems := elems g\<rparr>" ?i "sh_name d"] i d g' by simp
  moreover obtain v where "reply os (trace w1) (Sys_munmap (sh_pool d) (sh_size d)) = Inr v"
    using late_calls(2) [OF w] by (cases "reply os (trace w1) (Sys_munmap (sh_pool d) (sh_size d))") auto
  from munmap_maps(2) [OF this] have "maps (trace w2) = maps (trace w) - {#sh_pool d#}" using c(3,4) by simp
  ultimately show ?thesis using c(5) same by auto
qed

text \<open>
  Closing a dictionary moves the last one into its element: the handle that was closed is then the
  handle of the other one, and the handle that the other one had is nobody's.
\<close>

lemma close_moves:
  assumes inv: "reg_inv g w" and once: "once_works os" and i: "Suc i < dicts_count g"
  defines "h \<equiv> elem_at (dicts g)"
  shows "\<exists>g' w'. mps_shdict_close os (Some (dicts g)) (h i) g w = Some (g', w')
    \<and> index_of_dict (h (dicts_count g - 1)) g' = -1
    \<and> index_of_dict (h i) g' = int i \<and> elems g' ! i = last (elems g)"
proof -
  have free: "\<not> dicts_locked g" and i': "i < dicts_count g" and one: "dicts_count g \<noteq> 1" using inv i by (auto simp: reg_inv_def)
  from close_run [OF free once i' refl, of w "Some (dicts g)"] obtain g1 w2 where
    c: "mps_shdict_close os (Some (dicts g)) (h i) g w
        = Some (g1\<lparr>dicts := dicts g, elems := butlast ((elems g)[i := last (elems g)])\<rparr>, w2)"
    using one unfolding h_def by auto
  define g' where "g' = g1\<lparr>dicts := dicts g, elems := butlast ((elems g)[i := last (elems g)])\<rparr>"
  have g': "dicts g' = dicts g" "dicts_count g' = dicts_count g - 1" by (simp_all add: g'_def dicts_count_def)
  have "elems g' ! i = last (elems g)" using i by (simp add: g'_def nth_butlast dicts_count_def)
  then show ?thesis
    using c index_of_handle [of g'] i g' unfolding g'_def [symmetric] h_def by auto
qed

text \<open>Without memory for the name or the array, the new pool stays mapped and nobody can close it.\<close>

lemma open_leak:
  assumes inv: "reg_inv g w" and once: "once_works os" and os: "errno_ok os" "mmap_works os"
    and new: "pathname \<notin> sh_name ` set (elems g)"
    and run: "mps_shdict_open_or_create os z strdup_ok realloc_to pathname n k mode g w = Some (Some h, g1, w1)"
    and bad: "\<not> strdup_ok' \<or> realloc_to' = None"
  shows "\<exists>g' w' a. mps_shdict_open_or_create os z strdup_ok' realloc_to' pathname n k mode g w = Some (None, g', w')
    \<and> elems g' = elems g \<and> add_mset a (maps (trace w)) \<subseteq># maps (trace w')"
proof -
  obtain rc g0 w0 where o: "dicts_once os g w = (rc, g0, w0)" by (metis prod_cases3)
  note o1 = dicts_once_ok [OF o]
  have rc: "rc = 0" using o1(7) once by (simp add: once_works_def)
  have lk: "dicts_lock g0 = Some (g0\<lparr>dicts_locked := True\<rparr>)" using inv o1(3) by (simp add: dicts_lock_def reg_inv_def)
  define g2 where "g2 = g0\<lparr>dicts_locked := True\<rparr>"
  have g2: "elems g2 = elems g" using o1 by (simp add: g2_def)
  have nf: "find_dict_by_pathname pathname g2 = None" using find_dict_None new g2 by simp
  from run rc nf obtain a w2 where
    oc: "mps_slab_open_or_create os z pathname n k mode (Some (mps_shdict_on_init z)) w0 = Some (Some a, w2)"
    by (auto simp: mps_shdict_open_or_create_def o lk g2_def [symmetric] split: Option.bind_splits option.splits)
  have "mps_shdict_open_or_create os z strdup_ok' realloc_to' pathname n k mode g w = Some (None, dicts_unlock g2, w2)"
    using rc nf oc bad by (auto simp: mps_shdict_open_or_create_def o lk g2_def [symmetric])
  moreover have "add_mset a (maps (trace w)) \<subseteq># maps (trace w2)" using open_or_create_balance [OF oc os] o1(5) by simp
  ultimately show ?thesis using g2 by (auto simp: dicts_unlock_def)
qed

end
