(* ===== verification/Mutex.thy ===== *)
theory Mutex
  imports Prelude
begin

text \<open>
  \<^verbatim>\<open>mps_slab_lock\<close> and \<^verbatim>\<open>mps_slab_unlock\<close> of src/src/mps_slab.c between processes. The mutex is the robust,
  process-shared one that \<^verbatim>\<open>mps_slab_init_mutex\<close> makes; its states and the results of the pthread
  functions are those POSIX documents: the mutex of a dead holder can be locked, with \<^verbatim>\<open>EOWNERDEAD\<close>, and
  unless the new holder calls \<^verbatim>\<open>pthread_mutex_consistent\<close> (the library never does) it becomes not
  recoverable when unlocked, after which every lock fails at once with \<^verbatim>\<open>ENOTRECOVERABLE\<close>. The code
  ignores these results and goes on. The state records the mutex and which processes are between a lock
  and the unlock; \<open>step\<close> is one call, or the death of a process.
\<close>

type_synonym pid = nat

datatype mutex = Unlocked | Locked pid | Orphaned | Inconsistent pid | NotRecoverable

definition EPERM :: int where "EPERM = 1"
definition EOWNERDEAD :: int where "EOWNERDEAD = 130"
definition ENOTRECOVERABLE :: int where "ENOTRECOVERABLE = 131"

text \<open>The result and the new state; \<open>None\<close> while the call blocks.\<close>

fun pthread_mutex_lock :: "pid \<Rightarrow> mutex \<Rightarrow> (int \<times> mutex) option" where
  "pthread_mutex_lock p Unlocked = Some (0, Locked p)"
| "pthread_mutex_lock p (Locked q) = None"
| "pthread_mutex_lock p Orphaned = Some (EOWNERDEAD, Inconsistent p)"
| "pthread_mutex_lock p (Inconsistent q) = None"
| "pthread_mutex_lock p NotRecoverable = Some (ENOTRECOVERABLE, NotRecoverable)"

fun pthread_mutex_unlock :: "pid \<Rightarrow> mutex \<Rightarrow> int \<times> mutex" where
  "pthread_mutex_unlock p (Locked q) = (if q = p then (0, Unlocked) else (EPERM, Locked q))"
| "pthread_mutex_unlock p (Inconsistent q) = (if q = p then (0, NotRecoverable) else (EPERM, Inconsistent q))"
| "pthread_mutex_unlock p m = (EPERM, m)"

fun owner_dies :: "pid \<Rightarrow> mutex \<Rightarrow> mutex" where
  "owner_dies p (Locked q) = (if q = p then Orphaned else Locked q)"
| "owner_dies p (Inconsistent q) = (if q = p then Orphaned else Inconsistent q)"
| "owner_dies p m = m"

text \<open>The two functions of the code.\<close>

definition slab_lock :: "pid \<Rightarrow> mutex \<Rightarrow> mutex option" where
  "slab_lock p m = map_option snd (pthread_mutex_lock p m)"

definition slab_unlock :: "pid \<Rightarrow> mutex \<Rightarrow> mutex" where
  "slab_unlock p m = snd (pthread_mutex_unlock p m)"

record lock_state =
  mtx :: mutex
  inside :: "pid set"

inductive step :: "bool \<Rightarrow> lock_state \<Rightarrow> lock_state \<Rightarrow> bool" for deaths where
  enter: "p \<notin> inside s \<Longrightarrow> slab_lock p (mtx s) = Some m \<Longrightarrow> step deaths s \<lparr>mtx = m, inside = insert p (inside s)\<rparr>"
| leave: "p \<in> inside s \<Longrightarrow> step deaths s \<lparr>mtx = slab_unlock p (mtx s), inside = inside s - {p}\<rparr>"
| die: "deaths \<Longrightarrow> step deaths s \<lparr>mtx = owner_dies p (mtx s), inside = inside s - {p}\<rparr>"

inductive reach :: "bool \<Rightarrow> lock_state \<Rightarrow> bool" for deaths where
  start: "reach deaths \<lparr>mtx = Unlocked, inside = {}\<rparr>"
| step: "reach deaths s \<Longrightarrow> step deaths s s' \<Longrightarrow> reach deaths s'"

inductive_cases step_cases: "step deaths s s'"
inductive_simps step_simps: "step deaths s s'"
fun_cases lock_cases: "pthread_mutex_lock p m = Some r"

text \<open>
  Which processes are inside, by the state of the mutex: until it is not recoverable, only its holder.
\<close>

fun holder :: "mutex \<Rightarrow> pid set" where
  "holder (Locked p) = {p}"
| "holder (Inconsistent p) = {p}"
| "holder m = {}"

definition lock_inv :: "bool \<Rightarrow> lock_state \<Rightarrow> bool" where
  "lock_inv deaths s \<longleftrightarrow> (mtx s \<noteq> NotRecoverable \<longrightarrow> inside s = holder (mtx s))
     \<and> (\<not> deaths \<longrightarrow> mtx s = Unlocked \<or> (\<exists>p. mtx s = Locked p))"

lemma lock_inv_step:
  assumes "lock_inv deaths s" "step deaths s s'"
  shows "lock_inv deaths s'"
  using assms(2)
proof cases
  case (enter p m)
  with assms(1) show ?thesis by (cases "mtx s") (auto simp: lock_inv_def slab_lock_def)
next
  case (leave p)
  with assms(1) show ?thesis by (cases "mtx s") (auto simp: lock_inv_def slab_unlock_def)
next
  case (die p)
  with assms(1) show ?thesis by (cases "mtx s") (auto simp: lock_inv_def)
qed

lemma lock_inv_reach: "reach deaths s \<Longrightarrow> lock_inv deaths s"
  by (induction rule: reach.induct) (auto simp: lock_inv_def [of _ "\<lparr>mtx = Unlocked, inside = {}\<rparr>"] lock_inv_step)

text \<open>Once the mutex is not recoverable it stays so, and any process enters.\<close>

lemma not_recoverable_step:
  assumes "mtx s = NotRecoverable" "step deaths s s'"
  shows "mtx s' = NotRecoverable"
  using assms(2) assms(1) by cases (auto simp: slab_lock_def slab_unlock_def)

lemma not_recoverable_enter:
  assumes "reach deaths s" "mtx s = NotRecoverable" "finite P"
  shows "reach deaths \<lparr>mtx = NotRecoverable, inside = inside s \<union> P\<rparr>"
  using assms(3)
proof induction
  case empty
  have "s = \<lparr>mtx = NotRecoverable, inside = inside s\<rparr>" using assms(2) by simp
  then show ?case using assms(1) by simp
next
  case (insert p P)
  let ?s = "\<lparr>mtx = NotRecoverable, inside = inside s \<union> P\<rparr>"
  show ?case
  proof (cases "p \<in> inside ?s")
    case True
    then show ?thesis using insert by (simp add: insert_absorb)
  next
    case False
    then have "step deaths ?s \<lparr>mtx = NotRecoverable, inside = insert p (inside ?s)\<rparr>"
      by (intro step.enter) (simp_all add: slab_lock_def)
    then show ?thesis using reach.step [OF insert.IH] by simp
  qed
qed

text \<open>
  A death inside, a lock and an unlock: each of the three is a step, and the last one leaves the mutex not
  recoverable.
\<close>

lemma death_steps:
  assumes "reach deaths s" "deaths" "mtx s = Locked p"
  shows "step deaths s \<lparr>mtx = Orphaned, inside = {}\<rparr>"
    "step deaths \<lparr>mtx = Orphaned, inside = {}\<rparr> \<lparr>mtx = Inconsistent q, inside = {q}\<rparr>"
    "step deaths \<lparr>mtx = Inconsistent q, inside = {q}\<rparr> \<lparr>mtx = NotRecoverable, inside = {}\<rparr>"
proof -
  have i: "inside s = {p}" using lock_inv_reach [OF assms(1)] assms(3) by (simp add: lock_inv_def)
  show "step deaths s \<lparr>mtx = Orphaned, inside = {}\<rparr>" using step.die [of deaths s p] assms i by simp
  show "step deaths \<lparr>mtx = Orphaned, inside = {}\<rparr> \<lparr>mtx = Inconsistent q, inside = {q}\<rparr>"
    using step.enter [of q "\<lparr>mtx = Orphaned, inside = {}\<rparr>" "Inconsistent q" deaths] by (simp add: slab_lock_def)
  show "step deaths \<lparr>mtx = Inconsistent q, inside = {q}\<rparr> \<lparr>mtx = NotRecoverable, inside = {}\<rparr>"
    using step.leave [of q "\<lparr>mtx = Inconsistent q, inside = {q}\<rparr>" deaths] by (simp add: slab_unlock_def)
qed

lemma death_unprotects:
  assumes "reach deaths s" "deaths" "mtx s = Locked p"
  shows "reach deaths \<lparr>mtx = NotRecoverable, inside = {}\<rparr>"
  using death_steps [OF assms] assms(1) by (blast intro: reach.step)

end
