(* ===== verification/Log.thy ===== *)
theory Log
  imports Prelude
begin

text \<open>
  The log messages: the macros of src/src/mps_log.h, which the build maps to one of four back ends, and the
  two back ends of the library, src/src/mps_log_stderr.c and src/src/mps_log_ngx.c. No operation reads what
  it logs, but a log call can keep an operation from going on: \<^verbatim>\<open>mps_log_stderr\<close> exits the process when
  the message does not fit its buffer. A message is the text that its format and arguments denote; the
  outcome of each call of \<^verbatim>\<open>vsnprintf\<close> is a parameter, \<open>None\<close> for success and \<open>Some e\<close> for a failure with
  \<^verbatim>\<open>errno\<close> \<open>e\<close>. What goes to Traffic Server or to nginx is the call with its arguments.
\<close>

type_synonym str = "byte list"

definition ascii :: "string \<Rightarrow> str" where
  "ascii = map of_char"

text \<open>What \<^verbatim>\<open>%s\<close> prints of bytes, and \<^verbatim>\<open>%d\<close> of an integer.\<close>

definition c_string :: "str \<Rightarrow> str" where
  "c_string = takeWhile (\<lambda>b. b \<noteq> 0)"

fun digits :: "nat \<Rightarrow> str" where
  "digits n = (if n < 10 then [of_nat (48 + n)] else digits (n div 10) @ [of_nat (48 + n mod 10)])"

declare digits.simps [simp del]

definition decimal :: "int \<Rightarrow> str" where
  "decimal i = (if i < 0 then 45 # digits (nat (- i)) else digits (nat i))"

definition basename :: "str \<Rightarrow> str" where
  "basename path = rev (takeWhile (\<lambda>b. b \<noteq> 47) (rev path))"

text \<open>\<^verbatim>\<open>vsnprintf(buf, size, ...)\<close>: its result and what is in the buffer up to the
  terminating NUL; of a failed call nothing is.\<close>

definition vsnprintf :: "nat \<Rightarrow> str \<Rightarrow> int option \<Rightarrow> int \<times> str" where
  "vsnprintf sz msg err = (case err of Some e \<Rightarrow> (-1, []) | None \<Rightarrow> (int (length msg), take (sz - 1) msg))"

subsection \<open>Standard error\<close>

definition TSLOG_STDERR_BUFSIZE :: nat where "TSLOG_STDERR_BUFSIZE = 2048"

datatype log_end = Returns | Exits int

record stderr_result =
  printed :: str
  ending :: log_end

text \<open>
  The part that both functions share: \<open>complain\<close> is the line for each of the three failures, \<open>line\<close> the
  line for the buffer. \<open>err1\<close> and \<open>err2\<close> are the outcomes of the two \<^verbatim>\<open>vsnprintf\<close>.
\<close>

datatype log_failure = No_size int | Too_long | No_print int

definition log_buffered :: "(log_failure \<Rightarrow> str) \<Rightarrow> (str \<Rightarrow> str) \<Rightarrow> str \<Rightarrow> int option \<Rightarrow> int option \<Rightarrow> stderr_result" where
  "log_buffered complain line msg err1 err2 =
     (let (n, _) = vsnprintf 0 msg err1
      in if n < 0 then \<lparr>printed = complain (No_size (the err1)), ending = Exits 1\<rparr>
         else
           let size = nat n + 1
           in if size > TSLOG_STDERR_BUFSIZE then \<lparr>printed = complain Too_long, ending = Exits 1\<rparr>
              else
                let (n, buf) = vsnprintf size msg err2
                in if n < 0 then \<lparr>printed = complain (No_print (the err2)), ending = Exits 1\<rparr>
                   else \<lparr>printed = line (c_string buf), ending = Returns\<rparr>)"

definition mps_log_stderr :: "(int \<Rightarrow> str) \<Rightarrow> str \<Rightarrow> str \<Rightarrow> int option \<Rightarrow> int option \<Rightarrow> stderr_result" where
  "mps_log_stderr strerror level =
     log_buffered
       (\<lambda>f. ascii ''mps_log_stderr['' @ level @ ascii ''] '' @
          (case f of
             No_size e \<Rightarrow> ascii ''cannot determine required size: '' @ strerror e
           | Too_long \<Rightarrow> ascii ''message is too long''
           | No_print e \<Rightarrow> ascii ''cannot print message to buffer: '' @ strerror e) @ [10])
       (\<lambda>buf. ascii ''['' @ level @ ascii ''] '' @ buf @ [10])"

definition mps_log_stderr_debug ::
    "(int \<Rightarrow> str) \<Rightarrow> str \<Rightarrow> str \<Rightarrow> int \<Rightarrow> str \<Rightarrow> str \<Rightarrow> int option \<Rightarrow> int option \<Rightarrow> stderr_result" where
  "mps_log_stderr_debug strerror func path lineno tag =
     log_buffered
       (\<lambda>f. ascii ''TSDebug '' @
          (case f of
             No_size e \<Rightarrow> ascii ''cannot determine required size: '' @ strerror e
           | Too_long \<Rightarrow> ascii ''message is too long''
           | No_print e \<Rightarrow> ascii ''cannot print message to buffer: '' @ strerror e) @ [10])
       (\<lambda>buf. ascii ''[DEBUG] <'' @ basename path @ ascii '':'' @ decimal lineno @ ascii '' ('' @ func @ ascii '')> ('' @ tag
          @ ascii '') '' @ buf @ [10])"

subsection \<open>nginx\<close>

definition NGX_LOG_EMERG :: nat where "NGX_LOG_EMERG = 1"
definition NGX_LOG_ERR :: nat where "NGX_LOG_ERR = 4"
definition NGX_LOG_WARN :: nat where "NGX_LOG_WARN = 5"
definition NGX_LOG_NOTICE :: nat where "NGX_LOG_NOTICE = 6"
definition NGX_LOG_INFO :: nat where "NGX_LOG_INFO = 7"
definition NGX_LOG_DEBUG :: nat where "NGX_LOG_DEBUG = 8"
definition NGX_LOG_DEBUG_ALL :: nat where "NGX_LOG_DEBUG_ALL = 0x7ffffff0"
definition NGX_MAX_ERROR_STR :: nat where "NGX_MAX_ERROR_STR = 2048"

named_theorems ngx_levels
declare NGX_LOG_EMERG_def [ngx_levels] NGX_LOG_ERR_def [ngx_levels] NGX_LOG_WARN_def [ngx_levels] NGX_LOG_NOTICE_def [ngx_levels]
  NGX_LOG_INFO_def [ngx_levels] NGX_LOG_DEBUG_def [ngx_levels] NGX_LOG_DEBUG_ALL_def [ngx_levels]

text \<open>
  The call of \<^verbatim>\<open>ngx_log_error_core\<close>: its level, what the format prints before \<^verbatim>\<open>%*s\<close>, and the length and the
  buffer that \<^verbatim>\<open>%*s\<close> gets, of which the bytes of \<open>buf\<close> are written.
\<close>

record ngx_call =
  ngx_level :: nat
  ngx_prefix :: str
  ngx_len :: int
  ngx_buf :: str
  ngx_suffix :: str

definition mps_log_ngx_core :: "nat \<Rightarrow> str \<Rightarrow> int option \<Rightarrow> ngx_call" where
  "mps_log_ngx_core level msg err =
     (let (n, buf) = vsnprintf NGX_MAX_ERROR_STR msg err
      in \<lparr>ngx_level = level, ngx_prefix = [], ngx_len = n, ngx_buf = buf, ngx_suffix = []\<rparr>)"

definition mps_log_ngx_debug :: "str \<Rightarrow> str \<Rightarrow> int \<Rightarrow> str \<Rightarrow> str \<Rightarrow> int option \<Rightarrow> ngx_call" where
  "mps_log_ngx_debug func path lineno tag msg err =
     (let (n, buf) = vsnprintf NGX_MAX_ERROR_STR msg err
      in \<lparr>ngx_level = NGX_LOG_DEBUG,
          ngx_prefix = ascii ''<'' @ basename path @ ascii '':'' @ decimal lineno @ ascii '' ('' @ func @ ascii '')> ('' @ tag @ ascii '') '',
          ngx_len = n, ngx_buf = buf, ngx_suffix = [10]\<rparr>)"

subsection \<open>The macros\<close>

datatype severity = Debug | Status | Note | Warning | Error

text \<open>Severities are ordered, the debug messages least.\<close>

instantiation severity :: linorder
begin

fun rank :: "severity \<Rightarrow> nat" where
  "rank Debug = 0" | "rank Status = 1" | "rank Note = 2" | "rank Warning = 3" | "rank Error = 4"

definition less_eq_severity :: "severity \<Rightarrow> severity \<Rightarrow> bool" where
  "less_eq_severity a b \<longleftrightarrow> rank a \<le> rank b"

definition less_severity :: "severity \<Rightarrow> severity \<Rightarrow> bool" where
  "less_severity a b \<longleftrightarrow> rank a < rank b"

instance
proof
  fix a b :: severity
  show "a \<le> b \<Longrightarrow> b \<le> a \<Longrightarrow> a = b" unfolding less_eq_severity_def by (cases a; cases b) simp_all
qed (auto simp: less_eq_severity_def less_severity_def)

end

fun level_of :: "severity \<Rightarrow> nat" where
  "level_of Debug = NGX_LOG_DEBUG"
| "level_of Status = NGX_LOG_INFO"
| "level_of Note = NGX_LOG_NOTICE"
| "level_of Warning = NGX_LOG_WARN"
| "level_of Error = NGX_LOG_ERR"

text \<open>The guard of the macros, and the one of \<^verbatim>\<open>ngx_log_error\<close> in ngx_log.h.\<close>

definition ngx_logs :: "severity \<Rightarrow> nat \<Rightarrow> bool" where
  "ngx_logs v log_level \<longleftrightarrow> log_level AND level_of v \<noteq> 0"

definition ngx_log_error :: "severity \<Rightarrow> nat \<Rightarrow> bool" where
  "ngx_log_error v log_level \<longleftrightarrow> log_level \<ge> level_of v"

datatype backend = Traffic_server | Nginx | Nop | Standard_error

datatype log_effect = Nothing | Ts_call severity str str | Ngx_error_core ngx_call | To_stderr stderr_result

fun name_of :: "severity \<Rightarrow> str" where
  "name_of Status = ascii ''STATUS''"
| "name_of Note = ascii ''NOTE''"
| "name_of Warning = ascii ''WARNING''"
| "name_of Error = ascii ''ERROR''"
| "name_of Debug = []"

text \<open>One message: \<open>where\<close> is the function, file and line that the debug macros add.\<close>

fun mps_log :: "(int \<Rightarrow> str) \<Rightarrow> backend \<Rightarrow> nat \<Rightarrow> str \<times> str \<times> int \<Rightarrow> str \<Rightarrow> severity \<Rightarrow> str \<Rightarrow> int option \<Rightarrow> int option \<Rightarrow> log_effect" where
  "mps_log strerror Traffic_server lvl (func, path, line) tag v msg e1 e2 = Ts_call v (if v = Debug then tag else []) msg"
| "mps_log strerror Nginx lvl (func, path, line) tag v msg e1 e2 =
     (if ngx_logs v lvl then
        Ngx_error_core (if v = Debug then mps_log_ngx_debug func path line tag msg e1 else mps_log_ngx_core (level_of v) msg e1)
      else Nothing)"
| "mps_log strerror Nop lvl (func, path, line) tag v msg e1 e2 = Nothing"
| "mps_log strerror Standard_error lvl (func, path, line) tag v msg e1 e2 =
     To_stderr (if v = Debug then mps_log_stderr_debug strerror func path line tag msg e1 e2
                else mps_log_stderr strerror (name_of v) msg e1 e2)"

subsection \<open>Which messages get through\<close>

lemma log_buffered_ok:
  "log_buffered complain line msg err1 err2 =
     (case err1 of
        Some e \<Rightarrow> \<lparr>printed = complain (No_size e), ending = Exits 1\<rparr>
      | None \<Rightarrow>
          if TSLOG_STDERR_BUFSIZE \<le> length msg then \<lparr>printed = complain Too_long, ending = Exits 1\<rparr>
          else case err2 of
            Some e \<Rightarrow> \<lparr>printed = complain (No_print e), ending = Exits 1\<rparr>
          | None \<Rightarrow> \<lparr>printed = line (c_string msg), ending = Returns\<rparr>)"
  by (auto simp: log_buffered_def vsnprintf_def split: option.split)

lemma ngx_logs_levels:
  "l \<le> 7 \<Longrightarrow> ngx_logs Error l \<longleftrightarrow> 4 \<le> l" "l \<le> 7 \<Longrightarrow> ngx_logs Status l \<longleftrightarrow> 1 \<le> l"
  "l \<le> 7 \<Longrightarrow> ngx_logs Note l \<longleftrightarrow> 2 \<le> l" "l \<le> 7 \<Longrightarrow> ngx_logs Warning l \<longleftrightarrow> l \<notin> {0, 2}" "l \<le> 7 \<Longrightarrow> \<not> ngx_logs Debug l"
proof -
  have "l \<le> 7 \<longleftrightarrow> l \<in> {0, 1, 2, 3, 4, 5, 6, 7}" by auto
  then show "l \<le> 7 \<Longrightarrow> ngx_logs Error l \<longleftrightarrow> 4 \<le> l" "l \<le> 7 \<Longrightarrow> ngx_logs Status l \<longleftrightarrow> 1 \<le> l"
    "l \<le> 7 \<Longrightarrow> ngx_logs Note l \<longleftrightarrow> 2 \<le> l" "l \<le> 7 \<Longrightarrow> ngx_logs Warning l \<longleftrightarrow> l \<notin> {0, 2}" "l \<le> 7 \<Longrightarrow> \<not> ngx_logs Debug l"
    by (auto simp: ngx_logs_def ngx_levels)
qed

lemma debug_level_silent: "\<not> ngx_logs v NGX_LOG_DEBUG_ALL"
  by (cases v) (simp_all add: ngx_logs_def ngx_levels)

text \<open>nginx's own guard lets the more severe messages through with the less severe ones; the macros do not.\<close>

lemma ngx_log_error_mono: "v \<le> w \<Longrightarrow> ngx_log_error v l \<Longrightarrow> ngx_log_error w l"
  unfolding less_eq_severity_def by (cases v; cases w) (simp_all add: ngx_log_error_def ngx_levels)

lemma ngx_logs_not_mono: "ngx_logs Status NGX_LOG_EMERG \<and> \<not> ngx_logs Error NGX_LOG_EMERG \<and> Status \<le> Error"
  by (simp add: ngx_logs_def ngx_levels less_eq_severity_def)

lemma ngx_core_len:
  "ngx_len (mps_log_ngx_core level msg None) = int (length msg)"
  "length (ngx_buf (mps_log_ngx_core level msg None)) = min (length msg) (NGX_MAX_ERROR_STR - 1)"
  by (auto simp: mps_log_ngx_core_def vsnprintf_def NGX_MAX_ERROR_STR_def)

subsection \<open>A message with a key\<close>

text \<open>
  The debug message of \<^verbatim>\<open>mps_shdict_store\<close> when it starts to evict entries; \<^verbatim>\<open>%.*s\<close> prints the bytes of
  the key up to a NUL.
\<close>

definition evict_message :: "str \<Rightarrow> str" where
  "evict_message key = ascii ''lua shared dict set: overriding non-expired items due to memory shortage for entry \"''
     @ c_string key @ ascii ''\"''"

lemma evict_exits:
  assumes "1965 \<le> length (c_string key)"
  shows "mps_log strerror Standard_error lvl (func, path, line) tag Debug (evict_message key) None None
    = To_stderr \<lparr>printed = ascii ''TSDebug message is too long'' @ [10], ending = Exits 1\<rparr>"
proof -
  have "length (evict_message key) = 84 + length (c_string key) + 1" unfolding evict_message_def ascii_def by simp
  then have "TSLOG_STDERR_BUFSIZE \<le> length (evict_message key)" using assms by (simp add: TSLOG_STDERR_BUFSIZE_def)
  then show ?thesis by (simp add: mps_log_stderr_debug_def log_buffered_ok ascii_def)
qed

end
