(* ===== verification/Sample.thy ===== *)
theory Sample
  imports ShdictCalls Registry
begin

text \<open>
  A concrete pool, on which the properties are evaluated: three entries, a number \<open>k\<close> that expires at
  5000 ms, a string \<open>x\<close> that expired at 2000 ms and a list \<open>l\<close> of one string, in this LRU order with
  \<open>l\<close> second. Each of the five blocks (those nodes, the item of the list and the tree struct) has a page
  of its own, and ten pages are free. The clock reads 3000 ms each time.
\<close>

definition node_k :: off where "node_k = 4096"
definition node_x :: off where "node_x = 8192"
definition node_l :: off where "node_l = 12288"
definition item_l :: off where "item_l = 16384"

definition sample_slab :: slab_pool where
  "sample_slab =
     \<lparr>pg_slab = (\<lambda>a. if a \<in> {648, 672, 696, 720, 744} then 0x8000000000000001 else if a = 768 then 10 else 0),
      pg_next = (\<lambda>a. if a = 80 then 768 else if a = 768 then 80
                     else if a \<in> (\<lambda>k. 144 + k * 24) ` {..<9} then a else 0),
      pg_prev = (\<lambda>_. 0)(768 := 80), bitmap = (\<lambda>_. 0),
      stat_total = (\<lambda>_. 0), stat_used = (\<lambda>_. 0), stat_reqs = (\<lambda>_. 0), stat_fails = (\<lambda>_. 0),
      pool_data = 20480, min_size = 8, min_shift = 3, pool_pages = 648, pool_last = 1008, pool_stats = 360,
      pfree = 10, pool_start = 4096, pool_end = 65536, log_nomem = False\<rparr>"

definition sample_tree :: rbtree_mem where
  "sample_tree =
     \<lparr>rb_key = (\<lambda>_. 0)(4096 := 3288208012, 8192 := 372604132, 12288 := 2169669117),
      rb_left = (\<lambda>_. 20504)(12288 := 8192),
      rb_right = (\<lambda>_. 20504)(12288 := 4096),
      rb_parent = (\<lambda>_. 0)(4096 := 12288, 8192 := 12288),
      rb_color = (\<lambda>_. Black)(4096 := Red, 8192 := Red),
      rb_root = 12288, rb_sentinel = 20504, rb_insert = MPS_RBTREE_INSERT_TYPE_ID_LUADICT\<rparr>"

definition sample_links :: queue_mem where
  "sample_links =
     \<lparr>q_prev = (\<lambda>_. 0)(20544 := 8240, 4144 := 20544, 12336 := 4144, 8240 := 12336, 12360 := 16384, 16384 := 12360),
      q_next = (\<lambda>_. 0)(20544 := 4144, 4144 := 12336, 12336 := 8240, 8240 := 20544, 12360 := 16384, 16384 := 12360)\<rparr>"

definition sample_bytes :: "off \<Rightarrow> byte" where
  "sample_bytes = (\<lambda>_. 0)(4164 := 107, 4171 := 0xF0, 4172 := 0x3F, 8260 := 120, 8261 := 120, 8262 := 121,
     8263 := 122, 12356 := 108, 16405 := 118)"

definition sample :: shm where
  "sample =
     \<lparr>slab = sample_slab, tree = sample_tree, links = sample_links,
      value_type = (\<lambda>_. 0)(4128 := 3, 8224 := 4, 12320 := 5),
      key_len = (\<lambda>_. 0)(4128 := 1, 8224 := 1, 12320 := 1),
      value_len = (\<lambda>_. 0)(4128 := 8, 8224 := 3, 12320 := 1),
      expires = (\<lambda>_. 0)(4128 := 5000, 8224 := 2000),
      user_flags = (\<lambda>_. 0)(8224 := 7),
      lnode_value_len = (\<lambda>_. 0)(16384 := 1), lnode_value_type = (\<lambda>_. 0)(16384 := 4),
      bytes = sample_bytes, held = False,
      clock = (\<lambda>_. Some \<lparr>tv_sec = 3, tv_nsec = 0\<rparr>), ticks = 0\<rparr>"

definition entry_k :: entry where
  "entry_k = \<lparr>e_type = 3, e_bytes = [0, 0, 0, 0, 0, 0, 0xF0, 0x3F], e_items = [], e_expires = 5000, e_flags = 0\<rparr>"

definition entry_x :: entry where
  "entry_x = \<lparr>e_type = 4, e_bytes = [120, 121, 122], e_items = [], e_expires = 2000, e_flags = 7\<rparr>"

definition entry_l :: entry where
  "entry_l = \<lparr>e_type = 5, e_bytes = [], e_items = [(4, [118])], e_expires = 0, e_flags = 0\<rparr>"

definition sample_dict :: dict where
  "sample_dict = [([107], entry_k), ([108], entry_l), ([120], entry_x)]"

definition sample_items :: "off \<Rightarrow> off list" where
  "sample_items a = (if a = node_l then [item_l] else [])"

definition sample_nodes :: "off list" where "sample_nodes = [node_x, node_l, node_k]"
definition sample_lru :: "off list" where "sample_lru = [node_k, node_l, node_x]"

lemmas sample_offs = node_k_def node_x_def node_l_def item_l_def sample_nodes_def sample_lru_def sample_items_def

lemma sample_hash:
  "ngx_murmur_hash2 [107] = 3288208012" "ngx_murmur_hash2 [120] = 372604132" "ngx_murmur_hash2 [108] = 2169669117"
  by (simp_all add: ngx_murmur_hash2_def murmur_final_def murmur_m_def)

lemma read_bytes_Suc: "read_bytes m p (Suc n) = m p # read_bytes m (Suc p) n"
  unfolding read_bytes_def by (simp add: upt_conv_Cons del: upt_Suc)

lemmas read_bytes_steps = read_bytes_Suc read_bytes_Suc [of m p "pred_numeral n" for m p n, folded numeral_eq_Suc]

lemma sample_fields:
  "slab sample = sample_slab" "tree sample = sample_tree" "links sample = sample_links"
  "value_type sample = (\<lambda>_. 0)(4128 := 3, 8224 := 4, 12320 := 5)"
  "key_len sample = (\<lambda>_. 0)(4128 := 1, 8224 := 1, 12320 := 1)"
  "value_len sample = (\<lambda>_. 0)(4128 := 8, 8224 := 3, 12320 := 1)"
  "expires sample = (\<lambda>_. 0)(4128 := 5000, 8224 := 2000)"
  "user_flags sample = (\<lambda>_. 0)(8224 := 7)"
  "lnode_value_len sample = (\<lambda>_. 0)(16384 := 1)" "lnode_value_type sample = (\<lambda>_. 0)(16384 := 4)"
  "bytes sample = sample_bytes" "held sample = False" "pool_data sample_slab = 20480"
  by (simp_all add: sample_def sample_slab_def)

lemma sample_keys:
  "node_key sample node_k = [107]" "node_key sample node_x = [120]" "node_key sample node_l = [108]"
  by (simp_all add: node_key_def sd_key_def read_bytes_steps offsets sample_fields sample_bytes_def sample_offs)

lemma sample_is_list: "is_list sample a \<longleftrightarrow> a = node_l"
  by (auto simp: is_list_def sample_fields offsets tags sample_offs)

lemma sample_tree_rep:
  "represents sample_tree (Nd Black (Nd Red Lf node_x Lf) node_l (Nd Red Lf node_k Lf))"
  by (simp add: represents_def tree_at_def sample_tree_def sample_offs)

lemma sample_index: "index_rep (node_key sample) (tree sample) sample_nodes"
proof -
  have "rbt (Nd Black (Nd Red Lf node_x Lf) node_l (Nd Red Lf node_k Lf))" by (simp add: rbt_def)
  moreover have "sorted_wrt (\<lambda>a b. nkey (node_key sample) (tree sample) a < nkey (node_key sample) (tree sample) b) sample_nodes"
    using sample_keys by (simp add: nkey_def sample_def sample_tree_def sample_offs less_prod_def)
  ultimately show ?thesis
    using sample_tree_rep by (auto simp: index_rep_def sample_def sample_nodes_def) (simp add: sample_tree_def)
qed

lemma sample_lens:
  "unat (key_len sample (sd_of_node node_k)) = 1" "unat (key_len sample (sd_of_node node_x)) = 1"
  "unat (key_len sample (sd_of_node node_l)) = 1" "unat (value_len sample (sd_of_node node_k)) = 8"
  "unat (value_len sample (sd_of_node node_x)) = 3" "unat (value_len sample (sd_of_node node_l)) = 1"
  "unat (lnode_value_len sample item_l) = 1"
  by (simp_all add: sample_fields sample_offs offsets)

lemma sample_ne: "node_k \<noteq> node_x" "node_k \<noteq> node_l" "node_x \<noteq> node_l" "node_x \<noteq> node_k" "node_l \<noteq> node_k" "node_l \<noteq> node_x"
  by (simp_all add: sample_offs)

lemma sample_links_at:
  "lru_queue sample = 20544" "node_link node_k = 4144" "node_link node_x = 8240" "node_link node_l = 12336"
  by (simp_all add: lru_queue_def node_link_def sample_fields sample_offs offsets)

lemma sample_spans:
  "list_head sample node_l = 12360"
  "node_span sample node_k = {4164..<4173}" "node_span sample node_x = {8260..<8264}"
  "node_span sample node_l = {12356..<12357}" "item_span sample item_l = {16405..<16406}"
  by (simp_all add: list_head_def mps_shdict_get_list_head_def ngx_align_ptr_def node_span_def item_span_def
      sample_is_list sample_lens sample_ne) (auto simp: sample_offs offsets)

lemma sample_inv: "dict_inv sample sample_nodes sample_lru sample_items"
proof -
  have h: "\<forall>a \<in> set sample_nodes. rb_key (tree sample) a = ucast (ngx_murmur_hash2 (node_key sample a))"
    by (simp add: sample_nodes_def sample_keys sample_hash) (simp add: sample_fields sample_tree_def sample_offs)
  have lru: "dll (links sample) (lru_queue sample) (map node_link sample_lru)"
    by (simp add: sample_links_at sample_lru_def dll_def sample_links_def sample_fields)
  have "dll sample_links 12360 [16384]" by (simp add: dll_def sample_links_def)
  then have l: "list_ok sample sample_items a" for a
    by (simp add: list_ok_def sample_is_list sample_items_def sample_spans sample_lens sample_fields(3) item_l_def)
       (simp add: sample_spans flip: item_l_def)
  have own: "own_links sample sample_items a = (if a = node_l then {12360, 16384} else {})" for a
    by (simp add: own_links_def sample_is_list sample_spans) (simp add: sample_offs)
  have span: "own_span sample sample_items node_k = {4164..<4173}" "own_span sample sample_items node_x = {8260..<8264}"
    "own_span sample sample_items node_l = {12356..<12357} \<union> {16405..<16406}"
    using sample_spans by (simp_all add: own_span_def sample_is_list sample_ne sample_items_def)
  have "separate sample sample_items (set sample_nodes)"
    unfolding separate_def own by (simp add: sample_nodes_def sample_links_at span sample_ne) auto
  then show ?thesis
    unfolding dict_inv_def using sample_index h lru l by (auto simp: sample_lru_def sample_nodes_def sample_ne)
qed

lemma sample_abs: "dict_abs sample sample_items sample_lru = sample_dict"
proof -
  have "entry_at sample sample_items node_k = entry_k" "entry_at sample sample_items node_x = entry_x"
    "entry_at sample sample_items node_l = entry_l"
    by (simp_all add: entry_at_def sample_is_list sd_value_def item_at_def sample_lens entry_k_def entry_x_def
        entry_l_def sample_ne sample_items_def)
       (simp_all add: sample_fields sample_offs offsets sample_bytes_def read_bytes_steps)
  then show ?thesis using sample_keys by (simp add: dict_abs_def sample_lru_def sample_dict_def)
qed

abbreviation sample_sizes :: slab_sizes where
  "sample_sizes \<equiv> mps_slab_sizes_init 4096"

abbreviation sample_layout :: "seg list" where
  "sample_layout \<equiv> [Run 1, Run 1, Run 1, Run 1, Run 1, Free 10]"

lemma sample_slab_inv: "slab_inv sample_sizes sample_slab sample_layout [768] (\<lambda>_. [])"
proof -
  have "geo_ok sample_sizes sample_slab 15"
    by (simp add: geo_ok_def sizes_ok_4096 sample_slab_def page_at_def mps_slab_slots_def slab_consts)
  moreover have "\<forall>(i, g) \<in> layout 0 sample_layout. seg_ok sample_sizes sample_slab 15 i g"
    by (auto simp: sample_slab_def page_at_def slab_consts)
  moreover have "list_inv sample_slab 0 pool_free [768]"
    by (simp add: list_inv_def sample_slab_def slab_consts)
  moreover have "set [768] = free_heads sample_slab 0 sample_layout"
    by (auto simp: free_heads_def sample_slab_def page_at_def slab_consts)
  moreover have "list_inv sample_slab ty (mps_slab_slots k) [] \<and> slot_pages sample_sizes sample_slab k 0 sample_layout = {}"
    if "k < 9" for k ty
    using that by (auto simp: list_inv_def sample_slab_def mps_slab_slots_def slab_consts slot_pages_def)
  moreover have "pfree sample_slab = of_nat (free_pages sample_layout)"
    by (simp add: sample_slab_def free_pages_def)
  moreover have "pagesize_shift sample_sizes - min_shift sample_slab = 9"
    by (simp add: sizes_ok_4096 sample_slab_def)
  ultimately show ?thesis unfolding slab_inv_def by simp
qed

lemma sample_mem: "mem_inv sample_sizes sample (set sample_nodes) sample_items"
proof -
  have il: "own_items sample sample_items a = (if a = node_l then {item_l} else {})" for a
    by (simp add: own_items_def sample_is_list sample_items_def)
  have used: "used_blocks sample sample_items (set sample_nodes) = {20480, node_k, node_x, node_l, item_l}"
    by (auto simp: used_blocks_def il sample_fields sample_nodes_def)
  have "blocks sample_sizes sample_slab sample_layout = (\<lambda>p. (p, 4096)) ` {20480, node_k, node_x, node_l, item_l}"
    by (auto simp: blocks_def page_addr_def sizes_ok_4096 sample_offs) (simp_all add: sample_slab_def)
  moreover have "tidy sample_sizes sample_layout" by (simp add: tidy_def)
  ultimately have "slab_holds sample_sizes (slab sample) ((\<lambda>p. (p, 4096)) ` used_blocks sample sample_items (set sample_nodes))"
    using sample_slab_inv unfolding slab_holds_def used sample_fields(1) by metis
  moreover have "room_ok sample sample_items (set sample_nodes) (\<lambda>_. 4096)"
    by (simp add: room_ok_def sample_nodes_def il node_room_def item_room_def sample_is_list sample_ne sample_spans sample_lens)
       (simp add: sample_offs offsets)
  moreover have "apart sample sample_items (set sample_nodes)"
    by (simp add: apart_def il sample_nodes_def sample_fields) (simp add: sample_offs)
  moreover have "rb_sentinel (tree sample) = sentinel_off (pool_data (slab sample))"
    by (simp add: sample_fields sample_tree_def offsets)
  ultimately show ?thesis unfolding mem_inv_def by (intro conjI exI [of _ "\<lambda>_. 4096"])
qed

lemma sample_holds: "holds sample_sizes sample sample_dict" "\<not> held sample"
  using sample_inv sample_mem sample_abs unfolding holds_def pool_inv_def by (metis, simp add: sample_def)

lemma sample_time [simp]: "time_nth sample i = 3000" "time_of sample = 3000"
  by (simp_all add: time_nth_def time_of_def mps_clock_time_ms_def sample_def msec_from_timespec_def)

text \<open>What the first steps of an operation leave of it: \<open>x\<close> is due, \<open>l\<close> never is.\<close>

lemma sample_swept: "swept sample sample_dict = [([107], entry_k), ([108], entry_l)]"
proof -
  have "drop_count 2 (time_of sample) False sample_dict = 1"
    by (simp add: numeral_2_eq_2 sample_dict_def due_def entry_l_def) (simp add: entry_x_def)
  then show ?thesis by (simp add: swept_def keep_first_def sample_dict_def)
qed

lemma sample_live: "expired 3000 entry_k = False" "expired 3000 entry_l = False" "is_number entry_k"
  by (simp_all add: expired_def entry_k_def entry_l_def is_number_def tags)

subsection \<open>A fresh slab pool\<close>

definition sample_pool :: slab_pool where
  "sample_pool = mps_slab_init sample_sizes 65536 3 sample_slab"

definition sample_segs :: "seg list" where
  "sample_segs = [Free (init_pages sample_sizes 65536 3)]"

lemma sample_pool_inv:
  "slab_inv sample_sizes sample_pool sample_segs [pool_pages sample_pool] (\<lambda>_. [])" "tidy sample_sizes sample_segs"
  "\<not> no_room sample_sizes sample_pool sample_segs 100" "slab_holds sample_sizes sample_pool {}"
proof -
  have "sizes_ok sample_sizes" "3 \<le> (3 :: nat)" "3 < pagesize_shift sample_sizes"
    "pages_off sample_sizes 3 + 2 * (pagesize sample_sizes + page_size) \<le> 65536" "(65536 :: nat) < 2 ^ 63"
    by (simp_all add: sizes_ok_4096 pages_off_def slab_consts)
  from init_ok(1) [OF this, of sample_slab] init_holds [OF this, of sample_slab]
  show "slab_inv sample_sizes sample_pool sample_segs [pool_pages sample_pool] (\<lambda>_. [])" "slab_holds sample_sizes sample_pool {}"
    by (simp_all add: sample_pool_def sample_segs_def)
  show "tidy sample_sizes sample_segs" "\<not> no_room sample_sizes sample_pool sample_segs 100"
    by (simp_all add: sample_segs_def tidy_def no_room_def sizes_ok_4096)
qed

lemma sample_alloc:
  obtains p s' m where "mps_slab_alloc_locked sample_sizes sample_pool 100 = Some (p, s')" "p \<noteq> 0"
    "slab_holds sample_sizes s' {(p, m)}"
proof -
  from alloc_succeeds [OF sample_pool_inv(1-3)] obtain p s' where
    a: "mps_slab_alloc_locked sample_sizes sample_pool 100 = Some (p, s')" "0 < p" by blast
  from slab.alloc_block [OF sample_pool_inv(4) a(1)] a(2) obtain m where "slab_holds sample_sizes s' {(p, m)}" by auto
  with a that show thesis by blast
qed

lemma sample_fits:
  "sizes_ok sample_sizes" "3 \<le> (3 :: nat)" "3 < pagesize_shift sample_sizes"
  "pages_off sample_sizes 3 + 2 * (pagesize sample_sizes + page_size) \<le> 65536" "(65536 :: nat) < 2 ^ 63"
  by (simp_all add: sizes_ok_4096 pages_off_def slab_consts)

subsection \<open>Operating system and table\<close>

text \<open>No file is there, a new one can be created, and nothing fails; the disk was used for \<open>sample\<close> before.\<close>

definition sample_os :: os where
  "sample_os =
     \<lparr>reply = (\<lambda>t c. case c of
          Sys_open p fl m \<Rightarrow> if O_CREAT \<in> set fl then Inr 3 else Inl ENOENT
        | Sys_shm_open p fl m \<Rightarrow> if O_CREAT \<in> set fl then Inr 3 else Inl ENOENT
        | Sys_mmap n fd \<Rightarrow> Inr 4096
        | _ \<Rightarrow> Inr 0),
      contents = (\<lambda>_. sample)\<rparr>"

definition sample_world :: world where
  "sample_world = \<lparr>trace = [], mem = (\<lambda>_. sample)\<rparr>"

abbreviation sample_path :: "byte list" where
  "sample_path \<equiv> [47, 97]"

lemma sample_os_ok: "errno_ok sample_os" "mmap_works sample_os" "late_calls_work sample_os" "once_works sample_os"
  by (auto simp: errno_ok_def mmap_works_def late_calls_work_def once_works_def sample_os_def errnos split: syscall.splits)

lemma sample_create:
  "\<exists>w'. mps_slab_open_or_create sample_os sample_sizes sample_path 65536 3 384 (Some (mps_shdict_on_init sample_sizes)) w
     = Some (Some 4096, w')"
proof -
  from on_init_ok [OF sample_fits, of sample] obtain s' where
    "mps_shdict_on_init sample_sizes (fresh_pool sample_sizes 65536 3 sample) = Some (0, s')" by blast
  moreover have "open_call sample_path fl m = Sys_open sample_path fl m" for fl m
    by (simp add: open_call_def SHM_PATH_PREFIX_def SHM_PATH_PREFIX_LEN_def)
  ultimately show ?thesis
    by (simp add: mps_slab_open_or_create_def mps_slab_open_def mps_slab_create_def create_fill_def pool_init_def
        mps_slab_init_mutex_def open_shm_or_file_run sys_run sys_err_run sample_os_def errnos create_close_def map_file_def fresh_pool_def)
qed

lemma sample_open:
  "\<exists>g' w'. mps_shdict_open_or_create sample_os sample_sizes True (Some 64) sample_path 65536 3 384 no_dicts w
     = Some (Some 64, g', w')"
proof -
  obtain rc g1 w1 where o: "dicts_once sample_os no_dicts w = (rc, g1, w1)" by (metis prod_cases3)
  note o1 = dicts_once_ok [OF o]
  have "rc = 0" using o1(7) sample_os_ok(4) by (simp add: once_works_def)
  with o1 o sample_create [of w1] show ?thesis
    by (auto simp: mps_shdict_open_or_create_def dicts_lock_def no_dicts_def find_dict_by_pathname_def elem_at_def dicts_count_def)
qed

text \<open>A table of two dictionaries.\<close>

definition sample_table :: registry where
  "sample_table = \<lparr>dicts = 64, elems = [\<lparr>sh_pool = 4096, sh_name = [97], sh_size = 65536\<rparr>,
     \<lparr>sh_pool = 8192, sh_name = [98], sh_size = 65536\<rparr>], dicts_locked = False, lock_initialized = True\<rparr>"

definition sample_mapped :: world where
  "sample_mapped = \<lparr>trace = [(Sys_mmap 65536 3, Inr 4096), (Sys_mmap 65536 4, Inr 8192)], mem = (\<lambda>_. sample)\<rparr>"

lemma sample_table_ok: "reg_inv sample_table sample_mapped" "dicts_count sample_table = 2"
  by (simp_all add: reg_inv_def sample_table_def sample_mapped_def dicts_count_def)

lemma sample_dict_ok: "dict_ok {[107], [108], [120]} 1 sample_dict"
  by (simp add: sample_dict_def entry_ok_def entry_k_def entry_l_def entry_x_def list_type_def scalar_ok_def item_ok_def tags)

lemma sample_keys_ok: "keys_ok {[107], [108], [120]}"
  by (simp add: keys_ok_def sample_hash)

end
