(* ===== verification/Spec2Isabelle.thy ===== *)
theory Spec2Isabelle
  imports ShdictSpec Registry Mutex Log Sample
begin

text \<open>
  A verification of the shared dictionary of this repository, a C library (src/src) that keeps
  string, number, boolean and list values with expiry times in a memory-mapped pool that processes
  share. The pool holds a slab allocator (mps_slab.c), a red-black tree indexed by hash and key
  (mps_rbtree.c) and the circular queues of mps_queue.h: one in LRU order through all entries, one for
  the items of each list value. mps_shdict.c ties them together, and keeps a table of the pools a
  process has open.

  \<^bold>\<open>Model.\<close> A pointer into the pool is its offset (a natural number, 0 for NULL). The members of the C
  structs are field maps from the offset of the struct, one record per component; the variable-length
  \<^verbatim>\<open>data\<close> members are bytes by offset. Integers have the C widths. A C function is a function from the
  pool to its results and the new pool; \<open>None\<close> is a call that does not return (a walk through links
  that never ends, locking a mutex that the caller holds), so that each theorem that states a result
  states that the call returns. Outside the pool, the state is the trace of system calls and the
  memory by address (\<open>world\<close>), and the table of dictionaries (\<open>registry\<close>).

  \<^bold>\<open>Theories\<close>, in the order of their imports:
  \<^item> Prelude: types, return codes, reading and writing bytes, lemmas on words.
  \<^item> Murmur, NgxString: ngx_murmurhash.c, \<^verbatim>\<open>ngx_memn2cmp\<close>.
  \<^item> Queue: mps_queue.h; \<open>dll\<close> reads a queue as a list; the locale \<open>intrusive_queue\<close> is its contract.
  \<^item> RBTree: mps_rbtree.c and mps_rbtree.h. RBShape: the algorithms on tree shapes; RBRefine: when a
    memory represents a shape; RBInsert, RBDelete: the pointer code computes the shape algorithms and
    returns; RBDict: the tree in the dictionary's order, the locale \<open>ordered_index\<close> and its interpretation.
  \<^item> Slab: mps_slab.c from \<^verbatim>\<open>mps_slab_sizes_init\<close> to \<^verbatim>\<open>mps_slab_free_pages\<close>; SlabFrame: what no operation
    of it changes. SlabInv: the invariant \<open>slab_inv\<close>, by which the pages are a row of segments (free
    runs, allocated runs, pages cut into chunks) that the page structs, the bitmaps and the lists
    describe; SlabList, SlabPages, SlabJoin, SlabSlots, SlabChunks: the steps of the allocator on it;
    SlabInit, SlabAlloc, SlabFree: initialisation, allocation and release keep it, and change the
    allocated blocks \<open>slab_holds z s M\<close> as the locale \<open>block_allocator\<close> says.
  \<^item> ShdictMem: the pool of mps_shdict.c, its clock and mutex, lookup, peek and expire; Shdict: the
    operations on scalar values; ShdictList: those on lists.
  \<^item> ShdictInv: the invariant \<open>pool_inv\<close> of a pool (tree, LRU queue and lists agree, \<open>dict_inv\<close>, and each
    node and item lies in an allocated block of its own, \<open>mem_inv\<close>) and the dictionary \<open>holds z s D\<close> it
    stands for, an association list of keys and entries in LRU order; ShdictLookup, ShdictRemove,
    ShdictStore, ShdictIncr: the operations that need no new block are simulated by those on the list.
  \<^item> ShdictBlocks, ShdictInsert, ShdictIncrNew: allocation with eviction, and store and increment of a
    new entry. ShdictItems, ShdictPush, ShdictPop: the list values. ShdictCalls: any sequence of calls
    returns and keeps the types of the values; ShdictClock: no call turns the clock back.
  \<^item> ShdictSpec: the specification of the API, an abstract machine on the dictionary (\<open>api\<close>), the proof that
    every sequence of calls answers as a history of it, and what follows from the specification alone.
  \<^item> PoolFile: creating, opening, mapping and closing the file of a pool, over an operating system that
    may fail any call; Mutex: the mutex between processes that may die. ShdictInit: a new pool holds the
    empty dictionary. Registry: the table of open dictionaries.
  \<^item> Log: the macros of mps_log.h, mps_log_stderr.c and mps_log_ngx.c.
  \<^item> Sample: a concrete pool, system and table, on which the properties below are applied.

  \<^bold>\<open>Bounds.\<close> The loop of \<^verbatim>\<open>mps_shdict_expire\<close> counts \<^verbatim>\<open>n\<close> up to 3, so \<open>3 - n\<close> rounds of fuel are all of it; the
  eviction loop has the 30 rounds of the code. All other loops are structural, or follow links as
  \<open>partial_function (option)\<close>, with theorems that they return;
  \<open>shdict_find_in\<close> is the loop of the search with fuel, for the bound on its rounds. The theorems on new entries and items
  assume that the sizes the code computes in \<^verbatim>\<open>int\<close> fit one, and keys of fewer than 65536 bytes, the range of
  \<^verbatim>\<open>key_len\<close>.

  \<^bold>\<open>Parameters.\<close> The addition of doubles (\<open>fadd\<close>), the readings of the clock (\<open>clock\<close>), the success of
  \<^verbatim>\<open>malloc\<close> (\<open>malloc_ok\<close>) and \<^verbatim>\<open>strdup\<close>, the address \<^verbatim>\<open>realloc\<close> returns, the page size (in \<open>slab_sizes\<close>), and
  the replies of the system calls with the contents of a mapped file (\<open>os\<close>); in Log the outcomes of
  \<^verbatim>\<open>vsnprintf\<close> and the texts of \<^verbatim>\<open>strerror\<close>. The hypotheses on the last
  are: a failed call has a nonzero \<^verbatim>\<open>errno\<close> (\<open>errno_ok\<close>), and, where a theorem says so, that no
  \<^verbatim>\<open>mmap\<close> fails or no call after it (\<open>mmap_works\<close>, \<open>late_calls_work\<close>).

  \<^bold>\<open>Not modelled.\<close> The Lua bindings; the functions of nginx and Traffic Server that the log macros call,
  whose arguments Log records; the nginx headers, of which the library uses the return codes, the alignment
  macro and the log levels only; the tests. The operations are modelled without their log calls, which
  change nothing that they read; that such a call may end the process is the subject of Log. The operations run under the pool's mutex, so each is one
  step, whose exclusion of others is the subject of Mutex; a process that dies in the middle of an
  operation leaves a pool of which nothing is claimed. The 32-bit branches of the preprocessor are
  left out, and so is the C heap behind the copies of names and strings that the library hands out.
\<close>

section \<open>The API as a whole\<close>

text \<open>
  C1. From a new pool, every sequence of calls returns, and answers as the specification of the API allows:
  \<^verbatim>\<open>mps_shdict_on_init\<close> succeeds on a pool of at least two pages, and the calls with their answers are a
  history of the abstract dictionary (\<open>api\<close>), which reads the clock in order and ends with the dictionary
  that the pool then holds, a well-typed one; the mutex is released. The keys are of at most 65535 bytes,
  no two with one hash; the sizes fit an \<^verbatim>\<open>int\<close>.
\<close>

theorem calls_answer_as_specified:
  assumes "sizes_ok z" "3 \<le> k" "k < pagesize_shift z" "pages_off z k + 2 * (pagesize z + page_size) \<le> n" "n < 2 ^ 63"
    and "keys_ok K" "list_all (call_ok K) cs" "length cs < 2 ^ 31"
  shows "\<exists>s0 rs s' D. mps_shdict_on_init z (fresh_pool z n k s) = Some (0, s0) \<and> holds z s0 []
    \<and> answer_calls fadd z cs s0 = Some (rs, s') \<and> length rs = length cs
    \<and> api_history fadd (time_nth s0) [] (zip cs rs) D
    \<and> holds z s' D \<and> \<not> held s' \<and> dict_ok K (length cs) D"
proof -
  from on_init_ok [OF assms(1-5), of s] obtain s0 where
    s0: "mps_shdict_on_init z (fresh_pool z n k s) = Some (0, s0)" "holds z s0 []" "\<not> held s0" by blast
  have "dict_ok K 0 []" "0 + length cs < 2 ^ 31" using assms(8) by simp_all
  from answer_calls_ok [OF s0(2,3) this(1) assms(6,7) this(2), of fadd] show ?thesis using s0 by auto
qed

theorem calls_answer_as_specified_witness:
  "\<exists>s0 rs s' D. mps_shdict_on_init sample_sizes (fresh_pool sample_sizes 65536 3 sample) = Some (0, s0)
     \<and> answer_calls (+) sample_sizes [Push MPS_SHDICT_LEFT [108] MPS_SHDICT_TNUMBER [] 5, Incr [107] 1 True 2 0,
         Pop MPS_SHDICT_RIGHT [108] 16 True, Flush_all] s0 = Some (rs, s')
     \<and> api_history (+) (time_nth s0) [] (zip [Push MPS_SHDICT_LEFT [108] MPS_SHDICT_TNUMBER [] 5, Incr [107] 1 True 2 0,
         Pop MPS_SHDICT_RIGHT [108] 16 True, Flush_all] rs) D"
  using calls_answer_as_specified [OF sample_fits sample_keys_ok, of "[Push MPS_SHDICT_LEFT [108] MPS_SHDICT_TNUMBER [] 5, Incr [107] 1 True 2 0,
         Pop MPS_SHDICT_RIGHT [108] 16 True, Flush_all]" sample "(+)"]
  by (simp add: small_def) blast

text \<open>
  C2. No get answers a wrong string: in a sequence of fewer than \<open>2 ^ 31\<close> calls on a new pool of at least two
  pages, with keys of at most 65535 bytes, no two of them with one hash, and sizes that fit an \<^verbatim>\<open>int\<close>
  (\<open>keys_ok\<close>, \<open>call_ok\<close>), when a get of a key answers a string, it is the one of the latest successful store
  of that key, with its flags. No value of another key, no older value, none that a failed store was to
  write. (Without the condition on the hashes this is not so: an increment that inserts a key can misplace it.)
\<close>

theorem get_answers_latest_store:
  assumes "sizes_ok z" "3 \<le> k" "k < pagesize_shift z" "pages_off z k + 2 * (pagesize z + page_size) \<le> n" "n < 2 ^ 63"
    and "keys_ok K" "list_all (call_ok K) cs" "length cs < 2 ^ 31"
    and "mps_shdict_on_init z (fresh_pool z n k s) = Some (0, s0)" "answer_calls fadd z cs s0 = Some (rs, s')"
    and "i < length cs" "cs ! i = Get key buf_len get_stale malloc_ok"
  shows "\<exists>g. rs ! i = Got g \<and> (\<forall>v. gt_type g = MPS_SHDICT_TSTRING \<and> gt_str g = Some v \<longrightarrow>
    (\<exists>op num exptime flags r. gt_flags g = Some flags
      \<and> find (sets key) (rev (take i (zip cs rs))) = Some (Store op key MPS_SHDICT_TSTRING (Some v) num exptime flags, r)))"
proof -
  from on_init_ok [OF assms(1-5), of s] assms(9) have s0: "holds z s0 []" "\<not> held s0" by auto
  have "dict_ok K 0 []" "0 + length cs < 2 ^ 31" using assms(8) by simp_all
  from answer_calls_ok [OF s0 this(1) assms(6,7) this(2), of fadd] assms(10) obtain D' where
    h: "length rs = length cs" "api_history fadd (time_nth s0) [] (zip cs rs) D'" by auto
  have split: "zip cs rs = take i (zip cs rs) @ (Get key buf_len get_stale malloc_ok, rs ! i) # drop (Suc i) (zip cs rs)"
    using id_take_nth_drop [of i "zip cs rs"] assms(11,12) h(1) by simp
  then obtain g where "rs ! i = Got g" using history_get [OF h(2)] by metis
  with history_current [OF h(2) current_empty split [unfolded this]] show ?thesis by auto
qed

theorem get_answers_latest_store_witness:
  "\<exists>s0 rs s' g. mps_shdict_on_init sample_sizes (fresh_pool sample_sizes 65536 3 sample) = Some (0, s0)
     \<and> answer_calls (+) sample_sizes [Store 0 [107] MPS_SHDICT_TSTRING (Some [1, 2, 3]) 0 0 9, Get [107] 16 False True] s0 = Some (rs, s')
     \<and> rs ! 1 = Got g \<and> (gt_type g = MPS_SHDICT_TSTRING \<and> gt_str g \<noteq> None \<longrightarrow> gt_str g = Some [1, 2, 3] \<and> gt_flags g = Some 9)"
proof -
  let ?store = "Store 0 [107] MPS_SHDICT_TSTRING (Some [1, 2, 3]) 0 0 9" and ?get = "Get [107] 16 False True"
  have ok: "list_all (call_ok {[107], [108], [120]}) [?store, ?get]" "length [?store, ?get] < 2 ^ 31" by (simp_all add: small_def)
  from on_init_ok [OF sample_fits, of sample] obtain s0 where
    s0: "mps_shdict_on_init sample_sizes (fresh_pool sample_sizes 65536 3 sample) = Some (0, s0)" "holds sample_sizes s0 []" "\<not> held s0"
    by blast
  have "dict_ok {[107], [108], [120]} 0 []" "0 + length [?store, ?get] < 2 ^ 31" by simp_all
  from answer_calls_ok [OF s0(2,3) this(1) sample_keys_ok ok(1) this(2), of "(+)"] obtain rs s' where
    run: "answer_calls (+) sample_sizes [?store, ?get] s0 = Some (rs, s')" "length rs = 2" by auto
  then obtain r0 r1 where rs: "rs = [r0, r1]" by (auto simp: numeral_2_eq_2 length_Suc_conv)
  from get_answers_latest_store [OF sample_fits sample_keys_ok ok s0(1) run(1), of 1 "[107]" 16 False True] obtain g where
    "rs ! 1 = Got g" "\<forall>v. gt_type g = MPS_SHDICT_TSTRING \<and> gt_str g = Some v \<longrightarrow> v = [1, 2, 3] \<and> gt_flags g = Some 9"
    by (auto simp: rs split: if_splits)
  with s0(1) run(1) show ?thesis by auto
qed

section \<open>The dictionary\<close>

text \<open>
  C3. \<^verbatim>\<open>mps_shdict_get\<close> on a pool that holds the dictionary \<open>D\<close> returns what \<open>get_spec\<close> says of the entry of
  the key: nil for a missing or expired one, else the value by its type, its flags and staleness. It
  always returns, releases the mutex, and its only effect is that the entry becomes the most recently
  used one.
\<close>

theorem get_correct:
  assumes "holds z s D" "\<not> held s"
  shows "\<exists>s'. mps_shdict_get key buf_len get_stale malloc_ok s
      = Some (get_spec buf_len get_stale malloc_ok (time_of s) (map_of D key), s')
    \<and> holds z s' (dict_touch key D) \<and> \<not> held s'"
  using get_refines [OF assms] .

theorem get_correct_witness:
  "\<exists>s'. mps_shdict_get [107] 16 False True sample
     = Some (get_spec 16 False True (time_of sample) (Some entry_k), s') \<and> \<not> held s'"
  using get_correct [OF sample_holds, of "[107]" 16 False True] by (auto simp: sample_dict_def)

text \<open>
  C4. Deletion removes the entries due at the end of the LRU order and the key, reports success and
  writes no error message; a get of the key then answers nil, whatever its other arguments.
\<close>

theorem delete_then_get:
  assumes "holds z s D" "\<not> held s"
  shows "\<exists>s'. mps_shdict_delete z key s = Some (\<lparr>st_rc = NGX_OK, st_err = None, st_forcible = False\<rparr>, s')
    \<and> holds z s' (dict_del key (swept s D)) \<and> \<not> held s'
    \<and> (\<exists>s''. mps_shdict_get key buf_len get_stale malloc_ok s'
          = Some (get_fail NGX_OK MPS_SHDICT_TNIL False None, s''))"
proof -
  from delete_refines [OF assms, of key] obtain s' where
    s': "mps_shdict_delete z key s = Some (\<lparr>st_rc = NGX_OK, st_err = None, st_forcible = False\<rparr>, s')"
      "holds z s' (dict_del key (swept s D))" "\<not> held s'" by blast
  with get_refines [OF s'(2,3), of key buf_len get_stale malloc_ok] show ?thesis
    by (auto simp: map_of_dict_del get_spec_def)
qed

theorem delete_then_get_witness:
  "\<exists>s' r. mps_shdict_delete sample_sizes [107] sample = Some (r, s')
     \<and> (\<exists>s''. mps_shdict_get [107] 16 False True s' = Some (get_fail NGX_OK MPS_SHDICT_TNIL False None, s''))"
  using delete_then_get [OF sample_holds, of "[107]" 16 False True] by blast

text \<open>
  C5. Storing over an entry whose value has the same length (and is no list) reuses its memory: the
  operation succeeds, and the dictionary has the new entry for the key, at the front of the LRU order,
  with the given type, bytes, flags and the expiry time \<^verbatim>\<open>now + exptime\<close> (0 without \<^verbatim>\<open>exptime\<close>).
\<close>

theorem store_overwrites_value:
  assumes "holds z s D" "\<not> held s"
    and "store_value op vtype str num = Inr (Some v)"
    and "map_of (swept s D) key = Some e"
    and "store_dispatch op vtype (if expired (time_nth s 1) e then NGX_DONE else NGX_OK) = Replace"
    and "uint (e_type e) \<noteq> MPS_SHDICT_TLIST" "length v = length (e_bytes e)"
  shows "\<exists>s'. mps_shdict_store z op key vtype str num exptime flags s
      = Some (\<lparr>st_rc = NGX_OK, st_err = None, st_forcible = False\<rparr>, s')
    \<and> holds z s' (dict_set key (new_entry vtype v exptime flags (time_nth s (if e_expires e = 0 then 1 else 2)))
          (swept s D)) \<and> \<not> held s'"
  using store_overwrites [OF assms] .

theorem store_overwrites_value_witness:
  "\<exists>s'. mps_shdict_set sample_sizes [107] MPS_SHDICT_TNUMBER None 0 0 9 sample
     = Some (\<lparr>st_rc = NGX_OK, st_err = None, st_forcible = False\<rparr>, s')
   \<and> holds sample_sizes s' [([107], new_entry MPS_SHDICT_TNUMBER (double_bytes 0) 0 9 3000), ([108], entry_l)]"
proof -
  have "length (double_bytes 0) = length (e_bytes entry_k)" by (simp add: entry_k_def)
  moreover have "uint (e_type entry_k) \<noteq> MPS_SHDICT_TLIST" "e_expires entry_k \<noteq> 0"
    by (simp_all add: entry_k_def tags)
  ultimately show ?thesis
    unfolding mps_shdict_set_def
    using store_overwrites_value [OF sample_holds, of 0 MPS_SHDICT_TNUMBER None 0 "double_bytes 0" "[107]" entry_k 0 9]
    by (simp add: store_value_def store_dispatch_def tags sample_swept sample_live dict_set_def dict_del_def ops)
      blast
qed



text \<open>
  C7. \<^verbatim>\<open>mps_shdict_expire\<close> with \<^verbatim>\<open>n\<close> below 3 returns, and frees at most \<open>3 - n\<close> entries, from the least
  recently used end. With \<^verbatim>\<open>n = 0\<close> it frees at least one of a dictionary that has any; with \<^verbatim>\<open>n > 0\<close> only
  entries whose time has come.
\<close>

theorem expire_frees:
  assumes "holds z s D" "n < 3"
  shows "\<exists>j s'. mps_shdict_expire z n s = Some (int j, s') \<and> holds z s' (take (length D - j) D)
    \<and> j \<le> 3 - n \<and> j \<le> length D \<and> (n = 0 \<and> D \<noteq> [] \<longrightarrow> 0 < j)
    \<and> (0 < n \<longrightarrow> (\<forall>(k, e) \<in> set (drop (length D - j) D). due (time_of s) e))"
proof -
  let ?j = "drop_count (3 - n) (time_of s) (n = 0) D"
  from expire_ok [OF assms] obtain s' where
    "mps_shdict_expire z n s = Some (int ?j, s')" "holds z s' (take (length D - ?j) D)"
    by (auto simp: keep_first_def)
  moreover have "n = 0 \<and> D \<noteq> [] \<longrightarrow> 0 < ?j" using drop_count_forced [of D 2 "time_of s"] by (simp add: numeral_3_eq_3)
  moreover have "0 < n \<longrightarrow> (\<forall>(k, e) \<in> set (drop (length D - ?j) D). due (time_of s) e)"
    using drop_count_due [of D "3 - n" "time_of s"] by auto
  ultimately show ?thesis using drop_count_bounds [of "3 - n" "time_of s" "n = 0" D] by blast
qed

theorem expire_frees_witness:
  "\<exists>j s'. mps_shdict_expire sample_sizes 0 sample = Some (int j, s') \<and> 0 < j \<and> j \<le> 3"
  using expire_frees [OF sample_holds(1), of 0] by (auto simp: sample_dict_def)

text \<open>
  C8. After \<^verbatim>\<open>mps_shdict_flush_all\<close> no key is found by a get that does not ask for stale values, provided
  that the clock is more than 1 ms past the epoch (and not beyond 2^63 ms).
\<close>

theorem flush_all_then_get:
  assumes "holds z s D" "\<not> held s" "0 < sint (time_nth s 1 - 1)"
  shows "\<exists>s'. mps_shdict_flush_all z s = Some (NGX_OK, s') \<and> \<not> held s'
    \<and> (\<forall>key buf_len malloc_ok. \<exists>s''. mps_shdict_get key buf_len False malloc_ok s'
          = Some (get_fail NGX_OK MPS_SHDICT_TNIL False None, s''))"
proof -
  let ?D = "keep_first (map stale D) (drop_count 3 (time_of s) True (map stale D))"
  from flush_all_refines [OF assms(1,2)] obtain s' where
    s': "mps_shdict_flush_all z s = Some (NGX_OK, s')" "holds z s' ?D" "\<not> held s'"
      "clock s' = clock s" "ticks s' = Suc (ticks s)" by blast
  have "time_of s' = time_nth s 1"
    using s'(4,5) by (simp add: time_nth_def time_of_def mps_clock_time_ms_def)
  moreover have "map_of ?D key = Some e \<Longrightarrow> \<exists>e'. e = e'\<lparr>e_expires := 1\<rparr>" for key e
    unfolding keep_first_def by (auto dest!: map_of_SomeD in_set_takeD simp: stale_def)
  ultimately have "get_spec buf_len False malloc_ok (time_of s') (map_of ?D key)
      = get_fail NGX_OK MPS_SHDICT_TNIL False None" for key buf_len malloc_ok
    using stale_expired [OF assms(3)] by (fastforce simp: get_spec_def split: option.split)
  with s' get_refines [OF s'(2,3)] show ?thesis by metis
qed

theorem flush_all_then_get_witness:
  "\<exists>s'. mps_shdict_flush_all sample_sizes sample = Some (NGX_OK, s')
     \<and> (\<exists>s''. mps_shdict_get [107] 16 False True s' = Some (get_fail NGX_OK MPS_SHDICT_TNIL False None, s''))"
  using flush_all_then_get [OF sample_holds] by (simp, blast)

text \<open>
  C9. Incrementing a live number replaces its bytes by those of the sum, returns the sum, and touches
  neither the expiry time nor the flags. \<open>fadd\<close> is the addition of doubles.
\<close>

theorem incr_number:
  assumes "holds z s D" "\<not> held s" "s0 = incr_start init_ttl s" "map_of (swept s0 D) key = Some e"
    "\<not> expired (time_nth s0 1) e" "is_number e"
  shows "\<exists>s'. mps_shdict_incr fadd z key val has_init init init_ttl s
      = Some (\<lparr>ir_rc = NGX_OK, ir_value = Some (fadd (bytes_double (e_bytes e)) val), ir_err = None,
               ir_forcible = False\<rparr>, s')
    \<and> holds z s' (dict_set key (incremented fadd val e) (swept s0 D)) \<and> \<not> held s'"
  using incr_adds [OF assms] .

theorem incr_number_witness:
  "\<exists>s' r. mps_shdict_incr (+) sample_sizes [107] 1 False 0 0 sample = Some (r, s')
     \<and> holds sample_sizes s' [([107], incremented (+) 1 entry_k), ([108], entry_l)]"
proof -
  have "incr_start 0 sample = sample" by (simp add: incr_start_def)
  then show ?thesis
    using incr_number [OF sample_holds refl, of 0 "[107]" entry_k "(+)" 1 False 0]
    by (simp add: sample_swept sample_live dict_set_def dict_del_def) blast
qed

text \<open>
  C10. Increment without an initial value refuses a missing or expired key, and refuses any live value
  that is not an 8-byte number, with the message of the branch. Up to two entries whose time has come are
  removed from the end of the LRU order first (\<open>swept\<close>); apart from that no entry changes, and the key's own,
  if there is one, becomes the most recently used.
\<close>

theorem incr_refused:
  assumes "holds z s D" "\<not> held s" "s0 = incr_start init_ttl s" "found = map_of (swept s0 D) key"
    and "case found of
        None \<Rightarrow> \<not> has_init \<and> msg = ''not found''
      | Some e \<Rightarrow> if expired (time_nth s0 1) e then \<not> has_init \<and> msg = ''not found''
                  else \<not> is_number e \<and> msg = ''not a number''"
  shows "\<exists>s'. mps_shdict_incr fadd z key val has_init init init_ttl s
      = Some (\<lparr>ir_rc = NGX_ERROR, ir_value = None, ir_err = Some msg, ir_forcible = False\<rparr>, s')
    \<and> holds z s' (dict_touch key (swept s0 D)) \<and> \<not> held s'"
  using incr_refuses [OF assms] .

theorem incr_refused_witness:
  "\<exists>s'. mps_shdict_incr (+) sample_sizes [108] 1 True 0 0 sample
     = Some (\<lparr>ir_rc = NGX_ERROR, ir_value = None, ir_err = Some ''not a number'', ir_forcible = False\<rparr>, s')"
proof -
  have "incr_start 0 sample = sample" by (simp add: incr_start_def)
  moreover have "\<not> is_number entry_l" by (simp add: is_number_def entry_l_def tags)
  ultimately show ?thesis
    using incr_refused [OF sample_holds refl refl, where init_ttl = 0 and key = "[108]" and has_init = True
        and msg = "''not a number''" and fadd = "(+)" and val = 1 and init = 0]
    by (simp add: sample_swept sample_live) blast
qed

text \<open>
  C11. \<^verbatim>\<open>mps_shdict_set_expire\<close> with a positive time on a key that is there, followed by
  \<^verbatim>\<open>mps_shdict_get_ttl\<close>: the answer is the time set less the time that has passed, as a signed 64-bit
  difference.
\<close>

theorem set_expire_then_get_ttl:
  assumes "holds z s D" "\<not> held s" "map_of D key = Some e" "0 < exptime"
    and "time_of s + of_int exptime \<noteq> 0"
  shows "\<exists>s' s''. mps_shdict_set_expire key exptime s = Some (NGX_OK, s')
    \<and> mps_shdict_get_ttl key s' = Some (sint (time_of s + of_int exptime - time_nth s 1), s'')"
proof -
  let ?t = "time_of s + of_int exptime"
  from set_expire_refines [OF assms(1,2), of key exptime] assms(3,4) obtain s' where
    s': "mps_shdict_set_expire key exptime s = Some (NGX_OK, s')" "holds z s' (dict_set_expires key ?t D)"
      "\<not> held s'" "clock s' = clock s" "ticks s' = Suc (ticks s)" by auto
  have "time_of s' = time_nth s 1"
    using s'(4,5) by (simp add: time_nth_def time_of_def mps_clock_time_ms_def)
  moreover have "map_of (dict_set_expires key ?t D) key = Some (e\<lparr>e_expires := ?t\<rparr>)"
    using assms(3) by (induction D) (auto simp: dict_set_expires_def)
  ultimately show ?thesis using get_ttl_refines [OF s'(2,3), of key] s'(1) assms(5) by auto
qed

theorem set_expire_then_get_ttl_witness:
  "\<exists>s' s''. mps_shdict_set_expire [108] 70 sample = Some (NGX_OK, s') \<and> mps_shdict_get_ttl [108] s' = Some (70, s'')"
  using set_expire_then_get_ttl [OF sample_holds, of "[108]" entry_l 70] by (simp add: sample_dict_def)

text \<open>
  C12. The search that lookup and peek share, by hash and then by key bytes down the tree, always ends,
  and finds exactly the entry a linear search of the dictionary finds; peek answers from it.
\<close>

theorem peek_finds:
  assumes "holds z s D"
  shows "\<exists>sdp. mps_shdict_peek (ucast (ngx_murmur_hash2 key)) key s
      = Some (if map_of D key = None then NGX_DECLINED else NGX_OK, sdp)
    \<and> (sdp = None \<longleftrightarrow> map_of D key = None)
    \<and> (\<forall>sd e. sdp = Some sd \<and> map_of D key = Some e \<longrightarrow> sd_key s sd = key \<and> expires s sd = e_expires e
          \<and> value_type s sd = e_type e \<and> user_flags s sd = e_flags e)"
proof -
  from assms obtain xs L V where inv: "dict_inv s xs L V" and D: "D = dict_abs s V L"
    by (auto simp: holds_def pool_inv_def)
  show ?thesis
  proof (cases "map_of D key")
    case None
    with peek_ok [OF inv, of key] D show ?thesis by simp
  next
    case (Some e)
    with peek_ok [OF inv, of key] D obtain a where
      "mps_shdict_peek (ucast (ngx_murmur_hash2 key)) key s = Some (NGX_OK, Some (sd_of_node a))"
      "node_key s a = key" "e = entry_at s V a" by auto
    with Some show ?thesis by (simp add: node_key_def entry_at_def)
  qed
qed

theorem peek_finds_witness:
  "\<exists>sd. mps_shdict_peek (ucast (ngx_murmur_hash2 [107])) [107] sample = Some (NGX_OK, Some sd) \<and> sd_key sample sd = [107]"
  using peek_finds [OF sample_holds(1), of "[107]"] by (auto simp: sample_dict_def)

section \<open>The red-black tree\<close>

text \<open>
  C13. \<^verbatim>\<open>mps_rbtree_insert\<close> in the dictionary's order returns, and puts the node between the smaller and
  the larger nodes of a tree that again satisfies the red-black and the order invariants.
\<close>

theorem rbtree_insert_correct:
  assumes "index_rep kd t xs" "fresh_in t a" "a \<notin> set xs" "\<forall>b \<in> set xs. nkey kd t b \<noteq> nkey kd t a"
  shows "\<exists>t'. mps_rbtree_insert kd t a = Some t' \<and> nkey kd t' = nkey kd t
    \<and> index_rep kd t' (filter (\<lambda>b. nkey kd t b < nkey kd t a) xs @ a # filter (\<lambda>b. nkey kd t a < nkey kd t b) xs)"
  using index.insert_rep [OF assms] by blast

lemma sample_fresh: "fresh_in (tree sample) 20480" "20480 \<notin> set sample_nodes"
  "\<forall>b \<in> set sample_nodes. nkey (node_key sample) (tree sample) b \<noteq> nkey (node_key sample) (tree sample) 20480"
  by (simp_all add: fresh_in_def sample_fields sample_tree_def sample_offs nkey_def)

theorem rbtree_insert_correct_witness:
  "\<exists>t'. mps_rbtree_insert (node_key sample) (tree sample) 20480 = Some t'
     \<and> index_rep (node_key sample) t' [20480, node_x, node_l, node_k]"
  using rbtree_insert_correct [OF sample_index sample_fresh]
  by (simp add: nkey_def sample_fields sample_tree_def) (simp add: sample_offs, blast)

text \<open>
  C14. \<^verbatim>\<open>mps_rbtree_delete\<close> of any node returns, and leaves a well-formed tree of the other nodes, whose
  keys are untouched.
\<close>

theorem rbtree_delete_correct:
  assumes "index_rep kd t xs" "a \<in> set xs"
  shows "\<exists>t'. mps_rbtree_delete t a = Some t' \<and> index_rep kd t' (remove1 a xs)
    \<and> (\<forall>b. b \<noteq> a \<longrightarrow> nkey kd t' b = nkey kd t b)"
  using index.delete_rep [OF assms] by blast

theorem rbtree_delete_correct_witness:
  "\<exists>t'. mps_rbtree_delete (tree sample) node_l = Some t' \<and> index_rep (node_key sample) t' [node_x, node_k]"
  using rbtree_delete_correct [OF sample_index, of node_l] by (simp add: sample_nodes_def sample_ne) blast

text \<open>C15. Deleting the node just inserted gives back a tree of the same sequence of nodes.\<close>

theorem rbtree_insert_delete:
  assumes "index_rep kd t xs" "fresh_in t a" "a \<notin> set xs" "\<forall>b \<in> set xs. nkey kd t b \<noteq> nkey kd t a"
  shows "\<exists>t' t''. mps_rbtree_insert kd t a = Some t' \<and> mps_rbtree_delete t' a = Some t'' \<and> index_rep kd t'' xs"
  using index.insert_delete [OF assms] .

theorem rbtree_insert_delete_witness:
  "\<exists>t' t''. mps_rbtree_insert (node_key sample) (tree sample) 20480 = Some t'
     \<and> mps_rbtree_delete t' 20480 = Some t'' \<and> index_rep (node_key sample) t'' sample_nodes"
  using rbtree_insert_delete [OF sample_index sample_fresh] .

text \<open>
  C16. \<^verbatim>\<open>mps_rbtree_next\<close> walks the nodes in ascending order of hash and key: from each node to the
  next larger one, and from the last to the null offset.
\<close>

theorem rbtree_next_ascends:
  assumes "index_rep kd t xs" "i < length xs"
  shows "mps_rbtree_next t (xs ! i) = Some (if Suc i < length xs then xs ! Suc i else mps_nulloff)
    \<and> (Suc i < length xs \<longrightarrow> nkey kd t (xs ! i) < nkey kd t (xs ! Suc i))"
proof -
  have xs: "xs = take i xs @ xs ! i # drop (Suc i) xs" using assms(2) by (rule id_take_nth_drop)
  then have "mps_rbtree_next t (xs ! i) = Some (case drop (Suc i) xs of [] \<Rightarrow> mps_nulloff | b # _ \<Rightarrow> b)"
    using index.successor_rep assms(1) by metis
  moreover have "drop (Suc i) xs = (if Suc i < length xs then xs ! Suc i # drop (Suc (Suc i)) xs else [])"
    by (simp add: Cons_nth_drop_Suc)
  moreover have "Suc i < length xs \<Longrightarrow> nkey kd t (xs ! i) < nkey kd t (xs ! Suc i)"
    using index.rep_sorted [OF assms(1)] by (simp add: sorted_wrt_iff_nth_less)
  ultimately show ?thesis by simp
qed

theorem rbtree_next_ascends_witness:
  "mps_rbtree_next (tree sample) node_x = Some node_l \<and> mps_rbtree_next (tree sample) node_k = Some mps_nulloff"
  using rbtree_next_ascends [OF sample_index, of 0] rbtree_next_ascends [OF sample_index, of 2]
  by (simp add: sample_nodes_def)

text \<open>
  C17. The search stays short: after any sequence of calls on a new pool (as in C1), the loop that looks for
  a key in the tree of the dictionary \<open>D\<close> ends within \<open>2 j\<close> rounds, the one that meets the sentinel included,
  when \<open>D\<close> has fewer than \<open>2 ^ j - 1\<close> entries (it has at most as many as there are keys); and the node it ends at is the one of the key, if the key is
  in the dictionary, else none.
\<close>

theorem search_rounds:
  assumes "sizes_ok z" "3 \<le> k" "k < pagesize_shift z" "pages_off z k + 2 * (pagesize z + page_size) \<le> n" "n < 2 ^ 63"
    and "keys_ok K" "list_all (call_ok K) cs" "length cs < 2 ^ 31"
    and "mps_shdict_on_init z (fresh_pool z n k s) = Some (0, s0)" "answer_calls fadd z cs s0 = Some (rs, s')"
  shows "\<exists>D. holds z s' D \<and> length D \<le> card K \<and> (\<forall>key j. length D + 1 < 2 ^ j \<longrightarrow>
    (\<exists>found. shdict_find_in (2 * j) s' (ucast (ngx_murmur_hash2 key)) key (rb_root (tree s')) = Some found
      \<and> shdict_find s' (ucast (ngx_murmur_hash2 key)) key (rb_root (tree s')) = Some found
      \<and> (case found of None \<Rightarrow> map_of D key = None
         | Some a \<Rightarrow> node_key s' a = key \<and> map_of D key \<noteq> None)))"
proof -
  from on_init_ok [OF assms(1-5), of s] assms(9) have s0: "holds z s0 []" "\<not> held s0" by auto
  have "dict_ok K 0 []" "0 + length cs < 2 ^ 31" using assms(8) by simp_all
  from answer_calls_ok [OF s0 this(1) assms(6,7) this(2), of fadd] assms(10) obtain D where
    "holds z s' D" "dict_ok K (0 + length cs) D" by auto
  with find_rounds_abs dict_length [OF this assms(6)] show ?thesis by blast
qed

theorem search_rounds_witness:
  "\<exists>s0 rs s' found. mps_shdict_on_init sample_sizes (fresh_pool sample_sizes 65536 3 sample) = Some (0, s0)
     \<and> answer_calls (+) sample_sizes [Store 0 [107] MPS_SHDICT_TSTRING (Some [1, 2, 3]) 0 0 9, Flush_all] s0 = Some (rs, s')
     \<and> shdict_find_in 6 s' (ucast (ngx_murmur_hash2 [107])) [107] (rb_root (tree s')) = Some found"
proof -
  let ?cs = "[Store 0 [107] MPS_SHDICT_TSTRING (Some [1, 2, 3]) 0 0 9, Flush_all]"
  have ok: "list_all (call_ok {[107], [108], [120]}) ?cs" "length ?cs < 2 ^ 31" by (simp_all add: small_def)
  from on_init_ok [OF sample_fits, of sample] obtain s0 where
    s0: "mps_shdict_on_init sample_sizes (fresh_pool sample_sizes 65536 3 sample) = Some (0, s0)" "holds sample_sizes s0 []" "\<not> held s0"
    by blast
  have "dict_ok {[107], [108], [120]} 0 []" "0 + length ?cs < 2 ^ 31" by simp_all
  from answer_calls_ok [OF s0(2,3) this(1) sample_keys_ok ok(1) this(2), of "(+)"] obtain rs s' where
    run: "answer_calls (+) sample_sizes ?cs s0 = Some (rs, s')" by blast
  from search_rounds [OF sample_fits sample_keys_ok ok s0(1) run] obtain D where
    D: "holds sample_sizes s' D" "length D \<le> card {[107], [108], [120 :: byte]}" "\<And>key j. length D + 1 < 2 ^ j \<Longrightarrow>
      \<exists>found. shdict_find_in (2 * j) s' (ucast (ngx_murmur_hash2 key)) key (rb_root (tree s')) = Some found" by blast
  have "length D + 1 < 2 ^ 3" using D(2) by simp
  from D(3) [OF this, of "[107]"] s0(1) run show ?thesis by auto
qed

section \<open>Queue, strings, hash\<close>

text \<open>
  C18. Removing a link and inserting it at the head, as every use of an entry does with the LRU queue,
  moves it to the front of the sequence the queue stands for, and leaves every queue with other links
  as it is.
\<close>

theorem queue_move_to_head:
  assumes "dll m h xs" "x \<in> set xs"
  shows "dll (mps_queue_insert_head h x (mps_queue_remove x m)) h (x # remove1 x xs)
    \<and> (set (h # xs) \<inter> set (g # ys) = {}
        \<longrightarrow> dll (mps_queue_insert_head h x (mps_queue_remove x m)) g ys = dll m g ys)"
  using lq.rep_move_to_head [OF assms] lq.other_move_to_head [OF assms] by blast

theorem queue_move_to_head_witness:
  "dll (mps_queue_insert_head 20544 8240 (mps_queue_remove 8240 sample_links)) 20544 [8240, 4144, 12336]"
proof -
  have "dll sample_links 20544 [4144, 12336, 8240]" by (simp add: dll_def sample_links_def)
  from queue_move_to_head [OF this, of 8240] show ?thesis by simp
qed

text \<open>
  C19. \<^verbatim>\<open>ngx_memn2cmp\<close> decides the lexicographic order of unsigned bytes, a prefix before its
  extensions: its sign is that of the comparison, and it is 0 only on equal strings.
\<close>

theorem memn2cmp_decides_order:
  "(ngx_memn2cmp s1 s2 < 0 \<longleftrightarrow> s1 < s2) \<and> (ngx_memn2cmp s1 s2 = 0 \<longleftrightarrow> s1 = s2) \<and> (ngx_memn2cmp s1 s2 > 0 \<longleftrightarrow> s2 < s1)"
  by (simp add: ngx_memn2cmp_order)

text \<open>
  C20. The hash is MurmurHash2 as its definition has it, on whole little-endian words. Every aligned block of
  four bytes reaches it without loss (keys that differ in one such block only have different hashes),
  and keys of one length of at most four bytes never collide.
\<close>

theorem murmur_hash:
  "ngx_murmur_hash2 data = murmur_reference data
    \<and> (4 dvd length pre \<and> [a0, a1, a2, a3] \<noteq> [b0, b1, b2, b3] \<longrightarrow>
        ngx_murmur_hash2 (pre @ [a0, a1, a2, a3] @ post) \<noteq> ngx_murmur_hash2 (pre @ [b0, b1, b2, b3] @ post))
    \<and> (length xs = length ys \<and> length ys \<le> 4 \<and> xs \<noteq> ys \<longrightarrow> ngx_murmur_hash2 xs \<noteq> ngx_murmur_hash2 ys)"
  using murmur_reference murmur_block_changes_hash [of pre a0 a1 a2 a3 post b0 b1 b2 b3] murmur_short_inj [of xs ys] by blast

theorem murmur_hash_witness:
  "ngx_murmur_hash2 [97] = murmur_reference [97]
    \<and> ngx_murmur_hash2 ([1, 2, 3, 4] @ [5, 6, 7, 8] @ [9]) \<noteq> ngx_murmur_hash2 ([1, 2, 3, 4] @ [5, 6, 7, 0] @ [9])
    \<and> ngx_murmur_hash2 [1, 2, 3] \<noteq> ngx_murmur_hash2 [1, 2, 4]"
proof -
  have "4 dvd length [1, 2, 3, 4 :: byte]" by (rule dvdI [of _ _ 1]) simp
  then show ?thesis
    using murmur_hash [of "[97]" "[1, 2, 3, 4]" 5 6 7 8 5 6 7 0 "[9]" "[1, 2, 3]" "[1, 2, 4]"] by simp
qed

section \<open>The slab allocator\<close>

text \<open>
  C21. A pool of at least two pages, with a smallest chunk of at least 8 bytes and less than a page, that
  \<^verbatim>\<open>mps_slab_init\<close> lays out satisfies the allocator's invariant, with nothing handed out, whatever the memory
  held before.
\<close>

theorem slab_init_holds:
  assumes "sizes_ok z" "3 \<le> shift" "shift < pagesize_shift z"
    "pages_off z shift + 2 * (pagesize z + page_size) \<le> shm_size" "shm_size < 2 ^ 63"
  shows "slab_holds z (mps_slab_init z shm_size shift s) {}"
  using init_holds [OF assms] .

theorem slab_init_holds_witness:
  "slab_holds sample_sizes (mps_slab_init sample_sizes 65536 3 sample_slab) {}"
  by (rule slab_init_holds) (simp_all add: sizes_ok_4096 pages_off_def slab_consts)

text \<open>
  C22. \<^verbatim>\<open>mps_slab_alloc_locked\<close> always returns. It answers NULL and changes nothing that is handed out, or it
  hands out a block of at least the size asked for that overlaps no other block.
\<close>

theorem slab_alloc_fresh:
  assumes "slab_holds z s L"
  shows "\<exists>p s'. mps_slab_alloc_locked z s sz = Some (p, s')
    \<and> (if p = 0 then slab_holds z s' L
       else \<exists>m \<ge> sz. slab_holds z s' (insert (p, m) L) \<and> (\<forall>(q, n) \<in> L. p + m \<le> q \<or> q + n \<le> p))"
proof -
  from slab.alloc_returns [OF assms, of sz] obtain p s' where a: "mps_slab_alloc_locked z s sz = Some (p, s')" by blast
  show ?thesis
  proof (cases "p = 0")
    case True
    with a slab.alloc_null [OF assms, of sz s'] show ?thesis by auto
  next
    case False
    with a slab.alloc_fresh [OF assms a False] show ?thesis by auto
  qed
qed

theorem slab_alloc_fresh_witness:
  "\<exists>p s'. mps_slab_alloc_locked sample_sizes sample_pool 100 = Some (p, s')
     \<and> (p = 0 \<or> (\<exists>m \<ge> 100. slab_holds sample_sizes s' {(p, m)}))"
  using slab_alloc_fresh [OF sample_pool_inv(4), of 100] by (metis (no_types, lifting))

text \<open>
  C23. Releasing a block that is handed out succeeds, and takes exactly that block out of the pool: all
  others stay, and stay disjoint.
\<close>

theorem slab_free_removes:
  assumes "slab_holds z s L" "(p, m) \<in> L"
  shows "\<exists>s'. mps_slab_free_locked z s p = (None, s') \<and> slab_holds z s' (L - {(p, m)})"
  using slab.release_block [OF assms] .

theorem slab_free_removes_witness:
  "\<exists>s p s'. mps_slab_free_locked sample_sizes s p = (None, s') \<and> slab_holds sample_sizes s' {}"
proof (rule sample_alloc)
  fix p s' m assume "slab_holds sample_sizes s' {(p, m)}"
  from slab_free_removes [OF this, of p m] show ?thesis by auto
qed

text \<open>C24. What is allocated and then released leaves the pool with the blocks it had.\<close>

theorem slab_alloc_free:
  assumes "slab_holds z s L" "mps_slab_alloc_locked z s sz = Some (p, s')" "p \<noteq> 0"
  shows "\<exists>s''. mps_slab_free_locked z s' p = (None, s'') \<and> slab_holds z s'' L"
  using slab.alloc_release [OF assms] .

theorem slab_alloc_free_witness:
  "\<exists>p s' s''. mps_slab_alloc_locked sample_sizes sample_pool 100 = Some (p, s')
     \<and> mps_slab_free_locked sample_sizes s' p = (None, s'') \<and> slab_holds sample_sizes s'' {}"
proof (rule sample_alloc)
  fix p s' m assume "mps_slab_alloc_locked sample_sizes sample_pool 100 = Some (p, s')" "p \<noteq> 0"
  with slab_alloc_free [OF sample_pool_inv(4) this] show ?thesis by auto
qed

text \<open>
  C25. An address that is no block is refused and the pool is left as it is: an address before the pages or
  beyond the end of the pool, in a free page, inside a block, or a chunk that is free already. Two kinds of
  addresses are excluded. The addresses of the bitmap at the start of a page of small chunks are not told apart
  from blocks by the code. For those from the end of the last page up to the end of the pool, the end included,
  the code reads a page struct past the array of pages.
\<close>

theorem slab_free_refuses:
  assumes "slab_inv z s G F SL" "tidy z G" "p < pool_start s + seg_total G * pagesize z \<or> pool_end s < p"
    "\<And>m. (p, m) \<notin> blocks z s G" "\<not> in_bitmap z s G p"
  shows "\<exists>e. mps_slab_free_locked z s p = (Some e, s)"
  using free_locked_refused [OF assms(1,2) _ assms(4,5)] free_outside [of p s z] assms(3) by blast

theorem slab_free_refuses_witness:
  "(\<exists>e. mps_slab_free_locked sample_sizes sample_pool 0 = (Some e, sample_pool))
   \<and> (\<exists>e. mps_slab_free_locked sample_sizes sample_pool (pool_start sample_pool + 5) = (Some e, sample_pool))
   \<and> (\<exists>e. mps_slab_free_locked sample_sizes sample_pool (pool_end sample_pool + 1) = (Some e, sample_pool))"
proof -
  have "0 < pool_start sample_pool" using sample_pool_inv(1) by (simp add: slab_inv_def geo_ok_def)
  moreover have "0 < seg_total sample_segs" using slab_inv_lens [OF sample_pool_inv(1)] by (simp add: sample_segs_def)
  then have "5 < seg_total sample_segs * pagesize sample_sizes" by (simp add: sizes_ok_4096)
  moreover have "(p, m) \<notin> blocks sample_sizes sample_pool sample_segs" "\<not> in_bitmap sample_sizes sample_pool sample_segs p" for p m
    by (simp_all add: blocks_def in_bitmap_def sample_segs_def)
  ultimately show ?thesis
    by (intro conjI slab_free_refuses [OF sample_pool_inv(1,2)]) simp_all
qed

text \<open>
  C26. A request is refused only when nothing can serve it: \<open>no_room\<close> is that no free run is long enough, or,
  for a chunk, that no page is free and every page of its size is full.
\<close>

theorem slab_alloc_serves:
  assumes "slab_inv z s G F SL" "tidy z G" "\<not> no_room z s G sz"
  shows "\<exists>p s'. mps_slab_alloc_locked z s sz = Some (p, s') \<and> 0 < p"
  using alloc_succeeds [OF assms] .

theorem slab_alloc_serves_witness:
  "\<exists>p s'. mps_slab_alloc_locked sample_sizes sample_pool 100 = Some (p, s')
     \<and> 0 < p"
  using slab_alloc_serves [OF sample_pool_inv(1-3)] .

section \<open>Allocating operations\<close>

text \<open>
  C27. A store of a value that its flags do not forbid, on any pool: the call returns and releases the
  mutex. Either it reports success and the new entry (type, bytes, flags, expiry time) is at the front
  of the LRU order, in place of the key's old one, or it reports \<^verbatim>\<open>no memory\<close> and the old entry is gone
  too. In both cases the others are as they were, except for the \<open>j\<close> least recently used ones that it
  had to evict; it says by \<^verbatim>\<open>forcible\<close> whether there were any, a safe store evicts none, and it gives up
  only with none left or 30 of them gone (\<open>stored\<close>, \<open>made_room\<close>, \<open>gave_up\<close>).
\<close>

theorem store_inserts:
  assumes "holds z s D" "\<not> held s" "store_value op vtype str num = Inr (Some v)"
    and "found = map_of (swept s D) key"
    and "rc = (case found of None \<Rightarrow> NGX_DECLINED
               | Some e \<Rightarrow> if expired (time_nth s 1) e then NGX_DONE else NGX_OK)"
    and "\<And>msg. store_dispatch op vtype rc \<noteq> Refuse msg"
    and "length key < 2 ^ 16" "node_header + length key + length v < 2 ^ 31"
  shows "\<exists>r s'. mps_shdict_store z op key vtype str num exptime flags s = Some (r, s')
    \<and> stored z op key vtype v exptime flags s (dict_del key (swept s D)) r s'"
  using store_stores [OF assms] .

theorem store_inserts_witness:
  "\<exists>r s'. mps_shdict_set sample_sizes [107] MPS_SHDICT_TSTRING (Some [1, 2, 3]) 0 0 9 sample = Some (r, s')
     \<and> stored sample_sizes 0 [107] MPS_SHDICT_TSTRING [1, 2, 3] 0 9 sample [([108], entry_l)] r s'"
  unfolding mps_shdict_set_def
  using store_inserts [OF sample_holds, of 0 MPS_SHDICT_TSTRING "Some [1, 2, 3]" 0 "[1, 2, 3]" "Some entry_k" "[107]" NGX_OK 0 9]
  by (simp add: store_value_def store_dispatch_def tags sample_swept sample_live dict_del_def offsets)

text \<open>
  C28. Set and get: after a set of a string, a number or a boolean without expiry time that reports success,
  get of the key answers that value bit for bit, its type and the flags, whatever the clock reads, provided
  that the caller's buffer has room for the value or, unless it is a boolean, \<^verbatim>\<open>malloc\<close> succeeds. The key is
  of fewer than 65536 bytes, and the size of the entry fits an \<^verbatim>\<open>int\<close>. A set that fails reports \<^verbatim>\<open>no memory\<close>.
\<close>

theorem set_then_get:
  assumes "holds z s D" "\<not> held s" "exptime \<le> 0" "store_value 0 vtype str num = Inr (Some v)"
    and "length v \<le> buf_len \<or> malloc_ok \<and> vtype \<noteq> MPS_SHDICT_TBOOLEAN"
    and "length key < 2 ^ 16" "node_header + length key + length v < 2 ^ 31"
  shows "\<exists>r s'. mps_shdict_set z key vtype str num exptime flags s = Some (r, s')
    \<and> (st_rc r = NGX_ERROR \<and> st_err r = Some ''no memory''
       \<or> st_rc r = NGX_OK \<and> (\<exists>g s''. mps_shdict_get key buf_len get_stale malloc_ok s' = Some (g, s'')
          \<and> gt_rc g = NGX_OK \<and> gt_type g = vtype \<and> gt_flags g = Some flags
          \<and> gt_stale g = (if get_stale then Some False else None)
          \<and> (if vtype = MPS_SHDICT_TSTRING then gt_str g = str \<and> gt_str_len g = Some (length v)
             else if vtype = MPS_SHDICT_TNUMBER then gt_num g = Some num
             else gt_str g = Some [if double_true num then 1 else 0])))"
proof -
  define rc where "rc = (case map_of (swept s D) key of None \<Rightarrow> NGX_DECLINED
    | Some e \<Rightarrow> if expired (time_nth s 1) e then NGX_DONE else NGX_OK)"
  have "store_dispatch 0 vtype rc \<noteq> Refuse msg" for msg by (simp add: store_dispatch_def)
  then obtain r s' where r: "mps_shdict_set z key vtype str num exptime flags s = Some (r, s')"
    "stored z 0 key vtype v exptime flags s (dict_del key (swept s D)) r s'"
    unfolding mps_shdict_set_def using store_stores [OF assms(1,2,4) refl rc_def _ assms(6,7)] by blast
  have "\<exists>g s''. mps_shdict_get key buf_len get_stale malloc_ok s' = Some (g, s'')
      \<and> g = get_spec buf_len get_stale malloc_ok (time_of s') (Some (new_entry vtype v exptime flags now))"
    if "holds z s' ((key, new_entry vtype v exptime flags now) # D')" for now D'
    using get_refines [OF that, of key buf_len get_stale malloc_ok] r(2) by (auto simp: stored_def)
  note answer = this and new = get_of_new_entry [OF assms(3-5), of _ get_stale _ flags]
  from r(2) consider "st_rc r = NGX_ERROR" "st_err r = Some ''no memory''"
    | now D' where "st_rc r = NGX_OK" "holds z s' ((key, new_entry vtype v exptime flags now) # D')"
    by (auto simp: stored_def)
  then show ?thesis
  proof cases
    case 2
    from answer [OF 2(2)] obtain g s'' where g: "mps_shdict_get key buf_len get_stale malloc_ok s' = Some (g, s'')"
      "g = get_spec buf_len get_stale malloc_ok (time_of s') (Some (new_entry vtype v exptime flags now))" by blast
    from new [OF g(2)] g(1) 2(1) r(1) show ?thesis by blast
  qed (use r(1) in blast)
qed

theorem set_then_get_witness:
  "(\<exists>r s'. mps_shdict_set sample_sizes [107] MPS_SHDICT_TSTRING (Some [1, 2, 3]) 0 0 9 sample = Some (r, s')
     \<and> (st_rc r = NGX_ERROR \<and> st_err r = Some ''no memory''
        \<or> st_rc r = NGX_OK \<and> (\<exists>g s''. mps_shdict_get [107] 16 False True s' = Some (g, s'') \<and> gt_str g = Some [1, 2, 3])))
   \<and> (\<exists>r s'. mps_shdict_set sample_sizes [107] MPS_SHDICT_TNUMBER None 0x3FF0000000000000 0 9 sample = Some (r, s')
     \<and> (st_rc r = NGX_ERROR \<and> st_err r = Some ''no memory''
        \<or> st_rc r = NGX_OK \<and> (\<exists>g s''. mps_shdict_get [107] 16 False True s' = Some (g, s'') \<and> gt_num g = Some 0x3FF0000000000000)))"
  using set_then_get [OF sample_holds, of 0 MPS_SHDICT_TSTRING "Some [1, 2, 3]" 0 "[1, 2, 3]" 16 True "[107]" 9 False]
    set_then_get [OF sample_holds, of 0 MPS_SHDICT_TNUMBER None "0x3FF0000000000000" "double_bytes 0x3FF0000000000000" 16 True "[107]" 9 False]
  by (auto simp: offsets store_value_def tags)

text \<open>
  C29. Increment with an initial value, of a key that is missing or has expired: the call returns, and
  either answers \<open>val + init\<close> and leaves an 8-byte number of that value at the front of the LRU order,
  with no flags and the expiry time of \<^verbatim>\<open>init_ttl\<close>, or reports \<^verbatim>\<open>no memory\<close>; evictions are as for a store
  (\<open>counted\<close>). No other key of the dictionary may have the key's hash: the code goes wrong otherwise.
\<close>

theorem incr_new_key:
  assumes "holds z s D" "\<not> held s" "s0 = incr_start init_ttl s"
    and "\<And>e. map_of (swept s0 D) key = Some e \<Longrightarrow> expired (time_nth s0 1) e"
    and "no_collision (swept s0 D) key" "length key < 2 ^ 16"
  shows "\<exists>r s'. mps_shdict_incr fadd z key val True init init_ttl s = Some (r, s')
    \<and> counted z key (fadd val init) (if init_ttl > 0 then time_of s else 0) init_ttl s (dict_del key (swept s0 D)) r s'"
  using incr_creates [OF assms] .

theorem incr_new_key_witness:
  "\<exists>r s'. mps_shdict_incr (+) sample_sizes [120] 1 True 2 0 sample = Some (r, s')
     \<and> counted sample_sizes [120] 3 0 0 sample [([107], entry_k), ([108], entry_l)] r s'"
proof -
  have i: "incr_start 0 sample = sample" by (simp add: incr_start_def)
  have "no_collision (swept sample sample_dict) [120]" by (auto simp: no_collision_def sample_swept sample_hash)
  with incr_new_key [OF sample_holds refl, of 0 "[120]" "(+)" 1 2] show ?thesis
    by (simp add: i sample_swept dict_del_def)
qed

section \<open>Lists\<close>

text \<open>
  C30. A push returns. For a key that is missing, or whose entry has expired (a list, whose items are released, or
  a scalar), it answers 1 and leaves a list of exactly the new item, which never expires, or it reports
  \<^verbatim>\<open>no memory\<close> and leaves no entry for the key (\<open>listed\<close>). To a live list it adds the item at the end the
  direction names and answers the new length, or it reports \<^verbatim>\<open>no memory\<close> and leaves the list as it was
  (\<open>pushed\<close>). A live entry of another type is refused. No other entry changes but those that are due.
\<close>

theorem push_correct:
  assumes "holds z s D" "\<not> held s" "push_value vtype str num = Some v" "found = map_of (swept s D) key"
    and "length key < 2 ^ 16" "lnode_header + length v < 2 ^ 31" "\<And>e. found = Some e \<Longrightarrow> length (e_items e) < 2 ^ 31 - 1"
  shows "\<exists>r s'. mps_shdict_push_helper z d key vtype str num s = Some (r, s')
    \<and> (if gone (time_nth s 1) found then listed z key (item_of vtype v) s (dict_del key (swept s D)) r s'
       else if list_type (the found)
       then pushed z d key (item_of vtype v) s (length (e_items (the found))) (dict_touch key (swept s D)) r s'
       else r = \<lparr>ps_rc = NGX_ERROR, ps_err = Some ''value not a list''\<rparr> \<and> \<not> held s' \<and> clock s' = clock s
         \<and> holds z s' (dict_touch key (swept s D)))"
proof (cases "gone (time_nth s 1) found")
  case True
  then have "\<And>e. map_of (swept s D) key = Some e \<Longrightarrow> expired (time_nth s 1) e" using assms(4) by (simp add: gone_def)
  from push_creates [OF assms(1-3) this assms(5,6), of d] True show ?thesis by simp
next
  case False
  then obtain e where e: "found = Some e" "\<not> expired (time_nth s 1) e" using gone_cases by blast
  show ?thesis
    unfolding e(1) option.sel if_not_P [OF False [unfolded e(1)]]
    using push_live [OF assms(1-3) e(1) [unfolded assms(4)] e(2) assms(6) assms(7) [OF e(1)], of d] .
qed

theorem push_correct_witness:
  "(\<exists>r s'. mps_shdict_lpush sample_sizes [120] MPS_SHDICT_TSTRING [1, 2] 0 sample = Some (r, s')
      \<and> listed sample_sizes [120] (item_of MPS_SHDICT_TSTRING [1, 2]) sample [([107], entry_k), ([108], entry_l)] r s')
   \<and> (\<exists>r s'. mps_shdict_rpush sample_sizes [108] MPS_SHDICT_TNUMBER [] 7 sample = Some (r, s')
      \<and> pushed sample_sizes MPS_SHDICT_RIGHT [108] (item_of MPS_SHDICT_TNUMBER (double_bytes 7)) sample 1
         [([108], entry_l), ([107], entry_k)] r s')"
proof -
  have l: "list_type entry_l" "length (e_items entry_l) = 1" by (simp_all add: list_type_def entry_l_def tags)
  show ?thesis
    unfolding mps_shdict_lpush_def mps_shdict_rpush_def
    using push_correct [OF sample_holds, of MPS_SHDICT_TSTRING "[1, 2]" 0 "[1, 2]" None "[120]" MPS_SHDICT_LEFT]
      push_correct [OF sample_holds, of MPS_SHDICT_TNUMBER "[]" 7 "double_bytes 7" "Some entry_l" "[108]" MPS_SHDICT_RIGHT] l
    by (simp add: push_value_def sample_swept sample_live gone_def offsets dict_touch_def dict_del_def tags)
qed

text \<open>
  C31. A pop returns, with the result and the dictionary that \<open>pop_spec\<close> gives: nil for a missing or
  expired key, an error for another type, else the item at the end the direction names, which is taken
  off, and the key with it if it was the last; an item that cannot be handed out stays.
\<close>

theorem pop_correct:
  assumes "holds z s D" "\<not> held s"
  shows "\<exists>s'. mps_shdict_pop_helper z d key buf_len malloc_ok s
      = Some (fst (pop_spec d key buf_len malloc_ok (time_nth s 1) (swept s D)), s')
    \<and> \<not> held s' \<and> clock s' = clock s \<and> holds z s' (snd (pop_spec d key buf_len malloc_ok (time_nth s 1) (swept s D)))"
  using pop_refines [OF assms] .

theorem pop_correct_witness:
  "\<exists>r s'. mps_shdict_lpop sample_sizes [108] 16 True sample = Some (r, s') \<and> pp_str r = Some [118]
     \<and> holds sample_sizes s' [([107], entry_k)]"
proof -
  have "list_type entry_l" "e_items entry_l = [(4, [118])]" by (simp_all add: list_type_def entry_l_def tags)
  then have "pop_spec MPS_SHDICT_LEFT [108] 16 True 3000 [([107], entry_k), ([108], entry_l)]
      = (item_result (4, [118]) 16 True, [([107], entry_k)])"
    by (simp add: pop_spec_def sample_live end_of_def item_result_def pop_fail_def tags dict_del_def)
  then show ?thesis
    unfolding mps_shdict_lpop_def
    using pop_correct [OF sample_holds, of MPS_SHDICT_LEFT "[108]" 16 True]
    by (auto simp: sample_swept item_result_def pop_fail_def tags)
qed

text \<open>
  C32. Push and pop at the same end of a live list that is not empty and has no expiry time: the push fails with
  \<^verbatim>\<open>no memory\<close>, or it answers the new length, and the pop answers the value pushed and leaves the list as it was
  before, provided that the caller's buffer has room for the value or \<^verbatim>\<open>malloc\<close> succeeds. The size of the item
  and the length of the list fit an \<^verbatim>\<open>int\<close>.
\<close>

theorem push_then_pop:
  assumes "holds z s D" "\<not> held s" "push_value vtype str num = Some v"
    and "map_of (swept s D) key = Some e" "e_expires e = 0" "list_type e"
    and "lnode_header + length v < 2 ^ 31" "length (e_items e) < 2 ^ 31 - 1" "e_items e \<noteq> []"
    and "length v \<le> buf_len \<or> malloc_ok"
  shows "\<exists>r s'. mps_shdict_push_helper z d key vtype str num s = Some (r, s')
    \<and> (r = no_memory \<or>
        r = \<lparr>ps_rc = int (length (e_items e)) + 1, ps_err = None\<rparr>
        \<and> (\<exists>s'' D''. mps_shdict_pop_helper z d key buf_len malloc_ok s'
              = Some (item_result (item_of vtype v) buf_len malloc_ok, s'')
            \<and> \<not> held s'' \<and> holds z s'' D'' \<and> map_of D'' key = Some e))"
  using push_pop_ok [OF assms] .

theorem push_then_pop_witness:
  "\<exists>r s'. mps_shdict_lpush sample_sizes [108] MPS_SHDICT_TSTRING [1, 2] 0 sample = Some (r, s')
     \<and> (r = no_memory \<or> ps_rc r = 2 \<and> (\<exists>r' s'' D''. mps_shdict_lpop sample_sizes [108] 16 True s' = Some (r', s'')
          \<and> pp_str r' = Some [1, 2] \<and> holds sample_sizes s'' D'' \<and> map_of D'' [108] = Some entry_l))"
proof -
  have "list_type entry_l" "length (e_items entry_l) = 1" "e_items entry_l \<noteq> []" "e_expires entry_l = 0"
    by (simp_all add: list_type_def entry_l_def tags)
  then show ?thesis
    unfolding mps_shdict_lpush_def mps_shdict_lpop_def
    using push_then_pop [OF sample_holds, of MPS_SHDICT_TSTRING "[1, 2]" 0 "[1, 2]" "[108]" entry_l 16 True MPS_SHDICT_LEFT]
    by (fastforce simp: push_value_def sample_swept offsets item_result_def item_of_def pop_fail_def tags)
qed

section \<open>Types\<close>

text \<open>
  C33. The types are sound: on a dictionary that only the library's calls have filled (\<open>dict_ok\<close>, which C1
  shows), get fails only for a list, for a string without memory for its copy or for a boolean with no
  buffer, and pop only for a value that is no list or for a string without memory. The messages for
  corrupted values never appear.
\<close>

theorem values_well_typed:
  assumes "holds z s D" "\<not> held s" "dict_ok K n D"
  shows "\<exists>r s' p s''. mps_shdict_get key buf_len get_stale malloc_ok s = Some (r, s')
    \<and> (gt_rc r = NGX_OK \<or> gt_err r = Some ''value is a list'' \<or> gt_type r = MPS_SHDICT_TSTRING \<and> \<not> malloc_ok
       \<or> gt_type r = MPS_SHDICT_TBOOLEAN \<and> buf_len = 0)
    \<and> mps_shdict_pop_helper z d key buf_len malloc_ok s = Some (p, s'')
    \<and> (pp_rc p = NGX_OK \<or> pp_err p = Some ''value not a list'' \<or> pp_err p = Some ''no memory'' \<and> \<not> malloc_ok)"
proof -
  let ?r = "get_spec buf_len get_stale malloc_ok (time_of s) (map_of D key)"
  let ?S = "swept s D"
  have "gt_rc ?r = NGX_OK \<or> gt_err ?r = Some ''value is a list'' \<or> gt_type ?r = MPS_SHDICT_TSTRING \<and> \<not> malloc_ok
       \<or> gt_type ?r = MPS_SHDICT_TBOOLEAN \<and> buf_len = 0"
  proof (cases "map_of D key")
    case (Some e)
    then have "entry_ok n e" using dict_ok_found [OF assms(3)] by blast
    with Some show ?thesis
      by (auto simp: get_spec_def get_fail_def Let_def entry_ok_def scalar_ok_def list_type_def tags split: if_splits)
  qed (simp add: get_spec_def get_fail_def)
  moreover have "pp_rc p = NGX_OK \<or> pp_err p = Some ''value not a list'' \<or> pp_err p = Some ''no memory'' \<and> \<not> malloc_ok"
    if "p = fst (pop_spec d key buf_len malloc_ok (time_nth s 1) ?S)" for p
  proof (cases "map_of ?S key")
    case None
    then show ?thesis by (simp add: that pop_spec_def pop_fail_def)
  next
    case (Some e)
    then have e: "entry_ok n e" using dict_ok_found [OF dict_ok_swept [OF assms(3)]] by blast
    have "item_ok (end_of d (e_items e))" if "list_type e"
      using e that end_rest(1) [of "e_items e" d] by (auto simp: entry_ok_def list_all_iff)
    then have "list_type e \<Longrightarrow> pp_rc (item_result (end_of d (e_items e)) buf_len malloc_ok) = NGX_OK
        \<or> pp_err (item_result (end_of d (e_items e)) buf_len malloc_ok) = Some ''no memory'' \<and> \<not> malloc_ok"
      by (auto simp: item_ok_def item_result_def pop_fail_def Let_def)
    then show ?thesis using Some e by (auto simp: that pop_spec_def pop_fail_def Let_def entry_ok_def)
  qed
  ultimately show ?thesis
    using get_refines [OF assms(1,2), of key buf_len get_stale malloc_ok] pop_refines [OF assms(1,2), of d key buf_len malloc_ok] by blast
qed

theorem values_well_typed_witness:
  "\<exists>r s' p s''. mps_shdict_get [107] 8 False True sample = Some (r, s')
     \<and> (gt_rc r = NGX_OK \<or> gt_err r = Some ''value is a list'')
     \<and> mps_shdict_lpop sample_sizes [107] 8 True sample = Some (p, s'')
     \<and> (pp_rc p = NGX_OK \<or> pp_err p = Some ''value not a list'')"
proof -
  from values_well_typed [OF sample_holds sample_dict_ok, where key = "[107]" and buf_len = 8 and get_stale = False
      and malloc_ok = True and d = MPS_SHDICT_LEFT]
  show ?thesis unfolding mps_shdict_lpop_def by auto
qed

section \<open>Pool files, the mutex, the table of dictionaries\<close>

text \<open>
  C34. \<^verbatim>\<open>mps_slab_open_or_create\<close> as the dictionary calls it, with every \<^verbatim>\<open>mmap\<close> succeeding: no descriptor stays
  open, whatever fails. With a result the pool is mapped, and is what a file that was there already
  shows, or holds the empty dictionary. If no call after the mapping fails there is one more mapping
  with a result, and none without.
\<close>

theorem open_or_create_pool:
  assumes "sizes_ok z" "3 \<le> k" "k < pagesize_shift z" "pages_off z k + 2 * (pagesize z + page_size) \<le> n" "n < 2 ^ 63"
    and "mps_slab_open_or_create os z pathname n k mode (Some (mps_shdict_on_init z)) w = Some (r, w')"
    and "errno_ok os" "mmap_works os"
  shows "fds (trace w') = fds (trace w)
    \<and> (\<forall>a. r = Some a \<longrightarrow> add_mset a (maps (trace w)) \<subseteq># maps (trace w')
        \<and> ((\<exists>t. mem w' a = contents os t) \<or> holds z (mem w' a) [] \<and> \<not> held (mem w' a)))
    \<and> (late_calls_work os \<longrightarrow> maps (trace w') = (case r of None \<Rightarrow> maps (trace w) | Some a \<Rightarrow> add_mset a (maps (trace w))))"
proof -
  note b = open_or_create_balance [OF assms(6-8)]
  have "(\<exists>t. mem w' a = contents os t) \<or> holds z (mem w' a) [] \<and> \<not> held (mem w' a)" if "r = Some a" for a
    using open_or_create_dict [OF assms(1-5) assms(6) [unfolded that] assms(7,8)] .
  then show ?thesis using b on_init_never_fails [OF assms(1-5)] by blast
qed

theorem open_or_create_pool_witness:
  "\<exists>w'. mps_slab_open_or_create sample_os sample_sizes sample_path 65536 3 384 (Some (mps_shdict_on_init sample_sizes)) sample_world
       = Some (Some 4096, w')
     \<and> fds (trace w') = {#} \<and> maps (trace w') = {#4096#}"
proof -
  from sample_create obtain w' where
    w: "mps_slab_open_or_create sample_os sample_sizes sample_path 65536 3 384 (Some (mps_shdict_on_init sample_sizes)) sample_world
       = Some (Some 4096, w')" by blast
  with open_or_create_pool [OF sample_fits w sample_os_ok(1,2)] sample_os_ok(3) show ?thesis by (auto simp: sample_world_def)
qed

text \<open>
  C35. The mutex: until it is not recoverable, the processes inside are exactly its holder, so at most
  one; and if no process dies, it never becomes so. A death of the holder, the next lock, by any process, and
  its unlock make it not recoverable. From then on every step leaves it so, and it protects nothing: whatever
  processes are inside, any finite set of others can come to be inside together with them.
\<close>

theorem mutual_exclusion:
  assumes "reach deaths s"
  shows "(mtx s \<noteq> NotRecoverable \<longrightarrow> inside s = holder (mtx s))
    \<and> (\<not> deaths \<longrightarrow> mtx s \<noteq> NotRecoverable)
    \<and> (deaths \<and> mtx s = Locked p \<longrightarrow> (\<forall>q. \<exists>s1 s2 s3. step deaths s s1 \<and> p \<notin> inside s1
        \<and> step deaths s1 s2 \<and> inside s2 = {q} \<and> step deaths s2 s3 \<and> inside s3 = {} \<and> mtx s3 = NotRecoverable))
    \<and> (deaths \<and> mtx s = Locked p \<longrightarrow> (\<forall>P. finite P \<longrightarrow> reach deaths \<lparr>mtx = NotRecoverable, inside = P\<rparr>))
    \<and> (mtx s = NotRecoverable \<longrightarrow> (\<forall>s'. step deaths s s' \<longrightarrow> mtx s' = NotRecoverable)
        \<and> (\<forall>P. finite P \<longrightarrow> reach deaths \<lparr>mtx = NotRecoverable, inside = inside s \<union> P\<rparr>))"
proof -
  have "\<exists>s1 s2 s3. step deaths s s1 \<and> p \<notin> inside s1 \<and> step deaths s1 s2 \<and> inside s2 = {q}
      \<and> step deaths s2 s3 \<and> inside s3 = {} \<and> mtx s3 = NotRecoverable"
    if "deaths" "mtx s = Locked p" for q
    using death_steps(1) [OF assms that] death_steps(2,3) [OF assms that, of q]
    by (intro exI [of _ "\<lparr>mtx = Orphaned, inside = {}\<rparr>"] exI [of _ "\<lparr>mtx = Inconsistent q, inside = {q}\<rparr>"]
        exI [of _ "\<lparr>mtx = NotRecoverable, inside = {}\<rparr>"]) simp
  moreover have "reach deaths \<lparr>mtx = NotRecoverable, inside = P\<rparr>" if "deaths" "mtx s = Locked p" "finite P" for P
    using not_recoverable_enter [OF death_unprotects [OF assms that(1,2)] _ that(3)] by simp
  moreover have "reach deaths \<lparr>mtx = NotRecoverable, inside = inside s \<union> P\<rparr>" if "mtx s = NotRecoverable" "finite P" for P
    by (rule not_recoverable_enter [OF assms that])
  ultimately show ?thesis
    using lock_inv_reach [OF assms] not_recoverable_step by (auto simp: lock_inv_def)
qed

theorem mutual_exclusion_witness:
  "reach True \<lparr>mtx = Locked 7, inside = {7}\<rparr> \<and> reach True \<lparr>mtx = NotRecoverable, inside = {1, 2, 3}\<rparr>
   \<and> \<not> step True \<lparr>mtx = NotRecoverable, inside = {1, 2, 3}\<rparr> \<lparr>mtx = Unlocked, inside = {}\<rparr>"
proof -
  have "step True \<lparr>mtx = Unlocked, inside = {}\<rparr> \<lparr>mtx = Locked 7, inside = {7}\<rparr>"
    using step.enter [of 7 "\<lparr>mtx = Unlocked, inside = {}\<rparr>" "Locked 7" True] by (simp add: slab_lock_def)
  then have l: "reach True \<lparr>mtx = Locked 7, inside = {7}\<rparr>" using reach.start reach.step by blast
  have "\<forall>P. finite P \<longrightarrow> reach True \<lparr>mtx = NotRecoverable, inside = P\<rparr>" using mutual_exclusion [OF l, of 7] by simp
  then have n: "reach True \<lparr>mtx = NotRecoverable, inside = {1, 2, 3}\<rparr>" by simp
  from l n mutual_exclusion [OF n] show ?thesis by force
qed

text \<open>
  C36. When no \<^verbatim>\<open>mmap\<close> fails (\<open>mmap_works\<close>) and failed calls set \<^verbatim>\<open>errno\<close> (\<open>errno_ok\<close>), a \<^verbatim>\<open>mps_shdict_open_or_create\<close> that returns keeps the table: one
  element per name, an array exactly if there are elements, every pool in it mapped, the lock released, and
  no descriptor left open. (After a failed \<^verbatim>\<open>mmap\<close> the descriptor can stay open.) For a name that is there it
  returns the handle of its element and does nothing else; for a new one with success it adds an element
  at the end, for a mapped pool, and returns its handle; with NULL the table is as it was (\<open>opened\<close>).
\<close>

theorem open_keeps_table:
  assumes "reg_inv g w" "errno_ok os" "mmap_works os" "realloc_to \<noteq> Some 0"
    and "mps_shdict_open_or_create os z strdup_ok realloc_to pathname n k mode g w = Some (r, g', w')"
  shows "reg_inv g' w' \<and> opened os z pathname n k r g g' w w' \<and> fds (trace w') = fds (trace w)
    \<and> maps (trace w) \<subseteq># maps (trace w')"
  using open_dict_ok [OF assms] .

theorem open_keeps_table_witness:
  "\<exists>g' w'. mps_shdict_open_or_create sample_os sample_sizes True (Some 64) sample_path 65536 3 384 no_dicts sample_world
       = Some (Some 64, g', w') \<and> reg_inv g' w' \<and> map sh_name (elems g') = [sample_path]"
proof -
  from sample_open obtain g' w' where
    w: "mps_shdict_open_or_create sample_os sample_sizes True (Some 64) sample_path 65536 3 384 no_dicts sample_world
       = Some (Some 64, g', w')" by blast
  have "Some 64 \<noteq> (Some 0 :: off option)" by simp
  from open_keeps_table [OF reg_inv_no_dicts sample_os_ok(1,2) this w] w show ?thesis
    by (auto simp: opened_def no_dicts_def)
qed

text \<open>
  C37. Opening a new name and closing its handle leaves the table, the open descriptors and the mappings
  as they were, provided that nothing fails after the mapping.
\<close>

theorem open_then_close:
  assumes "reg_inv g w" "once_works os" "errno_ok os" "mmap_works os" "late_calls_work os"
    and "sizes_ok z" "3 \<le> k" "k < pagesize_shift z" "pages_off z k + 2 * (pagesize z + page_size) \<le> n" "n < 2 ^ 63"
    and "pathname \<notin> sh_name ` set (elems g)" "realloc_to \<noteq> Some 0"
    and "mps_shdict_open_or_create os z strdup_ok realloc_to pathname n k mode g w = Some (Some h, g1, w1)"
    and "elems g \<noteq> [] \<Longrightarrow> \<exists>base > 0. realloc_to' = Some base"
  shows "\<exists>g2 w2. mps_shdict_close os realloc_to' h g1 w1 = Some (g2, w2) \<and> elems g2 = elems g
    \<and> fds (trace w2) = fds (trace w) \<and> maps (trace w2) = maps (trace w)"
  using open_close [OF assms] .

theorem open_then_close_witness:
  "\<exists>g1 w1 g2 w2. mps_shdict_open_or_create sample_os sample_sizes True (Some 64) sample_path 65536 3 384 no_dicts sample_world
       = Some (Some 64, g1, w1)
     \<and> mps_shdict_close sample_os None 64 g1 w1 = Some (g2, w2) \<and> elems g2 = [] \<and> maps (trace w2) = {#}"
proof -
  from sample_open obtain g1 w1 where
    w: "mps_shdict_open_or_create sample_os sample_sizes True (Some 64) sample_path 65536 3 384 no_dicts sample_world
       = Some (Some 64, g1, w1)" by blast
  have "sample_path \<notin> sh_name ` set (elems no_dicts)" "Some 64 \<noteq> (Some 0 :: off option)" "elems no_dicts = []" by (simp_all add: no_dicts_def)
  with open_then_close [OF reg_inv_no_dicts sample_os_ok(4,1-3) sample_fits this(1,2) w, of None] w show ?thesis
    by (auto simp: sample_world_def)
qed

text \<open>
  C38. Closing without memory: if \<^verbatim>\<open>realloc\<close> fails to shrink the array when its last element is closed, the
  element stays in the table although its pool is unmapped, and the next lookup of its name finds it.
\<close>

theorem close_leaves_stale:
  assumes "reg_inv g w" "once_works os" "1 < dicts_count g" "late_calls_work os"
  shows "\<exists>g' w'. mps_shdict_close os None (elem_at (dicts g) (dicts_count g - 1)) g w = Some (g', w')
    \<and> find_dict_by_pathname (sh_name (last (elems g))) g' = Some (elem_at (dicts g) (dicts_count g - 1))
    \<and> maps (trace w') = maps (trace w) - {#sh_pool (last (elems g))#}"
  using close_stays [OF assms] .

theorem close_leaves_stale_witness:
  "\<exists>g' w'. mps_shdict_close sample_os None 96 sample_table sample_mapped = Some (g', w')
     \<and> find_dict_by_pathname [98] g' = Some 96 \<and> maps (trace w') = {#4096#}"
  using close_leaves_stale [OF sample_table_ok(1) sample_os_ok(4) _ sample_os_ok(3)] sample_table_ok(2)
  by (simp add: sample_table_def elem_at_def sizeof_shdict_def sample_mapped_def)

section \<open>Logging\<close>



text \<open>
  C40. The nginx build tests the level with a bit mask instead of comparing it. At the levels up to
  \<^verbatim>\<open>info\<close> the errors are logged from level \<^verbatim>\<open>error\<close> on, as they should; but status messages from \<^verbatim>\<open>emerg\<close> on,
  more severe ones not always with them, and with the debug bits set (\<^verbatim>\<open>NGX_LOG_DEBUG_ALL\<close>) nothing at all. When \<^verbatim>\<open>vsnprintf\<close>
  succeeds, the bytes handed to nginx are the message if it is shorter than 2048 bytes, and the length handed
  over is that of the message in any case, more than the buffer has for a longer one.
\<close>

theorem nginx_levels:
  "(l \<le> NGX_LOG_INFO \<longrightarrow> (ngx_logs Error l \<longleftrightarrow> ngx_log_error Error l) \<and> (ngx_logs Status l \<longleftrightarrow> NGX_LOG_EMERG \<le> l))
    \<and> (\<exists>v w. v \<le> w \<and> ngx_logs v NGX_LOG_EMERG \<and> \<not> ngx_logs w NGX_LOG_EMERG)
    \<and> mps_log strerror Nginx NGX_LOG_DEBUG_ALL src tag v msg e1 e2 = Nothing
    \<and> (let c = mps_log_ngx_core lvl msg None in
        ngx_len c = int (length msg) \<and> (if length msg < NGX_MAX_ERROR_STR then ngx_buf c = msg else length (ngx_buf c) < length msg))"
proof -
  obtain func path line where src_eq: "src = (func, path, line)" by (cases src)
  have "l \<le> 7 \<longrightarrow> (ngx_logs Error l \<longleftrightarrow> 4 \<le> l) \<and> (ngx_logs Status l \<longleftrightarrow> 1 \<le> l)" using ngx_logs_levels by blast
  moreover have "mps_log strerror Nginx NGX_LOG_DEBUG_ALL src tag v msg e1 e2 = Nothing" by (simp add: src_eq debug_level_silent)
  ultimately show ?thesis
    using ngx_logs_not_mono ngx_core_len [of lvl msg]
    by (auto simp: ngx_log_error_def ngx_levels Let_def NGX_MAX_ERROR_STR_def mps_log_ngx_core_def vsnprintf_def)
qed

theorem nginx_levels_witness:
  "(ngx_logs Error 3 \<longleftrightarrow> ngx_log_error Error 3) \<and> mps_log (\<lambda>e. []) Nginx NGX_LOG_DEBUG_ALL ([], [], 0) [] Error [97] None None = Nothing
    \<and> ngx_buf (mps_log_ngx_core 4 [97] None) = [97]"
  using nginx_levels [of 3 "\<lambda>e. []" "([], [], 0)" "[]" Error "[97]" None None 4]
  by (simp add: ngx_levels NGX_MAX_ERROR_STR_def Let_def)

end
